(* ===== verification/Prelude.thy ===== *)
theory Prelude
  imports Main "HOL-Library.Char_ord" "HOL-Library.List_Lexorder"
begin

text \<open>
  Shared vocabulary of the development: the names of the model's base types, the
  collections of rewrite rules the component theories extend, and the generic lemmas on
  lists (as database tables) and on partial keys that several components use.
\<close>

section \<open>Base types\<close>

text \<open>
  PostgreSQL timestamps and intervals have microsecond resolution, so an instant is an
  \<open>int\<close> of microseconds and an interval is a difference of instants. Row identifiers are
  \<open>bigint\<close> columns, written \<open>int\<close>.
\<close>

type_synonym instant = int
type_synonym interval = int
type_synonym job_id = int

text \<open>
  \<open>row_simps\<close> holds what each SQL \<open>SET\<close> clause does to the columns an argument needs,
  \<open>where_simps\<close> the meaning of each \<open>WHERE\<close> clause, \<open>outcome_simps\<close> the evaluation of a
  handler on each branch.
\<close>

named_theorems row_simps
named_theorems where_simps
named_theorems outcome_simps

section \<open>Lists as tables\<close>

text \<open>
  A table is a list of rows in some physical order, which no statement relies on. A
  partial unique index is a partial key \<open>g\<close>: the rows with \<open>g r = Some k\<close> are the rows
  in the index, and the index is sound when their keys are distinct.
\<close>

definition index_ok :: "('r \<Rightarrow> 'k option) \<Rightarrow> 'r list \<Rightarrow> bool" where
  "index_ok g rows \<longleftrightarrow> distinct (List.map_filter g rows)"

lemma map_filter_append [simp]:
  "List.map_filter g (xs @ ys) = List.map_filter g xs @ List.map_filter g ys"
  by (simp add: List.map_filter_def)

lemma set_map_filter [simp]: "set (List.map_filter g xs) = {y. \<exists>x \<in> set xs. g x = Some y}"
  by (induction xs) (auto split: option.splits)

text \<open>
  An update that leaves every row's key alone or drops it cannot violate a unique index.
  Every statement of the platform that moves a job is of this kind.
\<close>

lemma index_ok_shrink:
  assumes "index_ok g rows"
    and "\<And>r. r \<in> set rows \<Longrightarrow> g (f r) = None \<or> g (f r) = g r"
  shows "index_ok g (map f rows)"
proof -
  have "distinct (List.map_filter g (map f rows)) \<and>
        set (List.map_filter g (map f rows)) \<subseteq> set (List.map_filter g rows)"
    using assms
  proof (induction rows)
    case Nil
    then show ?case by simp
  next
    case (Cons r rows)
    from Cons.prems(1) have "index_ok g rows"
      by (auto simp: index_ok_def split: option.splits)
    with Cons have IH: "distinct (List.map_filter g (map f rows))"
      "set (List.map_filter g (map f rows)) \<subseteq> set (List.map_filter g rows)"
      by auto
    have head: "g (f r) = None \<or> g (f r) = g r"
      using Cons.prems(2) by simp
    show ?case
    proof (cases "g r")
      case None
      with head IH show ?thesis by auto
    next
      case (Some k)
      have "k \<notin> set (List.map_filter g rows)"
        using Cons.prems(1) Some by (simp add: index_ok_def)
      with IH have "k \<notin> set (List.map_filter g (map f rows))"
        by blast
      with head IH Some show ?thesis
        by (cases "g (f r)") auto
    qed
  qed
  then show ?thesis by (simp add: index_ok_def)
qed

lemma index_ok_append1:
  "index_ok g (rows @ [r]) \<longleftrightarrow>
     index_ok g rows \<and> (\<forall>k. g r = Some k \<longrightarrow> (\<forall>x \<in> set rows. g x \<noteq> Some k))"
  by (auto simp: index_ok_def split: option.splits)

lemma index_ok_filter: "index_ok g rows \<Longrightarrow> index_ok g (filter p rows)"
proof (induction rows)
  case (Cons r rows)
  then show ?case by (auto simp: index_ok_def split: option.splits)
qed (simp add: index_ok_def)

text \<open>A total key: the primary key of a table.\<close>

definition find_row :: "('r \<Rightarrow> 'k) \<Rightarrow> 'k \<Rightarrow> 'r list \<Rightarrow> 'r option" where
  "find_row key k rows = List.find (\<lambda>r. key r = k) rows"

lemma find_row_Nil [simp]: "find_row key k [] = None"
  by (simp add: find_row_def)

lemma find_row_Cons [simp]:
  "find_row key k (r # rows) = (if key r = k then Some r else find_row key k rows)"
  by (simp add: find_row_def)

lemma find_row_Some:
  "distinct (map key rows) \<Longrightarrow> find_row key k rows = Some r \<longleftrightarrow> r \<in> set rows \<and> key r = k"
  by (induction rows) (auto simp: rev_image_eqI)

lemma find_row_SomeD: "find_row key k rows = Some r \<Longrightarrow> r \<in> set rows \<and> key r = k"
  by (induction rows) (auto split: if_splits)

lemma find_row_None: "find_row key k rows = None \<longleftrightarrow> k \<notin> key ` set rows"
  by (induction rows) auto

lemma find_row_append:
  "find_row key k (xs @ ys) =
     (case find_row key k xs of None \<Rightarrow> find_row key k ys | Some r \<Rightarrow> Some r)"
  by (induction xs) auto

text \<open>An update that keeps the key maps the row the key finds.\<close>

lemma find_row_map:
  "(\<And>r. r \<in> set rows \<Longrightarrow> key (f r) = key r) \<Longrightarrow>
   find_row key k (map f rows) = map_option f (find_row key k rows)"
  by (induction rows) auto

lemma find_row_filter:
  assumes "distinct (map key rows)"
  shows "find_row key k (filter p rows) =
     (case find_row key k rows of None \<Rightarrow> None | Some r \<Rightarrow> if p r then Some r else None)"
proof (cases "find_row key k rows")
  case None
  then have "k \<notin> key ` set (filter p rows)"
    by (auto simp: find_row_None)
  with None show ?thesis by (simp add: find_row_None [THEN iffD2])
next
  case (Some r)
  have uniq: "x = r" if "x \<in> set rows" "key x = k" for x
    using assms Some that by (metis find_row_Some option.inject)
  have d: "distinct (map key (filter p rows))"
    using assms by (induction rows) auto
  show ?thesis
  proof (cases "p r")
    case True
    with Some d show ?thesis
      using find_row_SomeD [OF Some] by (simp add: find_row_Some)
  next
    case False
    with uniq have "k \<notin> key ` set (filter p rows)" by auto
    with Some False show ?thesis by (simp add: find_row_None [THEN iffD2])
  qed
qed

text \<open>A predicate that pins the key selects one row.\<close>

lemma filter_one_row:
  assumes "distinct (map key rows)" "j \<in> set rows" "p j"
    and "\<And>r. r \<in> set rows \<Longrightarrow> p r \<Longrightarrow> key r = key j"
  shows "filter p rows = [j]"
  using assms
proof (induction rows)
  case (Cons r rows)
  show ?case
  proof (cases "r = j")
    case True
    have "\<not> p x" if x: "x \<in> set rows" for x
    proof
      assume "p x"
      then have "key x = key r" using Cons.prems(4) True x by simp
      then have "key r \<in> key ` set rows" using x by (metis imageI)
      then show False using Cons.prems(1) by simp
    qed
    with True Cons.prems(3) show ?thesis by (simp add: filter_empty_conv)
  next
    case False
    with Cons.prems have "j \<in> set rows" by simp
    moreover from this have "key r \<noteq> key j" using Cons.prems(1) by auto
    moreover have "\<not> p r" using Cons.prems(4) [of r] calculation(2) by auto
    ultimately show ?thesis
      using Cons.IH [OF _ _ Cons.prems(3)] Cons.prems(1,4) by simp
  qed
qed simp

text \<open>Changing one row changes a count by that row's contribution.\<close>

lemma length_filter_upd_one:
  assumes "distinct (map key rows)" "j \<in> set rows"
  shows "length (filter q (map (\<lambda>r. if key r = key j then f r else r) rows))
       + (if q j then 1 else 0)
       = length (filter q rows) + (if q (f j) then 1 else 0)"
  using assms
proof (induction rows)
  case (Cons r rows)
  show ?case
  proof (cases "r = j")
    case True
    then have "map (\<lambda>r. if key r = key j then f r else r) rows = rows"
      using Cons.prems(1) by (intro map_idI) (auto simp: image_iff)
    with True show ?thesis by simp
  next
    case False
    with Cons.prems have j: "j \<in> set rows" by simp
    then have "key r \<noteq> key j" using Cons.prems(1) by (auto simp: image_iff)
    with Cons.IH Cons.prems(1) j show ?thesis by simp
  qed
qed simp

text \<open>The least element a stable sort puts first, as \<open>ORDER BY ... LIMIT 1\<close> returns it.\<close>

lemma hd_sort_key_least:
  "xs \<noteq> [] \<Longrightarrow> hd (sort_key f xs) \<in> set xs \<and> (\<forall>x \<in> set xs. f (hd (sort_key f xs)) \<le> f x)"
proof -
  assume "xs \<noteq> []"
  then obtain y ys where sk: "sort_key f xs = y # ys"
    by (metis list.exhaust length_0_conv length_sort)
  have "sorted (map f (y # ys))"
    by (metis sk sorted_sort_key)
  moreover have "set (y # ys) = set xs"
    by (metis sk set_sort)
  ultimately show ?thesis using sk by auto
qed

section \<open>Sums as results\<close>

text \<open>A Python call that may raise: the error is the left summand.\<close>

fun bind_sum :: "'e + 'a \<Rightarrow> ('a \<Rightarrow> 'e + 'b) \<Rightarrow> 'e + 'b" where
  "bind_sum (Inl e) f = Inl e"
| "bind_sum (Inr x) f = f x"

lemma bind_sum_Inr_iff: "bind_sum m f = Inr y \<longleftrightarrow> (\<exists>x. m = Inr x \<and> f x = Inr y)"
  by (cases m) auto

lemma bind_sum_Inl_iff:
  "bind_sum m f = Inl e \<longleftrightarrow> m = Inl e \<or> (\<exists>x. m = Inr x \<and> f x = Inl e)"
  by (cases m) auto

fun first_error :: "('a \<Rightarrow> 'e option) \<Rightarrow> 'a list \<Rightarrow> 'e option" where
  "first_error f [] = None"
| "first_error f (x # xs) = (case f x of None \<Rightarrow> first_error f xs | Some e \<Rightarrow> Some e)"

lemma first_error_None: "first_error f xs = None \<longleftrightarrow> (\<forall>x \<in> set xs. f x = None)"
  by (induction xs) (auto split: option.splits)

lemma first_error_SomeD: "first_error f xs = Some e \<Longrightarrow> \<exists>x \<in> set xs. f x = Some e"
  by (induction xs) (auto split: option.splits)

section \<open>Names in an error message\<close>

text \<open>\<open>sorted(names)\<close> of a Python set or dict.\<close>

definition py_sorted :: "string list \<Rightarrow> string list" where
  "py_sorted xs = sort (remdups xs)"

lemma set_py_sorted [simp]: "set (py_sorted xs) = set xs"
  by (simp add: py_sorted_def)

lemma py_sorted_Nil [simp]: "py_sorted xs = [] \<longleftrightarrow> xs = []"
  by (metis set_empty set_py_sorted)

end
