(* ===== verification/Lifecycle.thy ===== *)
theory Lifecycle
  imports Prelude
begin

text \<open>
  The job lifecycle as \<open>pyjobby/lifecycle.py\<close> declares it: the states, the named groups of
  states the SQL guards are written with, and the table of legal transitions. The states
  are a datatype (the \<open>jorbstate\<close> enum, \<open>db.JobState\<close>); the transition table is over the
  labels, as in the source, because it also has the pseudo-state \<open>enqueued\<close> that
  \<open>jorb_history\<close> starts every audit trail with.
\<close>

section \<open>States\<close>

datatype jorbstate = Queued | Claimed | Running | Waiting | Finished | Crashed | Cancelled

fun state_label :: "jorbstate \<Rightarrow> string" where
  "state_label Queued = ''queued''"
| "state_label Claimed = ''claimed''"
| "state_label Running = ''running''"
| "state_label Waiting = ''waiting''"
| "state_label Finished = ''finished''"
| "state_label Crashed = ''crashed''"
| "state_label Cancelled = ''cancelled''"

definition JOB_STATES :: "jorbstate list" where
  "JOB_STATES = [Queued, Claimed, Running, Waiting, Finished, Crashed, Cancelled]"

definition TERMINAL_STATES :: "jorbstate list" where
  "TERMINAL_STATES = [Finished, Crashed, Cancelled]"

definition LIVE_STATES :: "jorbstate list" where
  "LIVE_STATES = filter (\<lambda>s. s \<notin> set TERMINAL_STATES) JOB_STATES"

definition IN_FLIGHT_STATES :: "jorbstate list" where
  "IN_FLIGHT_STATES = [Claimed, Running]"

definition PRE_CLAIM_STATES :: "jorbstate list" where
  "PRE_CLAIM_STATES = [Queued, Waiting]"

text \<open>The \<open>enum\<close> instance makes quantifiers over the states computable.\<close>

instantiation jorbstate :: enum
begin

definition enum_jorbstate :: "jorbstate list" where
  "enum_jorbstate = JOB_STATES"

definition enum_all_jorbstate :: "(jorbstate \<Rightarrow> bool) \<Rightarrow> bool" where
  "enum_all_jorbstate P \<longleftrightarrow> list_all P JOB_STATES"

definition enum_ex_jorbstate :: "(jorbstate \<Rightarrow> bool) \<Rightarrow> bool" where
  "enum_ex_jorbstate P \<longleftrightarrow> list_ex P JOB_STATES"

instance
proof
  show "(UNIV :: jorbstate set) = set Enum.enum"
    by (auto simp: enum_jorbstate_def JOB_STATES_def intro: jorbstate.exhaust)
  show "distinct (Enum.enum :: jorbstate list)"
    by (simp add: enum_jorbstate_def JOB_STATES_def)
  show "Enum.enum_all P \<longleftrightarrow> Ball UNIV P" for P :: "jorbstate \<Rightarrow> bool"
    by (auto simp: enum_all_jorbstate_def JOB_STATES_def) (metis jorbstate.exhaust)
  show "Enum.enum_ex P \<longleftrightarrow> Bex UNIV P" for P :: "jorbstate \<Rightarrow> bool"
    by (auto simp: enum_ex_jorbstate_def JOB_STATES_def) (metis jorbstate.exhaust)
qed

end

lemma in_JOB_STATES [simp]: "s \<in> set JOB_STATES"
  by (cases s) (simp_all add: JOB_STATES_def)

lemma in_TERMINAL_STATES [simp]:
  "s \<in> set TERMINAL_STATES \<longleftrightarrow> s = Finished \<or> s = Crashed \<or> s = Cancelled"
  by (auto simp: TERMINAL_STATES_def)

lemma in_IN_FLIGHT_STATES [simp]: "s \<in> set IN_FLIGHT_STATES \<longleftrightarrow> s = Claimed \<or> s = Running"
  by (auto simp: IN_FLIGHT_STATES_def)

lemma in_PRE_CLAIM_STATES [simp]: "s \<in> set PRE_CLAIM_STATES \<longleftrightarrow> s = Queued \<or> s = Waiting"
  by (auto simp: PRE_CLAIM_STATES_def)

lemma in_LIVE_STATES [simp]:
  "s \<in> set LIVE_STATES \<longleftrightarrow> s = Queued \<or> s = Claimed \<or> s = Running \<or> s = Waiting"
  by (cases s) (auto simp: LIVE_STATES_def)

lemma state_label_inj: "state_label s = state_label t \<longleftrightarrow> s = t"
  by (cases s; cases t) simp_all

section \<open>Transitions\<close>

definition HISTORY_ORIGIN :: string where
  "HISTORY_ORIGIN = ''enqueued''"

definition LEGAL_TRANSITIONS :: "(string \<times> string list) list" where
  "LEGAL_TRANSITIONS =
     [(HISTORY_ORIGIN, [''queued'', ''waiting'', ''claimed'', ''running'']),
      (''waiting'', [''queued'', ''cancelled'']),
      (''queued'', [''claimed'', ''cancelled'']),
      (''claimed'',
        [''running'', ''queued'', ''waiting'', ''cancelled'', ''crashed'', ''finished'']),
      (''running'',
        [''finished'', ''crashed'', ''cancelled'', ''queued'', ''waiting'', ''running'']),
      (''finished'', [''queued'', ''waiting'']),
      (''crashed'', [''queued'', ''waiting'']),
      (''cancelled'', [''queued'', ''waiting''])]"

definition is_legal :: "string \<Rightarrow> string \<Rightarrow> bool" where
  "is_legal source target =
     (case map_of LEGAL_TRANSITIONS source of
        None \<Rightarrow> False
      | Some targets \<Rightarrow> target \<in> set targets)"

definition illegal_transitions :: "(string \<times> string) set" where
  "illegal_transitions =
     set [(state_label source, state_label target).
            source \<leftarrow> JOB_STATES, target \<leftarrow> JOB_STATES,
            source \<noteq> target \<and> \<not> is_legal (state_label source) (state_label target)]"

text \<open>The table over the datatype, which the statements' proofs use.\<close>

abbreviation legal :: "jorbstate \<Rightarrow> jorbstate \<Rightarrow> bool" where
  "legal s t \<equiv> is_legal (state_label s) (state_label t)"

lemma legal_table [simp]:
  "legal Waiting t \<longleftrightarrow> t = Queued \<or> t = Cancelled"
  "legal Queued t \<longleftrightarrow> t = Claimed \<or> t = Cancelled"
  "legal Claimed t \<longleftrightarrow> t \<noteq> Claimed"
  "legal Running t \<longleftrightarrow> t \<noteq> Claimed"
  "legal Finished t \<longleftrightarrow> t = Queued \<or> t = Waiting"
  "legal Crashed t \<longleftrightarrow> t = Queued \<or> t = Waiting"
  "legal Cancelled t \<longleftrightarrow> t = Queued \<or> t = Waiting"
  by (cases t; simp add: is_legal_def LEGAL_TRANSITIONS_def HISTORY_ORIGIN_def)+

lemma legal_origin [simp]:
  "is_legal HISTORY_ORIGIN (state_label t) \<longleftrightarrow>
     t = Queued \<or> t = Waiting \<or> t = Claimed \<or> t = Running"
  by (cases t) (simp_all add: is_legal_def LEGAL_TRANSITIONS_def HISTORY_ORIGIN_def)

text \<open>
  From here on a label stands for its state: the table above decides every pair, so the
  labels themselves are not unfolded.
\<close>

declare state_label.simps [simp del]

text \<open>A walk over an audit trail: every step from the one before is in the table.\<close>

fun legal_walk :: "string \<Rightarrow> string list \<Rightarrow> bool" where
  "legal_walk s [] = True"
| "legal_walk s (t # ts) = (is_legal s t \<and> legal_walk t ts)"

lemma legal_walk_append:
  "legal_walk s (ts @ us) \<longleftrightarrow> legal_walk s ts \<and> legal_walk (last (s # ts)) us"
  by (induction ts arbitrary: s) auto

lemma is_legal_from_state:
  "is_legal s (state_label t) \<Longrightarrow> s = HISTORY_ORIGIN \<or> (\<exists>u. s = state_label u)"
proof -
  assume "is_legal s (state_label t)"
  then have "s \<in> fst ` set LEGAL_TRANSITIONS"
    by (auto simp: is_legal_def split: option.splits dest: map_of_SomeD intro: rev_image_eqI)
  then show ?thesis
    by (auto simp: LEGAL_TRANSITIONS_def) (metis state_label.simps)+
qed

text \<open>
  The groups the SQL guards are built from partition the lifecycle, and the table is
  the machine its comments describe: a job enters \<open>running\<close> only from \<open>claimed\<close> (or by the
  idempotent self-edge), is claimed only out of \<open>queued\<close>, leaves a terminal state only
  back into \<open>queued\<close> or \<open>waiting\<close>, and every state can still reach a terminal one.
\<close>

theorem lifecycle_shape:
  "set JOB_STATES = set LIVE_STATES \<union> set TERMINAL_STATES
   \<and> set LIVE_STATES \<inter> set TERMINAL_STATES = {}
   \<and> set LIVE_STATES = set PRE_CLAIM_STATES \<union> set IN_FLIGHT_STATES
   \<and> {s. legal s Running} = {Claimed, Running}
   \<and> {s. legal s Claimed} = {Queued}
   \<and> {(s, t). s \<in> set TERMINAL_STATES \<and> legal s t} = set TERMINAL_STATES \<times> set PRE_CLAIM_STATES
   \<and> (\<forall>s. \<exists>u t. t \<in> set TERMINAL_STATES \<and> (legal s t \<or> legal s u \<and> legal u t))"
proof (intro conjI)
  show "{s. legal s Running} = {Claimed, Running}"
    by (rule set_eqI, rename_tac s, case_tac s) simp_all
  show "{s. legal s Claimed} = {Queued}"
    by (rule set_eqI, rename_tac s, case_tac s) simp_all
  show "{(s, t). s \<in> set TERMINAL_STATES \<and> legal s t} = set TERMINAL_STATES \<times> set PRE_CLAIM_STATES"
    by auto
  show "\<forall>s. \<exists>u t. t \<in> set TERMINAL_STATES \<and> (legal s t \<or> legal s u \<and> legal u t)"
  proof
    fix s
    have "legal s Cancelled \<or> legal s Queued \<and> legal Queued Cancelled"
      by (cases s) simp_all
    then show "\<exists>u t. t \<in> set TERMINAL_STATES \<and> (legal s t \<or> legal s u \<and> legal u t)"
      by (metis in_TERMINAL_STATES)
  qed
qed (auto simp: JOB_STATES_def LIVE_STATES_def TERMINAL_STATES_def PRE_CLAIM_STATES_def
      IN_FLIGHT_STATES_def)

text \<open>The forbidden pairs are exactly the complement of the declaration.\<close>

lemma illegal_transitions_iff:
  "(state_label s, state_label t) \<in> illegal_transitions \<longleftrightarrow> s \<noteq> t \<and> \<not> legal s t"
proof -
  have eq: "illegal_transitions =
        {(state_label s, state_label t) | s t. s \<noteq> t \<and> \<not> legal s t}"
    by (force simp: illegal_transitions_def)
  show ?thesis unfolding eq by (auto simp: state_label_inj simp del: legal_table)
qed

end
