(* ===== verification/Rows.thy ===== *)
theory Rows
  imports Lifecycle
begin

text \<open>
  The database as data: one record per table of \<open>pyjobby/sql/schema/\<close>, with the columns
  the modelled code reads or writes, and the JSON payloads carried in them. The tables the
  job code sees as dictionaries (\<open>job["kwargs"]\<close>, \<open>row["output"]\<close>) are these records.
\<close>

section \<open>JSON values\<close>

text \<open>
  Payloads (kwargs, results, step outputs, events, messages) are opaque to the platform
  but for two shapes it builds itself: the wake time of a durable sleep and the published
  state of a machine. \<open>JStamp t\<close> is the JSON string \<open>t.isoformat()\<close>, which
  \<open>datetime.fromisoformat\<close> reads back as \<open>t\<close>.
\<close>

datatype json =
    JNull
  | JBool bool
  | JInt int
  | JStr string
  | JStamp int
  | JArr "json list"
  | JObj "(string \<times> json) list"

text \<open>\<open>isinstance(v, dict) and k in v\<close>, and then \<open>v[k]\<close>.\<close>

fun json_get :: "json \<Rightarrow> string \<Rightarrow> json option" where
  "json_get (JObj kvs) k = map_of kvs k"
| "json_get _ k = None"

section \<open>jorb.admin\_data\<close>

text \<open>\<open>{**d, key: v}\<close>\<close>

fun dict_put :: "string \<Rightarrow> json \<Rightarrow> (string \<times> json) list \<Rightarrow> (string \<times> json) list" where
  "dict_put k v [] = [(k, v)]"
| "dict_put k v ((k', v') # kvs) = (if k' = k then (k, v) # kvs else (k', v') # dict_put k v kvs)"

text \<open>\<open>{**old, **new}\<close>\<close>

definition dict_merge :: "(string \<times> json) list \<Rightarrow> (string \<times> json) list \<Rightarrow> (string \<times> json) list" where
  "dict_merge old new = foldl (\<lambda>d (k, v). dict_put k v d) old new"

lemma map_of_dict_put [simp]: "map_of (dict_put k v d) = (map_of d)(k \<mapsto> v)"
  by (induction k v d rule: dict_put.induct) auto

text \<open>
  The execution policy a job carries: each field is an optional key of the JSON object
  (\<open>None\<close> is an absent key), with the type \<open>JobClient.build_enqueue_row\<close> writes it with.
\<close>

record admin_data =
  ad_max_retries :: "int option"
  ad_retry_strategy :: "string option"
  ad_initial_retry_delay :: "int option"
  ad_max_retry_delay :: "int option"
  ad_timeout_seconds :: "int option"
  ad_on_timeout :: "string option"
  ad_save_result :: "bool option"
  ad_use_result_from :: "int option"
  ad_fork :: "(int \<times> int) option"  \<comment> \<open>the fork block: from\_step, steps\_copied\<close>

definition no_admin_data :: admin_data where
  "no_admin_data =
     \<lparr>ad_max_retries = None, ad_retry_strategy = None, ad_initial_retry_delay = None,
      ad_max_retry_delay = None, ad_timeout_seconds = None, ad_on_timeout = None,
      ad_save_result = None, ad_use_result_from = None, ad_fork = None\<rparr>"

section \<open>jorb\<close>

record jorb =
  j_id :: job_id
  j_queue :: string
  j_capability :: "string option"
  j_app_version :: "string option"
  j_prio :: int
  j_state :: jorbstate
  j_job_class :: string
  j_kwargs :: "(string \<times> json) list"
  j_admin_data :: admin_data
  j_result :: "json option"
  j_uid :: "int option"
  j_tags :: "(string \<times> json) list"
  j_run_group :: "int option"
  j_waitfor_group :: "int option"
  j_waitfor_job :: "job_id option"
  j_dag_id :: "int option"
  j_deadline_key :: "string option"
  j_identity_key :: "string option"
  j_debounce_key :: "string option"
  j_debounce_deadline :: "instant option"
  j_partition_key :: "string option"
  j_schedule_id :: "int option"
  j_forked_from :: "job_id option"
  j_run_count :: int
  j_error_count :: int
  j_error_message :: "string option"
  j_error_backtrace :: "string option"
  j_run_epoch :: int
  j_cancel_requested :: bool
  j_awaited :: bool
  j_claimed_by :: "int option"
  j_worker_pid :: "int option"
  j_worker_host :: "string option"
  j_created :: instant
  j_updated :: instant
  j_run_after :: instant
  j_claimed_at :: "instant option"
  j_started :: "instant option"
  j_finished :: "instant option"
  j_timeout_at :: "instant option"

text \<open>A row whose statement names no column: the \<open>DEFAULT\<close>s of the table.\<close>

definition default_jorb :: "instant \<Rightarrow> job_id \<Rightarrow> jorb" where
  "default_jorb now i =
     \<lparr>j_id = i, j_queue = ''default'', j_capability = None, j_app_version = None, j_prio = 100,
      j_state = Queued, j_job_class = [], j_kwargs = [], j_admin_data = no_admin_data,
      j_result = None, j_uid = None, j_tags = [], j_run_group = None, j_waitfor_group = None,
      j_waitfor_job = None, j_dag_id = None, j_deadline_key = None, j_identity_key = None,
      j_debounce_key = None, j_debounce_deadline = None, j_partition_key = None,
      j_schedule_id = None, j_forked_from = None, j_run_count = 0, j_error_count = 0,
      j_error_message = None, j_error_backtrace = None, j_run_epoch = 0,
      j_cancel_requested = False, j_awaited = False, j_claimed_by = None, j_worker_pid = None,
      j_worker_host = None, j_created = now, j_updated = now, j_run_after = now,
      j_claimed_at = None, j_started = None, j_finished = None, j_timeout_at = None\<rparr>"

lemma default_jorb_simps [simp]:
  "j_id (default_jorb now i) = i" "j_state (default_jorb now i) = Queued"
  "j_queue (default_jorb now i) = ''default''" "j_prio (default_jorb now i) = 100"
  "j_deadline_key (default_jorb now i) = None" "j_identity_key (default_jorb now i) = None"
  "j_debounce_key (default_jorb now i) = None" "j_run_count (default_jorb now i) = 0"
  "j_run_epoch (default_jorb now i) = 0" "j_waitfor_job (default_jorb now i) = None"
  "j_waitfor_group (default_jorb now i) = None" "j_run_after (default_jorb now i) = now"
  "j_cancel_requested (default_jorb now i) = False" "j_capability (default_jorb now i) = None"
  "j_app_version (default_jorb now i) = None" "j_partition_key (default_jorb now i) = None"
  "j_error_count (default_jorb now i) = 0" "j_awaited (default_jorb now i) = False"
  "j_run_group (default_jorb now i) = None" "j_admin_data (default_jorb now i) = no_admin_data"
  "j_finished (default_jorb now i) = None" "j_claimed_at (default_jorb now i) = None"
  by (simp_all add: default_jorb_def)

section \<open>The other tables\<close>

text \<open>\<open>jorb_step\<close>: one checkpoint per (job, sequence number).\<close>

record step_row =
  s_job_id :: job_id
  s_seq :: int
  s_name :: string
  s_output :: json
  s_error :: "string option"
  s_run_epoch :: int
  s_started :: instant
  s_finished :: instant

record event_row =
  e_job_id :: job_id
  e_key :: string
  e_value :: json
  e_updated :: instant

record mail_row =
  m_id :: int
  m_dest_job_id :: job_id
  m_topic :: "string option"
  m_message :: json
  m_consumed_at :: "instant option"

record stream_row =
  st_job_id :: job_id
  st_key :: string
  st_seq :: int
  st_value :: json
  st_closed :: bool
  st_run_epoch :: int

record queue_row =
  q_name :: string
  q_paused :: bool
  q_max_concurrency :: "int option"
  q_rate_limit :: "int option"
  q_rate_period :: interval
  q_partition_limits :: bool

text \<open>
  \<open>jorb_history\<close>: the trigger's record of an insert (\<open>h_from = None\<close>, event \<open>enqueued\<close>,
  with the state the row was inserted in) or of a change of state.
\<close>

record history_row =
  h_job_id :: job_id
  h_from :: "jorbstate option"
  h_to :: jorbstate

text \<open>
  The application's own tables, which \<open>Job.transaction()\<close> lets job code write on the
  worker's connection: an append-only log of the writes.
\<close>

record database =
  jobs :: "jorb list"
  steps :: "step_row list"
  events :: "event_row list"
  mailbox :: "mail_row list"
  streams :: "stream_row list"
  queues :: "queue_row list"
  history :: "history_row list"
  app_writes :: "json list"
  next_job_id :: job_id
  next_mail_id :: int

definition lookup_job :: "database \<Rightarrow> job_id \<Rightarrow> jorb option" where
  "lookup_job d i = find_row j_id i (jobs d)"

text \<open>The schema just created: no rows.\<close>

definition empty_db :: database where
  "empty_db = \<lparr>jobs = [], steps = [], events = [], mailbox = [], streams = [], queues = [],
     history = [], app_writes = [], next_job_id = 1, next_mail_id = 1\<rparr>"

end
