(* ===== verification/Store.thy ===== *)
theory Store
  imports Rows
begin

text \<open>
  How a statement reaches the tables: an \<open>UPDATE\<close> of \<open>jorb\<close> with its \<open>WHERE\<close> and \<open>SET\<close>
  as functions, an \<open>INSERT\<close>, the unique indexes of \<open>sql/schema/10_jobs.sql\<close> that can
  refuse either, and the trigger of \<open>sql/schema/92_history_trigger.sql\<close> that records every
  change of state. A statement is atomic; its failure leaves the database as it was.
\<close>

section \<open>Constraints\<close>

datatype sql_error = UniqueViolation | ForeignKeyViolation

text \<open>
  The three partial unique indexes over the dedupe keys: \<open>jorb_deadline_idx\<close>,
  \<open>jorb_identity_idx\<close> and \<open>jorb_debounce_idx\<close>.
\<close>

definition deadline_idx :: "jorb \<Rightarrow> (string \<times> string) option" where
  "deadline_idx j =
     (if j_state j = Queued then map_option (\<lambda>k. (k, j_queue j)) (j_deadline_key j) else None)"

definition identity_idx :: "jorb \<Rightarrow> string option" where
  "identity_idx j = j_identity_key j"

definition debounce_idx :: "jorb \<Rightarrow> string option" where
  "debounce_idx j =
     (if j_state j = Queued \<and> j_run_count j = 0 then j_debounce_key j else None)"

definition unique_ok :: "jorb list \<Rightarrow> bool" where
  "unique_ok rows \<longleftrightarrow>
     distinct (map j_id rows) \<and> index_ok deadline_idx rows \<and> index_ok identity_idx rows
     \<and> index_ok debounce_idx rows"

section \<open>Statements\<close>

text \<open>\<open>record_jorb_history\<close>, on update: a row only where the state really changed.\<close>

definition history_of_update :: "jorb \<Rightarrow> jorb \<Rightarrow> history_row list" where
  "history_of_update old new =
     (if j_state old = j_state new then []
      else [\<lparr>h_job_id = j_id new, h_from = Some (j_state old), h_to = j_state new\<rparr>])"

text \<open>
  \<open>UPDATE jorb SET f WHERE p RETURNING *\<close>: the rows it changed, as they became, and the
  new database.
\<close>

definition update_jobs ::
  "(jorb \<Rightarrow> bool) \<Rightarrow> (jorb \<Rightarrow> jorb) \<Rightarrow> database \<Rightarrow> sql_error + (jorb list \<times> database)" where
  "update_jobs p f d =
     (let rows = map (\<lambda>j. if p j then f j else j) (jobs d);
          hit = filter p (jobs d)
      in if unique_ok rows
         then Inr (map f hit,
                   d\<lparr>jobs := rows,
                     history := history d @ concat (map (\<lambda>j. history_of_update j (f j)) hit)\<rparr>)
         else Inl UniqueViolation)"

text \<open>\<open>INSERT INTO jorb ... RETURNING id\<close>, with the identity column's next value.\<close>

definition insert_job :: "(job_id \<Rightarrow> jorb) \<Rightarrow> database \<Rightarrow> sql_error + (jorb \<times> database)" where
  "insert_job mk d =
     (let j = (mk (next_job_id d))\<lparr>j_id := next_job_id d\<rparr>
      in if unique_ok (jobs d @ [j])
         then Inr (j, d\<lparr>jobs := jobs d @ [j], next_job_id := next_job_id d + 1,
                        history := history d @ [\<lparr>h_job_id = j_id j, h_from = None,
                                                 h_to = j_state j\<rparr>]\<rparr>)
         else Inl UniqueViolation)"

text \<open>The event column of \<open>jorb_history\<close>.\<close>

definition history_event :: "history_row \<Rightarrow> string" where
  "history_event h = (case h_from h of None \<Rightarrow> HISTORY_ORIGIN | Some _ \<Rightarrow> state_label (h_to h))"

definition event_trail :: "database \<Rightarrow> job_id \<Rightarrow> string list" where
  "event_trail d i = map history_event (filter (\<lambda>h. h_job_id h = i) (history d))"

text \<open>The states a job has been in, the one it was inserted in first.\<close>

definition state_trail :: "database \<Rightarrow> job_id \<Rightarrow> jorbstate list" where
  "state_trail d i = map h_to (filter (\<lambda>h. h_job_id h = i) (history d))"

text \<open>The step log of a job.\<close>

definition job_steps :: "database \<Rightarrow> job_id \<Rightarrow> step_row list" where
  "job_steps d i = filter (\<lambda>s. s_job_id s = i) (steps d)"

section \<open>The invariant of the job table\<close>

text \<open>
  A row is well formed when a blocked job holds no debounce key (the enqueue path refuses
  the combination) and the counters have not gone negative; the table is sound when the
  unique indexes hold, ids are below the sequence, and every job's trail is a legal walk
  that ends in the state the row is in.
\<close>

definition job_wf :: "jorb \<Rightarrow> bool" where
  "job_wf j \<longleftrightarrow>
     (j_state j = Waiting \<longrightarrow> j_debounce_key j = None) \<and> 0 \<le> j_run_count j \<and> 0 \<le> j_run_epoch j
     \<and> (j_state j \<in> {Claimed, Running} \<longrightarrow> 1 \<le> j_run_count j)"

fun state_walk :: "jorbstate list \<Rightarrow> bool" where
  "state_walk (s # t # ts) = (legal s t \<and> s \<noteq> t \<and> state_walk (t # ts))"
| "state_walk _ = True"

definition trail_ok :: "database \<Rightarrow> jorb \<Rightarrow> bool" where
  "trail_ok d j \<longleftrightarrow>
     (let t = state_trail d (j_id j)
      in t \<noteq> [] \<and> hd t \<in> set PRE_CLAIM_STATES \<and> state_walk t \<and> last t = j_state j)"

definition jobs_ok :: "database \<Rightarrow> bool" where
  "jobs_ok d \<longleftrightarrow>
     unique_ok (jobs d) \<and> (\<forall>j \<in> set (jobs d). job_wf j \<and> j_id j < next_job_id d \<and> trail_ok d j)
     \<and> (\<forall>h \<in> set (history d). h_job_id h < next_job_id d)"

lemma state_walk_append1:
  "state_walk (ts @ [t]) \<longleftrightarrow>
     state_walk ts \<and> (ts \<noteq> [] \<longrightarrow> legal (last ts) t \<and> last ts \<noteq> t)"
  by (induction ts rule: state_walk.induct) auto

text \<open>The trail a statement appends to, job by job.\<close>

lemma history_of_update_id: "h \<in> set (history_of_update a b) \<Longrightarrow> h_job_id h = j_id b"
  by (auto simp: history_of_update_def split: if_splits)

lemma filter_history_absent:
  assumes "i \<notin> j_id ` set rows" and "\<And>j. p j \<Longrightarrow> j_id (f j) = j_id j"
  shows "filter (\<lambda>h. h_job_id h = i)
           (concat (map (\<lambda>j. history_of_update j (f j)) (filter p rows))) = []"
  using assms by (auto simp: filter_empty_conv dest!: history_of_update_id)

lemma filter_history_update:
  assumes "distinct (map j_id rows)" and "\<And>j. p j \<Longrightarrow> j_id (f j) = j_id j"
  shows "filter (\<lambda>h. h_job_id h = i)
           (concat (map (\<lambda>j. history_of_update j (f j)) (filter p rows)))
         = (case find_row j_id i rows of
              None \<Rightarrow> []
            | Some j \<Rightarrow> if p j then history_of_update j (f j) else [])"
  using assms
proof (induction rows)
  case (Cons r rows)
  show ?case
  proof (cases "j_id r = i")
    case True
    then have "i \<notin> j_id ` set rows" using Cons.prems by auto
    then have rest: "filter (\<lambda>h. h_job_id h = i)
        (concat (map (\<lambda>j. history_of_update j (f j)) (filter p rows))) = []"
      by (rule filter_history_absent) (rule Cons.prems(2))
    have "filter (\<lambda>h. h_job_id h = i) (history_of_update r (f r)) = history_of_update r (f r)"
      if "p r"
      using that True Cons.prems(2)
      by (auto simp: filter_id_conv dest!: history_of_update_id)
    with True rest show ?thesis by auto
  next
    case False
    then have "filter (\<lambda>h. h_job_id h = i) (history_of_update r (f r)) = []" if "p r"
      using that Cons.prems(2) by (auto simp: filter_empty_conv dest!: history_of_update_id)
    with False Cons show ?thesis by auto
  qed
qed simp

lemma find_row_job: "distinct (map j_id rows) \<Longrightarrow> j \<in> set rows \<Longrightarrow> find_row j_id (j_id j) rows = Some j"
  by (simp add: find_row_Some)

lemma lookup_job_SomeD: "lookup_job d i = Some j \<Longrightarrow> j \<in> set (jobs d) \<and> j_id j = i"
  by (auto simp: lookup_job_def dest: find_row_SomeD)

lemma jobs_ok_distinct: "jobs_ok d \<Longrightarrow> distinct (map j_id (jobs d))"
  by (simp add: jobs_ok_def unique_ok_def)

text \<open>A statement over one id touches the one row, or none.\<close>

lemma filter_id_rows:
  assumes "jobs_ok d" and "\<And>j. p j \<Longrightarrow> j_id j = i"
  shows "filter p (jobs d) =
    (case lookup_job d i of None \<Rightarrow> [] | Some j \<Rightarrow> if p j then [j] else [])"
proof (cases "\<exists>j \<in> set (jobs d). p j")
  case True
  then obtain j where j: "j \<in> set (jobs d)" "p j" by blast
  have "filter p (jobs d) = [j]"
    using assms(2) j(2)
    by (intro filter_one_row [where key = j_id] jobs_ok_distinct assms j) auto
  moreover have "lookup_job d i = Some j"
    using j assms by (simp add: lookup_job_def find_row_Some jobs_ok_distinct)
  ultimately show ?thesis using j by simp
next
  case False
  then have "filter p (jobs d) = []" by (simp add: filter_empty_conv)
  then show ?thesis
    using False by (auto split: option.splits dest: lookup_job_SomeD)
qed

section \<open>Contract of an update\<close>

text \<open>
  What a statement promises of the rows it touches, and what every such statement then
  keeps. \<open>p\<close> is the \<open>WHERE\<close> clause, \<open>f\<close> the \<open>SET\<close> clause.
\<close>

locale job_update =
  fixes p :: "jorb \<Rightarrow> bool" and f :: "jorb \<Rightarrow> jorb"
  assumes id_kept: "p j \<Longrightarrow> j_id (f j) = j_id j"
    and moves_legally:
      "p j \<Longrightarrow> j_state (f j) \<noteq> j_state j \<Longrightarrow> legal (j_state j) (j_state (f j))"
    and wf_kept: "p j \<Longrightarrow> job_wf j \<Longrightarrow> job_wf (f j)"
    and deadline_shrinks:
      "p j \<Longrightarrow> job_wf j \<Longrightarrow> deadline_idx (f j) = None \<or> deadline_idx (f j) = deadline_idx j"
    and identity_shrinks:
      "p j \<Longrightarrow> identity_idx (f j) = None \<or> identity_idx (f j) = identity_idx j"
    and debounce_shrinks:
      "p j \<Longrightarrow> job_wf j \<Longrightarrow> debounce_idx (f j) = None \<or> debounce_idx (f j) = debounce_idx j"
    and epoch_grows: "p j \<Longrightarrow> j_run_epoch j \<le> j_run_epoch (f j)"
    and attempt_ends_fenced:
      "p j \<Longrightarrow> j_state j \<in> {Claimed, Running} \<Longrightarrow> j_state (f j) \<notin> {Claimed, Running}
         \<Longrightarrow> j_run_epoch j < j_run_epoch (f j)"
    and attempt_starts_fenced:
      "p j \<Longrightarrow> j_state j \<notin> {Claimed, Running} \<Longrightarrow> j_state (f j) \<in> {Claimed, Running}
         \<Longrightarrow> j_run_epoch j < j_run_epoch (f j)"
    and demand_kept: "p j \<Longrightarrow> j_awaited j \<Longrightarrow> j_awaited (f j)"
begin

abbreviation upd :: "jorb \<Rightarrow> jorb" where
  "upd j \<equiv> if p j then f j else j"

lemma upd_id: "j_id (upd j) = j_id j"
  by (simp add: id_kept)

text \<open>An update of this kind is never refused by a unique index.\<close>

lemma upd_unique:
  assumes "unique_ok rows" and "\<forall>j \<in> set rows. job_wf j"
  shows "unique_ok (map upd rows)"
proof -
  have ids: "map j_id (map upd rows) = map j_id rows"
    by (simp add: id_kept)
  have keys: "index_ok deadline_idx rows" "index_ok identity_idx rows" "index_ok debounce_idx rows"
    using assms by (simp_all add: unique_ok_def)
  have "index_ok deadline_idx (map upd rows)"
    by (rule index_ok_shrink [OF keys(1)]) (use assms deadline_shrinks in auto)
  moreover have "index_ok identity_idx (map upd rows)"
    by (rule index_ok_shrink [OF keys(2)]) (use assms identity_shrinks in auto)
  moreover have "index_ok debounce_idx (map upd rows)"
    by (rule index_ok_shrink [OF keys(3)]) (use assms debounce_shrinks in auto)
  ultimately show ?thesis
    using assms ids by (simp add: unique_ok_def del: map_map)
qed

text \<open>So on a sound table it always succeeds, and this is the database it leaves.\<close>

definition after :: "database \<Rightarrow> database" where
  "after d = d\<lparr>jobs := map upd (jobs d),
     history := history d @ concat (map (\<lambda>j. history_of_update j (f j)) (filter p (jobs d)))\<rparr>"

lemma runs: "jobs_ok d \<Longrightarrow> update_jobs p f d = Inr (map f (filter p (jobs d)), after d)"
  using upd_unique [of "jobs d"] by (simp add: update_jobs_def jobs_ok_def after_def Let_def)

lemma after_simps [simp]:
  "steps (after d) = steps d" "events (after d) = events d" "mailbox (after d) = mailbox d"
  "streams (after d) = streams d" "queues (after d) = queues d"
  "app_writes (after d) = app_writes d" "next_job_id (after d) = next_job_id d"
  "next_mail_id (after d) = next_mail_id d" "jobs (after d) = map upd (jobs d)"
  by (simp_all add: after_def)

lemma after_lookup: "lookup_job (after d) i = map_option upd (lookup_job d i)"
  by (simp add: lookup_job_def find_row_map upd_id)

lemma after_lookup_other:
  "(\<And>j. p j \<Longrightarrow> j_id j \<noteq> m) \<Longrightarrow> lookup_job (after d) m = lookup_job d m"
  by (cases "lookup_job d m") (auto simp: after_lookup dest: lookup_job_SomeD)

lemma after_trail:
  assumes "distinct (map j_id (jobs d))"
  shows "state_trail (after d) i = state_trail d i @
     (case lookup_job d i of
        None \<Rightarrow> []
      | Some j \<Rightarrow> if p j \<and> j_state (f j) \<noteq> j_state j then [j_state (f j)] else [])"
  using filter_history_update [OF assms, of p f i] id_kept
  by (auto simp: after_def state_trail_def lookup_job_def history_of_update_def
      split: option.splits)

text \<open>Soundness of the table survives: indexes, well-formedness and the legality of every trail.\<close>

lemma after_ok:
  assumes "jobs_ok d"
  shows "jobs_ok (after d)"
proof -
  have uniq: "unique_ok (jobs d)" and wf: "\<forall>j \<in> set (jobs d). job_wf j"
    and dist: "distinct (map j_id (jobs d))"
    using assms by (auto simp: jobs_ok_def unique_ok_def)
  have "job_wf (upd j) \<and> j_id (upd j) < next_job_id d \<and> trail_ok (after d) (upd j)"
    if j: "j \<in> set (jobs d)" for j
  proof -
    have ok: "job_wf j" "j_id j < next_job_id d" "trail_ok d j"
      using assms j by (auto simp: jobs_ok_def)
    have "lookup_job d (j_id j) = Some j"
      using dist j by (simp add: lookup_job_def find_row_job)
    then have trail: "state_trail (after d) (j_id j) = state_trail d (j_id j) @
        (if p j \<and> j_state (f j) \<noteq> j_state j then [j_state (f j)] else [])"
      using after_trail [OF dist, of "j_id j"] by simp
    have "trail_ok (after d) (upd j)"
      using ok(3) moves_legally [of j]
      by (auto simp: trail_ok_def trail id_kept Let_def state_walk_append1 hd_append
          simp del: legal_table)
    with ok wf_kept show ?thesis by (simp add: upd_id)
  qed
  then have "job_wf k \<and> j_id k < next_job_id d \<and> trail_ok (after d) k"
    if "k \<in> set (map upd (jobs d))" for k
    using that by (metis (no_types, lifting) imageE set_map)
  moreover have "\<forall>h \<in> set (history (after d)). h_job_id h < next_job_id d"
    using assms by (auto simp: after_def jobs_ok_def id_kept dest!: history_of_update_id)
  ultimately show ?thesis
    using upd_unique [OF uniq wf] by (simp only: jobs_ok_def after_simps) blast
qed

lemma keeps_ok: "jobs_ok d \<Longrightarrow> update_jobs p f d = Inr (rs, d') \<Longrightarrow> jobs_ok d'"
  using after_ok by (auto simp: runs)

lemma never_refused: "jobs_ok d \<Longrightarrow> \<exists>rs d'. update_jobs p f d = Inr (rs, d')"
  by (simp add: runs)

end

text \<open>
  Two refinements of the contract. A cancellation request is only ever dropped by the
  operator's requeue; and the worker's own statements apply to one row, at one epoch.
\<close>

locale cancel_keeping = job_update +
  assumes cancel_kept: "p j \<Longrightarrow> j_cancel_requested j \<Longrightarrow> j_cancel_requested (f j)"
begin

lemma request_survives:
  "lookup_job d i = Some j \<Longrightarrow> j_cancel_requested j
   \<Longrightarrow> \<exists>k. lookup_job (after d) i = Some k \<and> j_cancel_requested k"
  by (auto simp: after_lookup cancel_kept)

end

text \<open>No attempt at this epoch is in flight on the job's row.\<close>

definition settled :: "database \<Rightarrow> job_id \<Rightarrow> int \<Rightarrow> bool" where
  "settled d i e \<longleftrightarrow>
     (\<forall>j. lookup_job d i = Some j \<longrightarrow> \<not> (j_state j \<in> {Claimed, Running} \<and> j_run_epoch j = e))"

locale attempt_update = cancel_keeping p f for p f +
  fixes i :: job_id and e :: int
  assumes fence:
    "p j \<longleftrightarrow> j_id j = i \<and> j_state j \<in> {Claimed, Running} \<and> j_run_epoch j = e"
begin

text \<open>An attempt whose row has moved on writes nothing at all.\<close>

lemma missed:
  assumes "jobs_ok d" and "settled d i e"
  shows "update_jobs p f d = Inr ([], d)"
proof -
  have dist: "distinct (map j_id (jobs d))"
    using assms(1) by (simp add: jobs_ok_def unique_ok_def)
  have none: "\<not> p j" if "j \<in> set (jobs d)" for j
    using that assms(2) find_row_job [OF dist that] by (auto simp: fence lookup_job_def settled_def)
  then have "filter p (jobs d) = []" and "map upd (jobs d) = jobs d"
    by (auto simp: filter_empty_conv map_idI)
  then show ?thesis
    using runs [OF assms(1)] by (simp add: after_def)
qed

lemma superseded:
  assumes "jobs_ok d" and "\<And>j. lookup_job d i = Some j \<Longrightarrow> j_run_epoch j \<noteq> e"
  shows "update_jobs p f d = Inr ([], d)"
  by (rule missed [OF assms(1)]) (use assms(2) in \<open>auto simp: settled_def\<close>)

text \<open>And the live attempt's statement hits exactly its own row.\<close>

lemma live:
  assumes "jobs_ok d" and "lookup_job d i = Some j" and "p j"
  shows "update_jobs p f d = Inr ([f j], after d)" and "lookup_job (after d) i = Some (f j)"
proof -
  have dist: "distinct (map j_id (jobs d))"
    using assms(1) by (simp add: jobs_ok_def unique_ok_def)
  have j: "j \<in> set (jobs d)" "j_id j = i"
    using assms(2) by (auto simp: lookup_job_def dest: find_row_SomeD)
  have "filter p (jobs d) = [j]"
    using assms(3) by (intro filter_one_row [where key = j_id] dist j(1)) (simp_all add: fence j(2))
  then show "update_jobs p f d = Inr ([f j], after d)"
    using runs [OF assms(1)] by simp
  show "lookup_job (after d) i = Some (f j)"
    using assms by (simp add: after_lookup)
qed

end

text \<open>
  A statement that ends the attempt moves the row past the attempt's epoch, so no later
  statement of that attempt finds it.
\<close>

locale attempt_ending = attempt_update +
  assumes moves_past: "p j \<Longrightarrow> j_run_epoch (f j) = e + 1"
begin

lemma settles:
  assumes "jobs_ok d" and "update_jobs p f d = Inr (rs, d')"
  shows "jobs_ok d' \<and> settled d' i e"
proof -
  have d': "d' = after d" using assms runs by simp
  have "\<not> (j_state k \<in> {Claimed, Running} \<and> j_run_epoch k = e)"
    if after: "lookup_job (after d) i = Some k" for k
  proof -
    from after obtain j where j: "lookup_job d i = Some j" "k = upd j"
      by (auto simp: after_lookup)
    then have "j_id j = i" by (auto dest: lookup_job_SomeD)
    with j(2) moves_past [of j] show ?thesis by (auto simp: fence split: if_splits)
  qed
  then show ?thesis using after_ok [OF assms(1)] by (simp add: d' settled_def)
qed

end

text \<open>Inserting a fresh row: what the enqueue statements and the fork share.\<close>

lemma insert_job_ok:
  assumes ok: "jobs_ok d" and ins: "insert_job mk d = Inr (j, d')"
    and wf: "job_wf j" and fresh: "j_state j \<in> set PRE_CLAIM_STATES"
  shows "jobs_ok d'"
proof -
  from ins have j: "j = (mk (next_job_id d))\<lparr>j_id := next_job_id d\<rparr>"
    and uniq: "unique_ok (jobs d @ [j])"
    and d': "d' = d\<lparr>jobs := jobs d @ [j], next_job_id := next_job_id d + 1,
      history := history d @ [\<lparr>h_job_id = j_id j, h_from = None, h_to = j_state j\<rparr>]\<rparr>"
    by (auto simp: insert_job_def Let_def split: if_splits)
  have old: "state_trail d' (j_id k) = state_trail d (j_id k)" if "k \<in> set (jobs d)" for k
    using ok that by (auto simp: d' j state_trail_def jobs_ok_def)
  have none: "state_trail d (next_job_id d) = []"
    using ok by (auto simp: state_trail_def jobs_ok_def filter_empty_conv)
  then have new: "state_trail d' (j_id j) = [j_state j]"
    by (simp add: d' j state_trail_def)
  have "trail_ok d' j"
    using fresh by (simp add: trail_ok_def new Let_def)
  moreover have "trail_ok d' k" if "k \<in> set (jobs d)" for k
    using ok that by (simp add: trail_ok_def old jobs_ok_def)
  ultimately show ?thesis
    using ok uniq wf by (auto simp: jobs_ok_def d') (auto simp: j)
qed

text \<open>A database holding given rows, each with the trail of states it has been through.\<close>

definition seed_db :: "(jorb \<times> jorbstate list) list \<Rightarrow> database" where
  "seed_db rows = empty_db\<lparr>
     jobs := map fst rows,
     next_job_id := 1 + fold max (map (\<lambda>(j, ts). j_id j) rows) 0,
     history := concat (map (\<lambda>(j, ts).
       map2 (\<lambda>f t. \<lparr>h_job_id = j_id j, h_from = f, h_to = t\<rparr>) (None # map Some ts) ts) rows)\<rparr>"

lemmas seed_simps =
  seed_db_def jobs_ok_def unique_ok_def index_ok_def deadline_idx_def identity_idx_def
  debounce_idx_def job_wf_def trail_ok_def state_trail_def lookup_job_def empty_db_def

end
