(* ===== verification/JobSql.thy ===== *)
theory JobSql
  imports Store
begin

text \<open>
  The statements that move a job: the worker's prepared statements (\<open>STMTS\<close> of
  \<open>pyjobby/pj.py\<close>) and the shared verbs of \<open>pyjobby/db.py\<close>. For each, the \<open>WHERE\<close> clause,
  the \<open>SET\<close> clause and the statement itself; each interprets the contract \<open>job_update\<close>.
  \<open>now\<close> is the transaction's \<open>now()\<close>; a \<open>SKIP LOCKED\<close> clause reads the set of rows other
  transactions hold.
\<close>

section \<open>One attempt: run, then one of five endings\<close>

text \<open>The guard the worker's statements share: the row is in flight, at this epoch.\<close>

definition fenced :: "job_id \<Rightarrow> int \<Rightarrow> jorb \<Rightarrow> bool" where
  "fenced i epoch j \<longleftrightarrow>
     j_id j = i \<and> j_state j \<in> set IN_FLIGHT_STATES \<and> j_run_epoch j = epoch"

definition run_set :: "instant \<Rightarrow> interval option \<Rightarrow> jorb \<Rightarrow> jorb" where
  "run_set now timeout j = j\<lparr>
     j_state := Running,
     j_started := Some now,
     j_timeout_at := map_option (\<lambda>t. now + t) timeout,
     j_updated := now\<rparr>"

definition stmt_run ::
  "instant \<Rightarrow> job_id \<Rightarrow> int \<Rightarrow> interval option \<Rightarrow> database
     \<Rightarrow> sql_error + (jorb list \<times> database)" where
  "stmt_run now i epoch timeout = update_jobs (fenced i epoch) (run_set now timeout)"

definition finished_set :: "instant \<Rightarrow> json option \<Rightarrow> jorb \<Rightarrow> jorb" where
  "finished_set now result j = j\<lparr>
     j_state := Finished,
     j_result := result,
     j_run_epoch := j_run_epoch j + 1,
     j_finished := Some now,
     j_timeout_at := None,
     j_updated := now\<rparr>"

definition stmt_finished ::
  "instant \<Rightarrow> job_id \<Rightarrow> json option \<Rightarrow> int \<Rightarrow> database
     \<Rightarrow> sql_error + (jorb list \<times> database)" where
  "stmt_finished now i result epoch = update_jobs (fenced i epoch) (finished_set now result)"

text \<open>\<open>db.REQUEUE_CLEARS_KEYS\<close> and \<open>db.WAKE_CLEARS_KEYS\<close>.\<close>

definition REQUEUE_CLEARS_KEYS :: "jorb \<Rightarrow> jorb" where
  "REQUEUE_CLEARS_KEYS j = j\<lparr>
     j_deadline_key := None,
     j_debounce_key := None,
     j_debounce_deadline := None\<rparr>"

definition WAKE_CLEARS_KEYS :: "jorb \<Rightarrow> jorb" where
  "WAKE_CLEARS_KEYS j = j\<lparr>j_deadline_key := None\<rparr>"

definition retry_set ::
  "instant \<Rightarrow> interval \<Rightarrow> string option \<Rightarrow> string option \<Rightarrow> jorb \<Rightarrow> jorb" where
  "retry_set now delay message backtrace j = REQUEUE_CLEARS_KEYS (j\<lparr>
     j_state := Queued,
     j_run_epoch := j_run_epoch j + 1,
     j_run_after := now + delay,
     j_error_message := message,
     j_error_backtrace := backtrace,
     j_error_count := j_error_count j + 1,
     j_timeout_at := None,
     j_updated := now\<rparr>)"

definition stmt_retry ::
  "instant \<Rightarrow> job_id \<Rightarrow> interval \<Rightarrow> string option \<Rightarrow> string option \<Rightarrow> int \<Rightarrow> database
     \<Rightarrow> sql_error + (jorb list \<times> database)" where
  "stmt_retry now i delay message backtrace epoch =
     update_jobs (fenced i epoch) (retry_set now delay message backtrace)"

definition crashed_set :: "instant \<Rightarrow> string option \<Rightarrow> string option \<Rightarrow> jorb \<Rightarrow> jorb" where
  "crashed_set now message backtrace j = j\<lparr>
     j_state := Crashed,
     j_error_message := message,
     j_error_backtrace := backtrace,
     j_error_count := j_error_count j + 1,
     j_run_epoch := j_run_epoch j + 1,
     j_finished := Some now,
     j_timeout_at := None,
     j_updated := now\<rparr>"

definition stmt_crashed ::
  "instant \<Rightarrow> job_id \<Rightarrow> string option \<Rightarrow> string option \<Rightarrow> int \<Rightarrow> database
     \<Rightarrow> sql_error + (jorb list \<times> database)" where
  "stmt_crashed now i message backtrace epoch =
     update_jobs (fenced i epoch) (crashed_set now message backtrace)"

definition cancelled_set :: "instant \<Rightarrow> jorb \<Rightarrow> jorb" where
  "cancelled_set now j = j\<lparr>
     j_state := Cancelled,
     j_run_epoch := j_run_epoch j + 1,
     j_finished := Some now,
     j_timeout_at := None,
     j_updated := now\<rparr>"

definition stmt_cancelled ::
  "instant \<Rightarrow> job_id \<Rightarrow> int \<Rightarrow> database \<Rightarrow> sql_error + (jorb list \<times> database)" where
  "stmt_cancelled now i epoch = update_jobs (fenced i epoch) (cancelled_set now)"

definition reschedule_set :: "instant \<Rightarrow> interval \<Rightarrow> jorb \<Rightarrow> jorb" where
  "reschedule_set now delay j = REQUEUE_CLEARS_KEYS (j\<lparr>
     j_state := Queued,
     j_run_epoch := j_run_epoch j + 1,
     j_run_after := now + delay,
     j_updated := now\<rparr>)"

definition stmt_reschedule ::
  "instant \<Rightarrow> job_id \<Rightarrow> interval \<Rightarrow> int \<Rightarrow> database \<Rightarrow> sql_error + (jorb list \<times> database)" where
  "stmt_reschedule now i delay epoch = update_jobs (fenced i epoch) (reschedule_set now delay)"

section \<open>Waking the waiters\<close>

definition wake_set :: "instant \<Rightarrow> jorb \<Rightarrow> jorb" where
  "wake_set now j = WAKE_CLEARS_KEYS (j\<lparr>j_state := Queued, j_updated := now\<rparr>)"

text \<open>\<open>enqueue-next-if-peer-group-is-finished\<close>\<close>

definition group_unfinished :: "jorb list \<Rightarrow> int \<Rightarrow> bool" where
  "group_unfinished rows g \<longleftrightarrow>
     list_ex (\<lambda>r. j_run_group r = Some g \<and> j_state r \<noteq> Finished) rows"

definition wake_group_where :: "jorb list \<Rightarrow> job_id set \<Rightarrow> int \<Rightarrow> jorb \<Rightarrow> bool" where
  "wake_group_where rows locked g j \<longleftrightarrow>
     j_waitfor_group j = Some g \<and> j_state j = Waiting \<and> \<not> group_unfinished rows g
     \<and> j_id j \<notin> locked"

definition stmt_wake_group ::
  "instant \<Rightarrow> job_id set \<Rightarrow> int \<Rightarrow> database \<Rightarrow> sql_error + (jorb list \<times> database)" where
  "stmt_wake_group now locked g d =
     update_jobs (wake_group_where (jobs d) locked g) (wake_set now) d"

text \<open>\<open>enqueue-next-self-finished\<close>\<close>

definition wake_job_where :: "jorb list \<Rightarrow> job_id set \<Rightarrow> job_id \<Rightarrow> jorb \<Rightarrow> bool" where
  "wake_job_where rows locked i j \<longleftrightarrow>
     j_waitfor_job j = Some i \<and> j_state j = Waiting
     \<and> list_ex (\<lambda>u. j_id u = i \<and> j_state u = Finished) rows
     \<and> j_id j \<notin> locked"

definition stmt_wake_job ::
  "instant \<Rightarrow> job_id set \<Rightarrow> job_id \<Rightarrow> database \<Rightarrow> sql_error + (jorb list \<times> database)" where
  "stmt_wake_job now locked i d =
     update_jobs (wake_job_where (jobs d) locked i) (wake_set now) d"

section \<open>Operator verbs\<close>

definition RETRYABLE_STATES :: "jorbstate list" where
  "RETRYABLE_STATES = [Crashed, Cancelled]"

definition RERUNNABLE_STATES :: "jorbstate list" where
  "RERUNNABLE_STATES = [Crashed, Cancelled, Finished]"

text \<open>
  \<open>db.build_requeue_sql\<close>: the target state is a \<open>CASE\<close>, so that a row with a dependency
  goes back to waiting for it.
\<close>

definition requeue_where :: "jorbstate list \<Rightarrow> job_id list \<Rightarrow> jorb \<Rightarrow> bool" where
  "requeue_where allowed ids j \<longleftrightarrow> j_id j \<in> set ids \<and> j_state j \<in> set allowed"

definition requeue_set :: "instant \<Rightarrow> interval \<Rightarrow> bool \<Rightarrow> jorb \<Rightarrow> jorb" where
  "requeue_set now delay reset_errors j = REQUEUE_CLEARS_KEYS (j\<lparr>
     j_state := (if j_waitfor_job j \<noteq> None \<or> j_waitfor_group j \<noteq> None
                 then Waiting else Queued),
     j_run_epoch := j_run_epoch j + 1,
     j_run_after := now + delay,
     j_error_count := (if reset_errors then 0 else j_error_count j),
     j_error_message := (if reset_errors then None else j_error_message j),
     j_error_backtrace := (if reset_errors then None else j_error_backtrace j),
     j_result := None,
     j_finished := None,
     j_timeout_at := None,
     j_cancel_requested := False,
     j_updated := now\<rparr>)"

definition stmt_requeue ::
  "jorbstate list \<Rightarrow> instant \<Rightarrow> job_id list \<Rightarrow> interval \<Rightarrow> bool \<Rightarrow> database
     \<Rightarrow> sql_error + (jorb list \<times> database)" where
  "stmt_requeue allowed now ids delay reset_errors =
     update_jobs (requeue_where allowed ids) (requeue_set now delay reset_errors)"

text \<open>\<open>UPDATE_PRIORITY_SQL\<close> and \<open>UPDATE_APP_VERSION_SQL\<close>, each over a list of ids.\<close>

definition pre_claim_where :: "job_id list \<Rightarrow> jorb \<Rightarrow> bool" where
  "pre_claim_where ids j \<longleftrightarrow> j_id j \<in> set ids \<and> j_state j \<in> set PRE_CLAIM_STATES"

definition priority_set :: "int \<Rightarrow> jorb \<Rightarrow> jorb" where
  "priority_set prio j = j\<lparr>j_prio := prio\<rparr>"

definition stmt_update_priority ::
  "job_id list \<Rightarrow> int \<Rightarrow> database \<Rightarrow> sql_error + (jorb list \<times> database)" where
  "stmt_update_priority ids prio = update_jobs (pre_claim_where ids) (priority_set prio)"

definition app_version_set :: "string option \<Rightarrow> jorb \<Rightarrow> jorb" where
  "app_version_set version j = j\<lparr>j_app_version := version\<rparr>"

definition stmt_update_app_version ::
  "job_id \<Rightarrow> string option \<Rightarrow> database \<Rightarrow> sql_error + (jorb list \<times> database)" where
  "stmt_update_app_version i version = update_jobs (pre_claim_where [i]) (app_version_set version)"

text \<open>\<open>CANCEL_SQL\<close>: immediate before the claim, a request after it.\<close>

definition cancel_where :: "job_id list \<Rightarrow> jorb \<Rightarrow> bool" where
  "cancel_where ids j \<longleftrightarrow> j_id j \<in> set ids \<and> j_state j \<in> set LIVE_STATES"

definition cancel_set :: "instant \<Rightarrow> jorb \<Rightarrow> jorb" where
  "cancel_set now j = j\<lparr>
     j_state := (if j_state j \<in> set PRE_CLAIM_STATES then Cancelled else j_state j),
     j_cancel_requested :=
       (if j_state j \<in> set IN_FLIGHT_STATES then True else j_cancel_requested j),
     j_finished := (if j_state j \<in> set PRE_CLAIM_STATES then Some now else j_finished j),
     j_updated := now\<rparr>"

definition stmt_cancel ::
  "instant \<Rightarrow> job_id list \<Rightarrow> database \<Rightarrow> sql_error + (jorb list \<times> database)" where
  "stmt_cancel now ids = update_jobs (cancel_where ids) (cancel_set now)"

text \<open>\<open>_REGISTER_DEMAND_SQL\<close> of the client: a waiter latches its interest in the job.\<close>

definition demand_where :: "job_id \<Rightarrow> jorb \<Rightarrow> bool" where
  "demand_where i j \<longleftrightarrow> j_id j = i \<and> \<not> j_awaited j"

definition demand_set :: "jorb \<Rightarrow> jorb" where
  "demand_set j = j\<lparr>j_awaited := True\<rparr>"

definition REGISTER_DEMAND_SQL :: "job_id \<Rightarrow> database \<Rightarrow> sql_error + (jorb list \<times> database)" where
  "REGISTER_DEMAND_SQL i = update_jobs (demand_where i) demand_set"

text \<open>The open debounce window of a key, and the bounce of the client that moves its row.\<close>

definition window_open :: "string \<Rightarrow> jorb \<Rightarrow> bool" where
  "window_open key j \<longleftrightarrow> j_debounce_key j = Some key \<and> j_state j = Queued \<and> j_run_count j = 0"

definition bounce_where :: "string \<Rightarrow> string \<Rightarrow> job_id \<Rightarrow> jorb \<Rightarrow> bool" where
  "bounce_where key job_class i j \<longleftrightarrow> j_id j = i \<and> window_open key j \<and> j_job_class j = job_class"

definition bounce_set :: "instant \<Rightarrow> instant \<Rightarrow> (string \<times> json) list \<Rightarrow> jorb \<Rightarrow> jorb" where
  "bounce_set now fires kwargs j = j\<lparr>
     j_run_after := (case j_debounce_deadline j of None \<Rightarrow> fires | Some t \<Rightarrow> min fires t),
     j_kwargs := kwargs,
     j_updated := now\<rparr>"

text \<open>
  The two statements that wire the jobs of a graph together (\<open>dag.py\<close>): the graph they
  belong to, and the group a fan-in node waits for.
\<close>

definition listed_where :: "job_id list \<Rightarrow> jorb \<Rightarrow> bool" where
  "listed_where is j \<longleftrightarrow> j_id j \<in> set is"

definition dag_id_set :: "int \<Rightarrow> jorb \<Rightarrow> jorb" where
  "dag_id_set dag j = j\<lparr>j_dag_id := Some dag\<rparr>"

definition run_group_set :: "int \<Rightarrow> jorb \<Rightarrow> jorb" where
  "run_group_set g j = j\<lparr>j_run_group := Some g\<rparr>"

section \<open>Every statement keeps the contract\<close>

lemmas set_clauses =
  run_set_def finished_set_def retry_set_def crashed_set_def cancelled_set_def
  reschedule_set_def wake_set_def requeue_set_def priority_set_def app_version_set_def
  cancel_set_def demand_set_def bounce_set_def dag_id_set_def run_group_set_def REQUEUE_CLEARS_KEYS_def WAKE_CLEARS_KEYS_def

lemmas where_clauses =
  fenced_def wake_group_where_def wake_job_where_def requeue_where_def pre_claim_where_def
  cancel_where_def demand_where_def bounce_where_def listed_where_def

declare set_clauses [row_simps] where_clauses [where_simps]

lemmas contract_simps =
  deadline_idx_def identity_idx_def debounce_idx_def job_wf_def

interpretation run: attempt_update "fenced i epoch" "run_set now timeout" i epoch
  for i epoch now timeout
  by unfold_locales (auto simp: row_simps where_simps contract_simps)

interpretation finished: attempt_ending "fenced i epoch" "finished_set now result" i epoch
  for i epoch now result
  by unfold_locales (auto simp: row_simps where_simps contract_simps)

interpretation retry: attempt_ending "fenced i epoch" "retry_set now delay message backtrace" i epoch
  for i epoch now delay message backtrace
  by unfold_locales (auto simp: row_simps where_simps contract_simps)

interpretation crashed: attempt_ending "fenced i epoch" "crashed_set now message backtrace" i epoch
  for i epoch now message backtrace
  by unfold_locales (auto simp: row_simps where_simps contract_simps)

interpretation cancelled: attempt_ending "fenced i epoch" "cancelled_set now" i epoch
  for i epoch now
  by unfold_locales (auto simp: row_simps where_simps contract_simps)

interpretation reschedule: attempt_ending "fenced i epoch" "reschedule_set now delay" i epoch
  for i epoch now delay
  by unfold_locales (auto simp: row_simps where_simps contract_simps)

interpretation wake_group: cancel_keeping "wake_group_where rows locked g" "wake_set now"
  for rows locked g now
  by unfold_locales (auto simp: row_simps where_simps contract_simps)

interpretation wake_job: cancel_keeping "wake_job_where rows locked i" "wake_set now"
  for rows locked i now
  by unfold_locales (auto simp: row_simps where_simps contract_simps)

interpretation priority: cancel_keeping "pre_claim_where ids" "priority_set prio"
  for ids prio
  by unfold_locales (auto simp: row_simps where_simps contract_simps)

interpretation app_version: cancel_keeping "pre_claim_where ids" "app_version_set version"
  for ids version
  by unfold_locales (auto simp: row_simps where_simps contract_simps)

interpretation cancel: cancel_keeping "cancel_where ids" "cancel_set now"
  for ids now
  by unfold_locales (auto simp: row_simps where_simps contract_simps)

interpretation demand: cancel_keeping "demand_where i" demand_set for i
  by unfold_locales (auto simp: row_simps where_simps contract_simps)

interpretation bounce: cancel_keeping "bounce_where key job_class i" "bounce_set now fires kwargs"
  for key job_class i now fires kwargs
  by unfold_locales (auto simp: row_simps where_simps contract_simps window_open_def)

interpretation dag_members: cancel_keeping "listed_where is" "dag_id_set dag" for "is" dag
  by unfold_locales (auto simp: row_simps where_simps contract_simps)

interpretation group_members: cancel_keeping "listed_where is" "run_group_set g" for "is" g
  by unfold_locales (auto simp: row_simps where_simps contract_simps)

text \<open>
  The requeue keeps the contract when its states are ones a requeue may leave: any but the
  two a job waits in. The operator verbs and the monitor's sweeps each pass such a list.
\<close>

lemma requeue_contract:
  assumes "set allowed \<inter> set PRE_CLAIM_STATES = {}"
  shows "job_update (requeue_where allowed ids) (requeue_set now delay reset_errors)"
proof -
  have from_terminal: "j_state j \<noteq> Queued \<and> j_state j \<noteq> Waiting"
    if "requeue_where allowed ids j" for j
    using that assms by (auto simp: where_simps PRE_CLAIM_STATES_def)
  show ?thesis
  proof unfold_locales
    fix j
    assume "requeue_where allowed ids j"
    then show "legal (j_state j) (j_state (requeue_set now delay reset_errors j))"
      using from_terminal [of j] by (cases "j_state j") (auto simp: row_simps)
  qed (auto simp: row_simps contract_simps dest: from_terminal)
qed

interpretation operator_retry:
  job_update "requeue_where RETRYABLE_STATES ids" "requeue_set now delay reset_errors"
  for ids now delay reset_errors
  by (rule requeue_contract) (simp add: RETRYABLE_STATES_def PRE_CLAIM_STATES_def)

interpretation operator_rerun:
  job_update "requeue_where RERUNNABLE_STATES ids" "requeue_set now delay reset_errors"
  for ids now delay reset_errors
  by (rule requeue_contract) (simp add: RERUNNABLE_STATES_def PRE_CLAIM_STATES_def)

end
