(* ===== verification/Rules.thy ===== *)
theory Rules
  imports Rows
begin

text \<open>
  The refusals of \<open>pyjobby/enqueue_rules.py\<close>: what a version pin, a caller-chosen key, a
  priority and a set of tags must be before any statement writes them. Each validator
  returns the value to store or the refusal it raises.
\<close>

section \<open>Refusals\<close>

datatype rule_error =
    VersionNotAString
  | VersionEmpty
  | VersionTooLong nat
  | KeyEmpty string
  | KeyTooLong string nat
  | PriorityAboveCeiling int int
  | TagsNotADict
  | TagKeyEmpty
  | TagValueNotScalar string

definition MAX_APP_VERSION_LENGTH :: nat where
  "MAX_APP_VERSION_LENGTH = 128"

definition MAX_KEY_LENGTH :: nat where
  "MAX_KEY_LENGTH = 256"

definition DEFAULT_PRIO_CEILING :: int where
  "DEFAULT_PRIO_CEILING = 1000"

text \<open>\<open>str.strip()\<close>, over the white space of the Latin-1 range.\<close>

definition py_space :: "char \<Rightarrow> bool" where
  "py_space c \<longleftrightarrow>
     (let n = of_char c :: nat
      in 9 \<le> n \<and> n \<le> 13 \<or> 28 \<le> n \<and> n \<le> 32 \<or> n = 133 \<or> n = 160)"

definition strip :: "string \<Rightarrow> string" where
  "strip s = rev (dropWhile py_space (rev (dropWhile py_space s)))"

section \<open>Validators\<close>

fun validate_app_version :: "json \<Rightarrow> rule_error + string option" where
  "validate_app_version JNull = Inr None"
| "validate_app_version (JStr v) =
     (if strip v = [] then Inl VersionEmpty
      else if MAX_APP_VERSION_LENGTH < length v then Inl (VersionTooLong (length v))
      else Inr (Some v))"
| "validate_app_version _ = Inl VersionNotAString"

definition validate_key :: "string \<Rightarrow> string option \<Rightarrow> rule_error + string option" where
  "validate_key name value =
     (case value of
        None \<Rightarrow> Inr None
      | Some v \<Rightarrow>
          if strip v = [] then Inl (KeyEmpty name)
          else if MAX_KEY_LENGTH < length v then Inl (KeyTooLong name (length v))
          else Inr (Some v))"

definition validate_priority :: "int \<Rightarrow> int \<Rightarrow> rule_error + int" where
  "validate_priority priority ceiling =
     (if ceiling < priority then Inl (PriorityAboveCeiling priority ceiling) else Inr priority)"

text \<open>\<open>bool(v)\<close> of a JSON value, which \<open>if not tags\<close> asks.\<close>

fun truthy :: "json \<Rightarrow> bool" where
  "truthy JNull = False"
| "truthy (JBool b) = b"
| "truthy (JInt i) = (i \<noteq> 0)"
| "truthy (JStr s) = (s \<noteq> [])"
| "truthy (JStamp t) = True"
| "truthy (JArr xs) = (xs \<noteq> [])"
| "truthy (JObj kvs) = (kvs \<noteq> [])"

text \<open>\<open>isinstance(value, _TAG_VALUE_TYPES)\<close>\<close>

fun tag_scalar :: "json \<Rightarrow> bool" where
  "tag_scalar (JArr xs) = False"
| "tag_scalar (JObj kvs) = False"
| "tag_scalar _ = True"

definition tag_error :: "string \<times> json \<Rightarrow> rule_error option" where
  "tag_error kv =
     (if fst kv = [] then Some TagKeyEmpty
      else if \<not> tag_scalar (snd kv) then Some (TagValueNotScalar (fst kv))
      else None)"

definition validate_tags :: "json \<Rightarrow> rule_error + (string \<times> json) list" where
  "validate_tags tags =
     (if \<not> truthy tags then Inr []
      else case tags of
             JObj kvs \<Rightarrow> (case first_error tag_error kvs of Some e \<Rightarrow> Inl e | None \<Rightarrow> Inr kvs)
           | _ \<Rightarrow> Inl TagsNotADict)"

section \<open>What passes\<close>

lemma strip_Nil: "strip s = [] \<longleftrightarrow> list_all py_space s"
proof -
  have "strip s = [] \<longleftrightarrow> list_all py_space (dropWhile py_space s)"
    by (simp add: strip_def list_all_iff dropWhile_eq_Nil_conv)
  also have "\<dots> \<longleftrightarrow> list_all py_space s"
    by (induction s) auto
  finally show ?thesis .
qed

lemma validate_app_version_Inr:
  "validate_app_version v = Inr r \<longleftrightarrow>
     v = JNull \<and> r = None
     \<or> (\<exists>s. v = JStr s \<and> r = Some s \<and> \<not> list_all py_space s
           \<and> length s \<le> MAX_APP_VERSION_LENGTH)"
  by (cases v) (auto simp: strip_Nil)

lemma validate_key_Inr:
  "validate_key name v = Inr r \<longleftrightarrow>
     r = v \<and> (v = None \<or> (\<exists>s. v = Some s \<and> \<not> list_all py_space s \<and> length s \<le> MAX_KEY_LENGTH))"
  by (auto simp: validate_key_def strip_Nil split: option.splits)

lemma validate_tags_Inr:
  "validate_tags v = Inr kvs \<longleftrightarrow>
     \<not> truthy v \<and> kvs = []
     \<or> v = JObj kvs \<and> kvs \<noteq> [] \<and> (\<forall>(k, x) \<in> set kvs. k \<noteq> [] \<and> tag_scalar x)"
proof -
  have none: "first_error tag_error kvs = None \<longleftrightarrow> (\<forall>(k, x) \<in> set kvs. k \<noteq> [] \<and> tag_scalar x)"
    for kvs
    by (auto simp: first_error_None tag_error_def split: if_splits)
  show ?thesis
  proof (cases v)
    case (JObj kvs')
    show ?thesis
      using none [of kvs']
      by (cases "first_error tag_error kvs'") (auto simp: validate_tags_def JObj)
  qed (auto simp: validate_tags_def)
qed

text \<open>
  No enqueue option can smuggle in a value that makes a job unclaimable or collide: a
  validator that accepts returns its argument unchanged, a stored key or version pin is a
  non-blank string within its bound (never the empty string, which is a key of its own), a
  stored priority is one the fleet's ceiling admits, and stored tags are a flat map of
  scalars under non-empty keys.
\<close>

theorem accepted_options_are_well_formed:
  "(validate_key name v = Inr r \<longleftrightarrow>
      r = v \<and> (v = None \<or> (\<exists>s. v = Some s \<and> \<not> list_all py_space s \<and> length s \<le> 256)))
   \<and> (validate_app_version w = Inr r' \<longleftrightarrow>
      w = JNull \<and> r' = None
      \<or> (\<exists>s. w = JStr s \<and> r' = Some s \<and> \<not> list_all py_space s \<and> length s \<le> 128))
   \<and> (validate_priority p c = Inr q \<longleftrightarrow> q = p \<and> p \<le> c)
   \<and> (validate_tags t = Inr kvs \<longleftrightarrow>
      \<not> truthy t \<and> kvs = []
      \<or> t = JObj kvs \<and> kvs \<noteq> [] \<and> list_all (\<lambda>(k, x). k \<noteq> [] \<and> tag_scalar x) kvs)"
proof (intro conjI)
  show "validate_tags t = Inr kvs \<longleftrightarrow>
      \<not> truthy t \<and> kvs = []
      \<or> t = JObj kvs \<and> kvs \<noteq> [] \<and> list_all (\<lambda>(k, x). k \<noteq> [] \<and> tag_scalar x) kvs"
    by (simp only: validate_tags_Inr list_all_iff)
qed (auto simp: validate_key_Inr validate_app_version_Inr validate_priority_def
      MAX_KEY_LENGTH_def MAX_APP_VERSION_LENGTH_def)

end
