(* ===== verification/Verbs.thy ===== *)
theory Verbs
  imports JobSql Rules
begin

text \<open>
  The verbs of \<open>pyjobby/db.py\<close> that every surface (client, admin API, CLI, dashboard)
  shares: re-pin, retry, re-run, cancel and fork. A verb is a function from the database to
  its result and the database it leaves; a refusal is the left summand.
\<close>

datatype verb_error =
    Sql sql_error
  | Rule rule_error
  | ForkRefused string

definition lift_sql :: "sql_error + 'a \<Rightarrow> verb_error + 'a" where
  "lift_sql r = (case r of Inl e \<Rightarrow> Inl (Sql e) | Inr x \<Rightarrow> Inr x)"

lemma lift_sql_simps [simp]: "lift_sql (Inl e) = Inl (Sql e)" "lift_sql (Inr x) = Inr x"
  by (simp_all add: lift_sql_def)

lemma lift_sql_Inr [simp]: "lift_sql r = Inr x \<longleftrightarrow> r = Inr x"
  by (cases r) simp_all

section \<open>Re-pin\<close>

definition update_job_app_version ::
  "database \<Rightarrow> job_id \<Rightarrow> json \<Rightarrow> verb_error + (bool \<times> database)" where
  "update_job_app_version d i app_version =
     (case validate_app_version app_version of
        Inl e \<Rightarrow> Inl (Rule e)
      | Inr v \<Rightarrow>
          bind_sum (lift_sql (stmt_update_app_version i v d)) (\<lambda>(rows, d').
          Inr (rows \<noteq> [], d')))"

section \<open>Retry and re-run\<close>

text \<open>\<open>WIPE_DURABLE_STATE_SQL\<close>: the two deletes of the second statement.\<close>

definition WIPE_DURABLE_STATE_SQL :: "job_id list \<Rightarrow> database \<Rightarrow> database" where
  "WIPE_DURABLE_STATE_SQL ids d = d\<lparr>
     steps := filter (\<lambda>s. s_job_id s \<notin> set ids) (steps d),
     streams := filter (\<lambda>s. st_job_id s \<notin> set ids) (streams d)\<rparr>"

definition requeue_job ::
  "instant \<Rightarrow> database \<Rightarrow> job_id \<Rightarrow> interval option \<Rightarrow> bool \<Rightarrow> jorbstate list \<Rightarrow> bool
     \<Rightarrow> sql_error + (job_id option \<times> database)" where
  "requeue_job now d i delay reset_errors allowed_states wipe_checkpoints =
     (let delay = (case delay of None \<Rightarrow> 0 | Some t \<Rightarrow> t)
      in bind_sum (stmt_requeue allowed_states now [i] delay reset_errors d) (\<lambda>(rows, d').
         case rows of
           [] \<Rightarrow> Inr (None, d')
         | r # _ \<Rightarrow>
             if wipe_checkpoints then Inr (Some (j_id r), WIPE_DURABLE_STATE_SQL [j_id r] d')
             else Inr (Some (j_id r), d')))"

definition retry_job ::
  "instant \<Rightarrow> database \<Rightarrow> job_id \<Rightarrow> interval option \<Rightarrow> bool
     \<Rightarrow> sql_error + (job_id option \<times> database)" where
  "retry_job now d i delay reset_errors =
     requeue_job now d i delay reset_errors RETRYABLE_STATES False"

definition retry_jobs ::
  "instant \<Rightarrow> database \<Rightarrow> job_id list \<Rightarrow> interval option \<Rightarrow> bool
     \<Rightarrow> sql_error + (job_id list \<times> database)" where
  "retry_jobs now d ids delay reset_errors =
     (if ids = [] then Inr ([], d)
      else let delay = (case delay of None \<Rightarrow> 0 | Some t \<Rightarrow> t)
           in bind_sum (stmt_requeue RETRYABLE_STATES now ids delay reset_errors d) (\<lambda>(rows, d').
              Inr (map j_id rows, d')))"

definition rerun_job ::
  "instant \<Rightarrow> database \<Rightarrow> job_id \<Rightarrow> interval option \<Rightarrow> bool \<Rightarrow> bool
     \<Rightarrow> sql_error + (job_id option \<times> database)" where
  "rerun_job now d i delay reset_errors fresh =
     requeue_job now d i delay reset_errors RERUNNABLE_STATES fresh"

section \<open>Cancel\<close>

datatype cancel_result = WasCancelled | CancelRequested

definition cancel_job ::
  "instant \<Rightarrow> database \<Rightarrow> job_id \<Rightarrow> sql_error + (cancel_result option \<times> database)" where
  "cancel_job now d i =
     bind_sum (stmt_cancel now [i] d) (\<lambda>(rows, d').
       case rows of
         [] \<Rightarrow> Inr (None, d')
       | r # _ \<Rightarrow>
           Inr (Some (if j_state r = Cancelled then WasCancelled else CancelRequested), d'))"

definition cancel_jobs ::
  "instant \<Rightarrow> database \<Rightarrow> job_id list \<Rightarrow> sql_error + (nat \<times> database)" where
  "cancel_jobs now d ids =
     (if ids = [] then Inr (0, d)
      else bind_sum (stmt_cancel now ids d) (\<lambda>(rows, d'). Inr (length rows, d')))"

section \<open>Fork\<close>

text \<open>The row \<open>FORK_JOB_SQL\<close> inserts; what it does not name takes the column's default.\<close>

definition fork_row ::
  "instant \<Rightarrow> jorb \<Rightarrow> int \<Rightarrow> nat \<Rightarrow> string option \<Rightarrow> int option \<Rightarrow> (string \<times> json) list option
     \<Rightarrow> string option \<Rightarrow> job_id \<Rightarrow> jorb" where
  "fork_row now src from_step prefix queue priority kwargs_override app_version i =
     (default_jorb now i)\<lparr>
      j_job_class := j_job_class src,
      j_kwargs := (case kwargs_override of None \<Rightarrow> j_kwargs src | Some kw \<Rightarrow> kw),
      j_queue := (case queue of None \<Rightarrow> j_queue src | Some q \<Rightarrow> q),
      j_prio := (case priority of None \<Rightarrow> j_prio src | Some p \<Rightarrow> p),
      j_capability := j_capability src,
      j_uid := j_uid src,
      j_tags := j_tags src,
      j_admin_data := (j_admin_data src)\<lparr>ad_fork := Some (from_step, int prefix)\<rparr>,
      j_state := Queued,
      j_forked_from := Some (j_id src),
      j_partition_key := j_partition_key src,
      j_app_version := app_version\<rparr>"

definition recorded_steps :: "database \<Rightarrow> job_id \<Rightarrow> int" where
  "recorded_steps d i = fold (\<lambda>s m. max (s_seq s) m) (job_steps d i) 0"

definition step_prefix :: "database \<Rightarrow> job_id \<Rightarrow> int \<Rightarrow> step_row list" where
  "step_prefix d i from_step = filter (\<lambda>s. s_seq s < from_step) (job_steps d i)"

record fork_result =
  f_job_id :: job_id
  f_source :: job_id
  f_from_step :: int
  f_steps_copied :: nat
  f_queue :: string
  f_priority :: int

text \<open>
  \<open>fork_job\<close>, its one statement included: the guard on \<open>from_step\<close>, the insert and the copy
  of the checkpoint prefix read one snapshot and commit together.
\<close>

definition fork_job ::
  "instant \<Rightarrow> database \<Rightarrow> job_id \<Rightarrow> int \<Rightarrow> string option \<Rightarrow> int option
     \<Rightarrow> (string \<times> json) list option \<Rightarrow> json \<Rightarrow> verb_error + (fork_result \<times> database)" where
  "fork_job now d i from_step queue priority kwargs_override app_version =
     (if from_step < 1 then Inl (ForkRefused ''from_step must be at least 1'')
      else case validate_app_version app_version of
        Inl e \<Rightarrow> Inl (Rule e)
      | Inr version \<Rightarrow>
          (case lookup_job d i of
             None \<Rightarrow> Inl (ForkRefused ''not found'')
           | Some src \<Rightarrow>
               if recorded_steps d i + 1 < from_step
               then Inl (ForkRefused ''from_step beyond the recorded steps'')
               else
                 (let prefix = step_prefix d i from_step
                  in bind_sum
                       (lift_sql (insert_job
                          (fork_row now src from_step (length prefix) queue priority
                             kwargs_override version) d))
                       (\<lambda>(j, d').
                       Inr (\<lparr>f_job_id = j_id j, f_source = i, f_from_step = from_step,
                             f_steps_copied = length prefix, f_queue = j_queue j,
                             f_priority = j_prio j\<rparr>,
                            d'\<lparr>steps := steps d' @
                               map (\<lambda>s. s\<lparr>s_job_id := j_id j, s_run_epoch := 0\<rparr>) prefix\<rparr>)))))"

text \<open>\<open>FIRST_FAILED_STEP_SQL\<close>\<close>

definition first_failed_step :: "database \<Rightarrow> job_id \<Rightarrow> int option" where
  "first_failed_step d i =
     (case map s_seq (filter (\<lambda>s. s_error s \<noteq> None) (job_steps d i)) of
        [] \<Rightarrow> None
      | n # ns \<Rightarrow> Some (fold min ns n))"

definition fork_job_from_failure ::
  "instant \<Rightarrow> database \<Rightarrow> job_id \<Rightarrow> string option \<Rightarrow> int option
     \<Rightarrow> (string \<times> json) list option \<Rightarrow> json \<Rightarrow> verb_error + (fork_result \<times> database)" where
  "fork_job_from_failure now d i queue priority kwargs_override app_version =
     (case lookup_job d i of
        None \<Rightarrow> Inl (ForkRefused ''not found'')
      | Some _ \<Rightarrow>
          (case first_failed_step d i of
             None \<Rightarrow> Inl (ForkRefused ''no failed step recorded'')
           | Some n \<Rightarrow> fork_job now d i n queue priority kwargs_override app_version))"

section \<open>What the verbs do\<close>

lemma lookup_job_jobs_cong: "jobs d' = jobs d \<Longrightarrow> lookup_job d' i = lookup_job d i"
  by (simp add: lookup_job_def)

lemma jobs_ok_wipe [simp]: "jobs_ok (WIPE_DURABLE_STATE_SQL ids d) = jobs_ok d"
  by (simp add: jobs_ok_def WIPE_DURABLE_STATE_SQL_def trail_ok_def state_trail_def)

lemma wipe_simps [simp]:
  "jobs (WIPE_DURABLE_STATE_SQL ids d) = jobs d"
  "history (WIPE_DURABLE_STATE_SQL ids d) = history d"
  by (simp_all add: WIPE_DURABLE_STATE_SQL_def)

text \<open>The requeue, on a list of states it may leave.\<close>

lemma requeue_job_eq:
  fixes now i delay reset
  assumes ok: "jobs_ok d" and allowed: "set allowed \<inter> set PRE_CLAIM_STATES = {}"
  defines "d' \<equiv> job_update.after (requeue_where allowed [i])
                   (requeue_set now (case delay of None \<Rightarrow> 0 | Some t \<Rightarrow> t) reset) d"
  shows "requeue_job now d i delay reset allowed wipe =
    (case lookup_job d i of
       None \<Rightarrow> Inr (None, d')
     | Some j \<Rightarrow>
         if j_state j \<in> set allowed
         then Inr (Some i, if wipe then WIPE_DURABLE_STATE_SQL [i] d' else d')
         else Inr (None, d'))"
proof -
  have rows: "filter (requeue_where allowed [i]) (jobs d) =
      (case lookup_job d i of None \<Rightarrow> [] | Some j \<Rightarrow> if j_state j \<in> set allowed then [j] else [])"
    by (subst filter_id_rows [OF ok])
      (auto simp: requeue_where_def split: option.splits dest: lookup_job_SomeD)
  show ?thesis
    unfolding requeue_job_def stmt_requeue_def d'_def Let_def
      job_update.runs [OF requeue_contract [OF allowed] ok] rows
    by (auto simp: row_simps split: option.splits dest: lookup_job_SomeD)
qed

text \<open>
  Retrying a crashed or cancelled job succeeds on every sound database: it returns the
  job's id; the row goes back to \<open>queued\<close> or, when it carries a dependency, to \<open>waiting\<close>,
  at a higher epoch, unfinished, with no pending cancel and no deadline or debounce key; no
  checkpoint, stream or other job is touched, and the table stays sound.
\<close>

theorem retry_requeues_the_row:
  assumes "jobs_ok d" and "lookup_job d i = Some j" and "j_state j = Crashed \<or> j_state j = Cancelled"
  shows "\<exists>d' k. retry_job now d i delay reset = Inr (Some i, d') \<and> jobs_ok d'
    \<and> lookup_job d' i = Some k
    \<and> j_state k = (if j_waitfor_job j = None \<and> j_waitfor_group j = None then Queued else Waiting)
    \<and> j_run_epoch k = j_run_epoch j + 1 \<and> j_finished k = None \<and> \<not> j_cancel_requested k
    \<and> j_deadline_key k = None \<and> j_debounce_key k = None
    \<and> j_identity_key k = j_identity_key j \<and> j_run_count k = j_run_count j
    \<and> steps d' = steps d \<and> streams d' = streams d
    \<and> (\<forall>m. m \<noteq> i \<longrightarrow> lookup_job d' m = lookup_job d m)"
proof -
  let ?t = "case delay of None \<Rightarrow> 0 | Some t \<Rightarrow> t"
  let ?d' = "job_update.after (requeue_where RETRYABLE_STATES [i]) (requeue_set now ?t reset) d"
  have run: "retry_job now d i delay reset = Inr (Some i, ?d')"
    using assms(2,3) unfolding retry_job_def
    by (subst requeue_job_eq [OF assms(1)]) (auto simp: RETRYABLE_STATES_def PRE_CLAIM_STATES_def)
  have "requeue_where RETRYABLE_STATES [i] j"
    using assms(2,3) by (auto simp: requeue_where_def RETRYABLE_STATES_def dest: lookup_job_SomeD)
  then have row: "lookup_job ?d' i = Some (requeue_set now ?t reset j)"
    using assms(2) by (simp add: operator_retry.after_lookup)
  have others: "lookup_job ?d' m = lookup_job d m" if "m \<noteq> i" for m
    using that
    by (cases "lookup_job d m")
      (auto simp: operator_retry.after_lookup requeue_where_def dest: lookup_job_SomeD)
  show ?thesis
    by (intro exI conjI allI impI, rule run, rule operator_retry.after_ok, rule assms(1), rule row)
      (auto simp: row_simps others)
qed

theorem retry_requeues_the_row_witness:
  "\<exists>d' k. retry_job 50
      (seed_db [((default_jorb 0 7)\<lparr>j_state := Crashed, j_waitfor_job := Some 3, j_run_count := 1,
                                  j_run_epoch := 2\<rparr>,
                 [Queued, Claimed, Running, Crashed])]) 7 None True = Inr (Some 7, d')
    \<and> lookup_job d' 7 = Some k \<and> j_state k = Waiting \<and> j_run_epoch k = 3"
proof -
  let ?j = "(default_jorb 0 7)\<lparr>j_state := Crashed, j_waitfor_job := Some 3, j_run_count := 1,
              j_run_epoch := 2\<rparr>"
  let ?d = "seed_db [(?j, [Queued, Claimed, Running, Crashed])]"
  have "jobs_ok ?d" "lookup_job ?d 7 = Some ?j" by (simp_all add: seed_simps)
  from retry_requeues_the_row [OF this, of 50 None True] show ?thesis by auto
qed

text \<open>
  A fresh re-run of any terminal job discards its checkpoints and its streams, and no
  one else's, in the transaction that requeues it: the next attempt starts from nothing.
\<close>

theorem fresh_rerun_starts_from_nothing:
  assumes "jobs_ok d" and "lookup_job d i = Some j" and "j_state j \<in> set TERMINAL_STATES"
  shows "\<exists>d' k. rerun_job now d i delay reset True = Inr (Some i, d') \<and> jobs_ok d'
    \<and> lookup_job d' i = Some k \<and> j_state k \<in> {Queued, Waiting}
    \<and> j_run_epoch k = j_run_epoch j + 1 \<and> j_result k = None
    \<and> steps d' = filter (\<lambda>s. s_job_id s \<noteq> i) (steps d)
    \<and> streams d' = filter (\<lambda>s. st_job_id s \<noteq> i) (streams d)
    \<and> events d' = events d \<and> mailbox d' = mailbox d"
proof -
  let ?t = "case delay of None \<Rightarrow> 0 | Some t \<Rightarrow> t"
  let ?m = "job_update.after (requeue_where RERUNNABLE_STATES [i]) (requeue_set now ?t reset) d"
  let ?d' = "WIPE_DURABLE_STATE_SQL [i] ?m"
  have run: "rerun_job now d i delay reset True = Inr (Some i, ?d')"
    using assms(2,3) unfolding rerun_job_def
    by (subst requeue_job_eq [OF assms(1)])
      (auto simp: RERUNNABLE_STATES_def PRE_CLAIM_STATES_def)
  have "requeue_where RERUNNABLE_STATES [i] j"
    using assms(2,3) by (auto simp: requeue_where_def RERUNNABLE_STATES_def dest: lookup_job_SomeD)
  then have "lookup_job ?m i = Some (requeue_set now ?t reset j)"
    using assms(2) by (simp add: operator_rerun.after_lookup)
  then have row: "lookup_job ?d' i = Some (requeue_set now ?t reset j)"
    by (simp add: lookup_job_def)
  have ok: "jobs_ok ?d'"
    using operator_rerun.after_ok [OF assms(1)] by simp
  show ?thesis
    by (intro exI conjI, rule run, rule ok, rule row)
      (simp_all add: row_simps WIPE_DURABLE_STATE_SQL_def)
qed

theorem fresh_rerun_starts_from_nothing_witness:
  "\<exists>d'. rerun_job 50
      ((seed_db [((default_jorb 0 7)\<lparr>j_state := Finished\<rparr>, [Queued, Claimed, Running, Finished])])
         \<lparr>steps := [\<lparr>s_job_id = 7, s_seq = 1, s_name = ''a'', s_output = JNull, s_error = None,
                   s_run_epoch = 1, s_started = 0, s_finished = 0\<rparr>]\<rparr>) 7 None True True
      = Inr (Some 7, d') \<and> steps d' = []"
proof -
  let ?j = "(default_jorb 0 7)\<lparr>j_state := Finished\<rparr>"
  let ?d = "(seed_db [(?j, [Queued, Claimed, Running, Finished])])
         \<lparr>steps := [\<lparr>s_job_id = 7, s_seq = 1, s_name = ''a'', s_output = JNull, s_error = None,
                   s_run_epoch = 1, s_started = 0, s_finished = 0\<rparr>]\<rparr>"
  have "jobs_ok ?d" "lookup_job ?d 7 = Some ?j" by (simp_all add: seed_simps)
  from fresh_rerun_starts_from_nothing [OF this, of 50 None True] show ?thesis by auto
qed

lemma cancel_stages:
  assumes "jobs_ok d"
  shows "\<exists>r d'. cancel_job now d i = Inr (r, d') \<and> jobs_ok d'
    \<and> (case lookup_job d i of
         None \<Rightarrow> r = None \<and> d' = d
       | Some j \<Rightarrow>
           if j_state j \<in> {Queued, Waiting}
           then r = Some WasCancelled
             \<and> lookup_job d' i = Some (j\<lparr>j_state := Cancelled, j_finished := Some now, j_updated := now\<rparr>)
           else if j_state j \<in> {Claimed, Running}
           then r = Some CancelRequested
             \<and> lookup_job d' i = Some (j\<lparr>j_cancel_requested := True, j_updated := now\<rparr>)
           else r = None \<and> d' = d)"
proof -
  let ?d' = "job_update.after (cancel_where [i]) (cancel_set now) d"
  have rows: "filter (cancel_where [i]) (jobs d) =
      (case lookup_job d i of None \<Rightarrow> [] | Some j \<Rightarrow> if j_state j \<in> set LIVE_STATES then [j] else [])"
    by (subst filter_id_rows [OF assms])
      (auto simp: cancel_where_def split: option.splits dest: lookup_job_SomeD)
  have noop: "?d' = d" if "filter (cancel_where [i]) (jobs d) = []"
  proof -
    have "map (\<lambda>j. if cancel_where [i] j then cancel_set now j else j) (jobs d) = jobs d"
      using that by (intro map_idI) (auto simp: filter_empty_conv)
    with that show ?thesis by (simp add: cancel.after_def)
  qed
  have hit: "lookup_job ?d' i = Some (cancel_set now j)"
    if "lookup_job d i = Some j" "j_state j \<in> set LIVE_STATES" for j
    using that by (auto simp: cancel.after_lookup cancel_where_def dest: lookup_job_SomeD)
  have run: "cancel_job now d i = (case filter (cancel_where [i]) (jobs d) of
      [] \<Rightarrow> Inr (None, ?d')
    | r # _ \<Rightarrow> Inr (Some (if j_state (cancel_set now r) = Cancelled then WasCancelled
                        else CancelRequested), ?d'))"
    unfolding cancel_job_def stmt_cancel_def cancel.runs [OF assms]
    by (simp split: list.splits)
  show ?thesis
  proof (cases "lookup_job d i")
    case None
    with rows noop run assms show ?thesis by simp
  next
    case (Some j)
    show ?thesis
    proof (cases "j_state j \<in> set LIVE_STATES")
      case True
      have same: "cancel_set now j = (if j_state j \<in> {Queued, Waiting}
          then j\<lparr>j_state := Cancelled, j_finished := Some now, j_updated := now\<rparr>
          else j\<lparr>j_cancel_requested := True, j_updated := now\<rparr>)"
        using True by (cases j) (auto simp: cancel_set_def)
      have "cancel_job now d i = Inr (Some (if j_state (cancel_set now j) = Cancelled
          then WasCancelled else CancelRequested), ?d')"
        using run rows Some True by simp
      with hit [OF Some True] cancel.after_ok [OF assms] Some True same show ?thesis
        by (auto split: if_splits)
    next
      case False
      with rows noop run assms Some show ?thesis by auto
    qed
  qed
qed

text \<open>
  Cancelling reaches a live job wherever it is and never a terminal one: before the
  claim it is cancelled on the spot and stays at its epoch, in flight it is only asked (its
  state and epoch are the attempt's to change), and a terminal or missing job is untouched.
\<close>

theorem cancel_by_lifecycle_stage:
  assumes "jobs_ok d"
  shows "\<exists>r d'. cancel_job now d i = Inr (r, d') \<and> jobs_ok d'
    \<and> (case lookup_job d i of
         None \<Rightarrow> r = None \<and> d' = d
       | Some j \<Rightarrow>
           if j_state j \<in> {Queued, Waiting}
           then r = Some WasCancelled
             \<and> lookup_job d' i = Some (j\<lparr>j_state := Cancelled, j_finished := Some now, j_updated := now\<rparr>)
           else if j_state j \<in> {Claimed, Running}
           then r = Some CancelRequested
             \<and> lookup_job d' i = Some (j\<lparr>j_cancel_requested := True, j_updated := now\<rparr>)
           else r = None \<and> d' = d)"
  using assms by (rule cancel_stages)

theorem cancel_by_lifecycle_stage_witness:
  "\<exists>d'. cancel_job 9 (seed_db [(default_jorb 0 1, [Queued])]) 1 = Inr (Some WasCancelled, d')
     \<and> jobs_ok d'"
proof -
  have "jobs_ok (seed_db [(default_jorb 0 1, [Queued])])"
    and "lookup_job (seed_db [(default_jorb 0 1, [Queued])]) 1 = Some (default_jorb 0 1)"
    by (simp_all add: seed_simps)
  with cancel_by_lifecycle_stage [of "seed_db [(default_jorb 0 1, [Queued])]" 9 1]
  show ?thesis by auto
qed

section \<open>Forking\<close>

lemma fold_max_start: "(a :: int) \<le> fold (\<lambda>s m. max (f s) m) xs a"
proof (induction xs arbitrary: a)
  case (Cons x xs)
  have "max (f x) a \<le> fold (\<lambda>s m. max (f s) m) xs (max (f x) a)" by (rule Cons)
  then show ?case by simp
qed simp

lemma fold_max_ge: "s \<in> set xs \<Longrightarrow> f s \<le> fold (\<lambda>s m. max (f s) m) xs (a :: int)"
proof (induction xs arbitrary: a)
  case (Cons x xs)
  have "max (f x) a \<le> fold (\<lambda>s m. max (f s) m) xs (max (f x) a)" by (rule fold_max_start)
  with Cons show ?case by auto
qed simp

text \<open>A fork's row is refused by no index: it carries none of the three keys.\<close>

lemma fork_insert:
  assumes "jobs_ok d"
  shows "\<exists>j d'. insert_job (fork_row now src n m queue priority kw version) d = Inr (j, d')
    \<and> jobs_ok d' \<and> j = fork_row now src n m queue priority kw version (next_job_id d)
    \<and> jobs d' = jobs d @ [j] \<and> steps d' = steps d \<and> streams d' = streams d
    \<and> events d' = events d \<and> mailbox d' = mailbox d"
proof -
  let ?mk = "fork_row now src n m queue priority kw version"
  let ?j = "?mk (next_job_id d)"
  have "next_job_id d \<notin> j_id ` set (jobs d)"
    using assms by (auto simp: jobs_ok_def)
  then have "unique_ok (jobs d @ [?j])"
    using assms by (simp add: jobs_ok_def unique_ok_def index_ok_append1 deadline_idx_def
        identity_idx_def debounce_idx_def fork_row_def)
  moreover have "?j\<lparr>j_id := next_job_id d\<rparr> = ?j"
    by (simp add: fork_row_def default_jorb_def)
  ultimately obtain d' where d': "insert_job ?mk d = Inr (?j, d')" "jobs d' = jobs d @ [?j]"
    "steps d' = steps d" "streams d' = streams d" "events d' = events d" "mailbox d' = mailbox d"
    by (simp add: insert_job_def Let_def)
  moreover have "jobs_ok d'"
    by (rule insert_job_ok [OF assms d'(1)]) (simp_all add: fork_row_def job_wf_def)
  ultimately show ?thesis by blast
qed

lemma fork_copies_prefix_core:
  assumes ok: "jobs_ok d" and src: "lookup_job d i = Some src"
    and step: "1 \<le> n" "n \<le> recorded_steps d i + 1"
    and version: "validate_app_version v = Inr version"
    and owned: "list_all (\<lambda>s. s_job_id s < next_job_id d) (steps d)"
  shows "\<exists>r d' k. fork_job now d i n queue priority kw v = Inr (r, d') \<and> jobs_ok d'
    \<and> f_job_id r = next_job_id d \<and> lookup_job d' (f_job_id r) = Some k
    \<and> j_state k = Queued \<and> j_run_epoch k = 0 \<and> j_run_count k = 0 \<and> j_app_version k = version
    \<and> j_deadline_key k = None \<and> j_identity_key k = None \<and> j_debounce_key k = None
    \<and> j_waitfor_job k = None \<and> j_waitfor_group k = None \<and> j_run_group k = None
    \<and> j_dag_id k = None \<and> j_forked_from k = Some i \<and> j_partition_key k = j_partition_key src
    \<and> job_steps d' (f_job_id r) =
        map (\<lambda>s. s\<lparr>s_job_id := f_job_id r, s_run_epoch := 0\<rparr>)
          (filter (\<lambda>s. s_seq s < n) (job_steps d i))
    \<and> f_steps_copied r = length (filter (\<lambda>s. s_seq s < n) (job_steps d i))
    \<and> (\<forall>m. m \<noteq> f_job_id r \<longrightarrow> lookup_job d' m = lookup_job d m \<and> job_steps d' m = job_steps d m)
    \<and> streams d' = streams d \<and> events d' = events d \<and> mailbox d' = mailbox d"
proof -
  let ?new = "next_job_id d"
  let ?prefix = "step_prefix d i n"
  let ?copies = "map (\<lambda>s. s\<lparr>s_job_id := ?new, s_run_epoch := 0\<rparr>) ?prefix"
  obtain j e where ins:
    "insert_job (fork_row now src n (length ?prefix) queue priority kw version) d = Inr (j, e)"
    and e: "jobs_ok e" "jobs e = jobs d @ [j]" "steps e = steps d" "streams e = streams d"
      "events e = events d" "mailbox e = mailbox d"
    and j: "j = fork_row now src n (length ?prefix) queue priority kw version ?new"
    using fork_insert [OF ok] by blast
  define d' where "d' = e\<lparr>steps := steps e @ ?copies\<rparr>"
  define r where "r = \<lparr>f_job_id = ?new, f_source = i, f_from_step = n,
    f_steps_copied = length ?prefix, f_queue = j_queue j, f_priority = j_prio j\<rparr>"
  have jid: "j_id j = ?new" by (simp add: j fork_row_def)
  have run: "fork_job now d i n queue priority kw v = Inr (r, d')"
    using src step by (simp add: fork_job_def version ins jid Let_def d'_def r_def)
  have fresh: "?new \<notin> j_id ` set (jobs d)" using ok by (auto simp: jobs_ok_def)
  have row: "lookup_job d' ?new = Some j"
    using fresh by (simp add: d'_def lookup_job_def e find_row_append find_row_None [THEN iffD2] jid)
  have rows: "lookup_job d' m = lookup_job d m" if "m \<noteq> ?new" for m
    using that by (simp add: d'_def lookup_job_def e find_row_append jid split: option.splits)
  have none: "job_steps d ?new = []"
    using owned by (auto simp: job_steps_def filter_empty_conv list_all_iff)
  have copies: "job_steps d' ?new = ?copies"
    using none by (simp add: d'_def job_steps_def e filter_id_conv)
  have steps: "job_steps d' m = job_steps d m" if "m \<noteq> ?new" for m
    using that by (simp add: d'_def job_steps_def e filter_empty_conv)
  have ok': "jobs_ok d'" using e(1) by (simp add: d'_def jobs_ok_def trail_ok_def state_trail_def)
  have rest: "streams d' = streams d" "events d' = events d" "mailbox d' = mailbox d"
    by (simp_all add: d'_def e)
  have srcid: "j_id src = i" using src by (auto dest: lookup_job_SomeD)
  have cols: "j_state j = Queued" "j_run_epoch j = 0" "j_run_count j = 0" "j_app_version j = version"
    "j_deadline_key j = None" "j_identity_key j = None" "j_debounce_key j = None"
    "j_waitfor_job j = None" "j_waitfor_group j = None" "j_run_group j = None"
    "j_dag_id j = None" "j_forked_from j = Some i" "j_partition_key j = j_partition_key src"
    by (simp_all add: j fork_row_def srcid default_jorb_def)
  have new: "f_job_id r = ?new" "f_steps_copied r = length ?prefix" by (simp_all add: r_def)
  show ?thesis
    unfolding step_prefix_def [symmetric]
    by (intro exI [where x = r] exI [where x = d'] exI [where x = j] conjI allI impI, rule run)
      (simp_all add: ok' new row cols rows copies steps rest)
qed

text \<open>
  A fork never touches its source. Within the recorded steps it always succeeds: the new
  row is a queued first attempt under a fresh id, unpinned unless the caller pins it, holding
  no dedupe key, group, DAG or dependency; its step log is exactly the source's prefix below
  \<open>from_step\<close>, stamped with an epoch no attempt of it will have; every other job's row and
  steps, and all streams, events and messages, are as before.
\<close>

theorem fork_copies_the_prefix:
  assumes ok: "jobs_ok d" and src: "lookup_job d i = Some src"
    and step: "1 \<le> n" "n \<le> recorded_steps d i + 1"
    and version: "validate_app_version v = Inr version"
    and owned: "list_all (\<lambda>s. s_job_id s < next_job_id d) (steps d)"
  shows "\<exists>r d' k. fork_job now d i n queue priority kw v = Inr (r, d') \<and> jobs_ok d'
    \<and> f_job_id r = next_job_id d \<and> lookup_job d' (f_job_id r) = Some k
    \<and> j_state k = Queued \<and> j_run_epoch k = 0 \<and> j_run_count k = 0 \<and> j_app_version k = version
    \<and> j_deadline_key k = None \<and> j_identity_key k = None \<and> j_debounce_key k = None
    \<and> j_waitfor_job k = None \<and> j_waitfor_group k = None \<and> j_run_group k = None
    \<and> j_dag_id k = None \<and> j_forked_from k = Some i \<and> j_partition_key k = j_partition_key src
    \<and> job_steps d' (f_job_id r) =
        map (\<lambda>s. s\<lparr>s_job_id := f_job_id r, s_run_epoch := 0\<rparr>)
          (filter (\<lambda>s. s_seq s < n) (job_steps d i))
    \<and> f_steps_copied r = length (filter (\<lambda>s. s_seq s < n) (job_steps d i))
    \<and> (\<forall>m. m \<noteq> f_job_id r \<longrightarrow> lookup_job d' m = lookup_job d m \<and> job_steps d' m = job_steps d m)
    \<and> streams d' = streams d \<and> events d' = events d \<and> mailbox d' = mailbox d"
  by (rule fork_copies_prefix_core [OF assms])

theorem fork_copies_the_prefix_witness:
  "\<exists>r d'. fork_job 50
      ((seed_db [((default_jorb 0 7)\<lparr>j_state := Crashed\<rparr>, [Queued, Claimed, Running, Crashed])])
         \<lparr>steps := [\<lparr>s_job_id = 7, s_seq = 1, s_name = ''a'', s_output = JInt 5, s_error = None,
                   s_run_epoch = 1, s_started = 0, s_finished = 0\<rparr>]\<rparr>) 7 2 None None None JNull
      = Inr (r, d') \<and> f_job_id r = 8 \<and> f_steps_copied r = 1"
proof -
  let ?j = "(default_jorb 0 7)\<lparr>j_state := Crashed\<rparr>"
  let ?d = "(seed_db [(?j, [Queued, Claimed, Running, Crashed])])
         \<lparr>steps := [\<lparr>s_job_id = 7, s_seq = 1, s_name = ''a'', s_output = JInt 5, s_error = None,
                   s_run_epoch = 1, s_started = 0, s_finished = 0\<rparr>]\<rparr>"
  have "jobs_ok ?d" "lookup_job ?d 7 = Some ?j" by (simp_all add: seed_simps)
  from fork_copies_the_prefix [OF this, of 2 JNull None 50 None None None] show ?thesis
    by (auto simp: recorded_steps_def job_steps_def seed_db_def empty_db_def)
qed

text \<open>The step a fork from the failure starts at.\<close>

lemma fold_min_le:
  "fold min ns n \<in> insert n (set ns) \<and> (\<forall>x \<in> insert n (set ns). (fold min ns n :: int) \<le> x)"
proof (induction ns arbitrary: n)
  case (Cons m ns)
  show ?case using Cons [of "min m n"] by (auto simp: min_def split: if_splits)
qed simp

lemma first_failed_step_Some:
  "first_failed_step d i = Some n \<longleftrightarrow>
     (\<exists>s \<in> set (job_steps d i). s_seq s = n \<and> s_error s \<noteq> None)
     \<and> (\<forall>s \<in> set (job_steps d i). s_error s \<noteq> None \<longrightarrow> n \<le> s_seq s)"
proof -
  let ?ns = "map s_seq (filter (\<lambda>s. s_error s \<noteq> None) (job_steps d i))"
  have "first_failed_step d i = Some n \<longleftrightarrow> n \<in> set ?ns \<and> (\<forall>x \<in> set ?ns. n \<le> x)"
  proof (cases ?ns)
    case (Cons m ms)
    have "fold min ms m \<in> set ?ns \<and> (\<forall>x \<in> set ?ns. fold min ms m \<le> x)"
      using fold_min_le [of ms m] unfolding Cons by simp
    then show ?thesis
      unfolding first_failed_step_def Cons by (auto intro: antisym)
  qed (simp add: first_failed_step_def)
  then show ?thesis by auto
qed

text \<open>
  Forking from the failure re-runs the failing step and nothing before it: when some
  step of the source recorded an error, the fork is created, it holds the checkpoints of
  exactly the steps before the first such one, all of them successes, and executes that step
  first.
\<close>

theorem fork_from_failure_keeps_successes:
  assumes ok: "jobs_ok d" and src: "lookup_job d i = Some src"
    and failed: "s \<in> set (job_steps d i)" "s_error s \<noteq> None"
    and positive: "list_all (\<lambda>s. 1 \<le> s_seq s) (job_steps d i)"
    and version: "validate_app_version v = Inr version"
    and owned: "list_all (\<lambda>s. s_job_id s < next_job_id d) (steps d)"
  shows "\<exists>r d' n. fork_job_from_failure now d i queue priority kw v = Inr (r, d')
    \<and> first_failed_step d i = Some n \<and> n \<le> s_seq s \<and> jobs_ok d'
    \<and> job_steps d' (f_job_id r) =
        map (\<lambda>s. s\<lparr>s_job_id := f_job_id r, s_run_epoch := 0\<rparr>)
          (filter (\<lambda>s. s_seq s < n) (job_steps d i))
    \<and> list_all (\<lambda>s. s_error s = None) (job_steps d' (f_job_id r))
    \<and> lookup_job d' i = Some src \<and> job_steps d' i = job_steps d i"
proof -
  have "first_failed_step d i \<noteq> None"
    using failed by (auto simp: first_failed_step_def filter_empty_conv split: list.splits)
  then obtain n where n: "first_failed_step d i = Some n" by blast
  then obtain f where f: "f \<in> set (job_steps d i)" "s_seq f = n"
    and least: "\<forall>s \<in> set (job_steps d i). s_error s \<noteq> None \<longrightarrow> n \<le> s_seq s"
    by (auto simp: first_failed_step_Some)
  have "n \<le> recorded_steps d i + 1"
    using fold_max_ge [OF f(1), of s_seq 0] f(2) by (simp add: recorded_steps_def)
  moreover have "1 \<le> n" using f positive by (auto simp: list_all_iff)
  ultimately obtain r d' where fork: "fork_job now d i n queue priority kw v = Inr (r, d')"
    and ok': "jobs_ok d'"
    and new: "f_job_id r = next_job_id d"
    and copy: "job_steps d' (f_job_id r) =
        map (\<lambda>s. s\<lparr>s_job_id := f_job_id r, s_run_epoch := 0\<rparr>)
          (filter (\<lambda>s. s_seq s < n) (job_steps d i))"
    and others: "\<forall>m. m \<noteq> f_job_id r \<longrightarrow> lookup_job d' m = lookup_job d m \<and> job_steps d' m = job_steps d m"
    using fork_copies_prefix_core [OF ok src _ _ version owned, of n now queue priority kw] by blast
  have "list_all (\<lambda>s. s_error s = None) (job_steps d' (f_job_id r))"
    using least by (force simp: copy list_all_iff)
  moreover have "i \<noteq> f_job_id r"
    using src ok new by (auto simp: jobs_ok_def dest!: lookup_job_SomeD)
  ultimately show ?thesis
    using n least failed fork ok' copy others src
    by (auto simp: fork_job_from_failure_def)
qed

theorem fork_from_failure_keeps_successes_witness:
  "\<exists>r d'. fork_job_from_failure 50
      ((seed_db [((default_jorb 0 7)\<lparr>j_state := Crashed\<rparr>, [Queued, Claimed, Running, Crashed])])
         \<lparr>steps := [\<lparr>s_job_id = 7, s_seq = 1, s_name = ''a'', s_output = JInt 5, s_error = None,
                   s_run_epoch = 1, s_started = 0, s_finished = 0\<rparr>,
                  \<lparr>s_job_id = 7, s_seq = 2, s_name = ''b'', s_output = JNull, s_error = Some ''e'',
                   s_run_epoch = 1, s_started = 0, s_finished = 0\<rparr>]\<rparr>) 7 None None None JNull
      = Inr (r, d') \<and> list_all (\<lambda>s. s_error s = None) (job_steps d' (f_job_id r))"
proof -
  let ?j = "(default_jorb 0 7)\<lparr>j_state := Crashed\<rparr>"
  let ?b = "\<lparr>s_job_id = 7, s_seq = 2, s_name = ''b'', s_output = JNull, s_error = Some ''e'',
             s_run_epoch = 1, s_started = 0, s_finished = 0\<rparr>"
  let ?d = "(seed_db [(?j, [Queued, Claimed, Running, Crashed])])
         \<lparr>steps := [\<lparr>s_job_id = 7, s_seq = 1, s_name = ''a'', s_output = JInt 5, s_error = None,
                   s_run_epoch = 1, s_started = 0, s_finished = 0\<rparr>, ?b]\<rparr>"
  have "jobs_ok ?d" "lookup_job ?d 7 = Some ?j" by (simp_all add: seed_simps)
  from fork_from_failure_keeps_successes [OF this, of ?b JNull None 50 None None None] show ?thesis
    by (auto simp: job_steps_def seed_db_def empty_db_def)
qed

end
