(* ===== verification/Claim.thy ===== *)
theory Claim
  imports JobSql "HOL-Library.Product_Lexorder"
begin

text \<open>
  The claim path: \<open>claim_jorb\<close> of \<open>sql/schema/30_claim.sql\<close>, which every worker's claim
  statement (\<open>STMTS["claim"]\<close>) is a call of. The queue's controls, the counts taken under
  the queue's advisory lock, the eligibility of a row for a worker and the order among the
  eligible are as the function has them. The lock's outcome (held, or timed out after its
  bounded wait) and the rows other transactions have locked are arguments.
\<close>

section \<open>Queue controls\<close>

text \<open>What the worker advertises.\<close>

record claimer =
  c_queue :: string
  c_capabilities :: "string list"
  c_max_prio :: int
  c_app_version :: "string option"
  c_worker_pid :: int
  c_worker_host :: string
  c_worker_id :: "int option"

definition queue_control :: "database \<Rightarrow> string \<Rightarrow> queue_row option" where
  "queue_control d name = find_row q_name name (queues d)"

definition paused :: "queue_row option \<Rightarrow> bool" where
  "paused q = (case q of None \<Rightarrow> False | Some r \<Rightarrow> q_paused r)"

definition concurrency_cap :: "queue_row option \<Rightarrow> int option" where
  "concurrency_cap q = Option.bind q q_max_concurrency"

definition rate_cap :: "queue_row option \<Rightarrow> int option" where
  "rate_cap q = Option.bind q q_rate_limit"

definition limited :: "queue_row option \<Rightarrow> bool" where
  "limited q \<longleftrightarrow> concurrency_cap q \<noteq> None \<or> rate_cap q \<noteq> None"

definition partitioned :: "queue_row option \<Rightarrow> bool" where
  "partitioned q \<longleftrightarrow> (case q of None \<Rightarrow> False | Some r \<Rightarrow> q_partition_limits r) \<and> limited q"

section \<open>The counts\<close>

definition in_flight :: "jorb list \<Rightarrow> string \<Rightarrow> jorb list" where
  "in_flight rows queue =
     filter (\<lambda>j. j_queue j = queue \<and> j_state j \<in> set IN_FLIGHT_STATES) rows"

definition admitted :: "jorb list \<Rightarrow> string \<Rightarrow> instant \<Rightarrow> jorb list" where
  "admitted rows queue since =
     filter (\<lambda>j. j_queue j = queue \<and> (case j_claimed_at j of None \<Rightarrow> False | Some t \<Rightarrow> since < t)) rows"

definition at_cap :: "int option \<Rightarrow> jorb list \<Rightarrow> bool" where
  "at_cap cap rows = (case cap of None \<Rightarrow> False | Some c \<Rightarrow> c \<le> int (length rows))"

text \<open>
  \<open>SELECT partition_key ... GROUP BY partition_key HAVING count(*) >= cap\<close>: the groups are
  the lanes that have a row, the \<open>NULL\<close> lane (\<open>None\<close>) among them. The function keeps the
  \<open>NULL\<close> lane in a flag beside the array of keys because SQL cannot hold it in the array;
  here both are one list of lanes.
\<close>

definition lane :: "string option \<Rightarrow> jorb list \<Rightarrow> jorb list" where
  "lane k rows = filter (\<lambda>j. j_partition_key j = k) rows"

definition saturated_lanes :: "int option \<Rightarrow> jorb list \<Rightarrow> string option list" where
  "saturated_lanes cap rows =
     (case cap of
        None \<Rightarrow> []
      | Some c \<Rightarrow> filter (\<lambda>k. c \<le> int (length (lane k rows))) (remdups (map j_partition_key rows)))"

section \<open>The claim\<close>

definition eligible :: "claimer \<Rightarrow> instant \<Rightarrow> jorb \<Rightarrow> bool" where
  "eligible w now j \<longleftrightarrow>
     j_queue j = c_queue w
     \<and> (case j_capability j of None \<Rightarrow> True | Some c \<Rightarrow> c \<in> set (c_capabilities w))
     \<and> (j_app_version j = None \<or> j_app_version j = c_app_version w)
     \<and> j_prio j \<le> c_max_prio w
     \<and> j_run_after j \<le> now
     \<and> j_state j = Queued"

text \<open>\<open>ORDER BY j.prio, j.run_after FOR UPDATE OF j SKIP LOCKED LIMIT 1\<close>\<close>

definition candidates ::
  "claimer \<Rightarrow> instant \<Rightarrow> job_id set \<Rightarrow> string option list \<Rightarrow> jorb list \<Rightarrow> jorb list" where
  "candidates w now locked blocked rows =
     filter (\<lambda>j. eligible w now j \<and> j_partition_key j \<notin> set blocked \<and> j_id j \<notin> locked) rows"

definition pick :: "jorb list \<Rightarrow> jorb option" where
  "pick rows =
     (case sort_key (\<lambda>j. (j_prio j, j_run_after j)) rows of [] \<Rightarrow> None | j # _ \<Rightarrow> Some j)"

definition claim_set :: "claimer \<Rightarrow> instant \<Rightarrow> jorb \<Rightarrow> jorb" where
  "claim_set w now j = j\<lparr>
     j_state := Claimed,
     j_worker_pid := Some (c_worker_pid w),
     j_worker_host := Some (c_worker_host w),
     j_claimed_by := c_worker_id w,
     j_claimed_at := Some now,
     j_run_count := j_run_count j + 1,
     j_run_epoch := j_run_epoch j + 1,
     j_updated := now\<rparr>"

text \<open>The subselect locks the row it returns, so it is still queued when it is updated.\<close>

definition claim_where :: "job_id option \<Rightarrow> jorb \<Rightarrow> bool" where
  "claim_where i j \<longleftrightarrow> i = Some (j_id j) \<and> j_state j = Queued"

definition claim_from ::
  "claimer \<Rightarrow> instant \<Rightarrow> job_id set \<Rightarrow> string option list \<Rightarrow> database
     \<Rightarrow> sql_error + (jorb list \<times> database)" where
  "claim_from w now locked blocked d =
     (let target = map_option j_id (pick (candidates w now locked blocked (jobs d)))
      in update_jobs (claim_where target) (claim_set w now) d)"

definition claim_jorb ::
  "claimer \<Rightarrow> instant \<Rightarrow> job_id set \<Rightarrow> bool \<Rightarrow> database
     \<Rightarrow> sql_error + (jorb list \<times> database)" where
  "claim_jorb w now locked lock_held d =
     (let q = queue_control d (c_queue w);
          rows = in_flight (jobs d) (c_queue w);
          period = (case q of None \<Rightarrow> 0 | Some r \<Rightarrow> q_rate_period r);
          recent = admitted (jobs d) (c_queue w) (now - period)
      in if paused q then Inr ([], d)
         else if limited q \<and> \<not> lock_held then Inr ([], d)
         else if limited q \<and> \<not> partitioned q
                 \<and> (at_cap (concurrency_cap q) rows \<or> at_cap (rate_cap q) recent)
              then Inr ([], d)
         else if partitioned q
              then claim_from w now locked
                     (saturated_lanes (concurrency_cap q) rows @ saturated_lanes (rate_cap q) recent) d
         else claim_from w now locked [] d)"

declare claim_set_def [row_simps] claim_where_def [where_simps]

interpretation claim: cancel_keeping "claim_where i" "claim_set w now" for i w now
  by unfold_locales (auto simp: row_simps where_simps contract_simps)

section \<open>What the claim picks\<close>

lemma pick_Nil [simp]: "pick [] = None"
  by (simp add: pick_def)

lemma pick_None [simp]: "pick rows = None \<longleftrightarrow> rows = []"
proof -
  have "sort_key (\<lambda>j. (j_prio j, j_run_after j)) rows = [] \<longleftrightarrow> rows = []"
    by (metis length_0_conv length_sort)
  then show ?thesis by (auto simp: pick_def split: list.splits)
qed

lemma pick_Some:
  assumes "pick rows = Some j"
  shows "j \<in> set rows \<and> (\<forall>k \<in> set rows. (j_prio j, j_run_after j) \<le> (j_prio k, j_run_after k))"
proof -
  have "rows \<noteq> []" using assms by auto
  moreover have "hd (sort_key (\<lambda>j. (j_prio j, j_run_after j)) rows) = j"
    using assms by (auto simp: pick_def split: list.splits)
  ultimately show ?thesis
    using hd_sort_key_least [of rows "\<lambda>j. (j_prio j, j_run_after j)"] by simp
qed

text \<open>A claim takes the one picked row and no other.\<close>

lemma claim_from_eq:
  assumes ok: "jobs_ok d"
  shows "claim_from w now locked blocked d =
    (let i = map_option j_id (pick (candidates w now locked blocked (jobs d)))
     in Inr (case pick (candidates w now locked blocked (jobs d)) of
               None \<Rightarrow> [] | Some j \<Rightarrow> [claim_set w now j],
             claim.after i w now d))"
proof -
  let ?p = "pick (candidates w now locked blocked (jobs d))"
  have "filter (claim_where (map_option j_id ?p)) (jobs d) = (case ?p of None \<Rightarrow> [] | Some j \<Rightarrow> [j])"
  proof (cases ?p)
    case None
    then show ?thesis by (simp add: claim_where_def)
  next
    case (Some j)
    then have j: "j \<in> set (jobs d)" "j_state j = Queued"
      using pick_Some [OF Some] by (auto simp: candidates_def eligible_def)
    have "filter (claim_where (Some (j_id j))) (jobs d) = [j]"
      using j ok by (intro filter_one_row [where key = j_id])
        (auto simp: claim_where_def jobs_ok_def unique_ok_def)
    with Some show ?thesis by simp
  qed
  then show ?thesis
    by (simp add: claim_from_def claim.runs [OF ok] Let_def split: option.splits)
qed

text \<open>The lanes a claim may not take from, and whether the queue as a whole refuses.\<close>

definition blocked_lanes :: "database \<Rightarrow> string \<Rightarrow> instant \<Rightarrow> string option list" where
  "blocked_lanes d queue now =
     (let q = queue_control d queue;
          period = (case q of None \<Rightarrow> 0 | Some r \<Rightarrow> q_rate_period r)
      in if partitioned q
         then saturated_lanes (concurrency_cap q) (in_flight (jobs d) queue)
              @ saturated_lanes (rate_cap q) (admitted (jobs d) queue (now - period))
         else [])"

definition queue_open :: "database \<Rightarrow> string \<Rightarrow> instant \<Rightarrow> bool \<Rightarrow> bool" where
  "queue_open d queue now lock_held \<longleftrightarrow>
     (let q = queue_control d queue;
          period = (case q of None \<Rightarrow> 0 | Some r \<Rightarrow> q_rate_period r)
      in \<not> paused q \<and> (limited q \<longrightarrow> lock_held)
         \<and> (limited q \<and> \<not> partitioned q \<longrightarrow>
              \<not> at_cap (concurrency_cap q) (in_flight (jobs d) queue)
              \<and> \<not> at_cap (rate_cap q) (admitted (jobs d) queue (now - period))))"

lemma claim_jorb_eq:
  "claim_jorb w now locked lock_held d =
     (if queue_open d (c_queue w) now lock_held
      then claim_from w now locked (blocked_lanes d (c_queue w) now) d
      else Inr ([], d))"
  by (auto simp: claim_jorb_def queue_open_def blocked_lanes_def Let_def)

text \<open>The shape of a claim that took a row.\<close>

lemma claim_jorb_took:
  assumes ok: "jobs_ok d" and claim: "claim_jorb w now locked held d = Inr (k # ks, d')"
  obtains j where "ks = []" "k = claim_set w now j" "j \<in> set (jobs d)"
    "pick (candidates w now locked (blocked_lanes d (c_queue w) now) (jobs d)) = Some j"
    "queue_open d (c_queue w) now held"
    "j_state j = Queued" "d' = claim.after (Some (j_id j)) w now d"
    "jobs d' = map (\<lambda>r. if j_id r = j_id j then claim_set w now r else r) (jobs d)"
proof -
  let ?p = "pick (candidates w now locked (blocked_lanes d (c_queue w) now) (jobs d))"
  have op: "queue_open d (c_queue w) now held"
    using claim by (auto simp: claim_jorb_eq split: if_splits)
  with claim obtain j where j: "?p = Some j" "k = claim_set w now j" "ks = []"
    and d': "d' = claim.after (Some (j_id j)) w now d"
    by (auto simp: claim_jorb_eq claim_from_eq [OF ok] Let_def split: option.splits)
  have mem: "j \<in> set (jobs d)" "j_state j = Queued"
    using pick_Some [OF j(1)] by (auto simp: candidates_def eligible_def)
  have "r = j" if "r \<in> set (jobs d)" "j_id r = j_id j" for r
    using that mem ok by (auto simp: jobs_ok_def unique_ok_def distinct_map dest: inj_onD)
  then have "jobs d' = map (\<lambda>r. if j_id r = j_id j then claim_set w now r else r) (jobs d)"
    using mem by (auto simp: d' claim_where_def)
  with op j d' mem that show ?thesis by blast
qed

text \<open>
  C14. A claim never fails and admits at most one job. The job it admits was queued, due, at
  or below the worker's ceiling, of a capability and a version the worker has, not locked by
  another claim and not in a blocked lane, on a queue that is not paused; no other such job
  came before it in the queue's order; it is now in flight at a new epoch, and no other row
  changed.
\<close>

theorem claim_admits_the_first_eligible_job:
  assumes ok: "jobs_ok d"
  shows "\<exists>ks d'. claim_jorb w now locked held d = Inr (ks, d') \<and> jobs_ok d' \<and> length ks \<le> 1
    \<and> (\<forall>k. ks = [k] \<longrightarrow> (\<exists>j. lookup_job d (j_id k) = Some j \<and> k = claim_set w now j
          \<and> eligible w now j \<and> j_id j \<notin> locked
          \<and> j_partition_key j \<notin> set (blocked_lanes d (c_queue w) now)
          \<and> \<not> paused (queue_control d (c_queue w))
          \<and> (\<forall>x \<in> set (candidates w now locked (blocked_lanes d (c_queue w) now) (jobs d)).
                j_prio j < j_prio x \<or> j_prio j = j_prio x \<and> j_run_after j \<le> j_run_after x)
          \<and> j_state k = Claimed \<and> j_run_epoch j < j_run_epoch k
          \<and> lookup_job d' (j_id k) = Some k
          \<and> (\<forall>m. m \<noteq> j_id k \<longrightarrow> lookup_job d' m = lookup_job d m)))
    \<and> (ks = [] \<longrightarrow> jobs d' = jobs d)"
proof -
  have "\<exists>x. claim_jorb w now locked held d = Inr x"
    by (cases "queue_open d (c_queue w) now held")
      (simp_all add: claim_jorb_eq claim_from_eq [OF ok] Let_def)
  then obtain ks d' where run: "claim_jorb w now locked held d = Inr (ks, d')"
    by (metis surj_pair)
  have ok': "jobs_ok d'"
    using run claim.after_ok [OF ok] ok
    by (auto simp: claim_jorb_eq claim_from_eq [OF ok] Let_def split: if_splits)
  show ?thesis
  proof (cases ks)
    case Nil
    with run have "jobs d' = jobs d"
      by (auto simp: claim_jorb_eq claim_from_eq [OF ok] Let_def claim_where_def
          split: if_splits option.splits)
    with Nil run ok' show ?thesis by auto
  next
    case (Cons k ks')
    with run ok obtain j where j: "ks' = []" "k = claim_set w now j" "j \<in> set (jobs d)"
      "pick (candidates w now locked (blocked_lanes d (c_queue w) now) (jobs d)) = Some j"
      "queue_open d (c_queue w) now held"
      and d': "d' = claim.after (Some (j_id j)) w now d" "j_state j = Queued"
      by (auto elim: claim_jorb_took)
    have id: "j_id k = j_id j" by (simp add: j(2) claim_set_def)
    have row: "lookup_job d (j_id j) = Some j"
      using ok j(3) by (simp add: lookup_job_def find_row_job jobs_ok_def unique_ok_def)
    have hit: "lookup_job d' (j_id j) = Some k"
      by (simp add: d' claim.after_lookup row j(2) claim_where_def)
    have rest: "lookup_job d' m = lookup_job d m" if "m \<noteq> j_id j" for m
      unfolding d'(1) using that by (intro claim.after_lookup_other) (auto simp: claim_where_def)
    have "j \<in> set (candidates w now locked (blocked_lanes d (c_queue w) now) (jobs d))"
      and first: "\<forall>x \<in> set (candidates w now locked (blocked_lanes d (c_queue w) now) (jobs d)).
        j_prio j < j_prio x \<or> j_prio j = j_prio x \<and> j_run_after j \<le> j_run_after x"
      using pick_Some [OF j(4)] by (auto simp: less_eq_prod_def)
    then show ?thesis
      using j(1,2,5) Cons run ok' row hit rest
      by (auto simp: id candidates_def queue_open_def Let_def row_simps)
  qed
qed

theorem claim_admits_the_first_eligible_job_witness:
  "\<exists>d'. claim_jorb \<lparr>c_queue = ''default'', c_capabilities = [], c_max_prio = 1000,
       c_app_version = None, c_worker_pid = 1, c_worker_host = ''h'', c_worker_id = Some 1\<rparr> 10 {} True
     (seed_db [(default_jorb 0 1, [Queued])])
   = Inr ([claim_set \<lparr>c_queue = ''default'', c_capabilities = [], c_max_prio = 1000,
       c_app_version = None, c_worker_pid = 1, c_worker_host = ''h'', c_worker_id = Some 1\<rparr> 10
       (default_jorb 0 1)], d') \<and> jobs_ok d'"
proof -
  let ?w = "\<lparr>c_queue = ''default'', c_capabilities = [], c_max_prio = 1000,
       c_app_version = None, c_worker_pid = 1, c_worker_host = ''h'', c_worker_id = Some 1\<rparr>"
  let ?d = "seed_db [(default_jorb 0 1, [Queued])]"
  have ok: "jobs_ok ?d" by (simp add: seed_simps)
  have "queue_open ?d ''default'' 10 True" "blocked_lanes ?d ''default'' 10 = []"
    by (simp_all add: queue_open_def blocked_lanes_def queue_control_def paused_def limited_def
        partitioned_def concurrency_cap_def rate_cap_def seed_db_def empty_db_def)
  moreover have "candidates ?w 10 {} [] (jobs ?d) = [default_jorb 0 1]"
    by (simp add: candidates_def eligible_def seed_db_def empty_db_def)
  ultimately have "\<exists>e. claim_jorb ?w 10 {} True ?d = Inr ([claim_set ?w 10 (default_jorb 0 1)], e)"
    by (simp add: claim_jorb_eq claim_from_eq [OF ok] Let_def pick_def)
  with claim_admits_the_first_eligible_job [OF ok, of ?w 10 "{}" True] show ?thesis
    by auto
qed

text \<open>
  No starvation at the claim: whenever the queue is open to the claimer and some
  eligible, unlocked job sits in a lane that is not blocked, the claim takes a job.
\<close>

theorem claim_takes_work_that_is_there:
  assumes ok: "jobs_ok d" and "queue_open d (c_queue w) now held"
    and "j \<in> set (jobs d)" "eligible w now j" "j_id j \<notin> locked"
    and "j_partition_key j \<notin> set (blocked_lanes d (c_queue w) now)"
  shows "\<exists>k d'. claim_jorb w now locked held d = Inr ([k], d')"
proof -
  have "candidates w now locked (blocked_lanes d (c_queue w) now) (jobs d) \<noteq> []"
    using assms by (auto simp: candidates_def filter_empty_conv)
  then obtain k where "pick (candidates w now locked (blocked_lanes d (c_queue w) now) (jobs d)) = Some k"
    by (metis not_None_eq pick_None)
  with assms(2) show ?thesis
    by (simp add: claim_jorb_eq claim_from_eq [OF ok] Let_def)
qed

theorem claim_takes_work_that_is_there_witness:
  "\<exists>k d'. claim_jorb \<lparr>c_queue = ''default'', c_capabilities = [], c_max_prio = 1000,
       c_app_version = None, c_worker_pid = 1, c_worker_host = ''h'', c_worker_id = Some 1\<rparr> 10 {} False
     (seed_db [(default_jorb 0 1, [Queued])]) = Inr ([k], d')"
  by (rule claim_takes_work_that_is_there [where j = "default_jorb 0 1"])
    (simp_all add: seed_simps queue_open_def blocked_lanes_def queue_control_def paused_def
      limited_def partitioned_def concurrency_cap_def rate_cap_def eligible_def)

section \<open>Caps\<close>

text \<open>What one claim does to a count over the rows: it adds the claimed one.\<close>

lemma claim_count:
  assumes "jobs_ok d" and "j \<in> set (jobs d)"
    and "jobs d' = map (\<lambda>r. if j_id r = j_id j then claim_set w now r else r) (jobs d)"
  shows "length (filter q (jobs d')) + (if q j then 1 else 0)
    = length (filter q (jobs d)) + (if q (claim_set w now j) then 1 else 0)"
  unfolding assms(3)
  by (rule length_filter_upd_one) (use assms jobs_ok_distinct in auto)

lemma claim_in_flight:
  assumes "jobs_ok d" and "j \<in> set (jobs d)" and "j_state j = Queued"
    and "jobs d' = map (\<lambda>r. if j_id r = j_id j then claim_set w now r else r) (jobs d)"
  shows "length (filter q (in_flight (jobs d') queue)) =
    length (filter q (in_flight (jobs d) queue))
      + (if j_queue j = queue \<and> q (claim_set w now j) then 1 else 0)"
  using claim_count [OF assms(1,2,4),
      of "\<lambda>j. (j_queue j = queue \<and> j_state j \<in> set IN_FLIGHT_STATES) \<and> q j"] assms(3)
  by (simp add: in_flight_def row_simps conj_commute cong: if_cong)

text \<open>
  C15. A concurrency cap is exact. When a queue with a cap and no lanes admits a job, the
  jobs in flight on it afterwards are one more than before and still at most the cap.
\<close>

theorem concurrency_cap_is_exact:
  assumes ok: "jobs_ok d" and claim: "claim_jorb w now locked held d = Inr (k # ks, d')"
    and cap: "concurrency_cap (queue_control d (c_queue w)) = Some c"
    and whole: "\<not> partitioned (queue_control d (c_queue w))"
  shows "held
    \<and> length (in_flight (jobs d') (c_queue w)) = Suc (length (in_flight (jobs d) (c_queue w)))
    \<and> int (length (in_flight (jobs d') (c_queue w))) \<le> c"
proof -
  from ok claim obtain j where j: "j \<in> set (jobs d)" "j_state j = Queued"
    "queue_open d (c_queue w) now held"
    "pick (candidates w now locked (blocked_lanes d (c_queue w) now) (jobs d)) = Some j"
    and d': "jobs d' = map (\<lambda>r. if j_id r = j_id j then claim_set w now r else r) (jobs d)"
    by (auto elim: claim_jorb_took)
  have "j_queue j = c_queue w"
    using pick_Some [OF j(4)] by (auto simp: candidates_def eligible_def)
  then have "length (in_flight (jobs d') (c_queue w)) = Suc (length (in_flight (jobs d) (c_queue w)))"
    using claim_in_flight [OF ok j(1,2) d', of "\<lambda>_. True" "c_queue w"] by simp
  moreover have "held" "int (length (in_flight (jobs d) (c_queue w))) < c"
    using j(3) cap whole by (auto simp: queue_open_def limited_def at_cap_def Let_def)
  ultimately show ?thesis by simp
qed

theorem concurrency_cap_is_exact_witness:
  "length (in_flight (jobs (claim.after (Some 1)
       \<lparr>c_queue = ''default'', c_capabilities = [], c_max_prio = 1000, c_app_version = None,
        c_worker_pid = 1, c_worker_host = ''h'', c_worker_id = Some 1\<rparr> 10
       ((seed_db [(default_jorb 0 1, [Queued])])\<lparr>queues := [\<lparr>q_name = ''default'',
          q_paused = False, q_max_concurrency = Some 1, q_rate_limit = None,
          q_rate_period = 60000000, q_partition_limits = False\<rparr>]\<rparr>))) ''default'') = 1"
proof -
  let ?w = "\<lparr>c_queue = ''default'', c_capabilities = [], c_max_prio = 1000,
       c_app_version = None, c_worker_pid = 1, c_worker_host = ''h'', c_worker_id = Some 1\<rparr>"
  let ?d = "(seed_db [(default_jorb 0 1, [Queued])])\<lparr>queues := [\<lparr>q_name = ''default'',
          q_paused = False, q_max_concurrency = Some 1, q_rate_limit = None,
          q_rate_period = 60000000, q_partition_limits = False\<rparr>]\<rparr>"
  have ok: "jobs_ok ?d" by (simp add: seed_simps)
  have "queue_open ?d ''default'' 10 True" "blocked_lanes ?d ''default'' 10 = []"
    by (simp_all add: queue_open_def blocked_lanes_def queue_control_def paused_def limited_def
        partitioned_def concurrency_cap_def rate_cap_def seed_db_def empty_db_def at_cap_def
        in_flight_def)
  moreover have "candidates ?w 10 {} [] (jobs ?d) = [default_jorb 0 1]"
    by (simp add: candidates_def eligible_def seed_db_def empty_db_def)
  ultimately have claim: "claim_jorb ?w 10 {} True ?d =
      Inr ([claim_set ?w 10 (default_jorb 0 1)], claim.after (Some 1) ?w 10 ?d)"
    by (simp add: claim_jorb_eq claim_from_eq [OF ok] Let_def pick_def)
  have none: "in_flight (jobs (seed_db [(default_jorb 0 1, [Queued])])) ''default'' = []"
    by (simp add: in_flight_def seed_db_def empty_db_def)
  show ?thesis
    using concurrency_cap_is_exact [OF ok claim, of 1]
    by (simp add: none queue_control_def concurrency_cap_def partitioned_def)
qed

text \<open>The lanes the grouped count calls saturated.\<close>

lemma saturated_lanes_iff:
  "k \<in> set (saturated_lanes (Some c) rows) \<longleftrightarrow>
     c \<le> int (length (lane k rows)) \<and> k \<in> j_partition_key ` set rows"
  by (auto simp: saturated_lanes_def)

lemma lane_Nil: "k \<notin> j_partition_key ` set rows \<Longrightarrow> lane k rows = []"
  by (auto simp: lane_def filter_empty_conv)

text \<open>
  With lanes the cap holds lane by lane: a positive cap bounds the lane a job is
  admitted to, the unlabelled lane like any other, and the admission adds to no other lane.
\<close>

theorem lane_cap_is_exact:
  assumes ok: "jobs_ok d" and claim: "claim_jorb w now locked held d = Inr (k # ks, d')"
    and cap: "concurrency_cap (queue_control d (c_queue w)) = Some c" and pos: "1 \<le> c"
    and lanes: "partitioned (queue_control d (c_queue w))"
  shows "int (length (lane (j_partition_key k) (in_flight (jobs d') (c_queue w)))) \<le> c
    \<and> (\<forall>l. l \<noteq> j_partition_key k \<longrightarrow>
          length (lane l (in_flight (jobs d') (c_queue w)))
            = length (lane l (in_flight (jobs d) (c_queue w))))"
proof -
  from ok claim obtain j where j: "j \<in> set (jobs d)" "j_state j = Queued" "k = claim_set w now j"
    "pick (candidates w now locked (blocked_lanes d (c_queue w) now) (jobs d)) = Some j"
    and d': "jobs d' = map (\<lambda>r. if j_id r = j_id j then claim_set w now r else r) (jobs d)"
    by (auto elim: claim_jorb_took)
  let ?rows = "in_flight (jobs d) (c_queue w)"
  have q: "j_queue j = c_queue w" and "j_partition_key j \<notin> set (blocked_lanes d (c_queue w) now)"
    using pick_Some [OF j(4)] by (auto simp: candidates_def eligible_def)
  then have "j_partition_key j \<notin> set (saturated_lanes (Some c) ?rows)"
    using lanes cap by (simp add: blocked_lanes_def Let_def)
  then have room: "int (length (lane (j_partition_key j) ?rows)) < c"
    using pos lane_Nil [of "j_partition_key j" ?rows] by (auto simp: saturated_lanes_iff)
  have key: "j_partition_key k = j_partition_key j" by (simp add: j(3) claim_set_def)
  have count: "length (lane l (in_flight (jobs d') (c_queue w))) =
      length (lane l ?rows) + (if l = j_partition_key j then 1 else 0)" for l
    using claim_in_flight [OF ok j(1,2) d', of "\<lambda>j. j_partition_key j = l" "c_queue w"] q
    by (auto simp: lane_def claim_set_def)
  show ?thesis using room by (simp add: key count)
qed

theorem lane_cap_is_exact_witness:
  "int (length (lane (Some ''a'') (in_flight (jobs (claim.after (Some 1)
       \<lparr>c_queue = ''default'', c_capabilities = [], c_max_prio = 1000, c_app_version = None,
        c_worker_pid = 1, c_worker_host = ''h'', c_worker_id = Some 1\<rparr> 10
       ((seed_db [((default_jorb 0 1)\<lparr>j_partition_key := Some ''a''\<rparr>, [Queued])])
          \<lparr>queues := [\<lparr>q_name = ''default'', q_paused = False, q_max_concurrency = Some 1,
             q_rate_limit = None, q_rate_period = 60000000, q_partition_limits = True\<rparr>]\<rparr>)))
       ''default''))) \<le> 1"
proof -
  let ?w = "\<lparr>c_queue = ''default'', c_capabilities = [], c_max_prio = 1000,
       c_app_version = None, c_worker_pid = 1, c_worker_host = ''h'', c_worker_id = Some 1\<rparr>"
  let ?j = "(default_jorb 0 1)\<lparr>j_partition_key := Some ''a''\<rparr>"
  let ?d = "(seed_db [(?j, [Queued])])\<lparr>queues := [\<lparr>q_name = ''default'',
          q_paused = False, q_max_concurrency = Some 1, q_rate_limit = None,
          q_rate_period = 60000000, q_partition_limits = True\<rparr>]\<rparr>"
  have ok: "jobs_ok ?d" by (simp add: seed_simps)
  have "queue_open ?d ''default'' 10 True" "blocked_lanes ?d ''default'' 10 = []"
    by (simp_all add: queue_open_def blocked_lanes_def queue_control_def paused_def limited_def
        partitioned_def concurrency_cap_def rate_cap_def seed_db_def empty_db_def
        in_flight_def saturated_lanes_def)
  moreover have "candidates ?w 10 {} [] (jobs ?d) = [?j]"
    by (simp add: candidates_def eligible_def seed_db_def empty_db_def)
  ultimately have claim: "claim_jorb ?w 10 {} True ?d =
      Inr ([claim_set ?w 10 ?j], claim.after (Some 1) ?w 10 ?d)"
    by (simp add: claim_jorb_eq claim_from_eq [OF ok] Let_def pick_def)
  show ?thesis
    using lane_cap_is_exact [OF ok claim, of 1]
    by (simp add: queue_control_def concurrency_cap_def partitioned_def limited_def claim_set_def)
qed

text \<open>
  A lane cap of zero does not hold: the grouped count has a group only for a lane with a
  job in flight, so an idle lane is never found saturated, and a queue whose cap of zero
  admits nothing when counted as a whole admits one job to each idle lane when counted by lane.
\<close>

theorem lane_cap_zero_admits:
  "let w = \<lparr>c_queue = ''default'', c_capabilities = [], c_max_prio = 1000, c_app_version = None,
            c_worker_pid = 1, c_worker_host = ''h'', c_worker_id = Some 1\<rparr>;
       db = (\<lambda>by_lane. (seed_db [((default_jorb 0 1)\<lparr>j_partition_key := Some ''a''\<rparr>, [Queued])])
              \<lparr>queues := [\<lparr>q_name = ''default'', q_paused = False, q_max_concurrency = Some 0,
                 q_rate_limit = None, q_rate_period = 60000000,
                 q_partition_limits = by_lane\<rparr>]\<rparr>)
   in claim_jorb w 10 {} True (db False) = Inr ([], db False)
      \<and> (\<exists>k d'. claim_jorb w 10 {} True (db True) = Inr ([k], d')
           \<and> length (lane (Some ''a'') (in_flight (jobs d') ''default'')) = 1)"
proof -
  let ?w = "\<lparr>c_queue = ''default'', c_capabilities = [], c_max_prio = 1000, c_app_version = None,
            c_worker_pid = 1, c_worker_host = ''h'', c_worker_id = Some 1\<rparr>"
  let ?j = "(default_jorb 0 1)\<lparr>j_partition_key := Some ''a''\<rparr>"
  let ?q = "\<lambda>by_lane. \<lparr>q_name = ''default'', q_paused = False, q_max_concurrency = Some 0,
                 q_rate_limit = None, q_rate_period = 60000000, q_partition_limits = by_lane\<rparr>"
  let ?d = "\<lambda>by_lane. (seed_db [(?j, [Queued])])\<lparr>queues := [?q by_lane]\<rparr>"
  have ok: "jobs_ok (?d True)" by (simp add: seed_simps)
  have q: "queue_control (?d b) ''default'' = Some (?q b)" for b
    by (simp add: queue_control_def)
  have rows: "jobs (?d b) = [?j]" for b by (simp add: seed_db_def)
  have refused: "claim_jorb ?w 10 {} True (?d False) = Inr ([], ?d False)"
    by (simp add: claim_jorb_eq queue_open_def q limited_def partitioned_def concurrency_cap_def
        paused_def rows in_flight_def at_cap_def)
  have "queue_open (?d True) ''default'' 10 True" "blocked_lanes (?d True) ''default'' 10 = []"
    by (simp_all add: queue_open_def blocked_lanes_def q paused_def limited_def partitioned_def
        concurrency_cap_def rate_cap_def rows in_flight_def saturated_lanes_def)
  moreover have "candidates ?w 10 {} [] (jobs (?d True)) = [?j]"
    by (simp add: candidates_def eligible_def rows)
  ultimately have "claim_jorb ?w 10 {} True (?d True) =
      Inr ([claim_set ?w 10 ?j], claim.after (Some 1) ?w 10 (?d True))"
    by (simp add: claim_jorb_eq claim_from_eq [OF ok] Let_def pick_def)
  moreover have "length (lane (Some ''a'')
      (in_flight (jobs (claim.after (Some 1) ?w 10 (?d True))) ''default'')) = 1"
    by (simp add: rows claim_where_def claim_set_def in_flight_def lane_def)
  ultimately show ?thesis using refused by (simp add: Let_def)
qed

end
