(* ===== verification/Dxe.thy ===== *)
theory Dxe
  imports Store
begin

text \<open>
  The statements of the durable execution engine (\<open>pyjobby/dxe.py\<close>): checkpoints, events,
  streams, mailboxes and compaction. Every writing statement opens with a fence on the job
  row, taken as a lock: it writes only while the writer's epoch owns the row, so here the
  fence and the write are one atomic function of the database.
\<close>

section \<open>The fence\<close>

definition owns :: "database \<Rightarrow> job_id \<Rightarrow> int \<Rightarrow> bool" where
  "owns d i epoch = (case lookup_job d i of None \<Rightarrow> False | Some j \<Rightarrow> j_run_epoch j = epoch)"

text \<open>\<open>LOAD_STEPS_SQL\<close>\<close>

definition load_steps :: "database \<Rightarrow> job_id \<Rightarrow> step_row list" where
  "load_steps d i = sort_key s_seq (job_steps d i)"

section \<open>Checkpoints\<close>

text \<open>
  \<open>RECORD_STEP_SQL\<close>: an upsert on (job, sequence number) in which an error never replaces
  a recorded success. The result is whether a row was written (\<open>RETURNING step_seq\<close>).
\<close>

definition merge_step :: "step_row \<Rightarrow> step_row \<Rightarrow> step_row" where
  "merge_step old new =
     (if s_error old = None \<and> s_error new \<noteq> None then old
      else old\<lparr>s_name := s_name new, s_output := s_output new, s_error := s_error new,
               s_run_epoch := s_run_epoch new, s_started := s_started new,
               s_finished := s_finished new\<rparr>)"

definition step_at :: "database \<Rightarrow> job_id \<Rightarrow> int \<Rightarrow> step_row option" where
  "step_at d i seq = find_row (\<lambda>s. (s_job_id s, s_seq s)) (i, seq) (steps d)"

definition upsert_step :: "(step_row \<Rightarrow> step_row \<Rightarrow> step_row) \<Rightarrow> step_row \<Rightarrow> step_row list \<Rightarrow> step_row list" where
  "upsert_step merge new rows =
     (case find_row (\<lambda>s. (s_job_id s, s_seq s)) (s_job_id new, s_seq new) rows of
        None \<Rightarrow> rows @ [new]
      | Some _ \<Rightarrow>
          map (\<lambda>s. if (s_job_id s, s_seq s) = (s_job_id new, s_seq new) then merge s new else s)
            rows)"

definition record_step ::
  "instant \<Rightarrow> job_id \<Rightarrow> int \<Rightarrow> string \<Rightarrow> json \<Rightarrow> string option \<Rightarrow> int \<Rightarrow> instant \<Rightarrow> database
     \<Rightarrow> bool \<times> database" where
  "record_step now i seq name out err epoch started d =
     (if owns d i epoch
      then (True, d\<lparr>steps := upsert_step merge_step
             \<lparr>s_job_id = i, s_seq = seq, s_name = name, s_output = out, s_error = err,
              s_run_epoch = epoch, s_started = started, s_finished = now\<rparr> (steps d)\<rparr>)
      else (False, d))"

text \<open>\<open>COMPACT_FENCE_SQL\<close> and \<open>COMPACT_STEPS_SQL\<close>, the fence first.\<close>

definition compact_fence :: "job_id \<Rightarrow> int \<Rightarrow> database \<Rightarrow> bool" where
  "compact_fence i epoch d = owns d i epoch"

definition compact_steps :: "job_id \<Rightarrow> database \<Rightarrow> nat \<times> database" where
  "compact_steps i d =
     (length (job_steps d i), d\<lparr>steps := filter (\<lambda>s. s_job_id s \<noteq> i) (steps d)\<rparr>)"

section \<open>Events\<close>

definition set_event_stmt ::
  "instant \<Rightarrow> job_id \<Rightarrow> string \<Rightarrow> json \<Rightarrow> int \<Rightarrow> database \<Rightarrow> bool \<times> database" where
  "set_event_stmt now i key v epoch d =
     (if owns d i epoch
      then (True, d\<lparr>events :=
        (case find_row (\<lambda>e. (e_job_id e, e_key e)) (i, key) (events d) of
           None \<Rightarrow> events d @ [\<lparr>e_job_id = i, e_key = key, e_value = v, e_updated = now\<rparr>]
         | Some _ \<Rightarrow>
             map (\<lambda>e. if (e_job_id e, e_key e) = (i, key)
                      then e\<lparr>e_value := v, e_updated := now\<rparr> else e) (events d))\<rparr>)
      else (False, d))"

definition get_event_stmt :: "job_id \<Rightarrow> string \<Rightarrow> database \<Rightarrow> json option" where
  "get_event_stmt i key d =
     map_option e_value (find_row (\<lambda>e. (e_job_id e, e_key e)) (i, key) (events d))"

section \<open>Streams\<close>

definition stream_rows :: "database \<Rightarrow> job_id \<Rightarrow> string \<Rightarrow> stream_row list" where
  "stream_rows d i key = filter (\<lambda>s. st_job_id s = i \<and> st_key s = key) (streams d)"

definition next_stream_seq :: "stream_row list \<Rightarrow> int" where
  "next_stream_seq rows = fold (\<lambda>s m. max (st_seq s) m) rows (- 1) + 1"

record append_result =
  a_fenced :: bool
  a_already_closed :: bool
  a_seq :: "int option"

text \<open>\<open>STREAM_APPEND_SQL\<close>: the position is assigned by the statement that writes the row.\<close>

definition stream_append ::
  "job_id \<Rightarrow> string \<Rightarrow> json \<Rightarrow> bool \<Rightarrow> int \<Rightarrow> database \<Rightarrow> append_result \<times> database" where
  "stream_append i key v closed epoch d =
     (let locked = owns d i epoch;
          rows = stream_rows d i key;
          shut = list_ex st_closed rows;
          n = next_stream_seq rows
      in if locked \<and> \<not> shut
         then (\<lparr>a_fenced = locked, a_already_closed = shut, a_seq = Some n\<rparr>,
               d\<lparr>streams := streams d @ [\<lparr>st_job_id = i, st_key = key, st_seq = n, st_value = v,
                                          st_closed = closed, st_run_epoch = epoch\<rparr>]\<rparr>)
         else (\<lparr>a_fenced = locked, a_already_closed = shut, a_seq = None\<rparr>, d))"

section \<open>Mailboxes\<close>

text \<open>\<open>SEND_SQL\<close>, fenced on the sender; the destination is a foreign key.\<close>

definition send_stmt ::
  "job_id \<Rightarrow> string option \<Rightarrow> json \<Rightarrow> job_id \<Rightarrow> int \<Rightarrow> database
     \<Rightarrow> (sql_error + int option) \<times> database" where
  "send_stmt dest topic message sender epoch d =
     (if \<not> owns d sender epoch then (Inr None, d)
      else if lookup_job d dest = None then (Inl ForeignKeyViolation, d)
      else (Inr (Some (next_mail_id d)),
                d\<lparr>mailbox := mailbox d @ [\<lparr>m_id = next_mail_id d, m_dest_job_id = dest,
                    m_topic = topic, m_message = message, m_consumed_at = None\<rparr>],
                  next_mail_id := next_mail_id d + 1\<rparr>))"

text \<open>\<open>client.send_message\<close>: the insert from outside, which no fence guards.\<close>

definition send_message :: "job_id \<Rightarrow> string option \<Rightarrow> json \<Rightarrow> database \<Rightarrow> (sql_error + int) \<times> database" where
  "send_message dest topic message d =
     (if lookup_job d dest = None then (Inl ForeignKeyViolation, d)
      else (Inr (next_mail_id d),
            d\<lparr>mailbox := mailbox d @ [\<lparr>m_id = next_mail_id d, m_dest_job_id = dest,
                m_topic = topic, m_message = message, m_consumed_at = None\<rparr>],
              next_mail_id := next_mail_id d + 1\<rparr>))"

definition pending :: "database \<Rightarrow> job_id \<Rightarrow> string option \<Rightarrow> mail_row list" where
  "pending d i topic =
     filter (\<lambda>m. m_dest_job_id m = i \<and> (topic = None \<or> m_topic m = topic) \<and> m_consumed_at m = None)
       (mailbox d)"

record recv_result =
  r_fenced :: bool
  r_replayed :: "json option"
  r_message :: "json option"

text \<open>
  \<open>RECV_SQL\<close>: consume the oldest pending message and checkpoint it, unless the execution is
  superseded or this call site already has a successful answer.
\<close>

definition recv_merge :: "step_row \<Rightarrow> step_row \<Rightarrow> step_row" where
  "recv_merge old new = old\<lparr>s_output := s_output new, s_error := None,
     s_run_epoch := s_run_epoch new, s_started := s_started new, s_finished := s_finished new\<rparr>"

definition prior_success :: "database \<Rightarrow> job_id \<Rightarrow> int \<Rightarrow> json option" where
  "prior_success d i seq =
     (case step_at d i seq of
        None \<Rightarrow> None
      | Some s \<Rightarrow> if s_error s = None then Some (s_output s) else None)"

definition recv_stmt ::
  "instant \<Rightarrow> job_id \<Rightarrow> int \<Rightarrow> string option \<Rightarrow> string \<Rightarrow> int \<Rightarrow> instant \<Rightarrow> database
     \<Rightarrow> recv_result \<times> database" where
  "recv_stmt now i seq topic name epoch started d =
     (let prior = prior_success d i seq;
          fence = owns d i epoch
      in if fence \<and> prior = None
         then (case sort_key m_id (pending d i topic) of
                 [] \<Rightarrow> (\<lparr>r_fenced = True, r_replayed = None, r_message = None\<rparr>, d)
               | msg # _ \<Rightarrow>
                   (\<lparr>r_fenced = True, r_replayed = None, r_message = Some (m_message msg)\<rparr>,
                    d\<lparr>mailbox := map (\<lambda>m. if m_id m = m_id msg
                                          then m\<lparr>m_consumed_at := Some now\<rparr> else m) (mailbox d),
                      steps := upsert_step recv_merge
                        \<lparr>s_job_id = i, s_seq = seq, s_name = name, s_output = m_message msg,
                         s_error = None, s_run_epoch = epoch, s_started = started,
                         s_finished = now\<rparr> (steps d)\<rparr>))
         else (\<lparr>r_fenced = fence, r_replayed = prior, r_message = None\<rparr>, d))"

section \<open>The log of steps\<close>

text \<open>The primary keys of the child tables, and the job each row hangs off.\<close>

definition dxe_ok :: "database \<Rightarrow> bool" where
  "dxe_ok d \<longleftrightarrow>
     distinct (map (\<lambda>s. (s_job_id s, s_seq s)) (steps d))
     \<and> distinct (map (\<lambda>e. (e_job_id e, e_key e)) (events d))
     \<and> distinct (map m_id (mailbox d))
     \<and> list_all (\<lambda>m. m_id m < next_mail_id d) (mailbox d)"

lemma merge_step_key [simp]:
  "s_job_id (merge_step old new) = s_job_id old" "s_seq (merge_step old new) = s_seq old"
  by (simp_all add: merge_step_def)

lemma recv_merge_key [simp]:
  "s_job_id (recv_merge old new) = s_job_id old" "s_seq (recv_merge old new) = s_seq old"
  by (simp_all add: recv_merge_def)

lemma find_upsert:
  assumes "\<And>a b. s_job_id (mg a b) = s_job_id a" "\<And>a b. s_seq (mg a b) = s_seq a"
  shows "find_row (\<lambda>s. (s_job_id s, s_seq s)) k (upsert_step mg new rows) =
    (if k = (s_job_id new, s_seq new)
     then Some (case find_row (\<lambda>s. (s_job_id s, s_seq s)) k rows of None \<Rightarrow> new | Some old \<Rightarrow> mg old new)
     else find_row (\<lambda>s. (s_job_id s, s_seq s)) k rows)"
proof -
  let ?key = "\<lambda>s. (s_job_id s, s_seq s)"
  let ?new = "(s_job_id new, s_seq new)"
  let ?f = "\<lambda>s. if ?key s = ?new then mg s new else s"
  have keyf: "?key (?f s) = ?key s" for s using assms by simp
  show ?thesis
  proof (cases "find_row ?key ?new rows")
    case None
    then show ?thesis
      by (auto simp: upsert_step_def find_row_append split: option.splits)
  next
    case (Some old)
    have old: "?key old = ?new" using find_row_SomeD [OF Some] by simp
    have up: "upsert_step mg new rows = map ?f rows" by (simp add: upsert_step_def Some)
    have map: "find_row ?key k (map ?f rows) = map_option ?f (find_row ?key k rows)"
      by (rule find_row_map) (rule keyf)
    show ?thesis
    proof (cases "k = ?new")
      case True
      with Some old show ?thesis unfolding up map by simp
    next
      case False
      then have "?key s \<noteq> ?new" if "find_row ?key k rows = Some s" for s
        using find_row_SomeD [OF that] by simp
      with False show ?thesis unfolding up map by (cases "find_row ?key k rows") auto
    qed
  qed
qed

lemma upsert_distinct:
  assumes "distinct (map (\<lambda>s. (s_job_id s, s_seq s)) rows)"
    and "\<And>a b. s_job_id (mg a b) = s_job_id a" "\<And>a b. s_seq (mg a b) = s_seq a"
  shows "distinct (map (\<lambda>s. (s_job_id s, s_seq s)) (upsert_step mg new rows))"
proof (cases "find_row (\<lambda>s. (s_job_id s, s_seq s)) (s_job_id new, s_seq new) rows")
  case None
  then have "upsert_step mg new rows = rows @ [new]" by (simp add: upsert_step_def)
  with None assms(1) show ?thesis by (simp add: find_row_None)
next
  case (Some old)
  have "map (\<lambda>s. (s_job_id s, s_seq s)) (upsert_step mg new rows)
      = map (\<lambda>s. (s_job_id s, s_seq s)) rows"
    by (simp add: upsert_step_def Some assms(2,3))
  with assms(1) show ?thesis by metis
qed

lemmas step_at_record =
  find_upsert [where mg = merge_step, simplified]
  find_upsert [where mg = recv_merge, simplified]

section \<open>Durable writes\<close>

text \<open>
  What every fenced statement promises: refused and without effect unless the writer's epoch
  owns the row, not refused when it does, and in no case a change to the job rows themselves.
\<close>

locale durable_write =
  fixes wr :: "int \<Rightarrow> database \<Rightarrow> 'r \<times> database"
    and refused :: "'r \<Rightarrow> bool"
    and i :: job_id
  assumes no_effect: "\<not> owns d i e \<Longrightarrow> snd (wr e d) = d"
    and refused_iff: "refused (fst (wr e d)) \<longleftrightarrow> \<not> owns d i e"
    and rows_kept: "jobs (snd (wr e d)) = jobs d" "history (snd (wr e d)) = history d"
      "queues (snd (wr e d)) = queues d" "next_job_id (snd (wr e d)) = next_job_id d"
    and writes_kept: "app_writes (snd (wr e d)) = app_writes d"
    and keys_kept: "dxe_ok d \<Longrightarrow> dxe_ok (snd (wr e d))"
begin

lemma lookup_kept: "lookup_job (snd (wr e d)) k = lookup_job d k"
  by (simp add: lookup_job_def rows_kept)

lemma ownership_kept: "owns (snd (wr e d)) k e' = owns d k e'"
  by (simp add: owns_def lookup_kept)

lemma jobs_sound: "jobs_ok (snd (wr e d)) = jobs_ok d"
  by (simp add: jobs_ok_def rows_kept trail_ok_def state_trail_def)

text \<open>Once an epoch is past, nothing written under it lands, however the database goes on.\<close>

lemma zombie:
  assumes "\<And>j. lookup_job d i = Some j \<Longrightarrow> e < j_run_epoch j"
  shows "refused (fst (wr e d)) \<and> snd (wr e d) = d"
proof -
  have "\<not> owns d i e"
    using assms by (auto simp: owns_def split: option.splits)
  with no_effect refused_iff show ?thesis by simp
qed

end

lemma dxe_ok_steps:
  "dxe_ok (d\<lparr>steps := ss\<rparr>) \<longleftrightarrow>
     distinct (map (\<lambda>s. (s_job_id s, s_seq s)) ss)
     \<and> distinct (map (\<lambda>e. (e_job_id e, e_key e)) (events d))
     \<and> distinct (map m_id (mailbox d)) \<and> list_all (\<lambda>m. m_id m < next_mail_id d) (mailbox d)"
  by (simp add: dxe_ok_def)

interpretation checkpoint: durable_write
    "\<lambda>epoch. record_step now i seq name out err epoch started" Not i
  for now i seq name out err started
  by unfold_locales
    (auto simp: record_step_def dxe_ok_steps, auto simp: dxe_ok_def intro: upsert_distinct)

text \<open>The compaction transaction: the fence, and behind it the delete.\<close>

definition compact_write :: "job_id \<Rightarrow> int \<Rightarrow> database \<Rightarrow> bool \<times> database" where
  "compact_write i epoch d =
     (if compact_fence i epoch d then (True, snd (compact_steps i d)) else (False, d))"

lemma distinct_map_filter: "distinct (map f xs) \<Longrightarrow> distinct (map f (filter p xs))"
  by (induction xs) auto

interpretation compact: durable_write "compact_write i" Not i for i
  by unfold_locales
    (auto simp: compact_write_def compact_fence_def compact_steps_def dxe_ok_steps,
     auto simp: dxe_ok_def intro: distinct_map_filter)

lemma event_keys_upd:
  "map (\<lambda>e. (e_job_id e, e_key e))
     (map (\<lambda>e. if e_job_id e = i \<and> e_key e = key then e\<lparr>e_value := v, e_updated := now\<rparr> else e) es)
   = map (\<lambda>e. (e_job_id e, e_key e)) es"
  by simp

interpretation event: durable_write "set_event_stmt now i key v" Not i for now i key v
proof unfold_locales
  fix d e
  assume ok: "dxe_ok d"
  show "dxe_ok (snd (set_event_stmt now i key v e d))"
  proof (cases "find_row (\<lambda>e. (e_job_id e, e_key e)) (i, key) (events d)")
    case None
    then have absent: "(i, key) \<notin> (\<lambda>e. (e_job_id e, e_key e)) ` set (events d)"
      by (simp only: find_row_None not_False_eq_True)
    have "snd (set_event_stmt now i key v e d) = (if owns d i e then d\<lparr>events := events d
        @ [\<lparr>e_job_id = i, e_key = key, e_value = v, e_updated = now\<rparr>]\<rparr> else d)"
      by (simp add: set_event_stmt_def None)
    with ok absent show ?thesis by (simp add: dxe_ok_def)
  next
    case (Some x)
    with ok event_keys_upd [of i key now v "events d"] show ?thesis
      by (simp add: set_event_stmt_def dxe_ok_def del: map_map)
  qed
qed (auto simp: set_event_stmt_def)

interpretation stream: durable_write "stream_append i key v closed" "\<lambda>r. \<not> a_fenced r" i
  for i key v closed
  by unfold_locales (auto simp: stream_append_def Let_def dxe_ok_def)

interpretation send: durable_write "send_stmt dest topic message i" "\<lambda>r. r = Inr None" i
  for dest topic message i
  by unfold_locales (auto simp: send_stmt_def dxe_ok_def list_all_iff)

interpretation recv: durable_write
    "\<lambda>epoch. recv_stmt now i seq topic name epoch started" "\<lambda>r. \<not> r_fenced r" i
  for now i seq topic name started
proof unfold_locales
  fix d e
  assume ok: "dxe_ok d"
  have ids: "map m_id (map (\<lambda>m. if m_id m = k then m\<lparr>m_consumed_at := Some now\<rparr> else m) ms)
      = map m_id ms" for k and ms :: "mail_row list"
    by simp
  have low: "list_all (\<lambda>m. m_id m < n)
      (map (\<lambda>m. if m_id m = k then m\<lparr>m_consumed_at := Some now\<rparr> else m) ms)
      = list_all (\<lambda>m. m_id m < n) ms" for k n and ms :: "mail_row list"
    by (induction ms) auto
  have "distinct (map (\<lambda>s. (s_job_id s, s_seq s)) (upsert_step recv_merge r (steps d)))" for r
    using ok by (intro upsert_distinct) (auto simp: dxe_ok_def)
  with ok ids low show "dxe_ok (snd (recv_stmt now i seq topic name e started d))"
    unfolding dxe_ok_def
    by (simp add: recv_stmt_def Let_def del: map_map split: list.splits)
qed (auto simp: recv_stmt_def Let_def split: list.splits option.splits)

section \<open>What each write does\<close>

lemma step_at_record_step:
  "step_at (snd (record_step now i seq name out err epoch started d)) k n =
     (if owns d i epoch \<and> (k, n) = (i, seq)
      then (let new = \<lparr>s_job_id = i, s_seq = seq, s_name = name, s_output = out, s_error = err,
                       s_run_epoch = epoch, s_started = started, s_finished = now\<rparr>
            in Some (case step_at d i seq of None \<Rightarrow> new | Some old \<Rightarrow> merge_step old new))
      else step_at d k n)"
  by (auto simp: record_step_def step_at_def step_at_record Let_def)

text \<open>
  A committed success is never overwritten by an error. Recording an attempt's failure
  at a call site that already holds a success is accepted (it is no sign of supersession)
  and changes nothing, and recording the same outcome twice is recording it once.
\<close>

theorem success_is_never_overwritten:
  assumes "step_at d i seq = Some old" and "s_error old = None" and "owns d i epoch"
  shows "fst (record_step now i seq name out (Some e) epoch started d)
    \<and> step_at (snd (record_step now i seq name out (Some e) epoch started d)) k n = step_at d k n
    \<and> prior_success (snd (record_step now i seq name out (Some e) epoch started d)) i seq
        = Some (s_output old)"
proof -
  have "fst (record_step now i seq name out (Some e) epoch started d)"
    using assms(3) by (simp add: record_step_def)
  moreover have "step_at (snd (record_step now i seq name out (Some e) epoch started d)) k n
      = step_at d k n" for k n
    using assms by (simp add: step_at_record_step merge_step_def)
  ultimately show ?thesis
    using assms by (simp add: prior_success_def)
qed

theorem success_is_never_overwritten_witness:
  "fst (record_step 9 7 1 ''a'' JNull (Some ''lost ack'') 1 5
     ((seed_db [((default_jorb 0 7)\<lparr>j_state := Running, j_run_epoch := 1\<rparr>, [Queued, Claimed, Running])])
        \<lparr>steps := [\<lparr>s_job_id = 7, s_seq = 1, s_name = ''a'', s_output = JInt 5, s_error = None,
                  s_run_epoch = 1, s_started = 0, s_finished = 0\<rparr>]\<rparr>))"
proof -
  let ?s = "\<lparr>s_job_id = 7, s_seq = 1, s_name = ''a'', s_output = JInt 5, s_error = None,
             s_run_epoch = 1, s_started = 0, s_finished = 0\<rparr>"
  let ?d = "(seed_db [((default_jorb 0 7)\<lparr>j_state := Running, j_run_epoch := 1\<rparr>,
               [Queued, Claimed, Running])])\<lparr>steps := [?s]\<rparr>"
  have "step_at ?d 7 1 = Some ?s" "owns ?d 7 1"
    by (simp_all add: step_at_def owns_def lookup_job_def seed_db_def)
  from success_is_never_overwritten [OF this(1) _ this(2)] show ?thesis by simp
qed

text \<open>Streams: dense from zero, in order, and closed at the end or not at all.\<close>

definition dense :: "stream_row list \<Rightarrow> bool" where
  "dense rows \<longleftrightarrow>
     map st_seq rows = map int [0..<length rows] \<and> list_all (\<lambda>r. \<not> st_closed r) (butlast rows)"

lemma next_stream_seq_snoc:
  "next_stream_seq (rows @ [r]) = max (st_seq r) (next_stream_seq rows - 1) + 1"
  by (simp add: next_stream_seq_def)

lemma next_stream_seq_dense:
  "map st_seq rows = map int [0..<length rows] \<Longrightarrow> next_stream_seq rows = int (length rows)"
proof (induction rows rule: rev_induct)
  case (snoc r rows)
  then show ?case by (simp add: next_stream_seq_snoc)
qed (simp add: next_stream_seq_def)

lemma dense_snoc:
  "dense rows \<Longrightarrow> \<not> list_ex st_closed rows \<Longrightarrow> st_seq r = int (length rows) \<Longrightarrow> dense (rows @ [r])"
  by (simp add: dense_def list_all_iff list_ex_iff)

lemma stream_rows_append:
  assumes dense: "\<And>k l. dense (stream_rows d k l)"
  shows "stream_rows (snd (stream_append i key v closed epoch d)) k l =
      (if owns d i epoch \<and> \<not> list_ex st_closed (stream_rows d i key) \<and> (k, l) = (i, key)
       then stream_rows d i key @ [\<lparr>st_job_id = i, st_key = key,
         st_seq = int (length (stream_rows d i key)), st_value = v, st_closed = closed,
         st_run_epoch = epoch\<rparr>]
       else stream_rows d k l)"
    and "a_seq (fst (stream_append i key v closed epoch d)) =
      (if owns d i epoch \<and> \<not> list_ex st_closed (stream_rows d i key)
       then Some (int (length (stream_rows d i key))) else None)"
proof -
  have n: "next_stream_seq (stream_rows d i key) = int (length (stream_rows d i key))"
    using dense [of i key] by (simp add: dense_def next_stream_seq_dense)
  have "snd (stream_append i key v closed epoch d) =
      (if owns d i epoch \<and> \<not> list_ex st_closed (stream_rows d i key)
       then d\<lparr>streams := streams d @ [\<lparr>st_job_id = i, st_key = key,
         st_seq = int (length (stream_rows d i key)), st_value = v, st_closed = closed,
         st_run_epoch = epoch\<rparr>]\<rparr> else d)"
    by (simp add: stream_append_def Let_def n)
  then show "stream_rows (snd (stream_append i key v closed epoch d)) k l =
      (if owns d i epoch \<and> \<not> list_ex st_closed (stream_rows d i key) \<and> (k, l) = (i, key)
       then stream_rows d i key @ [\<lparr>st_job_id = i, st_key = key,
         st_seq = int (length (stream_rows d i key)), st_value = v, st_closed = closed,
         st_run_epoch = epoch\<rparr>]
       else stream_rows d k l)"
    by (auto simp: stream_rows_def)
  show "a_seq (fst (stream_append i key v closed epoch d)) =
      (if owns d i epoch \<and> \<not> list_ex st_closed (stream_rows d i key)
       then Some (int (length (stream_rows d i key))) else None)"
    by (simp add: stream_append_def Let_def n)
qed

lemma stream_append_dense:
  "(\<And>k l. dense (stream_rows d k l)) \<Longrightarrow> dense (stream_rows (snd (stream_append i key v closed epoch d)) k l)"
  by (auto simp: stream_rows_append intro!: dense_snoc)

text \<open>
  A stream is written densely. If every stream of the database is numbered from zero
  without gaps and closed only at its last row, an append keeps it so; it lands exactly when
  the writer owns the job and the stream is open, at the position one past the last, and
  leaves every other stream alone.
\<close>

theorem stream_append_is_dense:
  assumes dense: "\<And>k l. dense (stream_rows d k l)"
  shows "dense (stream_rows (snd (stream_append i key v closed epoch d)) k l)
    \<and> (owns d i epoch \<and> \<not> list_ex st_closed (stream_rows d i key) \<longrightarrow>
         a_seq (fst (stream_append i key v closed epoch d)) = Some (int (length (stream_rows d i key)))
         \<and> map st_value (stream_rows (snd (stream_append i key v closed epoch d)) i key)
             = map st_value (stream_rows d i key) @ [v])
    \<and> (\<not> owns d i epoch \<or> list_ex st_closed (stream_rows d i key) \<longrightarrow>
         a_seq (fst (stream_append i key v closed epoch d)) = None
         \<and> snd (stream_append i key v closed epoch d) = d)
    \<and> ((k, l) \<noteq> (i, key) \<longrightarrow>
         stream_rows (snd (stream_append i key v closed epoch d)) k l = stream_rows d k l)"
proof -
  have "\<not> owns d i epoch \<or> list_ex st_closed (stream_rows d i key) \<Longrightarrow>
      snd (stream_append i key v closed epoch d) = d"
    by (auto simp: stream_append_def Let_def)
  then show ?thesis
    using stream_append_dense [OF dense] by (auto simp: stream_rows_append [OF dense])
qed

theorem stream_append_is_dense_witness:
  "dense (stream_rows (snd (stream_append 7 ''rows'' JNull True 1
     (seed_db [((default_jorb 0 7)\<lparr>j_state := Running, j_run_epoch := 1\<rparr>,
                [Queued, Claimed, Running])]))) 7 ''rows'')"
  by (rule stream_append_is_dense [THEN conjunct1])
    (simp add: stream_rows_def seed_db_def empty_db_def dense_def)

lemma filter_consumed:
  "filter (\<lambda>k. q k \<and> (t = None \<or> m_topic k = t) \<and> m_consumed_at k = None)
     (map (\<lambda>k. if m_id k = c then k\<lparr>m_consumed_at := Some now\<rparr> else k) ms)
   = filter (\<lambda>k. m_id k \<noteq> c)
       (filter (\<lambda>k. q k \<and> (t = None \<or> m_topic k = t) \<and> m_consumed_at k = None) ms)"
  by (induction ms) auto

text \<open>
  Receiving is exactly once. When the owner of a call site with no answer yet receives,
  it gets the oldest pending message of its topic, and that consumption and its checkpoint
  are one write: the message is gone from the pending ones, no other message is, and the
  call site's recorded answer is the message. Executed again (a lost acknowledgement), the
  statement consumes nothing and returns the recorded answer.
\<close>

theorem recv_consumes_once:
  assumes ok: "dxe_ok d" and own: "owns d i epoch" and unanswered: "prior_success d i seq = None"
    and got: "recv_stmt now i seq topic name epoch started d = (r, d')"
    and some: "r_message r = Some v"
  shows "(\<exists>m. m \<in> set (pending d i topic) \<and> m_message m = v
      \<and> (\<forall>k \<in> set (pending d i topic). m_id m \<le> m_id k)
      \<and> (\<forall>j t. pending d' j t = filter (\<lambda>k. m_id k \<noteq> m_id m) (pending d j t)))
    \<and> prior_success d' i seq = Some v
    \<and> recv_stmt now' i seq topic name epoch started' d'
        = (\<lparr>r_fenced = True, r_replayed = Some v, r_message = None\<rparr>, d')"
proof -
  from got own unanswered some obtain m ms where sk: "sort_key m_id (pending d i topic) = m # ms"
    and d': "d' = d\<lparr>mailbox := map (\<lambda>k. if m_id k = m_id m
                                          then k\<lparr>m_consumed_at := Some now\<rparr> else k) (mailbox d),
       steps := upsert_step recv_merge
         \<lparr>s_job_id = i, s_seq = seq, s_name = name, s_output = m_message m,
          s_error = None, s_run_epoch = epoch, s_started = started, s_finished = now\<rparr> (steps d)\<rparr>"
    and v: "m_message m = v"
    by (auto simp: recv_stmt_def Let_def split: list.splits)
  have nonempty: "pending d i topic \<noteq> []" using sk by auto
  have m: "m \<in> set (pending d i topic)" "\<forall>k \<in> set (pending d i topic). m_id m \<le> m_id k"
    using hd_sort_key_least [OF nonempty, of m_id] sk by simp_all
  have gone: "pending d' j t = filter (\<lambda>k. m_id k \<noteq> m_id m) (pending d j t)" for j t
    unfolding pending_def d' by (simp add: filter_consumed del: filter_filter)
  have prior: "prior_success d' i seq = Some v"
    by (auto simp: d' prior_success_def step_at_def step_at_record recv_merge_def v split: option.splits)
  have "owns d' i epoch"
    using recv.ownership_kept got own by (metis snd_conv)
  then have "recv_stmt now' i seq topic name epoch started' d'
      = (\<lparr>r_fenced = True, r_replayed = Some v, r_message = None\<rparr>, d')"
    using prior by (simp add: recv_stmt_def Let_def)
  with m gone prior v show ?thesis by blast
qed

theorem recv_consumes_once_witness:
  "let d = (seed_db [((default_jorb 0 7)\<lparr>j_state := Running, j_run_epoch := 1\<rparr>,
                [Queued, Claimed, Running])])
        \<lparr>mailbox := [\<lparr>m_id = 1, m_dest_job_id = 7, m_topic = None, m_message = JInt 5,
                     m_consumed_at = None\<rparr>], next_mail_id := 2\<rparr>;
       d' = snd (recv_stmt 9 7 1 None ''dxe.recv:'' 1 5 d)
   in recv_stmt 10 7 1 None ''dxe.recv:'' 1 9 d'
      = (\<lparr>r_fenced = True, r_replayed = Some (JInt 5), r_message = None\<rparr>, d')"
proof -
  let ?d = "(seed_db [((default_jorb 0 7)\<lparr>j_state := Running, j_run_epoch := 1\<rparr>,
                [Queued, Claimed, Running])])
        \<lparr>mailbox := [\<lparr>m_id = 1, m_dest_job_id = 7, m_topic = None, m_message = JInt 5,
                     m_consumed_at = None\<rparr>], next_mail_id := 2\<rparr>"
  let ?r = "recv_stmt 9 7 1 None ''dxe.recv:'' 1 5 ?d"
  have ok: "dxe_ok ?d" by (simp add: dxe_ok_def seed_db_def empty_db_def)
  have own: "owns ?d 7 1" by (simp add: owns_def lookup_job_def seed_db_def)
  have none: "prior_success ?d 7 1 = None"
    by (simp add: prior_success_def step_at_def seed_db_def empty_db_def)
  have "r_message (fst ?r) = Some (JInt 5)"
    using own none by (simp add: recv_stmt_def pending_def)
  from recv_consumes_once [OF ok own none prod.collapse [symmetric] this, of 10 9]
  show ?thesis by (simp add: Let_def)
qed

end
