(* ===== verification/Durable.thy ===== *)
theory Durable
  imports Dxe JobSql
begin

text \<open>
  The durable primitives of the \<open>Job\<close> base class (\<open>pyjobby/pj.py\<close>): steps, transactions,
  sleeps, events, messages, streams and compaction, as the job code calls them. A primitive
  is a computation in the execution's context and the database that returns a value or
  raises. User functions are such computations too, so a primitive may run inside another.

  What the process observes of the world is an argument: the clocks, the budget timer having
  fired, the fate of a commit, and what other transactions commit between two polls.
\<close>

section \<open>Exceptions and context\<close>

text \<open>
  The exceptions the primitives tell apart; any other one is \<open>UserError\<close> with its type name
  and message. \<open>Cancelled\<close> is \<open>asyncio.CancelledError\<close>, not an \<open>Exception\<close>.
\<close>

datatype exn =
    NondeterminismError
  | StaleExecutionError
  | DurableSleep instant
  | StreamClosedError string bool
  | StepTimeoutError string int
  | JobTimeout int
  | TimeoutError string
  | UserError string string
  | SqlError sql_error
  | CancelledError

fun is_dxe_error :: "exn \<Rightarrow> bool" where
  "is_dxe_error NondeterminismError = True"
| "is_dxe_error StaleExecutionError = True"
| "is_dxe_error _ = False"

text \<open>Raised past \<open>except Exception\<close>: a \<open>DXEError\<close> is re-raised, a cancellation never caught.\<close>

definition unrecorded :: "exn \<Rightarrow> bool" where
  "unrecorded e \<longleftrightarrow> is_dxe_error e \<or> e = CancelledError"

text \<open>\<open>f"{type(e).__name__}: {e}"\<close>, without the numbers a message renders.\<close>

fun exn_text :: "exn \<Rightarrow> string" where
  "exn_text NondeterminismError = ''NondeterminismError: ''"
| "exn_text StaleExecutionError = ''StaleExecutionError: ''"
| "exn_text (DurableSleep t) = ''DurableSleep: ''"
| "exn_text (StreamClosedError k c) = ''StreamClosedError: '' @ k"
| "exn_text (StepTimeoutError n b) = ''StepTimeoutError: '' @ n"
| "exn_text (JobTimeout b) = ''JobTimeout: ''"
| "exn_text (TimeoutError m) = ''TimeoutError: '' @ m"
| "exn_text (UserError ty m) = ty @ '': '' @ m"
| "exn_text (SqlError e) = ''PostgresError: ''"
| "exn_text CancelledError = ''CancelledError: ''"

record job_ctx =
  x_job :: job_id
  x_epoch :: int
  x_steps :: "step_row list"      \<comment> \<open>\_dxe\_steps, by sequence number\<close>
  x_seq :: int                    \<comment> \<open>\_dxe\_seq\<close>
  x_rescheduled :: bool
  x_step_timeout :: "int option"

type_synonym 'a job_m = "job_ctx \<Rightarrow> database \<Rightarrow> (exn + 'a) \<times> job_ctx \<times> database"

text \<open>\<open>Job.__post_init__\<close>: the epoch of the row the worker claimed.\<close>

definition new_ctx :: "jorb \<Rightarrow> int option \<Rightarrow> job_ctx" where
  "new_ctx j step_timeout =
     \<lparr>x_job = j_id j, x_epoch = j_run_epoch j, x_steps = [], x_seq = 0, x_rescheduled = False,
      x_step_timeout = step_timeout\<rparr>"

text \<open>\<open>_dxe_bind\<close>\<close>

definition dxe_bind :: "step_row list \<Rightarrow> int \<Rightarrow> job_ctx \<Rightarrow> job_ctx" where
  "dxe_bind checkpoints epoch c = c\<lparr>x_steps := checkpoints, x_seq := 0, x_epoch := epoch\<rparr>"

definition dxe_next_seq :: "job_ctx \<Rightarrow> int \<times> job_ctx" where
  "dxe_next_seq c = (x_seq c + 1, c\<lparr>x_seq := x_seq c + 1\<rparr>)"

definition prior_step :: "job_ctx \<Rightarrow> int \<Rightarrow> step_row option" where
  "prior_step c seq = find_row s_seq seq (x_steps c)"

section \<open>Replay\<close>

text \<open>\<open>_dxe_resume\<close>: the sequence number, and the recorded output when there is one.\<close>

definition dxe_resume :: "string \<Rightarrow> job_ctx \<Rightarrow> (exn + int \<times> json option) \<times> job_ctx" where
  "dxe_resume name c =
     (let (seq, c') = dxe_next_seq c
      in case prior_step c' seq of
           None \<Rightarrow> (Inr (seq, None), c')
         | Some prior \<Rightarrow>
             if s_name prior \<noteq> name then (Inl NondeterminismError, c')
             else if s_error prior = None then (Inr (seq, Some (s_output prior)), c')
             else (Inr (seq, None), c'))"

text \<open>What one call observes of the clocks, and the budget it asked for (\<open>0\<close>: none).\<close>

record timing =
  t_started :: instant
  t_now :: instant
  t_timeout :: "int option"
  t_remaining :: "int option"   \<comment> \<open>what the job's own deadline leaves\<close>
  t_expired :: bool             \<comment> \<open>the budget's timer fired while the call ran\<close>

definition dxe_budget :: "timing \<Rightarrow> job_ctx \<Rightarrow> int option" where
  "dxe_budget t c =
     (case (case t_timeout t of None \<Rightarrow> x_step_timeout c | Some b \<Rightarrow> Some b) of
        None \<Rightarrow> None
      | Some b \<Rightarrow>
          if b = 0 then None
          else case t_remaining t of
                 None \<Rightarrow> Some b
               | Some r \<Rightarrow> if r \<le> b then None else Some b)"

text \<open>\<open>_dxe_invoke\<close>: the call under its budget; only this budget's own expiry is relabelled.\<close>

definition dxe_invoke :: "timing \<Rightarrow> string \<Rightarrow> json job_m \<Rightarrow> json job_m" where
  "dxe_invoke t name fn c d =
     (case dxe_budget t c of
        None \<Rightarrow> fn c d
      | Some b \<Rightarrow>
          (case fn c d of
             (Inl (TimeoutError m), c', d') \<Rightarrow>
               (Inl (if t_expired t then StepTimeoutError name b else TimeoutError m), c', d')
           | (Inl e, c', d') \<Rightarrow> (Inl e, c', d')
           | (Inr v, c', d') \<Rightarrow>
               (if t_expired t then Inl (StepTimeoutError name b) else Inr v, c', d')))"

text \<open>\<open>_dxe_record\<close>\<close>

definition dxe_record ::
  "timing \<Rightarrow> int \<Rightarrow> string \<Rightarrow> json \<Rightarrow> string option \<Rightarrow> unit job_m" where
  "dxe_record t seq name out err c d =
     (case record_step (t_now t) (x_job c) seq name out err (x_epoch c) (t_started t) d of
        (True, d') \<Rightarrow> (Inr (), c, d')
      | (False, d') \<Rightarrow> (Inl StaleExecutionError, c, d'))"

section \<open>Steps and transactions\<close>

text \<open>The failure path both share: record the error, and raise it unless superseded.\<close>

definition dxe_fail :: "timing \<Rightarrow> int \<Rightarrow> string \<Rightarrow> exn \<Rightarrow> json job_m" where
  "dxe_fail t seq name e c d =
     (if unrecorded e then (Inl e, c, d)
      else case dxe_record t seq name JNull (Some (exn_text e)) c d of
             (Inl stale, c', d') \<Rightarrow> (Inl stale, c', d')
           | (Inr _, c', d') \<Rightarrow> (Inl e, c', d'))"

definition step :: "timing \<Rightarrow> string \<Rightarrow> json job_m \<Rightarrow> json job_m" where
  "step t name fn c d =
     (case dxe_resume name c of
        (Inl e, c') \<Rightarrow> (Inl e, c', d)
      | (Inr (seq, Some replayed), c') \<Rightarrow> (Inr replayed, c', d)
      | (Inr (seq, None), c') \<Rightarrow>
          (case dxe_invoke t name fn c' d of
             (Inl e, c1, d1) \<Rightarrow> dxe_fail t seq name e c1 d1
           | (Inr result, c1, d1) \<Rightarrow>
               (case dxe_record t seq name result None c1 d1 of
                  (Inl stale, c2, d2) \<Rightarrow> (Inl stale, c2, d2)
                | (Inr _, c2, d2) \<Rightarrow> (Inr result, c2, d2))))"

text \<open>
  The fate of a transaction's \<open>COMMIT\<close>: acknowledged; applied, with the acknowledgement
  lost; or lost before it was applied. In the last two the client sees a connection error
  and takes the failure path on a new connection.
\<close>

datatype commit = Committed | AckLost | CommitLost

definition connection_lost :: exn where
  "connection_lost = UserError ''ConnectionDoesNotExistError'' ''connection was closed''"

definition transaction :: "timing \<Rightarrow> commit \<Rightarrow> string \<Rightarrow> json job_m \<Rightarrow> json job_m" where
  "transaction t commit name fn c d =
     (case dxe_resume name c of
        (Inl e, c') \<Rightarrow> (Inl e, c', d)
      | (Inr (seq, Some replayed), c') \<Rightarrow> (Inr replayed, c', d)
      | (Inr (seq, None), c') \<Rightarrow>
          (case dxe_invoke t name fn c' d of
             (Inl e, c1, d1) \<Rightarrow> dxe_fail t seq name e c1 d
           | (Inr result, c1, d1) \<Rightarrow>
               (case dxe_record t seq name result None c1 d1 of
                  (Inl stale, c2, d2) \<Rightarrow> (Inl stale, c2, d)
                | (Inr _, c2, d2) \<Rightarrow>
                    (case commit of
                       Committed \<Rightarrow> (Inr result, c2, d2)
                     | AckLost \<Rightarrow> dxe_fail t seq name connection_lost c2 d2
                     | CommitLost \<Rightarrow> dxe_fail t seq name connection_lost c2 d))))"

section \<open>Rescheduling and sleeping\<close>

definition reschedule_self :: "instant \<Rightarrow> interval \<Rightarrow> unit job_m" where
  "reschedule_self now interval c d =
     (case stmt_reschedule now (x_job c) interval (x_epoch c) d of
        Inl e \<Rightarrow> (Inl (SqlError e), c, d)
      | Inr ([], d') \<Rightarrow> (Inl StaleExecutionError, c, d')
      | Inr (_ # _, d') \<Rightarrow> (Inr (), c\<lparr>x_rescheduled := True\<rparr>, d'))"

text \<open>
  \<open>sleep\<close>: the first call records its wake time; a later one only checks it, against the
  database's clock \<open>db_now\<close>, and \<open>now\<close> is the clock of the statements that follow.
\<close>

definition sleep_name :: string where
  "sleep_name = ''dxe.sleep''"

definition sleep :: "instant \<Rightarrow> instant \<Rightarrow> interval \<Rightarrow> unit job_m" where
  "sleep db_now now duration c d =
     (let (seq, c') = dxe_next_seq c
      in case prior_step c' seq of
           Some prior \<Rightarrow>
             if s_name prior \<noteq> sleep_name then (Inl NondeterminismError, c', d)
             else (case json_get (s_output prior) ''wake_at'' of
                     Some (JStamp wake_at) \<Rightarrow>
                       if wake_at - db_now \<le> 0 then (Inr (), c', d)
                       else (case reschedule_self now (wake_at - db_now) c' d of
                               (Inl e, c1, d1) \<Rightarrow> (Inl e, c1, d1)
                             | (Inr _, c1, d1) \<Rightarrow> (Inl (DurableSleep wake_at), c1, d1))
                   | _ \<Rightarrow> (Inl (UserError ''TypeError'' ''wake_at''), c', d))
         | None \<Rightarrow>
             (let wake_at = db_now + duration
              in case record_step now (x_job c') seq sleep_name
                        (JObj [(''wake_at'', JStamp wake_at)]) None (x_epoch c') now d of
                   (False, d1) \<Rightarrow> (Inl StaleExecutionError, c', d1)
                 | (True, d1) \<Rightarrow>
                     (case reschedule_self now duration c' d1 of
                        (Inl e, c2, d2) \<Rightarrow> (Inl e, c2, d2)
                      | (Inr _, c2, d2) \<Rightarrow> (Inl (DurableSleep wake_at), c2, d2))))"

section \<open>Events, messages, streams\<close>

definition set_event :: "instant \<Rightarrow> string \<Rightarrow> json \<Rightarrow> unit job_m" where
  "set_event now key v c d =
     (case set_event_stmt now (x_job c) key v (x_epoch c) d of
        (True, d') \<Rightarrow> (Inr (), c, d')
      | (False, d') \<Rightarrow> (Inl StaleExecutionError, c, d'))"

text \<open>\<open>job_id or self.job["id"]\<close>: an absent or zero id is this job's own.\<close>

definition get_event :: "string \<Rightarrow> job_id option \<Rightarrow> job_ctx \<Rightarrow> database \<Rightarrow> json option" where
  "get_event key i c d =
     get_event_stmt (case i of None \<Rightarrow> x_job c | Some k \<Rightarrow> if k = 0 then x_job c else k) key d"

definition do_send :: "job_id \<Rightarrow> json \<Rightarrow> string option \<Rightarrow> json job_m" where
  "do_send dest message topic c d =
     (case send_stmt dest topic message (x_job c) (x_epoch c) d of
        (Inl e, d') \<Rightarrow> (Inl (SqlError e), c, d')
      | (Inr None, d') \<Rightarrow> (Inl StaleExecutionError, c, d')
      | (Inr (Some i), d') \<Rightarrow> (Inr (JInt i), c, d'))"

text \<open>A decimal numeral, as an f-string renders an \<open>int\<close>.\<close>

fun nat_text :: "nat \<Rightarrow> string" where
  "nat_text n = (if n < 10 then [char_of (48 + n)] else nat_text (n div 10) @ [char_of (48 + n mod 10)])"

definition int_text :: "int \<Rightarrow> string" where
  "int_text i = (if i < 0 then ''-'' @ nat_text (nat (- i)) else nat_text (nat i))"

definition or_empty :: "string option \<Rightarrow> string" where
  "or_empty topic = (case topic of None \<Rightarrow> [] | Some s \<Rightarrow> s)"

definition send_name :: "job_id \<Rightarrow> string option \<Rightarrow> string" where
  "send_name dest topic = ''dxe.send:'' @ int_text dest @ '':'' @ or_empty topic"

definition send ::
  "timing \<Rightarrow> commit \<Rightarrow> job_id \<Rightarrow> json \<Rightarrow> string option \<Rightarrow> json job_m" where
  "send t commit dest message topic =
     transaction t commit (send_name dest topic) (do_send dest message topic)"

definition recv_name :: "string option \<Rightarrow> string" where
  "recv_name topic = ''dxe.recv:'' @ or_empty topic"

text \<open>
  The polling loop of \<open>recv\<close>: \<open>polls\<close> is what the rest of the system commits between one
  poll and the next, and the deadline passes when the list is exhausted.
\<close>

fun recv_loop ::
  "timing \<Rightarrow> int \<Rightarrow> string option \<Rightarrow> (database \<Rightarrow> database) list \<Rightarrow> json job_m" where
  "recv_loop t seq topic polls c d =
     (case recv_stmt (t_now t) (x_job c) seq topic (recv_name topic) (x_epoch c) (t_started t) d of
        (row, d') \<Rightarrow>
          if \<not> r_fenced row then (Inl StaleExecutionError, c, d')
          else case r_replayed row of
            Some answer \<Rightarrow> (Inr answer, c, d')
          | None \<Rightarrow>
              (case r_message row of
                 Some message \<Rightarrow> (Inr message, c, d')
               | None \<Rightarrow>
                   (case polls of
                      elsewhere # rest \<Rightarrow> recv_loop t seq topic rest c (elsewhere d')
                    | [] \<Rightarrow>
                        (case dxe_record t seq (recv_name topic) JNull None c d' of
                           (Inl stale, c', d1) \<Rightarrow> (Inl stale, c', d1)
                         | (Inr _, c', d1) \<Rightarrow> (Inr JNull, c', d1)))))"

definition recv :: "timing \<Rightarrow> string option \<Rightarrow> (database \<Rightarrow> database) list \<Rightarrow> json job_m" where
  "recv t topic polls c d =
     (let (seq, c') = dxe_next_seq c
      in case prior_step c' seq of
           None \<Rightarrow> recv_loop t seq topic polls c' d
         | Some prior \<Rightarrow>
             if s_name prior \<noteq> recv_name topic then (Inl NondeterminismError, c', d)
             else if s_error prior = None then (Inr (s_output prior), c', d)
             else recv_loop t seq topic polls c' d)"

definition do_append :: "string \<Rightarrow> json \<Rightarrow> bool \<Rightarrow> json job_m" where
  "do_append key v closed c d =
     (case stream_append (x_job c) key v closed (x_epoch c) d of
        (row, d') \<Rightarrow>
          if \<not> a_fenced row then (Inl StaleExecutionError, c, d')
          else if a_already_closed row then (Inl (StreamClosedError key closed), c, d')
          else case a_seq row of
                 None \<Rightarrow> (Inl (UserError ''TypeError'' ''seq''), c, d')
               | Some n \<Rightarrow> (Inr (JInt n), c, d'))"

definition stream_write :: "timing \<Rightarrow> commit \<Rightarrow> string \<Rightarrow> json \<Rightarrow> json job_m" where
  "stream_write t commit key v =
     transaction t commit (''dxe.stream:'' @ key) (do_append key v False)"

definition stream_close :: "timing \<Rightarrow> commit \<Rightarrow> string \<Rightarrow> json job_m" where
  "stream_close t commit key =
     transaction t commit (''dxe.stream-close:'' @ key) (do_append key JNull True)"

section \<open>Compaction\<close>

text \<open>\<open>_dxe_compact\<close>: one transaction, so a raise inside it undoes what it wrote.\<close>

definition dxe_compact :: "instant \<Rightarrow> (string \<times> json) option \<Rightarrow> unit job_m" where
  "dxe_compact now publish c d =
     (if \<not> compact_fence (x_job c) (x_epoch c) d then (Inl StaleExecutionError, c, d)
      else
        (let (published, d1) =
               (case publish of
                  None \<Rightarrow> (True, d)
                | Some (key, v) \<Rightarrow> set_event_stmt now (x_job c) key v (x_epoch c) d)
         in if \<not> published then (Inl StaleExecutionError, c, d)
            else (Inr (), c\<lparr>x_steps := [], x_seq := 0\<rparr>, snd (compact_steps (x_job c) d1))))"

definition max_seq :: "step_row list \<Rightarrow> int" where
  "max_seq rows = fold (\<lambda>s m. max (s_seq s) m) rows 0"

definition compact :: "instant \<Rightarrow> bool job_m" where
  "compact now c d =
     (if x_steps c \<noteq> [] \<and> x_seq c < max_seq (x_steps c) then (Inr False, c, d)
      else case dxe_compact now None c d of
             (Inl e, c', d') \<Rightarrow> (Inl e, c', d')
           | (Inr _, c', d') \<Rightarrow> (Inr True, c', d'))"

definition commit_position :: "instant \<Rightarrow> string \<Rightarrow> json \<Rightarrow> unit job_m" where
  "commit_position now key v = dxe_compact now (Some (key, v))"

section \<open>A superseded execution\<close>

text \<open>A function that does not re-own the job: it keeps the context's identity and the fence.\<close>

definition keeps_fence :: "json job_m \<Rightarrow> bool" where
  "keeps_fence fn \<longleftrightarrow>
     (\<forall>c d r c' d'. fn c d = (r, c', d') \<longrightarrow>
        x_job c' = x_job c \<and> x_epoch c' = x_epoch c
        \<and> owns d' (x_job c) (x_epoch c) = owns d (x_job c) (x_epoch c))"

lemma invoke_keeps_fence:
  "keeps_fence fn \<Longrightarrow> dxe_invoke t name fn c d = (r, c', d') \<Longrightarrow>
   x_job c' = x_job c \<and> x_epoch c' = x_epoch c
   \<and> owns d' (x_job c) (x_epoch c) = owns d (x_job c) (x_epoch c)"
  unfolding keeps_fence_def dxe_invoke_def
  by (auto split: option.splits prod.splits sum.splits exn.splits)

lemma dxe_record_refused:
  "\<not> owns d (x_job c) (x_epoch c) \<Longrightarrow>
   dxe_record t seq name v err c d = (Inl StaleExecutionError, c, d)"
  by (simp add: dxe_record_def record_step_def)

lemma dxe_fail_refused:
  "\<not> owns d (x_job c) (x_epoch c) \<Longrightarrow>
   \<exists>e'. dxe_fail t seq name e c d = (Inl e', c, d) \<and> (e' = e \<or> e' = StaleExecutionError)"
  by (simp add: dxe_fail_def dxe_record_refused)

text \<open>
  A zombie commits nothing. A transaction run by an execution whose epoch no longer owns
  the job leaves the database exactly as it was, whatever its function wrote and however its
  commit went; it returns a value only by replaying one recorded before.
\<close>

theorem superseded_transaction_commits_nothing:
  assumes "\<not> owns d (x_job c) (x_epoch c)" and "keeps_fence fn"
  shows "snd (snd (transaction t cm name fn c d)) = d
    \<and> (\<forall>v. fst (transaction t cm name fn c d) = Inr v \<longrightarrow>
          (\<exists>r. prior_step c (x_seq c + 1) = Some r \<and> s_error r = None \<and> s_output r = v))"
proof -
  obtain res c0 where resume: "dxe_resume name c = (res, c0)" by (cases "dxe_resume name c")
  then have c0: "x_job c0 = x_job c" "x_epoch c0 = x_epoch c"
    by (auto simp: dxe_resume_def dxe_next_seq_def Let_def split: option.splits if_splits)
  obtain r1 c1 d1 where inv: "dxe_invoke t name fn c0 d = (r1, c1, d1)" using prod_cases3 by blast
  from invoke_keeps_fence [OF assms(2) inv] assms(1) c0
  have zombie: "\<not> owns d1 (x_job c1) (x_epoch c1)" "\<not> owns d (x_job c1) (x_epoch c1)"
    by auto
  show ?thesis
  proof (cases res)
    case (Inl e)
    with resume show ?thesis by (simp add: transaction_def)
  next
    case (Inr p)
    obtain seq out where p: "p = (seq, out)" by (cases p)
    show ?thesis
    proof (cases out)
      case None
      have failed: "\<exists>e'. dxe_fail t seq name e c1 d = (Inl e', c1, d)" for e
        using dxe_fail_refused [OF zombie(2), of t seq name e] by blast
      show ?thesis
      proof (cases r1)
        case (Inl e)
        with failed [of e] obtain e' where "dxe_fail t seq name e c1 d = (Inl e', c1, d)" by blast
        with Inl None \<open>res = Inr p\<close> p resume inv show ?thesis by (simp add: transaction_def)
      next
        case (Inr v)
        with None \<open>res = Inr p\<close> p resume inv dxe_record_refused [OF zombie(1)]
        show ?thesis by (simp add: transaction_def)
      qed
    next
      case (Some v)
      with Inr p resume show ?thesis
        by (auto simp: transaction_def dxe_resume_def dxe_next_seq_def prior_step_def Let_def
            split: option.splits if_splits)
    qed
  qed
qed

theorem superseded_transaction_commits_nothing_witness:
  "snd (snd (transaction
      \<lparr>t_started = 0, t_now = 1, t_timeout = None, t_remaining = None, t_expired = False\<rparr>
      Committed ''pay'' (\<lambda>c d. (Inr JNull, c, d\<lparr>app_writes := [JInt 5]\<rparr>))
      (new_ctx ((default_jorb 0 7)\<lparr>j_run_epoch := 1\<rparr>) None)
      (seed_db [((default_jorb 0 7)\<lparr>j_run_epoch := 2\<rparr>, [Queued, Claimed, Running, Queued])])))
   = seed_db [((default_jorb 0 7)\<lparr>j_run_epoch := 2\<rparr>, [Queued, Claimed, Running, Queued])]"
  by (rule superseded_transaction_commits_nothing [THEN conjunct1])
    (auto simp: new_ctx_def owns_def lookup_job_def seed_db_def keeps_fence_def)

section \<open>Durable sleep\<close>

text \<open>A live attempt's reschedule: the row is queued for later, at an epoch of its own.\<close>

lemma reschedule_self_live:
  assumes "jobs_ok d" and "lookup_job d (x_job c) = Some j"
    and "j_state j = Claimed \<or> j_state j = Running" and "j_run_epoch j = x_epoch c"
  shows "\<exists>d'. reschedule_self now interval c d = (Inr (), c\<lparr>x_rescheduled := True\<rparr>, d')
    \<and> jobs_ok d' \<and> steps d' = steps d
    \<and> lookup_job d' (x_job c) = Some (reschedule_set now interval j)"
proof -
  have "fenced (x_job c) (x_epoch c) j"
    using assms by (auto simp: fenced_def dest: lookup_job_SomeD)
  note live = reschedule.live [OF assms(1,2) this, of now interval]
  then have "reschedule_self now interval c d = (Inr (), c\<lparr>x_rescheduled := True\<rparr>,
      reschedule.after (x_job c) (x_epoch c) now interval d)"
    by (simp add: reschedule_self_def stmt_reschedule_def)
  with live(2) reschedule.after_ok [OF assms(1)] show ?thesis by auto
qed

text \<open>
  A durable sleep neither ends early nor forgets itself. The first call of a live
  attempt records its wake time, puts the row back in the queue not due before it, at a
  higher epoch, and unwinds; a call that finds the recorded wake time returns only once the
  database's clock has reached it, and before that re-queues the row for what remains.
\<close>

theorem sleep_is_durable:
  assumes ok: "jobs_ok d" and row: "lookup_job d (x_job c) = Some j"
    and live: "j_state j = Claimed \<or> j_state j = Running" "j_run_epoch j = x_epoch c"
    and clocks: "db_now \<le> now"
  shows "(prior_step c (x_seq c + 1) = None \<longrightarrow>
      (\<exists>c' d' k. sleep db_now now duration c d = (Inl (DurableSleep (db_now + duration)), c', d')
        \<and> prior_success d' (x_job c) (x_seq c + 1) \<in>
            {prior_success d (x_job c) (x_seq c + 1), Some (JObj [(''wake_at'', JStamp (db_now + duration))])}
        \<and> step_at d' (x_job c) (x_seq c + 1) \<noteq> None
        \<and> lookup_job d' (x_job c) = Some k \<and> j_state k = Queued
        \<and> db_now + duration \<le> j_run_after k \<and> j_run_epoch j < j_run_epoch k))
    \<and> (\<forall>p w. prior_step c (x_seq c + 1) = Some p \<and> s_name p = sleep_name
          \<and> json_get (s_output p) ''wake_at'' = Some (JStamp w) \<longrightarrow>
        (w \<le> db_now \<longrightarrow> (\<exists>c'. sleep db_now now duration c d = (Inr (), c', d)))
        \<and> (db_now < w \<longrightarrow> (\<exists>c' d' k. sleep db_now now duration c d = (Inl (DurableSleep w), c', d')
              \<and> lookup_job d' (x_job c) = Some k \<and> j_state k = Queued \<and> w \<le> j_run_after k)))"
proof -
  let ?c = "c\<lparr>x_seq := x_seq c + 1\<rparr>"
  have first: "\<exists>c' d' k. sleep db_now now duration c d = (Inl (DurableSleep (db_now + duration)), c', d')
        \<and> prior_success d' (x_job c) (x_seq c + 1) \<in>
            {prior_success d (x_job c) (x_seq c + 1), Some (JObj [(''wake_at'', JStamp (db_now + duration))])}
        \<and> step_at d' (x_job c) (x_seq c + 1) \<noteq> None
        \<and> lookup_job d' (x_job c) = Some k \<and> j_state k = Queued
        \<and> db_now + duration \<le> j_run_after k \<and> j_run_epoch j < j_run_epoch k"
    if none: "prior_step c (x_seq c + 1) = None"
  proof -
    let ?rec = "record_step now (x_job c) (x_seq c + 1) sleep_name
        (JObj [(''wake_at'', JStamp (db_now + duration))]) None (x_epoch c) now d"
    have own: "owns d (x_job c) (x_epoch c)" using row live by (simp add: owns_def)
    then obtain d1 where rec: "?rec = (True, d1)" by (simp add: record_step_def)
    then have d1: "snd ?rec = d1" by simp
    have ok1: "jobs_ok d1" using ok checkpoint.jobs_sound d1 by metis
    have row1: "lookup_job d1 (x_job ?c) = Some j" using row checkpoint.lookup_kept d1 by auto
    obtain d' where d': "reschedule_self now duration ?c d1
        = (Inr (), ?c\<lparr>x_rescheduled := True\<rparr>, d')"
      "steps d' = steps d1"
      "lookup_job d' (x_job c) = Some (reschedule_set now duration j)"
      using reschedule_self_live [OF ok1 row1, of now duration] live by auto
    have same: "step_at d' k n = step_at (snd ?rec) k n" for k n
      using d'(2) d1 by (simp add: step_at_def)
    have "sleep db_now now duration c d
        = (Inl (DurableSleep (db_now + duration)), ?c\<lparr>x_rescheduled := True\<rparr>, d')"
      using none rec d'(1)
      by (simp add: sleep_def dxe_next_seq_def prior_step_def Let_def)
    moreover have "step_at d' (x_job c) (x_seq c + 1) \<noteq> None"
      using own by (simp add: same step_at_record_step Let_def)
    moreover have "prior_success d' (x_job c) (x_seq c + 1) \<in>
            {prior_success d (x_job c) (x_seq c + 1), Some (JObj [(''wake_at'', JStamp (db_now + duration))])}"
      using own by (auto simp: prior_success_def same step_at_record_step Let_def merge_step_def
          split: option.splits)
    ultimately show ?thesis using d'(3) clocks by (auto simp: row_simps)
  qed
  have later: "(w \<le> db_now \<longrightarrow> (\<exists>c'. sleep db_now now duration c d = (Inr (), c', d)))
        \<and> (db_now < w \<longrightarrow> (\<exists>c' d' k. sleep db_now now duration c d = (Inl (DurableSleep w), c', d')
              \<and> lookup_job d' (x_job c) = Some k \<and> j_state k = Queued \<and> w \<le> j_run_after k))"
    if prior: "prior_step c (x_seq c + 1) = Some p" "s_name p = sleep_name"
      "json_get (s_output p) ''wake_at'' = Some (JStamp w)" for p w
  proof -
    have row': "lookup_job d (x_job ?c) = Some j" using row by simp
    obtain d' where d': "reschedule_self now (w - db_now) ?c d
        = (Inr (), ?c\<lparr>x_rescheduled := True\<rparr>, d')"
      "lookup_job d' (x_job c) = Some (reschedule_set now (w - db_now) j)"
      using reschedule_self_live [OF ok row', of now "w - db_now"] live by auto
    show ?thesis
      using prior d' clocks
      by (auto simp: sleep_def dxe_next_seq_def prior_step_def Let_def row_simps)
  qed
  from first later show ?thesis by blast
qed

theorem sleep_is_durable_witness:
  "\<exists>c' d' k. sleep 10 11 60 (new_ctx ((default_jorb 0 7)\<lparr>j_run_epoch := 1\<rparr>) None)
      (seed_db [((default_jorb 0 7)\<lparr>j_state := Running, j_run_epoch := 1, j_run_count := 1\<rparr>,
                 [Queued, Claimed, Running])])
    = (Inl (DurableSleep 70), c', d') \<and> lookup_job d' 7 = Some k \<and> 70 \<le> j_run_after k"
proof -
  let ?j = "(default_jorb 0 7)\<lparr>j_state := Running, j_run_epoch := 1, j_run_count := 1\<rparr>"
  let ?d = "seed_db [(?j, [Queued, Claimed, Running])]"
  let ?c = "new_ctx ((default_jorb 0 7)\<lparr>j_run_epoch := 1\<rparr>) None"
  have "jobs_ok ?d" "lookup_job ?d (x_job ?c) = Some ?j" by (simp_all add: seed_simps new_ctx_def)
  from sleep_is_durable [OF this, of 10 11 60]
  show ?thesis by (auto simp: new_ctx_def prior_step_def)
qed

end
