(* ===== verification/Replay.thy ===== *)
theory Replay
  imports Durable
begin

text \<open>
  What the primitives add up to over a job's life. A job is a program over \<open>step\<close> and
  \<open>transaction\<close> whose continuation depends only on the values those calls returned; an
  attempt runs it from the top with the recorded checkpoints bound, and may end at any call
  by an exception, a lost commit or the death of the process. The results here are about any
  number of attempts.
\<close>

section \<open>Programs and attempts\<close>

datatype prog =
    Finish json
  | PStep string "json \<Rightarrow> prog"
  | PTx string "json \<Rightarrow> prog"

text \<open>
  What one really executed call does: the clocks it sees, the fate of its commit, the rows
  its function writes before it raises, and the exception or the value it ends with.
\<close>

record call =
  k_timing :: timing
  k_commit :: commit
  k_partial :: "json list"
  k_outcome :: "exn + json"

definition write_rows :: "json list \<Rightarrow> database \<Rightarrow> database" where
  "write_rows ws d = d\<lparr>app_writes := app_writes d @ ws\<rparr>"

text \<open>
  The function a transaction is given: on success it writes the rows \<open>rows_of name v\<close> that go
  with its value, through the connection it was handed.
\<close>

definition tx_body :: "(string \<Rightarrow> json \<Rightarrow> json list) \<Rightarrow> string \<Rightarrow> call \<Rightarrow> json job_m" where
  "tx_body rows_of name k c d =
     (case k_outcome k of
        Inl e \<Rightarrow> (Inl e, c, write_rows (k_partial k) d)
      | Inr v \<Rightarrow> (Inr v, c, write_rows (rows_of name v) d))"

definition step_body :: "call \<Rightarrow> json job_m" where
  "step_body k c d = (k_outcome k, c, d)"

text \<open>
  One attempt. A call that replays needs nothing of the outside; a call that executes takes
  the next of \<open>calls\<close>, and the process dies where they run out (\<open>None\<close>).
\<close>

primrec run ::
  "(string \<Rightarrow> json \<Rightarrow> json list) \<Rightarrow> prog \<Rightarrow> call list \<Rightarrow> job_ctx \<Rightarrow> database
     \<Rightarrow> (exn + json) option \<times> job_ctx \<times> database" where
  "run rows_of (Finish v) = (\<lambda>calls c d. (Some (Inr v), c, d))"
| "run rows_of (PStep name k) = (\<lambda>calls c d.
     case dxe_resume name c of
       (Inl e, c') \<Rightarrow> (Some (Inl e), c', d)
     | (Inr (seq, Some out), c') \<Rightarrow> run rows_of (k out) calls c' d
     | (Inr (seq, None), _) \<Rightarrow>
         (case calls of
            [] \<Rightarrow> (None, c, d)
          | x # xs \<Rightarrow>
              (case step (k_timing x) name (step_body x) c d of
                 (Inl e, c', d') \<Rightarrow> (Some (Inl e), c', d')
               | (Inr v, c', d') \<Rightarrow> run rows_of (k v) xs c' d')))"
| "run rows_of (PTx name k) = (\<lambda>calls c d.
     case dxe_resume name c of
       (Inl e, c') \<Rightarrow> (Some (Inl e), c', d)
     | (Inr (seq, Some out), c') \<Rightarrow> run rows_of (k out) calls c' d
     | (Inr (seq, None), _) \<Rightarrow>
         (case calls of
            [] \<Rightarrow> (None, c, d)
          | x # xs \<Rightarrow>
              (case transaction (k_timing x) (k_commit x) name (tx_body rows_of name x) c d of
                 (Inl e, c', d') \<Rightarrow> (Some (Inl e), c', d')
               | (Inr v, c', d') \<Rightarrow> run rows_of (k v) xs c' d')))"

text \<open>The worker binds the recorded checkpoints and the epoch it claimed at.\<close>

definition attempt ::
  "(string \<Rightarrow> json \<Rightarrow> json list) \<Rightarrow> prog \<Rightarrow> job_id \<Rightarrow> int \<Rightarrow> call list \<Rightarrow> database
     \<Rightarrow> (exn + json) option \<times> job_ctx \<times> database" where
  "attempt rows_of p i epoch calls d =
     run rows_of p calls
       (dxe_bind (load_steps d i) epoch
          \<lparr>x_job = i, x_epoch = epoch, x_steps = [], x_seq = 0, x_rescheduled = False,
           x_step_timeout = None\<rparr>) d"

text \<open>
  A life: attempts, each at the epoch it holds, and before each what the rest of the platform
  does to the database (requeues, claims, other jobs).
\<close>

fun life ::
  "(string \<Rightarrow> json \<Rightarrow> json list) \<Rightarrow> prog \<Rightarrow> job_id
     \<Rightarrow> ((database \<Rightarrow> database) \<times> int \<times> call list) list \<Rightarrow> database \<Rightarrow> database" where
  "life rows_of p i [] d = d"
| "life rows_of p i ((elsewhere, epoch, calls) # rest) d =
     life rows_of p i rest (snd (snd (attempt rows_of p i epoch calls (elsewhere d))))"

section \<open>The log a program leaves\<close>

text \<open>
  The rows the recorded successes of a program account for, in program order from position
  \<open>n\<close>; and whether a log is one this program can have left: successes without gaps, under
  the program's own names, with at most one failure at the frontier.
\<close>

primrec committed ::
  "(string \<Rightarrow> json \<Rightarrow> json list) \<Rightarrow> prog \<Rightarrow> (int \<Rightarrow> step_row option) \<Rightarrow> int \<Rightarrow> json list" where
  "committed rows_of (Finish v) s n = []"
| "committed rows_of (PStep name k) s n =
     (case s (n + 1) of
        None \<Rightarrow> []
      | Some r \<Rightarrow> if s_error r = None then committed rows_of (k (s_output r)) s (n + 1) else [])"
| "committed rows_of (PTx name k) s n =
     (case s (n + 1) of
        None \<Rightarrow> []
      | Some r \<Rightarrow>
          if s_error r = None
          then rows_of name (s_output r) @ committed rows_of (k (s_output r)) s (n + 1) else [])"

primrec matches :: "prog \<Rightarrow> (int \<Rightarrow> step_row option) \<Rightarrow> int \<Rightarrow> bool" where
  "matches (Finish v) s n = (\<forall>m > n. s m = None)"
| "matches (PStep name k) s n =
     (case s (n + 1) of
        None \<Rightarrow> \<forall>m > n. s m = None
      | Some r \<Rightarrow>
          s_name r = name
          \<and> (if s_error r = None then matches (k (s_output r)) s (n + 1)
             else \<forall>m > n + 1. s m = None))"
| "matches (PTx name k) s n =
     (case s (n + 1) of
        None \<Rightarrow> \<forall>m > n. s m = None
      | Some r \<Rightarrow>
          s_name r = name
          \<and> (if s_error r = None then matches (k (s_output r)) s (n + 1)
             else \<forall>m > n + 1. s m = None))"

text \<open>The value a program ends with when every call up to its end has a recorded success.\<close>

primrec result_of :: "prog \<Rightarrow> (int \<Rightarrow> step_row option) \<Rightarrow> int \<Rightarrow> json option" where
  "result_of (Finish v) s n = Some v"
| "result_of (PStep name k) s n =
     (case s (n + 1) of
        None \<Rightarrow> None
      | Some r \<Rightarrow> if s_error r = None then result_of (k (s_output r)) s (n + 1) else None)"
| "result_of (PTx name k) s n =
     (case s (n + 1) of
        None \<Rightarrow> None
      | Some r \<Rightarrow> if s_error r = None then result_of (k (s_output r)) s (n + 1) else None)"

lemma matches_empty: "(\<forall>m > n. s m = None) \<Longrightarrow> matches p s n"
  by (cases p) auto

lemma committed_empty: "s (n + 1) = None \<Longrightarrow> committed rows_of p s n = []"
  by (cases p) auto

text \<open>Only positions past \<open>n\<close> matter.\<close>

lemma committed_cong: "(\<And>m. n < m \<Longrightarrow> s m = t m) \<Longrightarrow> committed rows_of p s n = committed rows_of p t n"
  by (induction p arbitrary: n) (auto split: option.splits)

lemma matches_cong: "(\<And>m. n < m \<Longrightarrow> s m = t m) \<Longrightarrow> matches p s n = matches p t n"
proof (induction p arbitrary: n)
  case (Finish v)
  then show ?case by auto
next
  case (PStep name k)
  have IH: "matches (k v) s (n + 1) = matches (k v) t (n + 1)" for v
    by (rule PStep.IH) (use PStep.prems in auto)
  show ?case using PStep.prems IH by (auto split: option.splits)
next
  case (PTx name k)
  have IH: "matches (k v) s (n + 1) = matches (k v) t (n + 1)" for v
    by (rule PTx.IH) (use PTx.prems in auto)
  show ?case using PTx.prems IH by (auto split: option.splits)
qed

lemma result_of_cong: "(\<And>m. n < m \<Longrightarrow> s m = t m) \<Longrightarrow> result_of p s n = result_of p t n"
  by (induction p arbitrary: n) (auto split: option.splits)

section \<open>What one executed call leaves\<close>

text \<open>
  Either the call's success is recorded, and its rows are in; or they are not, and the call
  site is as it was or holds a failure under its name.
\<close>

definition advanced ::
  "job_id \<Rightarrow> int \<Rightarrow> string \<Rightarrow> json \<Rightarrow> json list \<Rightarrow> database \<Rightarrow> database \<Rightarrow> bool" where
  "advanced i seq name v ws d d' \<longleftrightarrow>
     (\<exists>r. step_at d' i seq = Some r \<and> s_name r = name \<and> s_error r = None \<and> s_output r = v)
     \<and> (\<forall>m. m \<noteq> seq \<longrightarrow> step_at d' i m = step_at d i m)
     \<and> app_writes d' = app_writes d @ ws"

definition stalled :: "job_id \<Rightarrow> int \<Rightarrow> string \<Rightarrow> database \<Rightarrow> database \<Rightarrow> bool" where
  "stalled i seq name d d' \<longleftrightarrow>
     (step_at d' i seq = step_at d i seq
      \<or> (\<exists>r. step_at d' i seq = Some r \<and> s_name r = name \<and> s_error r \<noteq> None))
     \<and> (\<forall>m. m \<noteq> seq \<longrightarrow> step_at d' i m = step_at d i m)
     \<and> app_writes d' = app_writes d"

definition unanswered :: "job_id \<Rightarrow> int \<Rightarrow> database \<Rightarrow> bool" where
  "unanswered i seq d \<longleftrightarrow> prior_success d i seq = None"

lemma step_at_write_rows [simp]: "step_at (write_rows ws d) k n = step_at d k n"
  by (simp add: write_rows_def step_at_def)

lemma owns_write_rows [simp]: "owns (write_rows ws d) k e = owns d k e"
  by (simp add: write_rows_def owns_def lookup_job_def)

lemma app_writes_write_rows [simp]: "app_writes (write_rows ws d) = app_writes d @ ws"
  by (simp add: write_rows_def)

text \<open>Recording a success where there is none, and a failure anywhere.\<close>

lemma dxe_record_success:
  assumes "dxe_record t seq name v None c d = (r, c', d')" and "unanswered (x_job c) seq d"
  shows "c' = c \<and> (if owns d (x_job c) (x_epoch c)
     then r = Inr () \<and> advanced (x_job c) seq name v [] d d'
     else r = Inl StaleExecutionError \<and> d' = d)"
proof (cases "owns d (x_job c) (x_epoch c)")
  case True
  with assms have d': "d' = snd (record_step (t_now t) (x_job c) seq name v None (x_epoch c) (t_started t) d)"
    and r: "r = Inr ()" "c' = c"
    by (auto simp: dxe_record_def record_step_def)
  have "advanced (x_job c) seq name v [] d d'"
    unfolding advanced_def d'
    using True checkpoint.writes_kept
    by (auto simp: step_at_record_step merge_step_def Let_def split: option.splits)
  with True r show ?thesis by simp
qed (use assms in \<open>auto simp: dxe_record_def record_step_def\<close>)

lemma dxe_fail_effect:
  assumes "dxe_fail t seq name e c d = (r, c', d')"
  shows "c' = c \<and> (\<exists>e'. r = Inl e') \<and> stalled (x_job c) seq name d d'
    \<and> (\<not> unanswered (x_job c) seq d \<longrightarrow> step_at d' (x_job c) seq = step_at d (x_job c) seq)"
proof (cases "unrecorded e \<or> \<not> owns d (x_job c) (x_epoch c)")
  case True
  with assms show ?thesis
    by (auto simp: dxe_fail_def dxe_record_def record_step_def stalled_def split: if_splits)
next
  case False
  let ?w = "record_step (t_now t) (x_job c) seq name JNull (Some (exn_text e)) (x_epoch c) (t_started t) d"
  from False assms have d': "d' = snd ?w" and r: "r = Inl e" "c' = c"
    by (auto simp: dxe_fail_def dxe_record_def record_step_def)
  have at: "step_at d' (x_job c) m = (if m = seq
      then Some (case step_at d (x_job c) seq of
             None \<Rightarrow> \<lparr>s_job_id = x_job c, s_seq = seq, s_name = name, s_output = JNull,
                     s_error = Some (exn_text e), s_run_epoch = x_epoch c,
                     s_started = t_started t, s_finished = t_now t\<rparr>
           | Some old \<Rightarrow> merge_step old
               \<lparr>s_job_id = x_job c, s_seq = seq, s_name = name, s_output = JNull,
                s_error = Some (exn_text e), s_run_epoch = x_epoch c,
                s_started = t_started t, s_finished = t_now t\<rparr>)
      else step_at d (x_job c) m)" for m
    using False unfolding d' by (simp add: step_at_record_step Let_def)
  have "app_writes d' = app_writes d"
    unfolding d' by (rule checkpoint.writes_kept)
  then show ?thesis
    using r at
    by (auto simp: stalled_def unanswered_def prior_success_def merge_step_def
        split: option.splits if_splits)
qed

lemma dxe_invoke_tx:
  "dxe_invoke t name (tx_body rows_of name k) c d =
     (case dxe_invoke t name (tx_body rows_of name k) c d of (r, _) \<Rightarrow>
        (r, c, case k_outcome k of Inl e \<Rightarrow> write_rows (k_partial k) d
               | Inr v \<Rightarrow> write_rows (rows_of name v) d))
   \<and> (\<forall>v. fst (dxe_invoke t name (tx_body rows_of name k) c d) = Inr v \<longrightarrow> k_outcome k = Inr v)"
  by (auto simp: dxe_invoke_def tx_body_def split: option.splits sum.splits exn.splits prod.splits)

lemma dxe_resume_None:
  "dxe_resume name c = (Inr (seq, None), c') \<Longrightarrow>
     seq = x_seq c + 1 \<and> c' = c\<lparr>x_seq := seq\<rparr>
     \<and> (case prior_step c seq of None \<Rightarrow> True | Some r \<Rightarrow> s_name r = name \<and> s_error r \<noteq> None)"
  by (auto simp: dxe_resume_def dxe_next_seq_def prior_step_def Let_def
      split: option.splits if_splits)

lemma dxe_resume_Some:
  "dxe_resume name c = (Inr (seq, Some v), c') \<Longrightarrow>
     seq = x_seq c + 1 \<and> c' = c\<lparr>x_seq := seq\<rparr>
     \<and> (\<exists>r. prior_step c seq = Some r \<and> s_name r = name \<and> s_error r = None \<and> s_output r = v)"
  by (auto simp: dxe_resume_def dxe_next_seq_def prior_step_def Let_def
      split: option.splits if_splits)

lemma dxe_resume_Inl:
  "dxe_resume name c = (Inl e, c') \<Longrightarrow>
     e = NondeterminismError
     \<and> (\<exists>r. prior_step c (x_seq c + 1) = Some r \<and> s_name r \<noteq> name)"
  by (auto simp: dxe_resume_def dxe_next_seq_def prior_step_def Let_def
      split: option.splits if_splits)

text \<open>A transaction that executes: all of it, or none of it, whatever happens to its commit.\<close>

lemma transaction_effect:
  assumes resume: "dxe_resume name c = (Inr (seq, None), c0)" and i: "x_job c = i"
    and unans: "unanswered i seq d"
    and run: "transaction t cm name (tx_body rows_of name k) c d = (r, c', d')"
  shows "c' = c\<lparr>x_seq := seq\<rparr>
    \<and> (stalled i seq name d d' \<and> (\<exists>e. r = Inl e)
       \<or> (\<exists>v. advanced i seq name v (rows_of name v) d d' \<and> (r = Inr v \<or> (\<exists>e. r = Inl e))))"
proof -
  have c0: "c0 = c\<lparr>x_seq := seq\<rparr>" using dxe_resume_None [OF resume] by simp
  then have job: "x_job c0 = i" "x_epoch c0 = x_epoch c" using i by simp_all
  let ?w = "\<lambda>d. case k_outcome k of Inl e \<Rightarrow> write_rows (k_partial k) d
               | Inr v \<Rightarrow> write_rows (rows_of name v) d"
  obtain res where inv: "dxe_invoke t name (tx_body rows_of name k) c0 d = (res, c0, ?w d)"
    and out: "\<And>v. res = Inr v \<Longrightarrow> k_outcome k = Inr v"
    using dxe_invoke_tx [of t name rows_of k c0 d] by (metis (no_types, lifting) case_prod_beta fst_conv)
  show ?thesis
  proof (cases res)
    case (Inl e)
    with run resume inv have "dxe_fail t seq name e c0 d = (r, c', d')"
      by (simp add: transaction_def)
    from dxe_fail_effect [OF this] show ?thesis using job c0 by auto
  next
    case (Inr v)
    with out have v: "k_outcome k = Inr v" by simp
    let ?d1 = "write_rows (rows_of name v) d"
    have unans1: "unanswered (x_job c0) seq ?d1"
      using unans job by (simp add: unanswered_def prior_success_def)
    obtain q c2 d2 where rec: "dxe_record t seq name v None c0 ?d1 = (q, c2, d2)"
      using prod_cases3 by blast
    from dxe_record_success [OF rec unans1] have c2: "c2 = c0"
      and eff: "if owns ?d1 (x_job c0) (x_epoch c0)
        then q = Inr () \<and> advanced (x_job c0) seq name v [] ?d1 d2
        else q = Inl StaleExecutionError \<and> d2 = ?d1" by auto
    show ?thesis
    proof (cases "owns ?d1 (x_job c0) (x_epoch c0)")
      case False
      with eff rec run resume inv Inr v c2 have "r = Inl StaleExecutionError" "c' = c0" "d' = d"
        by (auto simp: transaction_def)
      then show ?thesis using c0 by (auto simp: stalled_def)
    next
      case True
      with eff have adv: "advanced i seq name v (rows_of name v) d d2" and q: "q = Inr ()"
        using job by (auto simp: advanced_def)
      show ?thesis
      proof (cases cm)
        case Committed
        with q rec run resume inv Inr v c2 have "r = Inr v" "c' = c0" "d' = d2"
          by (auto simp: transaction_def)
        with adv c0 show ?thesis by auto
      next
        case AckLost
        with q rec run resume inv Inr v c2 have fail: "dxe_fail t seq name connection_lost c0 d2 = (r, c', d')"
          by (auto simp: transaction_def)
        have "\<not> unanswered i seq d2"
          using adv by (auto simp: advanced_def unanswered_def prior_success_def)
        with dxe_fail_effect [OF fail] job have "c' = c0" "\<forall>m. step_at d' i m = step_at d2 i m"
          "app_writes d' = app_writes d2" by (auto simp: stalled_def)
        moreover have "\<exists>e. r = Inl e" using dxe_fail_effect [OF fail] by simp
        ultimately show ?thesis using adv c0 by (auto simp: advanced_def)
      next
        case CommitLost
        with q rec run resume inv Inr v c2 have "dxe_fail t seq name connection_lost c0 d = (r, c', d')"
          by (auto simp: transaction_def)
        from dxe_fail_effect [OF this] show ?thesis using job c0 by auto
      qed
    qed
  qed
qed

text \<open>A step that executes, likewise, without rows of its own.\<close>

lemma step_effect:
  assumes resume: "dxe_resume name c = (Inr (seq, None), c0)" and i: "x_job c = i"
    and unans: "unanswered i seq d"
    and run: "step t name (step_body k) c d = (r, c', d')"
  shows "c' = c\<lparr>x_seq := seq\<rparr>
    \<and> (stalled i seq name d d' \<and> (\<exists>e. r = Inl e)
       \<or> (\<exists>v. advanced i seq name v [] d d' \<and> r = Inr v))"
proof -
  have c0: "c0 = c\<lparr>x_seq := seq\<rparr>" using dxe_resume_None [OF resume] by simp
  then have job: "x_job c0 = i" using i by simp
  have "snd (dxe_invoke t name (step_body k) c0 d) = (c0, d)"
    by (auto simp: dxe_invoke_def step_body_def split: option.splits sum.splits exn.splits)
  then obtain res where inv: "dxe_invoke t name (step_body k) c0 d = (res, c0, d)"
    by (metis prod.collapse)
  show ?thesis
  proof (cases res)
    case (Inl e)
    with run resume inv have "dxe_fail t seq name e c0 d = (r, c', d')"
      by (simp add: step_def)
    from dxe_fail_effect [OF this] show ?thesis using job c0 by auto
  next
    case (Inr v)
    obtain q c2 d2 where rec: "dxe_record t seq name v None c0 d = (q, c2, d2)"
      using prod_cases3 by blast
    have unans0: "unanswered (x_job c0) seq d" using unans job by simp
    from dxe_record_success [OF rec unans0] have c2: "c2 = c0"
      and eff: "if owns d (x_job c0) (x_epoch c0)
        then q = Inr () \<and> advanced (x_job c0) seq name v [] d d2
        else q = Inl StaleExecutionError \<and> d2 = d" by auto
    with rec run resume inv Inr show ?thesis
      using c0 job by (auto simp: step_def stalled_def split: if_splits)
  qed
qed

section \<open>One attempt\<close>

text \<open>
  The state of an attempt at position \<open>n\<close> of a program: the bound checkpoints beyond \<open>n\<close>
  are the ones in the database, and the database's log fits the program.
\<close>

definition at_position :: "job_id \<Rightarrow> prog \<Rightarrow> job_ctx \<Rightarrow> database \<Rightarrow> bool" where
  "at_position i p c d \<longleftrightarrow>
     x_job c = i \<and> (\<forall>m > x_seq c. prior_step c m = step_at d i m)
     \<and> matches p (step_at d i) (x_seq c)"

text \<open>What holds of an attempt from position \<open>n\<close> in \<open>d\<close>, ended in \<open>d'\<close> with \<open>out\<close>.\<close>

definition attempt_ok ::
  "(string \<Rightarrow> json \<Rightarrow> json list) \<Rightarrow> job_id \<Rightarrow> prog \<Rightarrow> int \<Rightarrow> (exn + json) option \<Rightarrow> database
     \<Rightarrow> database \<Rightarrow> bool" where
  "attempt_ok rows_of i p n out d d' \<longleftrightarrow>
     matches p (step_at d' i) n
     \<and> (\<forall>ws. app_writes d = ws @ committed rows_of p (step_at d i) n
           \<longrightarrow> app_writes d' = ws @ committed rows_of p (step_at d' i) n)
     \<and> (\<forall>m \<le> n. step_at d' i m = step_at d i m)
     \<and> (\<forall>v. out = Some (Inr v) \<longrightarrow> result_of p (step_at d' i) n = Some v)"

text \<open>
  The two kinds of call have one log discipline: at a call site that executes, the frontier,
  nothing is recorded beyond; so an advance extends the log by one and a stall leaves it.
  \<open>q\<close> is the call's node and \<open>ws v\<close> the rows that go with its value.
\<close>

definition call_node ::
  "(string \<Rightarrow> json \<Rightarrow> json list) \<Rightarrow> prog \<Rightarrow> string \<Rightarrow> (json \<Rightarrow> prog) \<Rightarrow> (json \<Rightarrow> json list) \<Rightarrow> bool" where
  "call_node rows_of q name k ws \<longleftrightarrow>
     q = PStep name k \<and> ws = (\<lambda>_. []) \<or> q = PTx name k \<and> ws = rows_of name"

lemma node_matches:
  "call_node rows_of q name k ws \<Longrightarrow> matches q s n =
     (case s (n + 1) of
        None \<Rightarrow> \<forall>m > n. s m = None
      | Some r \<Rightarrow>
          s_name r = name
          \<and> (if s_error r = None then matches (k (s_output r)) s (n + 1)
             else \<forall>m > n + 1. s m = None))"
  unfolding call_node_def by (elim disjE conjE) (simp_all only: matches.simps)

lemma node_committed:
  "call_node rows_of q name k ws \<Longrightarrow> committed rows_of q s n =
     (case s (n + 1) of
        None \<Rightarrow> []
      | Some r \<Rightarrow>
          if s_error r = None
          then ws (s_output r) @ committed rows_of (k (s_output r)) s (n + 1) else [])"
  by (auto simp: call_node_def split: option.splits)

lemma node_result:
  "call_node rows_of q name k ws \<Longrightarrow> result_of q s n =
     (case s (n + 1) of
        None \<Rightarrow> None
      | Some r \<Rightarrow> if s_error r = None then result_of (k (s_output r)) s (n + 1) else None)"
  by (auto simp: call_node_def split: option.splits)

lemma frontier:
  assumes "call_node rows_of q name k ws" and "matches q (step_at d i) n" and "unanswered i (n + 1) d"
  shows "committed rows_of q (step_at d i) n = []" and "\<forall>m > n + 1. step_at d i m = None"
  using assms
  by (auto simp: node_matches node_committed unanswered_def prior_success_def
      split: option.splits if_splits)

lemma stalled_ok:
  assumes node: "call_node rows_of q name k ws" and fits: "matches q (step_at d i) n"
    and unans: "unanswered i (n + 1) d" and st: "stalled i (n + 1) name d d'"
  shows "attempt_ok rows_of i q n (Some (Inl e)) d d'"
proof -
  note fr = frontier [OF node fits unans]
  have same: "step_at d' i m = step_at d i m" if "m \<noteq> n + 1" for m
    using st that by (simp add: stalled_def)
  show ?thesis
  proof (cases "step_at d' i (n + 1) = step_at d i (n + 1)")
    case True
    then have eq: "step_at d' i m = step_at d i m" for m
      using same by (cases "m = n + 1") auto
    then have "step_at d' i = step_at d i" by (rule ext)
    with fits st show ?thesis by (simp add: attempt_ok_def stalled_def)
  next
    case False
    with st obtain r where "step_at d' i (n + 1) = Some r" "s_name r = name" "s_error r \<noteq> None"
      by (auto simp: stalled_def)
    with fr same st show ?thesis
      by (auto simp: attempt_ok_def node_matches [OF node] node_committed [OF node] stalled_def)
  qed
qed

lemma advanced_ok:
  assumes node: "call_node rows_of q name k ws" and fits: "matches q (step_at d i) n"
    and unans: "unanswered i (n + 1) d" and adv: "advanced i (n + 1) name v (ws v) d d1"
    and rest: "attempt_ok rows_of i (k v) (n + 1) out d1 d'"
  shows "attempt_ok rows_of i q n out d d'"
proof -
  note fr = frontier [OF node fits unans]
  obtain r where r: "step_at d1 i (n + 1) = Some r" "s_name r = name" "s_error r = None" "s_output r = v"
    and same: "\<forall>m. m \<noteq> n + 1 \<longrightarrow> step_at d1 i m = step_at d i m"
    and wr: "app_writes d1 = app_writes d @ ws v"
    using adv by (auto simp: advanced_def)
  have none: "committed rows_of (k v) (step_at d1 i) (n + 1) = []"
    using fr(2) same by (intro committed_empty) simp
  have kept: "step_at d' i m = step_at d1 i m" if "m \<le> n + 1" for m
    using rest that by (simp add: attempt_ok_def)
  have r': "step_at d' i (n + 1) = Some r" using kept [of "n + 1"] r by simp
  have "app_writes d' = ws' @ committed rows_of q (step_at d' i) n"
    if "app_writes d = ws' @ committed rows_of q (step_at d i) n" for ws'
  proof -
    have "app_writes d1 = (ws' @ ws v) @ committed rows_of (k v) (step_at d1 i) (n + 1)"
      using that fr(1) none wr by simp
    with rest have "app_writes d' = (ws' @ ws v) @ committed rows_of (k v) (step_at d' i) (n + 1)"
      unfolding attempt_ok_def by blast
    then show ?thesis using r r' by (simp add: node_committed [OF node])
  qed
  moreover have "step_at d' i m = step_at d i m" if "m \<le> n" for m
    using kept [of m] same that by simp
  ultimately show ?thesis
    using rest r r' by (auto simp: attempt_ok_def node_matches [OF node] node_result [OF node])
qed

lemma advanced_position:
  assumes node: "call_node rows_of q name k ws" and at: "at_position i q c d"
    and unans: "unanswered i (x_seq c + 1) d"
    and adv: "advanced i (x_seq c + 1) name v (ws v) d d1"
  shows "at_position i (k v) (c\<lparr>x_seq := x_seq c + 1\<rparr>) d1"
proof -
  have "\<forall>m > x_seq c + 1. step_at d1 i m = None"
    using frontier(2) [OF node _ unans] at adv by (auto simp: at_position_def advanced_def)
  then show ?thesis
    using at adv by (auto simp: at_position_def advanced_def prior_step_def intro: matches_empty)
qed

lemma replayed_position:
  assumes node: "call_node rows_of q name k ws" and at: "at_position i q c d"
    and prior: "prior_step c (x_seq c + 1) = Some r" "s_error r = None"
  shows "at_position i (k (s_output r)) (c\<lparr>x_seq := x_seq c + 1\<rparr>) d"
  using assms by (auto simp: at_position_def node_matches [OF node] prior_step_def)

lemma replayed_ok:
  assumes node: "call_node rows_of q name k ws" and at: "at_position i q c d"
    and prior: "prior_step c (x_seq c + 1) = Some r" "s_error r = None"
    and rest: "attempt_ok rows_of i (k (s_output r)) (x_seq c + 1) out d d'"
  shows "attempt_ok rows_of i q (x_seq c) out d d'"
proof -
  have r: "step_at d i (x_seq c + 1) = Some r" "s_name r = name"
    using at prior by (auto simp: at_position_def node_matches [OF node] split: option.splits)
  with rest have r': "step_at d' i (x_seq c + 1) = Some r"
    by (simp add: attempt_ok_def)
  have "app_writes d' = ws' @ committed rows_of q (step_at d' i) (x_seq c)"
    if "app_writes d = ws' @ committed rows_of q (step_at d i) (x_seq c)" for ws'
  proof -
    have "app_writes d = (ws' @ ws (s_output r))
        @ committed rows_of (k (s_output r)) (step_at d i) (x_seq c + 1)"
      using that r prior by (simp add: node_committed [OF node])
    with rest have "app_writes d' = (ws' @ ws (s_output r))
        @ committed rows_of (k (s_output r)) (step_at d' i) (x_seq c + 1)"
      unfolding attempt_ok_def by blast
    then show ?thesis using r' prior by (simp add: node_committed [OF node])
  qed
  with rest r r' prior show ?thesis
    by (auto simp: attempt_ok_def node_matches [OF node] node_result [OF node])
qed

text \<open>The call that executes at a node, whichever of the two it is.\<close>

definition execute ::
  "(string \<Rightarrow> json \<Rightarrow> json list) \<Rightarrow> prog \<Rightarrow> call \<Rightarrow> job_ctx \<Rightarrow> database
     \<Rightarrow> (exn + json) \<times> job_ctx \<times> database" where
  "execute rows_of q x c d =
     (case q of
        Finish v \<Rightarrow> (Inr v, c, d)
      | PStep name k \<Rightarrow> step (k_timing x) name (step_body x) c d
      | PTx name k \<Rightarrow> transaction (k_timing x) (k_commit x) name (tx_body rows_of name x) c d)"

lemma run_node:
  "call_node rows_of q name k ws \<Longrightarrow> run rows_of q calls c d =
     (case dxe_resume name c of
       (Inl e, c') \<Rightarrow> (Some (Inl e), c', d)
     | (Inr (seq, Some out), c') \<Rightarrow> run rows_of (k out) calls c' d
     | (Inr (seq, None), _) \<Rightarrow>
         (case calls of
            [] \<Rightarrow> (None, c, d)
          | x # xs \<Rightarrow>
              (case execute rows_of q x c d of
                 (Inl e, c', d') \<Rightarrow> (Some (Inl e), c', d')
               | (Inr v, c', d') \<Rightarrow> run rows_of (k v) xs c' d')))"
  by (auto simp: call_node_def execute_def split: prod.splits sum.splits option.splits list.splits)

lemma execute_effect:
  assumes node: "call_node rows_of q name k ws"
    and resume: "dxe_resume name c = (Inr (seq, None), c0)" and i: "x_job c = i"
    and unans: "unanswered i seq d"
    and run: "execute rows_of q x c d = (r, c', d')"
  shows "c' = c\<lparr>x_seq := seq\<rparr>
    \<and> (stalled i seq name d d' \<and> (\<exists>e. r = Inl e)
       \<or> (\<exists>v. advanced i seq name v (ws v) d d' \<and> (r = Inr v \<or> (\<exists>e. r = Inl e))))"
proof -
  consider "q = PStep name k" "ws = (\<lambda>_. [])" | "q = PTx name k" "ws = rows_of name"
    using node by (auto simp: call_node_def)
  then show ?thesis
  proof cases
    case 1
    with run have "step (k_timing x) name (step_body x) c d = (r, c', d')"
      by (simp add: execute_def)
    from step_effect [OF resume i unans this] 1 show ?thesis by auto
  next
    case 2
    with run have "transaction (k_timing x) (k_commit x) name (tx_body rows_of name x) c d = (r, c', d')"
      by (simp add: execute_def)
    from transaction_effect [OF resume i unans this] 2 show ?thesis by auto
  qed
qed

lemma attempt_ok_stop:
  "matches q (step_at d i) n \<Longrightarrow> out = None \<or> (\<exists>e. out = Some (Inl e)) \<Longrightarrow> attempt_ok rows_of i q n out d d"
  by (auto simp: attempt_ok_def)

text \<open>One node of an attempt, given that what follows it is sound.\<close>

lemma run_node_ok:
  assumes node: "call_node rows_of q name k ws" and at: "at_position i q c d"
    and run: "run rows_of q calls c d = (out, c', d')"
    and IH: "\<And>v calls c d out c' d'. at_position i (k v) c d
      \<Longrightarrow> run rows_of (k v) calls c d = (out, c', d') \<Longrightarrow> attempt_ok rows_of i (k v) (x_seq c) out d d'"
  shows "attempt_ok rows_of i q (x_seq c) out d d'"
proof -
  let ?n = "x_seq c"
  have job: "x_job c = i" and fits: "matches q (step_at d i) ?n"
    and prior: "prior_step c (?n + 1) = step_at d i (?n + 1)"
    using at by (auto simp: at_position_def)
  obtain res c0 where resume: "dxe_resume name c = (res, c0)" by (cases "dxe_resume name c")
  consider (refused) e where "res = Inl e" | (replayed) seq v where "res = Inr (seq, Some v)"
    | (executes) seq where "res = Inr (seq, None)"
    by (metis old.sum.exhaust option.exhaust surj_pair)
  then show ?thesis
  proof cases
    case refused
    with resume dxe_resume_Inl obtain r where "prior_step c (?n + 1) = Some r" "s_name r \<noteq> name"
      by blast
    with prior fits have False by (auto simp: node_matches [OF node] split: option.splits)
    then show ?thesis ..
  next
    case replayed
    with resume dxe_resume_Some obtain r where r: "prior_step c (?n + 1) = Some r" "s_error r = None"
      "s_output r = v" and c0: "c0 = c\<lparr>x_seq := ?n + 1\<rparr>"
      by metis
    have "run rows_of (k v) calls c0 d = (out, c', d')"
      using run resume replayed by (simp add: run_node [OF node])
    moreover have "at_position i (k v) c0 d"
      using replayed_position [OF node at r(1,2)] r(3) c0 by simp
    ultimately have "attempt_ok rows_of i (k v) (x_seq c0) out d d'" by (rule IH [rotated])
    then show ?thesis using replayed_ok [OF node at r(1,2)] r(3) c0 by simp
  next
    case executes
    with resume have none: "dxe_resume name c = (Inr (seq, None), c0)" by simp
    then have seq: "seq = ?n + 1" and frontier_row: "case prior_step c seq of None \<Rightarrow> True
        | Some r \<Rightarrow> s_name r = name \<and> s_error r \<noteq> None"
      using dxe_resume_None by auto
    have unans: "unanswered i (?n + 1) d"
      using frontier_row prior seq by (auto simp: unanswered_def prior_success_def split: option.splits)
    show ?thesis
    proof (cases calls)
      case Nil
      with run none have "out = None" "d' = d" by (simp_all add: run_node [OF node])
      with fits show ?thesis by (simp add: attempt_ok_stop)
    next
      case (Cons x xs)
      obtain r c1 d1 where ex: "execute rows_of q x c d = (r, c1, d1)" using prod_cases3 by blast
      from execute_effect [OF node none job _ ex] unans seq
      have c1: "c1 = c\<lparr>x_seq := ?n + 1\<rparr>"
        and eff: "stalled i (?n + 1) name d d1 \<and> (\<exists>e. r = Inl e)
          \<or> (\<exists>v. advanced i (?n + 1) name v (ws v) d d1 \<and> (r = Inr v \<or> (\<exists>e. r = Inl e)))"
        by auto
      have rest: "(case r of Inl e \<Rightarrow> (Some (Inl e), c1, d1) | Inr v \<Rightarrow> run rows_of (k v) xs c1 d1)
          = (out, c', d')"
        using run none Cons ex by (simp add: run_node [OF node] split: sum.splits)
      show ?thesis
      proof (cases r)
        case (Inl e)
        with rest have out: "out = Some (Inl e)" "d' = d1" by simp_all
        from eff show ?thesis
        proof
          assume "stalled i (?n + 1) name d d1 \<and> (\<exists>e. r = Inl e)"
          then show ?thesis using stalled_ok [OF node fits unans] out by simp
        next
          assume "\<exists>v. advanced i (?n + 1) name v (ws v) d d1 \<and> (r = Inr v \<or> (\<exists>e. r = Inl e))"
          then obtain v where adv: "advanced i (?n + 1) name v (ws v) d d1" by blast
          have "matches (k v) (step_at d1 i) (?n + 1)"
            using advanced_position [OF node at unans adv] by (simp add: at_position_def)
          then have "attempt_ok rows_of i (k v) (?n + 1) out d1 d1"
            using out by (simp add: attempt_ok_stop)
          then show ?thesis using advanced_ok [OF node fits unans adv] out by simp
        qed
      next
        case (Inr v)
        with eff have adv: "advanced i (?n + 1) name v (ws v) d d1" by auto
        have "attempt_ok rows_of i (k v) (x_seq c1) out d1 d'"
          using rest Inr advanced_position [OF node at unans adv] c1 by (intro IH) auto
        then show ?thesis using advanced_ok [OF node fits unans adv] c1 by simp
      qed
    qed
  qed
qed

lemma run_ok:
  "at_position i p c d \<Longrightarrow> run rows_of p calls c d = (out, c', d') \<Longrightarrow>
   attempt_ok rows_of i p (x_seq c) out d d'"
proof (induction p arbitrary: calls c d out c' d')
  case (Finish v)
  then show ?case by (auto simp: at_position_def attempt_ok_def)
next
  case (PStep name k)
  have node: "call_node rows_of (PStep name k) name k (\<lambda>_. [])" by (simp add: call_node_def)
  show ?case
    by (rule run_node_ok [OF node PStep.prems]) (rule PStep.IH, auto)
next
  case (PTx name k)
  have node: "call_node rows_of (PTx name k) name k (rows_of name)" by (simp add: call_node_def)
  show ?case
    by (rule run_node_ok [OF node PTx.prems]) (rule PTx.IH, auto)
qed

section \<open>A whole life\<close>

text \<open>What the worker binds is what the database holds.\<close>

lemma find_load_steps:
  assumes "dxe_ok d"
  shows "find_row s_seq n (load_steps d i) = step_at d i n"
proof -
  have dist: "distinct (map (\<lambda>s. (s_job_id s, s_seq s)) (steps d))"
    using assms by (simp add: dxe_ok_def)
  then have "distinct (map (\<lambda>s. (s_job_id s, s_seq s)) (job_steps d i))"
    unfolding job_steps_def by (rule distinct_map_filter)
  then have "distinct (map s_seq (job_steps d i))"
    by (auto simp: distinct_map job_steps_def inj_on_def)
  then have "distinct (map s_seq (load_steps d i))"
    unfolding load_steps_def
    by (metis distinct_map distinct_sort set_sort)
  then have "find_row s_seq n (load_steps d i) = Some r \<longleftrightarrow> step_at d i n = Some r" for r
    using dist by (auto simp: find_row_Some step_at_def load_steps_def job_steps_def)
  then show ?thesis by (metis not_None_eq)
qed

lemma attempt_sound:
  assumes ok: "dxe_ok d" and fits: "matches p (step_at d i) 0"
    and run: "attempt rows_of p i epoch calls d = (out, c', d')"
  shows "attempt_ok rows_of i p 0 out d d'"
proof -
  let ?c = "dxe_bind (load_steps d i) epoch
    \<lparr>x_job = i, x_epoch = epoch, x_steps = [], x_seq = 0, x_rescheduled = False,
     x_step_timeout = None\<rparr>"
  have "at_position i p ?c d"
    using fits by (simp add: at_position_def dxe_bind_def prior_step_def find_load_steps [OF ok])
  from run_ok [OF this] run show ?thesis by (simp add: attempt_def dxe_bind_def)
qed

text \<open>The primary keys survive an attempt.\<close>

lemma dxe_record_keys: "dxe_ok d \<Longrightarrow> dxe_record t seq name v err c d = (r, c', d') \<Longrightarrow> dxe_ok d'"
  using checkpoint.keys_kept
  by (auto simp: dxe_record_def split: prod.splits bool.splits) (metis snd_conv)+

lemma dxe_fail_keys: "dxe_ok d \<Longrightarrow> dxe_fail t seq name e c d = (r, c', d') \<Longrightarrow> dxe_ok d'"
  by (auto simp: dxe_fail_def split: if_splits prod.splits sum.splits dest: dxe_record_keys)

lemma dxe_ok_write_rows [simp]: "dxe_ok (write_rows ws d) = dxe_ok d"
  by (simp add: dxe_ok_def write_rows_def)

lemma invoke_keys:
  "dxe_ok d \<Longrightarrow> dxe_invoke t name (tx_body rows_of name k) c d = (r, c', d') \<Longrightarrow> dxe_ok d'"
  "dxe_ok d \<Longrightarrow> dxe_invoke t name (step_body k) c d = (r, c', d') \<Longrightarrow> dxe_ok d'"
  by (auto simp: dxe_invoke_def tx_body_def step_body_def
      split: option.splits sum.splits exn.splits prod.splits)

lemma execute_keys:
  assumes "dxe_ok d" and "execute rows_of q x c d = (r, c', d')"
  shows "dxe_ok d'"
  using assms
  by (auto simp: execute_def step_def transaction_def
      split: prog.splits prod.splits sum.splits option.splits commit.splits
      dest: invoke_keys dxe_record_keys dxe_fail_keys)
    (meson invoke_keys dxe_record_keys dxe_fail_keys)+

lemma run_keys:
  "dxe_ok d \<Longrightarrow> run rows_of p calls c d = (out, c', d') \<Longrightarrow> dxe_ok d'"
proof (induction p arbitrary: calls c d)
  case (PStep name k)
  have node: "call_node rows_of (PStep name k) name k (\<lambda>_. [])" by (simp add: call_node_def)
  from PStep.prems(2) show ?case
    unfolding run_node [OF node]
    using PStep.prems(1) PStep.IH [OF rangeI]
    by (auto split: prod.splits sum.splits option.splits list.splits dest: execute_keys)
next
  case (PTx name k)
  have node: "call_node rows_of (PTx name k) name k (rows_of name)" by (simp add: call_node_def)
  from PTx.prems(2) show ?case
    unfolding run_node [OF node]
    using PTx.prems(1) PTx.IH [OF rangeI]
    by (auto split: prod.splits sum.splits option.splits list.splits dest: execute_keys)
qed simp

text \<open>What the rest of the platform does between attempts leaves this job's log and rows alone.\<close>

definition elsewhere_ok :: "job_id \<Rightarrow> (database \<Rightarrow> database) \<Rightarrow> bool" where
  "elsewhere_ok i f \<longleftrightarrow>
     (\<forall>d. (dxe_ok d \<longrightarrow> dxe_ok (f d)) \<and> step_at (f d) i = step_at d i
          \<and> app_writes (f d) = app_writes d)"

lemma life_sound:
  assumes "dxe_ok d" and "matches p (step_at d i) 0"
    and "app_writes d = ws @ committed rows_of p (step_at d i) 0"
    and "\<forall>(f, epoch, calls) \<in> set attempts. elsewhere_ok i f"
  shows "dxe_ok (life rows_of p i attempts d)
    \<and> matches p (step_at (life rows_of p i attempts d) i) 0
    \<and> app_writes (life rows_of p i attempts d)
        = ws @ committed rows_of p (step_at (life rows_of p i attempts d) i) 0"
  using assms
proof (induction attempts arbitrary: d)
  case (Cons a attempts)
  obtain f epoch calls where a: "a = (f, epoch, calls)" by (cases a)
  with Cons.prems(4) have f: "dxe_ok (f d)" "step_at (f d) i = step_at d i"
    "app_writes (f d) = app_writes d"
    using Cons.prems(1) by (auto simp: elsewhere_ok_def)
  obtain out c' d' where run: "attempt rows_of p i epoch calls (f d) = (out, c', d')"
    using prod_cases3 by blast
  have att: "attempt_ok rows_of i p 0 out (f d) d'"
    by (rule attempt_sound [OF f(1) _ run]) (simp add: f Cons.prems(2))
  have keys: "dxe_ok d'"
    using run run_keys [OF f(1)] unfolding attempt_def by blast
  have "app_writes d' = ws @ committed rows_of p (step_at d' i) 0" "matches p (step_at d' i) 0"
    using att Cons.prems(3) f unfolding attempt_ok_def by auto
  with Cons.IH [OF keys] Cons.prems(4) show ?case by (simp add: a run)
qed simp

text \<open>
  C1. Exactly once. Start a job on an empty log and let it live through any number of
  attempts, each ended anywhere by an exception, a lost or unacknowledged commit, a
  supersession or the death of the process: the rows its transactions have written are, in
  program order, exactly the rows of the calls whose success is recorded, each once; and the
  log is one the program can resume from.
\<close>

theorem transactions_are_exactly_once:
  assumes "dxe_ok d" and "\<And>m. step_at d i m = None"
    and "\<forall>(f, epoch, calls) \<in> set attempts. elsewhere_ok i f"
  shows "app_writes (life rows_of p i attempts d)
      = app_writes d @ committed rows_of p (step_at (life rows_of p i attempts d) i) 0
    \<and> matches p (step_at (life rows_of p i attempts d) i) 0"
proof -
  have "matches p (step_at d i) 0" "committed rows_of p (step_at d i) 0 = []"
    using assms(2) by (simp_all add: matches_empty committed_empty)
  with life_sound [OF assms(1) _ _ assms(3)] show ?thesis by simp
qed

theorem transactions_are_exactly_once_witness:
  "let d = seed_db [((default_jorb 0 7)\<lparr>j_state := Running, j_run_epoch := 1\<rparr>,
                     [Queued, Claimed, Running])];
       t = \<lparr>t_started = 0, t_now = 1, t_timeout = None, t_remaining = None, t_expired = False\<rparr>;
       pay = \<lparr>k_timing = t, k_commit = AckLost, k_partial = [], k_outcome = Inr (JInt 5)\<rparr>;
       p = PTx ''pay'' (\<lambda>v. Finish v);
       d' = life (\<lambda>_ v. [v]) p 7 [(\<lambda>d. d, 1, [pay]), (\<lambda>d. d, 1, [pay])] d
   in app_writes d' = committed (\<lambda>_ v. [v]) p (step_at d' 7) 0"
proof -
  let ?d = "seed_db [((default_jorb 0 7)\<lparr>j_state := Running, j_run_epoch := 1\<rparr>,
                     [Queued, Claimed, Running])]"
  let ?t = "\<lparr>t_started = 0, t_now = 1, t_timeout = None, t_remaining = None, t_expired = False\<rparr>"
  let ?pay = "\<lparr>k_timing = ?t, k_commit = AckLost, k_partial = [], k_outcome = Inr (JInt 5)\<rparr>"
  let ?as = "[(\<lambda>d. d, 1, [?pay]), (\<lambda>d. d, 1, [?pay])]"
  have ok: "dxe_ok ?d" and none: "app_writes ?d = []"
    by (simp_all add: dxe_ok_def seed_db_def empty_db_def)
  have empty: "step_at ?d 7 m = None" for m
    by (simp add: step_at_def seed_db_def empty_db_def)
  have others: "\<forall>(f, epoch, calls) \<in> set ?as. elsewhere_ok 7 f"
    by (simp add: elsewhere_ok_def)
  from transactions_are_exactly_once [OF ok empty others, of "\<lambda>_ v. [v]" "PTx ''pay'' (\<lambda>v. Finish v)"]
  show ?thesis unfolding Let_def none append_Nil by (rule conjunct1)
qed

text \<open>Every call of the program up to its end has a recorded success.\<close>

lemma run_replays:
  assumes "result_of p (step_at d i) (x_seq c) = Some v" and "at_position i p c d"
  shows "\<exists>c'. run rows_of p calls c d = (Some (Inr v), c', d)"
  using assms
proof (induction p arbitrary: c)
  case (PStep name k)
  have node: "call_node rows_of (PStep name k) name k (\<lambda>_. [])" by (simp add: call_node_def)
  from PStep.prems(1) obtain r where r: "step_at d i (x_seq c + 1) = Some r" "s_error r = None"
    "result_of (k (s_output r)) (step_at d i) (x_seq c + 1) = Some v"
    by (auto split: option.splits if_splits)
  then have prior: "prior_step c (x_seq c + 1) = Some r" "s_name r = name"
    using PStep.prems(2) by (auto simp: at_position_def)
  then have "dxe_resume name c = (Inr (x_seq c + 1, Some (s_output r)), c\<lparr>x_seq := x_seq c + 1\<rparr>)"
    using r by (simp add: dxe_resume_def dxe_next_seq_def prior_step_def)
  with PStep.IH [OF rangeI, of "s_output r" "c\<lparr>x_seq := x_seq c + 1\<rparr>"] r(3)
    replayed_position [OF node PStep.prems(2) prior(1) r(2)]
  show ?case by simp
next
  case (PTx name k)
  have node: "call_node rows_of (PTx name k) name k (rows_of name)" by (simp add: call_node_def)
  from PTx.prems(1) obtain r where r: "step_at d i (x_seq c + 1) = Some r" "s_error r = None"
    "result_of (k (s_output r)) (step_at d i) (x_seq c + 1) = Some v"
    by (auto split: option.splits if_splits)
  then have prior: "prior_step c (x_seq c + 1) = Some r" "s_name r = name"
    using PTx.prems(2) by (auto simp: at_position_def)
  then have "dxe_resume name c = (Inr (x_seq c + 1, Some (s_output r)), c\<lparr>x_seq := x_seq c + 1\<rparr>)"
    using r by (simp add: dxe_resume_def dxe_next_seq_def prior_step_def)
  with PTx.IH [OF rangeI, of "s_output r" "c\<lparr>x_seq := x_seq c + 1\<rparr>"] r(3)
    replayed_position [OF node PTx.prems(2) prior(1) r(2)]
  show ?case by simp
qed simp



end
