(* ===== verification/Retry.thy ===== *)
theory Retry
  imports Rows Complex_Main
begin

text \<open>
  The retry backoff of \<open>pyjobby/retry_strategies.py\<close>: the delay before the next attempt as
  a function of the number of failures, the strategy and the bounds a job's \<open>admin_data\<close>
  carries.

  Python integers are \<open>int\<close>, its floats are the reals they denote: the rounding of a float
  operation is not modelled, the exceptions are (an integer too large for a float, a power
  out of the float range, a delay too large for a \<open>timedelta\<close>). \<open>random.uniform\<close> is the
  parameter \<open>u\<close>, the uniform variate in the unit interval it scales.
\<close>

section \<open>Python arithmetic\<close>

datatype arith_error = OverflowError | ZeroDivisionError

text \<open>The least integer magnitude that rounds out of the range of a double.\<close>

definition float_limit :: int where
  "float_limit = 2 ^ 1024 - 2 ^ 970"

definition to_float :: "int \<Rightarrow> arith_error + real" where
  "to_float i = (if \<bar>i\<bar> < float_limit then Inr (of_int i) else Inl OverflowError)"

text \<open>\<open>x ** n\<close> of a float and an integer.\<close>

definition float_pow :: "real \<Rightarrow> int \<Rightarrow> arith_error + real" where
  "float_pow x n =
     (if x = 0 \<and> n < 0 then Inl ZeroDivisionError
      else if \<bar>x powi n\<bar> < of_int float_limit then Inr (x powi n)
      else Inl OverflowError)"

definition uniform :: "real \<Rightarrow> real \<Rightarrow> real \<Rightarrow> real" where
  "uniform a b u = a + (b - a) * u"

text \<open>\<open>datetime.timedelta(seconds=s)\<close>: whole microseconds, ties to even, below 10^9 days.\<close>

definition round_half_even :: "real \<Rightarrow> int" where
  "round_half_even x =
     (let n = \<lfloor>x\<rfloor>; r = x - of_int n
      in if r < 1 / 2 then n else if 1 / 2 < r then n + 1 else if even n then n else n + 1)"

definition max_timedelta :: int where
  "max_timedelta = 1000000000 * 86400 * 1000000"

definition timedelta_seconds :: "real \<Rightarrow> arith_error + interval" where
  "timedelta_seconds s =
     (let us = round_half_even (s * 1000000)
      in if - max_timedelta + 86400000000 \<le> us \<and> us < max_timedelta then Inr us
         else Inl OverflowError)"

section \<open>The delay\<close>

text \<open>The five members of \<open>RetryStrategy\<close>, as the strings they are.\<close>

datatype RetryStrategy = FIXED | QUADRATIC | EXPONENTIAL | LINEAR | FIBONACCI

fun strategy_value :: "RetryStrategy \<Rightarrow> string" where
  "strategy_value FIXED = ''fixed''"
| "strategy_value QUADRATIC = ''quadratic''"
| "strategy_value EXPONENTIAL = ''exponential''"
| "strategy_value LINEAR = ''linear''"
| "strategy_value FIBONACCI = ''fibonacci''"

text \<open>The loop \<open>for _ in range(k): a, b = b, a + b\<close>.\<close>

fun fib_loop :: "nat \<Rightarrow> int \<times> int \<Rightarrow> int \<times> int" where
  "fib_loop 0 ab = ab"
| "fib_loop (Suc k) (a, b) = fib_loop k (b, a + b)"

definition fib :: "int \<Rightarrow> int" where
  "fib n =
     (if n \<le> 0 then 0
      else if n = 1 \<or> n = 2 then 1
      else snd (fib_loop (nat (n - 2)) (1, 1)))"

text \<open>
  The delay before jitter. An integer delay is converted to a float by the \<open>delay * 0.1\<close>
  that follows, which is where an integer out of range raises.
\<close>

definition base_delay :: "int \<Rightarrow> string \<Rightarrow> int \<Rightarrow> real \<Rightarrow> arith_error + real" where
  "base_delay error_count strategy initial_delay multiplier =
     (if strategy = ''fixed'' then to_float initial_delay
      else if strategy = ''quadratic'' then to_float (initial_delay * error_count ^ 2)
      else if strategy = ''exponential'' then
        bind_sum (float_pow multiplier (error_count - 1)) (\<lambda>p.
        bind_sum (to_float initial_delay) (\<lambda>i. Inr (i * p)))
      else if strategy = ''linear'' then to_float (initial_delay * error_count)
      else if strategy = ''fibonacci'' then to_float (initial_delay * fib error_count)
      else
        bind_sum (float_pow multiplier (error_count - 1)) (\<lambda>p.
        bind_sum (to_float initial_delay) (\<lambda>i. Inr (i * p))))"

definition calculate_retry_delay ::
  "int \<Rightarrow> string \<Rightarrow> int \<Rightarrow> int \<Rightarrow> real \<Rightarrow> real \<Rightarrow> arith_error + interval" where
  "calculate_retry_delay error_count strategy initial_delay max_delay multiplier u =
     bind_sum (base_delay error_count strategy initial_delay multiplier) (\<lambda>delay.
     let jitter = uniform 0 (min (delay * (1 / 10)) 5) u in
     bind_sum (to_float max_delay) (\<lambda>limit.
     timedelta_seconds (min (delay + jitter) limit)))"

section \<open>The configuration\<close>

definition DEFAULT_RETRY_STRATEGY :: string where
  "DEFAULT_RETRY_STRATEGY = ''exponential''"

definition DEFAULT_MAX_RETRIES :: int where
  "DEFAULT_MAX_RETRIES = 10"

definition DEFAULT_INITIAL_RETRY_DELAY :: int where
  "DEFAULT_INITIAL_RETRY_DELAY = 1"

definition DEFAULT_MAX_RETRY_DELAY :: int where
  "DEFAULT_MAX_RETRY_DELAY = 3600"

definition or_default :: "'a option \<Rightarrow> 'a \<Rightarrow> 'a" where
  "or_default x d = (case x of Some v \<Rightarrow> v | None \<Rightarrow> d)"

lemma or_default_simps [simp]: "or_default (Some v) d = v" "or_default None d = d"
  by (simp_all add: or_default_def)

record retry_config =
  retry_strategy :: string
  max_retries :: int
  initial_retry_delay :: int
  max_retry_delay :: int

definition get_retry_config :: "admin_data \<Rightarrow> retry_config" where
  "get_retry_config ad =
     \<lparr>retry_strategy = or_default (ad_retry_strategy ad) DEFAULT_RETRY_STRATEGY,
      max_retries = or_default (ad_max_retries ad) DEFAULT_MAX_RETRIES,
      initial_retry_delay = or_default (ad_initial_retry_delay ad) DEFAULT_INITIAL_RETRY_DELAY,
      max_retry_delay = or_default (ad_max_retry_delay ad) DEFAULT_MAX_RETRY_DELAY\<rparr>"

definition calculate_retry_from_job :: "jorb \<Rightarrow> int \<Rightarrow> real \<Rightarrow> arith_error + interval" where
  "calculate_retry_from_job job error_count u =
     (let config = get_retry_config (j_admin_data job)
      in calculate_retry_delay error_count (retry_strategy config)
           (initial_retry_delay config) (max_retry_delay config) 2 u)"

section \<open>Arithmetic lemmas\<close>

lemma round_half_even_bounds:
  "of_int (round_half_even x) \<le> x + 1 / 2" "x - 1 / 2 \<le> of_int (round_half_even x)"
  by (auto simp: round_half_even_def Let_def) linarith+

lemma round_half_even_of_int [simp]: "round_half_even (of_int n) = n"
  by (simp add: round_half_even_def)

lemma round_half_even_le: "x \<le> of_int n \<Longrightarrow> round_half_even x \<le> n"
proof -
  assume x: "x \<le> of_int n"
  show ?thesis
  proof (cases "\<lfloor>x\<rfloor> = n")
    case True
    with x have "x = of_int n" by linarith
    then show ?thesis by simp
  next
    case False
    from x have "\<lfloor>x\<rfloor> \<le> n" by linarith
    with False have "\<lfloor>x\<rfloor> + 1 \<le> n" by simp
    then show ?thesis by (simp add: round_half_even_def Let_def)
  qed
qed

lemma round_half_even_ge: "of_int n \<le> x \<Longrightarrow> n \<le> round_half_even x"
proof -
  assume "of_int n \<le> x"
  then have "n \<le> \<lfloor>x\<rfloor>" by (simp add: le_floor_iff)
  then show ?thesis by (simp add: round_half_even_def Let_def)
qed

lemma round_half_even_mono: "x \<le> y \<Longrightarrow> round_half_even x \<le> round_half_even y"
proof -
  assume xy: "x \<le> y"
  show ?thesis
  proof (cases "\<lfloor>x\<rfloor> = \<lfloor>y\<rfloor>")
    case True
    with xy show ?thesis by (auto simp: round_half_even_def Let_def)
  next
    case False
    with xy floor_mono have "\<lfloor>x\<rfloor> + 1 \<le> \<lfloor>y\<rfloor>" by fastforce
    then show ?thesis by (auto simp: round_half_even_def Let_def)
  qed
qed

lemma round_half_even_whole_seconds [simp]:
  "round_half_even (of_int n * 1000000) = n * 1000000"
proof -
  have "(of_int n * 1000000 :: real) = of_int (n * 1000000)" by simp
  then show ?thesis by (metis round_half_even_of_int)
qed

section \<open>Fibonacci\<close>

text \<open>The recursion the loop unrolls.\<close>

fun fib_ref :: "nat \<Rightarrow> int" where
  "fib_ref 0 = 0"
| "fib_ref (Suc 0) = 1"
| "fib_ref (Suc (Suc n)) = fib_ref n + fib_ref (Suc n)"

lemma fib_loop_ref:
  "fib_loop k (fib_ref n, fib_ref (Suc n)) = (fib_ref (n + k), fib_ref (Suc (n + k)))"
proof (induction k arbitrary: n)
  case (Suc k)
  have "fib_loop (Suc k) (fib_ref n, fib_ref (Suc n)) =
        fib_loop k (fib_ref (Suc n), fib_ref (Suc (Suc n)))"
    by simp
  then show ?case by (simp add: Suc [of "Suc n"] del: fib_ref.simps)
qed simp

lemma fib_eq_ref: "fib n = fib_ref (nat n)"
proof (cases "n \<le> 2")
  case True
  then consider "n \<le> 0" | "n = 1" | "n = 2" by linarith
  then show ?thesis by cases (simp_all add: fib_def numeral_2_eq_2)
next
  case False
  have "fib_loop (nat (n - 2)) (1, 1) = fib_loop (nat (n - 2)) (fib_ref 1, fib_ref (Suc 1))"
    by simp
  also have "\<dots> = (fib_ref (1 + nat (n - 2)), fib_ref (Suc (1 + nat (n - 2))))"
    by (rule fib_loop_ref)
  also have "Suc (1 + nat (n - 2)) = nat n" using False by simp
  finally show ?thesis using False by (simp add: fib_def)
qed

lemma fib_ref_nonneg: "0 \<le> fib_ref n"
  by (induction n rule: fib_ref.induct) simp_all

lemma fib_ref_mono: "m \<le> n \<Longrightarrow> fib_ref m \<le> fib_ref n"
proof (induction rule: dec_induct)
  case (step n)
  have "fib_ref n \<le> fib_ref (Suc n)"
    by (cases n) (simp_all add: fib_ref_nonneg)
  with step show ?case by simp
qed simp

text \<open>The growth rate is below 7/4, which keeps the first thousand numbers in float range.\<close>

lemma fib_ref_growth: "fib_ref n * 4 ^ n \<le> 7 ^ n"
proof (induction n rule: fib_ref.induct)
  case (3 n)
  have "fib_ref (Suc (Suc n)) * 4 ^ Suc (Suc n) =
        16 * (fib_ref n * 4 ^ n) + 4 * (fib_ref (Suc n) * 4 ^ Suc n)"
    by (simp add: algebra_simps)
  also have "\<dots> \<le> 16 * 7 ^ n + 4 * 7 ^ Suc n"
    using 3 by linarith
  also have "\<dots> \<le> (7 :: int) ^ Suc (Suc n)"
    by simp
  finally show ?case .
qed simp_all

section \<open>What a retry waits\<close>

text \<open>The delay the documentation tabulates, before jitter and cap.\<close>

definition nominal_delay :: "string \<Rightarrow> int \<Rightarrow> int \<Rightarrow> int" where
  "nominal_delay strategy initial_delay n =
     initial_delay *
       (if strategy = ''fixed'' then 1
        else if strategy = ''quadratic'' then n ^ 2
        else if strategy = ''linear'' then n
        else if strategy = ''fibonacci'' then fib_ref (nat n)
        else 2 ^ nat (n - 1))"

lemma nominal_delay_nonneg: "0 \<le> i \<Longrightarrow> 0 \<le> n \<Longrightarrow> 0 \<le> nominal_delay s i n"
  by (simp add: nominal_delay_def fib_ref_nonneg)

lemma nominal_delay_mono:
  assumes "0 \<le> i" "1 \<le> m" "m \<le> n"
  shows "nominal_delay s i m \<le> nominal_delay s i n"
  using assms
  by (auto simp: nominal_delay_def intro!: mult_left_mono power_mono power_increasing fib_ref_mono)

lemma to_float_small: "0 \<le> i \<Longrightarrow> i \<le> 2 ^ 1023 \<Longrightarrow> to_float i = Inr (of_int i)"
  by (simp add: to_float_def float_limit_def)

lemma float_pow_two:
  assumes "1 \<le> n" "n \<le> 1024"
  shows "float_pow 2 (n - 1) = Inr (2 ^ nat (n - 1))"
proof -
  have "(2 :: real) powi (n - 1) = 2 ^ nat (n - 1)"
    using assms by (simp add: power_int_def)
  moreover have "(2 :: real) ^ nat (n - 1) \<le> 2 ^ 1023"
    using assms by (intro power_increasing) auto
  moreover have "(2 :: real) ^ 1023 < of_int float_limit"
    by (simp add: float_limit_def)
  ultimately have "(2 :: real) powi (n - 1) = 2 ^ nat (n - 1)"
    and "(2 :: real) ^ nat (n - 1) < of_int float_limit" by linarith+
  then show ?thesis by (simp add: float_pow_def)
qed

lemma fib_ref_small:
  assumes "1 \<le> n" "n \<le> 1024"
  shows "fib_ref (nat n) \<le> 2 ^ 900"
proof -
  define N :: nat where "N = 8 * 128"
  have "fib_ref N * (2 ^ 2) ^ N \<le> 7 ^ N"
    using fib_ref_growth [of N] by simp
  also have "(7 :: int) ^ N = (7 ^ 8) ^ 128"
    unfolding N_def by (rule power_mult)
  also have "\<dots> \<le> (2 ^ 23 :: int) ^ 128"
    by (rule power_mono) simp_all
  also have "\<dots> \<le> 2 ^ 900 * (2 ^ 2) ^ N"
    unfolding power_mult [symmetric] power_add [symmetric]
    by (rule power_increasing) (simp_all add: N_def)
  finally have "fib_ref N \<le> 2 ^ 900"
    by (rule mult_right_le_imp_le) simp
  moreover have "fib_ref (nat n) \<le> fib_ref N"
    using assms by (intro fib_ref_mono) (simp add: N_def)
  ultimately show ?thesis by (rule order_trans [rotated])
qed

lemma base_delay_nominal:
  assumes "1 \<le> n" "n \<le> 1024" "0 \<le> i" "i < 2 ^ 31"
  shows "base_delay n s i 2 = Inr (of_int (nominal_delay s i n))"
proof -
  have sq: "i * n ^ 2 \<le> 2 ^ 31 * 1024 ^ 2"
    using assms by (intro mult_mono power_mono) auto
  have lin: "i * n \<le> 2 ^ 31 * 1024"
    using assms by (intro mult_mono) auto
  have fibo: "i * fib_ref (nat n) \<le> 2 ^ 31 * 2 ^ 900"
    using assms fib_ref_small [of n] by (intro mult_mono) (auto simp: fib_ref_nonneg)
  have range: "2 ^ 31 * 1024 ^ 2 \<le> (2 :: int) ^ 1023" "2 ^ 31 * 1024 \<le> (2 :: int) ^ 1023"
    "2 ^ 31 * 2 ^ 900 \<le> (2 :: int) ^ 1023" "2 ^ 31 \<le> (2 :: int) ^ 1023"
    by simp_all
  have eqs: "to_float i = Inr (of_int i)" "to_float (i * n) = Inr (of_int (i * n))"
    "to_float (i * n ^ 2) = Inr (of_int (i * n ^ 2))"
    "to_float (i * fib_ref (nat n)) = Inr (of_int (i * fib_ref (nat n)))"
    using assms order_trans [OF sq range(1)] order_trans [OF lin range(2)]
      order_trans [OF fibo range(3)]
    by (auto intro!: to_float_small simp: fib_ref_nonneg simp del: of_int_mult of_int_power)
  from assms show ?thesis
    by (simp add: base_delay_def nominal_delay_def eqs float_pow_two fib_eq_ref)
qed

lemma to_float_nonneg_cap: "0 \<le> m \<Longrightarrow> m \<le> 2 ^ 31 \<Longrightarrow> to_float m = Inr (of_int m)"
  by (rule to_float_small) simp_all

text \<open>The computed delay, once the base delay is known to be in range.\<close>

lemma calculate_retry_delay_eq:
  fixes s :: string
  assumes "1 \<le> n" "n \<le> 1024" "0 \<le> i" "i < 2 ^ 31" "0 \<le> m" "m \<le> 2 ^ 31" "0 \<le> u" "u \<le> 1"
  defines "b \<equiv> (of_int (nominal_delay s i n) :: real)"
  shows "calculate_retry_delay n s i m 2 u =
           Inr (round_half_even (min (b + min (b / 10) 5 * u) (of_int m) * 1000000))"
proof -
  let ?d = "min (b + min (b / 10) 5 * u) (of_int m)"
  have "0 \<le> b" using assms by (simp add: nominal_delay_nonneg)
  then have "0 \<le> ?d" using assms by simp
  moreover have "?d \<le> of_int m" by simp
  ultimately have "0 \<le> round_half_even (?d * 1000000)"
    and "round_half_even (?d * 1000000) \<le> m * 1000000"
    by (intro round_half_even_ge round_half_even_le; simp)+
  then have "timedelta_seconds ?d = Inr (round_half_even (?d * 1000000))"
    using assms by (simp add: timedelta_seconds_def max_timedelta_def Let_def)
  then show ?thesis
    using base_delay_nominal [OF assms(1-4)] to_float_nonneg_cap [OF assms(5,6)]
    by (simp add: calculate_retry_delay_def uniform_def b_def)
qed

text \<open>
  C35. Every retry that the platform can schedule (up to 1024 failures, delays and cap in the
  32-bit range of the configuration, any strategy string) waits at least the documented
  backoff and at most that plus the jitter (a tenth of it, five seconds at most), and never
  longer than \<open>max_delay\<close>.
\<close>

theorem retry_delay_within_bounds:
  assumes "1 \<le> n" "n \<le> 1024" "0 \<le> i" "i < 2 ^ 31" "0 \<le> m" "m \<le> 2 ^ 31" "0 \<le> u" "u \<le> 1"
  shows "\<exists>t. calculate_retry_delay n s i m 2 u = Inr t
    \<and> min (nominal_delay s i n) m * 1000000 \<le> t
    \<and> t \<le> m * 1000000
    \<and> t \<le> (nominal_delay s i n + 5) * 1000000
    \<and> 10 * t \<le> 11 * nominal_delay s i n * 1000000 + 5"
proof -
  let ?n = "nominal_delay s i n"
  let ?b = "of_int ?n :: real"
  let ?d = "min (?b + min (?b / 10) 5 * u) (of_int m)"
  have b0: "0 \<le> ?b" using assms by (simp add: nominal_delay_nonneg)
  have j0: "0 \<le> min (?b / 10) 5 * u" using b0 assms by simp
  have j1: "min (?b / 10) 5 * u \<le> min (?b / 10) 5"
    using b0 assms by (intro mult_left_le) auto
  from j0 have lo: "of_int (min ?n m * 1000000) \<le> ?d * 1000000" by auto
  have "?d \<le> ?b + min (?b / 10) 5 * u" by simp
  also have "\<dots> \<le> ?b + 5" using j1 by linarith
  finally have "?d * 1000000 \<le> of_int ((?n + 5) * 1000000)" by simp
  moreover have "?d * 1000000 \<le> of_int (m * 1000000)" by simp
  moreover have "of_int (round_half_even (?d * 1000000)) \<le> ?d * 1000000 + 1 / 2"
    by (rule round_half_even_bounds)
  moreover have "?d \<le> 11 / 10 * ?b"
  proof -
    have "?d \<le> ?b + min (?b / 10) 5 * u" by simp
    also have "\<dots> \<le> 11 / 10 * ?b" using j1 by linarith
    finally show ?thesis .
  qed
  ultimately have "10 * of_int (round_half_even (?d * 1000000)) \<le> 11 * ?b * 1000000 + 5"
    and hi: "round_half_even (?d * 1000000) \<le> (?n + 5) * 1000000"
      "round_half_even (?d * 1000000) \<le> m * 1000000"
    by (auto intro: round_half_even_le)
  then have "10 * round_half_even (?d * 1000000) \<le> 11 * ?n * 1000000 + 5"
    by (metis (mono_tags, lifting) of_int_add of_int_le_iff of_int_mult of_int_numeral)
  with hi round_half_even_ge [OF lo] show ?thesis
    using calculate_retry_delay_eq [OF assms, of s] by simp
qed

theorem retry_delay_within_bounds_witness:
  "\<exists>t. calculate_retry_delay 5 ''fibonacci'' 2 3600 2 (1 / 2) = Inr t
    \<and> min (nominal_delay ''fibonacci'' 2 5) 3600 * 1000000 \<le> t
    \<and> t \<le> 3600 * 1000000
    \<and> t \<le> (nominal_delay ''fibonacci'' 2 5 + 5) * 1000000
    \<and> 10 * t \<le> 11 * nominal_delay ''fibonacci'' 2 5 * 1000000 + 5"
  by (rule retry_delay_within_bounds) simp_all

text \<open>
  With the same random variate, a later failure never waits less than an earlier one,
  for every strategy: backoff is monotone.
\<close>

theorem retry_delay_monotone:
  assumes "1 \<le> k" "k \<le> n" "n \<le> 1024" "0 \<le> i" "i < 2 ^ 31" "0 \<le> m" "m \<le> 2 ^ 31"
    "0 \<le> u" "u \<le> 1"
    and "calculate_retry_delay k s i m 2 u = Inr t"
    and "calculate_retry_delay n s i m 2 u = Inr t'"
  shows "t \<le> t'"
proof -
  let ?f = "\<lambda>n. of_int (nominal_delay s i n) :: real"
  have "?f k \<le> ?f n" using assms by (simp add: nominal_delay_mono)
  then have "?f k + min (?f k / 10) 5 * u \<le> ?f n + min (?f n / 10) 5 * u"
    using assms by (intro add_mono mult_right_mono) auto
  then have "min (?f k + min (?f k / 10) 5 * u) (of_int m) * 1000000
      \<le> min (?f n + min (?f n / 10) 5 * u) (of_int m) * 1000000"
    by auto
  then show ?thesis
    using round_half_even_mono calculate_retry_delay_eq [of k i m u s]
      calculate_retry_delay_eq [of n i m u s] assms
    by simp
qed

theorem retry_delay_monotone_witness:
  "calculate_retry_delay 1 ''linear'' 2 3600 2 0 = Inr 2000000
   \<and> calculate_retry_delay 3 ''linear'' 2 3600 2 0 = Inr 6000000
   \<and> (2000000 :: int) \<le> 6000000"
proof -
  have a: "calculate_retry_delay 1 ''linear'' 2 3600 2 0 = Inr 2000000"
    and b: "calculate_retry_delay 3 ''linear'' 2 3600 2 0 = Inr 6000000"
    using calculate_retry_delay_eq [of 1 2 3600 0 "''linear''"]
      calculate_retry_delay_eq [of 3 2 3600 0 "''linear''"]
      round_half_even_whole_seconds [of 2] round_half_even_whole_seconds [of 6]
    by (simp_all add: nominal_delay_def)
  have "(2000000 :: int) \<le> 6000000"
    by (rule retry_delay_monotone [of 1 3 2 3600 0 "''linear''"]) (simp_all add: a b)
  with a b show ?thesis by simp
qed

text \<open>
  Once the backoff reaches the cap, the delay is exactly \<open>max_delay\<close> whatever the
  random variate: the jitter is added before the cap and cut off by it, so jobs that fail
  together at the cap retry together.
\<close>

theorem capped_delay_has_no_jitter:
  assumes "1 \<le> n" "n \<le> 1024" "0 \<le> i" "i < 2 ^ 31" "0 \<le> m" "m \<le> 2 ^ 31" "0 \<le> u" "u \<le> 1"
    and "m \<le> nominal_delay s i n"
  shows "calculate_retry_delay n s i m 2 u = Inr (m * 1000000)"
proof -
  let ?b = "of_int (nominal_delay s i n) :: real"
  have b0: "0 \<le> ?b" using assms by (simp add: nominal_delay_nonneg)
  have "0 \<le> min (?b / 10) 5 * u" using b0 assms by simp
  moreover have "of_int m \<le> ?b" using assms(9) by simp
  ultimately have "min (?b + min (?b / 10) 5 * u) (of_int m) = of_int m" by simp
  then show ?thesis using calculate_retry_delay_eq [OF assms(1-8), of s] by simp
qed

theorem capped_delay_has_no_jitter_witness:
  "calculate_retry_delay 13 ''exponential'' 1 3600 2 (1 / 3) = Inr (3600 * 1000000)"
  by (rule capped_delay_has_no_jitter) (simp_all add: nominal_delay_def)

text \<open>
  The 1025th failure of a job with the exponential strategy, or with a strategy the
  module does not know, does not produce a capped delay: the power leaves the float range
  and the call raises, before the cap is applied.
\<close>

theorem exponential_backoff_overflows:
  assumes "1025 \<le> n"
    and "s \<notin> {''fixed'', ''quadratic'', ''linear'', ''fibonacci''}"
  shows "calculate_retry_delay n s i m 2 u = Inl OverflowError"
proof -
  have "of_int float_limit \<le> (2 :: real) ^ 1024"
    by (simp add: float_limit_def)
  also have "(2 :: real) ^ 1024 \<le> 2 ^ nat (n - 1)"
    using assms by (intro power_increasing) auto
  finally have "\<not> (2 :: real) ^ nat (n - 1) < of_int float_limit" by linarith
  moreover have "(2 :: real) powi (n - 1) = 2 ^ nat (n - 1)"
    using assms by (simp add: power_int_def)
  ultimately have "float_pow 2 (n - 1) = Inl OverflowError"
    using assms by (simp add: float_pow_def)
  with assms show ?thesis
    by (simp add: calculate_retry_delay_def base_delay_def)
qed

theorem exponential_backoff_overflows_witness:
  "calculate_retry_delay 1025 ''exponential'' 1 3600 2 0 = Inl OverflowError"
  by (rule exponential_backoff_overflows) simp_all

end
