(* ===== verification/Monitor.thy ===== *)
theory Monitor
  imports Verbs Retry
begin

text \<open>
  The reaper (\<open>pyjobby/monitor.py\<close>): the sweeps that recover abandoned work and the retention
  sweeps that delete aged rows. A sweep is one transaction (the waiter sweep is three): a
  probe that skips the rows other transactions hold, limited to a batch, and the statement
  over the ids it found. Its result is the count it returns, or the exception it raises,
  with the database it leaves.
\<close>

section \<open>The registry\<close>

text \<open>\<open>jorb_worker\<close>, the columns the sweeps read and write.\<close>

record worker_row =
  w_id :: int
  w_queue :: string
  w_last_seen :: instant
  w_shutdown_at :: "instant option"
  w_idle :: bool

datatype monitor_error = SqlFailure sql_error | BackoffFailure arith_error

definition lift_failure :: "sql_error + 'a \<Rightarrow> monitor_error + 'a" where
  "lift_failure r = (case r of Inl e \<Rightarrow> Inl (SqlFailure e) | Inr x \<Rightarrow> Inr x)"

text \<open>\<open>SELECT id ... FOR UPDATE SKIP LOCKED LIMIT n\<close>, in the table's physical order.\<close>

definition probe :: "(jorb \<Rightarrow> bool) \<Rightarrow> job_id set \<Rightarrow> nat \<Rightarrow> jorb list \<Rightarrow> jorb list" where
  "probe p locked n rows = take n (filter (\<lambda>j. p j \<and> j_id j \<notin> locked) rows)"

section \<open>Requeueing abandoned work\<close>

definition sweep_set :: "instant \<Rightarrow> jorb \<Rightarrow> jorb" where
  "sweep_set now j = REQUEUE_CLEARS_KEYS (j\<lparr>
     j_state := Queued,
     j_run_epoch := j_run_epoch j + 1,
     j_run_after := now,
     j_timeout_at := None,
     j_updated := now\<rparr>)"

definition stale :: "instant \<Rightarrow> interval \<Rightarrow> 'w worker_row_scheme \<Rightarrow> bool" where
  "stale now grace w \<longleftrightarrow> w_last_seen w < now - grace"

definition dead_where :: "worker_row list \<Rightarrow> instant \<Rightarrow> interval \<Rightarrow> jorb \<Rightarrow> bool" where
  "dead_where ws now grace j \<longleftrightarrow>
     j_state j \<in> set IN_FLIGHT_STATES
     \<and> list_ex (\<lambda>w. j_claimed_by j = Some (w_id w) \<and> stale now grace w) ws"

definition SWEEP_DEAD_WORKER_JOBS_SQL ::
  "worker_row list \<Rightarrow> instant \<Rightarrow> interval \<Rightarrow> nat \<Rightarrow> job_id set \<Rightarrow> database
     \<Rightarrow> sql_error + (jorb list \<times> database)" where
  "SWEEP_DEAD_WORKER_JOBS_SQL ws now grace n locked d =
     update_jobs
       (requeue_where IN_FLIGHT_STATES (map j_id (probe (dead_where ws now grace) locked n (jobs d))))
       (sweep_set now) d"

definition RETIRE_DEAD_WORKERS_SQL :: "instant \<Rightarrow> interval \<Rightarrow> 'w worker_row_scheme list \<Rightarrow> 'w worker_row_scheme list" where
  "RETIRE_DEAD_WORKERS_SQL now grace ws =
     map (\<lambda>w. if w_shutdown_at w = None \<and> stale now grace w
               then w\<lparr>w_shutdown_at := Some now, w_idle := False\<rparr> else w) ws"

text \<open>The two statements each commit on their own; a failure of the first skips the second.\<close>

definition sweep_dead_workers ::
  "instant \<Rightarrow> interval \<Rightarrow> nat \<Rightarrow> job_id set \<Rightarrow> worker_row list \<Rightarrow> database
     \<Rightarrow> (monitor_error + nat) \<times> worker_row list \<times> database" where
  "sweep_dead_workers now grace n locked ws d =
     (case SWEEP_DEAD_WORKER_JOBS_SQL ws now grace n locked d of
        Inl e \<Rightarrow> (Inl (SqlFailure e), ws, d)
      | Inr (requeued, d') \<Rightarrow> (Inr (length requeued), RETIRE_DEAD_WORKERS_SQL now grace ws, d'))"

definition stuck_where :: "instant \<Rightarrow> interval \<Rightarrow> jorb \<Rightarrow> bool" where
  "stuck_where now grace j \<longleftrightarrow> j_state j = Claimed \<and> j_updated j < now - grace"

definition SWEEP_STUCK_CLAIMS_SQL ::
  "instant \<Rightarrow> interval \<Rightarrow> nat \<Rightarrow> job_id set \<Rightarrow> database \<Rightarrow> sql_error + (jorb list \<times> database)" where
  "SWEEP_STUCK_CLAIMS_SQL now grace n locked d =
     update_jobs (requeue_where [Claimed] (map j_id (probe (stuck_where now grace) locked n (jobs d))))
       (sweep_set now) d"

definition sweep_stuck_claims ::
  "instant \<Rightarrow> interval \<Rightarrow> nat \<Rightarrow> job_id set \<Rightarrow> database \<Rightarrow> (monitor_error + nat) \<times> database" where
  "sweep_stuck_claims now grace n locked d =
     (case SWEEP_STUCK_CLAIMS_SQL now grace n locked d of
        Inl e \<Rightarrow> (Inl (SqlFailure e), d)
      | Inr (requeued, d') \<Rightarrow> (Inr (length requeued), d'))"

section \<open>Timeouts\<close>

definition overdue :: "instant \<Rightarrow> jorb \<Rightarrow> bool" where
  "overdue now j \<longleftrightarrow>
     j_state j = Running \<and> (case j_timeout_at j of None \<Rightarrow> False | Some t \<Rightarrow> t < now)"

definition running_where :: "job_id \<Rightarrow> jorb \<Rightarrow> bool" where
  "running_where i j \<longleftrightarrow> j_id j = i \<and> j_state j = Running"

definition retry_timed_out_set :: "instant \<Rightarrow> string \<Rightarrow> interval \<Rightarrow> jorb \<Rightarrow> jorb" where
  "retry_timed_out_set now message delay j = REQUEUE_CLEARS_KEYS (j\<lparr>
     j_state := Queued,
     j_run_epoch := j_run_epoch j + 1,
     j_timeout_at := None,
     j_error_count := j_error_count j + 1,
     j_error_message := Some message,
     j_run_after := now + delay,
     j_updated := now\<rparr>)"

definition RETRY_TIMED_OUT_SQL ::
  "instant \<Rightarrow> job_id \<Rightarrow> string \<Rightarrow> interval \<Rightarrow> database \<Rightarrow> sql_error + (jorb list \<times> database)" where
  "RETRY_TIMED_OUT_SQL now i message delay =
     update_jobs (running_where i) (retry_timed_out_set now message delay)"

definition deadletter_timed_out_set :: "instant \<Rightarrow> string \<Rightarrow> jorb \<Rightarrow> jorb" where
  "deadletter_timed_out_set now message j = j\<lparr>
     j_state := Crashed,
     j_run_epoch := j_run_epoch j + 1,
     j_timeout_at := None,
     j_error_count := j_error_count j + 1,
     j_error_message := Some message,
     j_finished := Some now,
     j_updated := now\<rparr>"

definition DEADLETTER_TIMED_OUT_SQL ::
  "instant \<Rightarrow> job_id \<Rightarrow> string \<Rightarrow> database \<Rightarrow> sql_error + (jorb list \<times> database)" where
  "DEADLETTER_TIMED_OUT_SQL now i message =
     update_jobs (running_where i) (deadletter_timed_out_set now message)"

text \<open>The policy: \<open>job\<close> is the row the probe selected, \<open>u\<close> the variate of its backoff.\<close>

definition timeout_retryable :: "jorb \<Rightarrow> bool" where
  "timeout_retryable job \<longleftrightarrow>
     or_default (ad_on_timeout (j_admin_data job)) ''retry'' = ''retry''
     \<and> j_error_count job + 1 < max_retries (get_retry_config (j_admin_data job))"

definition timeout_reason :: "jorb \<Rightarrow> string" where
  "timeout_reason job =
     (if max_retries (get_retry_config (j_admin_data job)) \<le> j_error_count job + 1
      then ''max retries exceeded'' else ''on_timeout=fail'')"

definition handle_timed_out_job ::
  "instant \<Rightarrow> real \<Rightarrow> jorb \<Rightarrow> database \<Rightarrow> monitor_error + database" where
  "handle_timed_out_job now u job d =
     (if timeout_retryable job
      then case calculate_retry_from_job job (j_error_count job + 1) u of
             Inl e \<Rightarrow> Inl (BackoffFailure e)
           | Inr delay \<Rightarrow>
               bind_sum (lift_failure (RETRY_TIMED_OUT_SQL now (j_id job)
                   ''Timeout exceeded - retrying'' delay d)) (\<lambda>r. Inr (snd r))
      else bind_sum (lift_failure (DEADLETTER_TIMED_OUT_SQL now (j_id job)
              (''Timeout exceeded - dead-lettered ('' @ timeout_reason job @ '')'') d)) (\<lambda>r. Inr (snd r)))"

fun handle_all ::
  "instant \<Rightarrow> (job_id \<Rightarrow> real) \<Rightarrow> jorb list \<Rightarrow> database \<Rightarrow> monitor_error + database" where
  "handle_all now u [] d = Inr d"
| "handle_all now u (job # rest) d =
     bind_sum (handle_timed_out_job now (u (j_id job)) job d) (handle_all now u rest)"

text \<open>One transaction: an exception rolls every row of the batch back.\<close>

definition sweep_timed_out_jobs ::
  "instant \<Rightarrow> (job_id \<Rightarrow> real) \<Rightarrow> nat \<Rightarrow> job_id set \<Rightarrow> database \<Rightarrow> (monitor_error + nat) \<times> database" where
  "sweep_timed_out_jobs now u n locked d =
     (let timed_out = probe (overdue now) locked n (jobs d)
      in case handle_all now u timed_out d of
           Inl e \<Rightarrow> (Inl e, d)
         | Inr d' \<Rightarrow> (Inr (length timed_out), d'))"

section \<open>Stranded waiters\<close>

definition job_satisfied :: "jorb list \<Rightarrow> jorb \<Rightarrow> bool" where
  "job_satisfied rows w \<longleftrightarrow>
     (case j_waitfor_job w of None \<Rightarrow> False
      | Some i \<Rightarrow> list_ex (\<lambda>u. j_id u = i \<and> j_state u = Finished) rows)"

definition group_exists :: "jorb list \<Rightarrow> int \<Rightarrow> bool" where
  "group_exists rows g \<longleftrightarrow> list_ex (\<lambda>r. j_run_group r = Some g) rows"

definition group_satisfied :: "jorb list \<Rightarrow> jorb \<Rightarrow> bool" where
  "group_satisfied rows w \<longleftrightarrow>
     (case j_waitfor_group w of None \<Rightarrow> False
      | Some g \<Rightarrow> group_exists rows g \<and> \<not> group_unfinished rows g)"

definition unsatisfiable :: "jorb list \<Rightarrow> jorb \<Rightarrow> bool" where
  "unsatisfiable rows w \<longleftrightarrow>
     (case j_waitfor_job w of None \<Rightarrow> False | Some i \<Rightarrow> \<not> list_ex (\<lambda>u. j_id u = i) rows)
     \<or> (case j_waitfor_group w of None \<Rightarrow> False | Some g \<Rightarrow> \<not> group_exists rows g)"

definition waiter :: "(jorb list \<Rightarrow> jorb \<Rightarrow> bool) \<Rightarrow> jorb list \<Rightarrow> jorb \<Rightarrow> bool" where
  "waiter dep rows w \<longleftrightarrow> j_state w = Waiting \<and> dep rows w"

definition wake_waiters_where :: "jorb list \<Rightarrow> job_id list \<Rightarrow> jorb \<Rightarrow> bool" where
  "wake_waiters_where rows is w \<longleftrightarrow>
     j_id w \<in> set is \<and> j_state w = Waiting \<and> (job_satisfied rows w \<or> group_satisfied rows w)"

definition WAKE_WAITERS_SQL ::
  "instant \<Rightarrow> job_id list \<Rightarrow> database \<Rightarrow> sql_error + (jorb list \<times> database)" where
  "WAKE_WAITERS_SQL now is d = update_jobs (wake_waiters_where (jobs d) is) (wake_set now) d"

text \<open>\<open>bigint || text\<close>: the decimal rendering.\<close>

fun nat_text :: "nat \<Rightarrow> string" where
  "nat_text n = (if n < 10 then [] else nat_text (n div 10)) @ [char_of (48 + n mod 10)]"

definition int_text :: "int \<Rightarrow> string" where
  "int_text i = (if i < 0 then ''-'' @ nat_text (nat (- i)) else nat_text (nat i))"

definition unsatisfiable_reason :: "jorb \<Rightarrow> string" where
  "unsatisfiable_reason w =
     (case j_waitfor_job w of
        Some i \<Rightarrow> ''cancelled by the monitor: waitfor_job '' @ int_text i @ '' does not exist''
      | None \<Rightarrow> (case j_waitfor_group w of
          Some g \<Rightarrow> ''cancelled by the monitor: waitfor_group '' @ int_text g @ '' has no jobs''
        | None \<Rightarrow> []))"

definition cancel_unsatisfiable_where :: "jorb list \<Rightarrow> job_id list \<Rightarrow> jorb \<Rightarrow> bool" where
  "cancel_unsatisfiable_where rows is w \<longleftrightarrow>
     j_id w \<in> set is \<and> j_state w = Waiting \<and> unsatisfiable rows w"

definition cancel_unsatisfiable_set :: "instant \<Rightarrow> jorb \<Rightarrow> jorb" where
  "cancel_unsatisfiable_set now w = w\<lparr>
     j_state := Cancelled,
     j_error_message := Some (unsatisfiable_reason w),
     j_finished := Some now,
     j_updated := now\<rparr>"

definition CANCEL_UNSATISFIABLE_WAITERS_SQL ::
  "instant \<Rightarrow> job_id list \<Rightarrow> database \<Rightarrow> sql_error + (jorb list \<times> database)" where
  "CANCEL_UNSATISFIABLE_WAITERS_SQL now is d =
     update_jobs (cancel_unsatisfiable_where (jobs d) is) (cancel_unsatisfiable_set now) d"

text \<open>One of the three transactions: the probe, then the statement over what it found.\<close>

definition sweep_waiters ::
  "(jorb list \<Rightarrow> jorb \<Rightarrow> bool) \<Rightarrow> (job_id list \<Rightarrow> database \<Rightarrow> sql_error + (jorb list \<times> database))
     \<Rightarrow> nat \<Rightarrow> job_id set \<Rightarrow> nat \<Rightarrow> database \<Rightarrow> (monitor_error + nat) \<times> database" where
  "sweep_waiters dep stmt n locked moved d =
     (let rows = probe (waiter dep (jobs d)) locked n (jobs d)
      in if rows = [] then (Inr moved, d)
         else (case stmt (map j_id rows) d of
                 Inl e \<Rightarrow> (Inl (SqlFailure e), d)
               | Inr (done, d') \<Rightarrow> (Inr (moved + length done), d')))"

definition sweep_stranded_waiters ::
  "instant \<Rightarrow> nat \<Rightarrow> job_id set \<Rightarrow> database \<Rightarrow> (monitor_error + nat) \<times> database" where
  "sweep_stranded_waiters now n locked d =
     (case sweep_waiters job_satisfied (WAKE_WAITERS_SQL now) n locked 0 d of
        (Inl e, d1) \<Rightarrow> (Inl e, d1)
      | (Inr m1, d1) \<Rightarrow>
          (case sweep_waiters group_satisfied (WAKE_WAITERS_SQL now) n locked m1 d1 of
             (Inl e, d2) \<Rightarrow> (Inl e, d2)
           | (Inr m2, d2) \<Rightarrow>
               sweep_waiters unsatisfiable (CANCEL_UNSATISFIABLE_WAITERS_SQL now) n locked m2 d2))"

section \<open>The sweeps keep the contract of a statement\<close>

declare sweep_set_def [row_simps] retry_timed_out_set_def [row_simps]
  deadletter_timed_out_set_def [row_simps] cancel_unsatisfiable_set_def [row_simps]
declare running_where_def [where_simps] wake_waiters_where_def [where_simps]
  cancel_unsatisfiable_where_def [where_simps]

interpretation sweep_dead: cancel_keeping "requeue_where IN_FLIGHT_STATES is" "sweep_set now"
  for "is" now
  by unfold_locales (auto simp: row_simps where_simps contract_simps)

interpretation sweep_stuck: cancel_keeping "requeue_where [Claimed] is" "sweep_set now"
  for "is" now
  by unfold_locales (auto simp: row_simps where_simps contract_simps)

interpretation retry_timed_out: cancel_keeping "running_where i" "retry_timed_out_set now message delay"
  for i now message delay
  by unfold_locales (auto simp: row_simps where_simps contract_simps)

interpretation deadletter_timed_out: cancel_keeping "running_where i" "deadletter_timed_out_set now message"
  for i now message
  by unfold_locales (auto simp: row_simps where_simps contract_simps)

interpretation wake_waiters: cancel_keeping "wake_waiters_where rows is" "wake_set now"
  for rows "is" now
  by unfold_locales (auto simp: row_simps where_simps contract_simps)

interpretation cancel_unsatisfiable:
  cancel_keeping "cancel_unsatisfiable_where rows is" "cancel_unsatisfiable_set now"
  for rows "is" now
  by unfold_locales (auto simp: row_simps where_simps contract_simps)

section \<open>What a probe finds\<close>

lemma probe_all:
  "length rows \<le> n \<Longrightarrow> probe p locked n rows = filter (\<lambda>j. p j \<and> j_id j \<notin> locked) rows"
  by (simp add: probe_def le_trans [OF length_filter_le])

lemma set_probe: "set (probe p locked n rows) \<subseteq> {j \<in> set rows. p j \<and> j_id j \<notin> locked}"
  using set_take_subset by (fastforce simp: probe_def)

text \<open>A batch that holds the whole table: the ids found are those of the matching rows.\<close>

lemma probe_hits:
  assumes "jobs_ok d" and "j \<in> set (jobs d)" and "length (jobs d) \<le> n"
  shows "j_id j \<in> set (map j_id (probe p locked n (jobs d))) \<longleftrightarrow> p j \<and> j_id j \<notin> locked"
proof -
  have "inj_on j_id (set (jobs d))"
    using jobs_ok_distinct [OF assms(1)] by (simp add: distinct_map)
  then have "j_id j \<in> j_id ` {k \<in> set (jobs d). p k \<and> j_id k \<notin> locked}
      \<longleftrightarrow> j \<in> {k \<in> set (jobs d). p k \<and> j_id k \<notin> locked}"
    using assms(2) by (rule inj_on_image_mem_iff) blast
  with assms(2,3) show ?thesis by (simp add: probe_all)
qed

section \<open>A dead worker loses its jobs\<close>

text \<open>
  A dead worker loses its jobs, and only they move. With a batch that holds the table,
  the sweep returns, and each row a stale worker holds in flight (and no transaction has
  locked) is back in the queue, due now, past the epoch of the abandoned execution and
  without dedupe keys; every other row is as it was; and every stale worker is retired.
\<close>

theorem dead_workers_lose_their_jobs:
  assumes "jobs_ok d" and "length (jobs d) \<le> n"
  shows "\<exists>m ws' d'. sweep_dead_workers now grace n locked ws d = (Inr m, ws', d') \<and> jobs_ok d'
    \<and> (\<forall>i. lookup_job d' i = map_option
          (\<lambda>j. if dead_where ws now grace j \<and> i \<notin> locked then sweep_set now j else j) (lookup_job d i))
    \<and> (\<forall>w \<in> set ws'. stale now grace w \<longrightarrow> w_shutdown_at w \<noteq> None)"
proof -
  let ?is = "map j_id (probe (dead_where ws now grace) locked n (jobs d))"
  let ?d = "sweep_dead.after ?is now d"
  have run: "sweep_dead_workers now grace n locked ws d =
      (Inr (length (filter (requeue_where IN_FLIGHT_STATES ?is) (jobs d))),
       RETIRE_DEAD_WORKERS_SQL now grace ws, ?d)"
    by (simp add: sweep_dead_workers_def SWEEP_DEAD_WORKER_JOBS_SQL_def sweep_dead.runs [OF assms(1)])
  have hit: "requeue_where IN_FLIGHT_STATES ?is j \<longleftrightarrow> dead_where ws now grace j \<and> j_id j \<notin> locked"
    if "j \<in> set (jobs d)" for j
    using probe_hits [OF assms(1) that assms(2)] by (auto simp: requeue_where_def dead_where_def)
  have "lookup_job ?d i = map_option
      (\<lambda>j. if dead_where ws now grace j \<and> i \<notin> locked then sweep_set now j else j) (lookup_job d i)" for i
    using hit by (cases "lookup_job d i") (auto simp: sweep_dead.after_lookup dest: lookup_job_SomeD)
  with run sweep_dead.after_ok [OF assms(1)] show ?thesis
    by (auto simp: RETIRE_DEAD_WORKERS_SQL_def stale_def)
qed

text \<open>A job a worker died with: running at epoch 1 since instant 10.\<close>

definition orphaned_db :: database where
  "orphaned_db = seed_db
     [((default_jorb 0 1)\<lparr>j_state := Running, j_run_epoch := 1, j_run_count := 1,
         j_claimed_by := Some 7, j_timeout_at := Some 90, j_deadline_key := Some ''k''\<rparr>,
       [Queued, Claimed, Running])]"

lemma orphaned_ok: "jobs_ok orphaned_db"
  by (simp add: orphaned_db_def seed_simps PRE_CLAIM_STATES_def)

theorem dead_workers_lose_their_jobs_witness:
  "\<exists>m ws' d' j. sweep_dead_workers 100 60 5 {} [\<lparr>w_id = 7, w_queue = ''default'', w_last_seen = 20,
        w_shutdown_at = None, w_idle = False\<rparr>] orphaned_db = (Inr m, ws', d')
     \<and> lookup_job d' 1 = Some j \<and> j_state j = Queued \<and> j_run_epoch j = 2 \<and> j_deadline_key j = None"
proof -
  let ?ws = "[\<lparr>w_id = 7, w_queue = ''default'', w_last_seen = 20, w_shutdown_at = None, w_idle = False\<rparr>]"
  have "length (jobs orphaned_db) \<le> 5" by (simp add: orphaned_db_def seed_db_def)
  from dead_workers_lose_their_jobs [OF orphaned_ok this, of 100 60 "{}" ?ws]
  obtain m ws' d' where run: "sweep_dead_workers 100 60 5 {} ?ws orphaned_db = (Inr m, ws', d')"
    and rows: "\<forall>i. lookup_job d' i = map_option
          (\<lambda>j. if dead_where ?ws 100 60 j \<and> i \<notin> {} then sweep_set 100 j else j) (lookup_job orphaned_db i)"
    by blast
  let ?j = "(default_jorb 0 1)\<lparr>j_state := Running, j_run_epoch := 1, j_run_count := 1,
         j_claimed_by := Some 7, j_timeout_at := Some 90, j_deadline_key := Some ''k''\<rparr>"
  have "lookup_job orphaned_db 1 = Some ?j" by (simp add: orphaned_db_def seed_simps)
  moreover have "dead_where ?ws 100 60 ?j" by (simp add: dead_where_def stale_def IN_FLIGHT_STATES_def)
  ultimately have "lookup_job d' 1 = Some (sweep_set 100 ?j)" using rows by simp
  with run show ?thesis by (auto simp: row_simps)
qed

section \<open>Timeouts are enforced\<close>

text \<open>What the policy makes of one overdue row.\<close>

definition timed_out_row :: "instant \<Rightarrow> real \<Rightarrow> jorb \<Rightarrow> monitor_error + jorb" where
  "timed_out_row now u j =
     (if timeout_retryable j
      then case calculate_retry_from_job j (j_error_count j + 1) u of
             Inl e \<Rightarrow> Inl (BackoffFailure e)
           | Inr delay \<Rightarrow> Inr (retry_timed_out_set now ''Timeout exceeded - retrying'' delay j)
      else Inr (deadletter_timed_out_set now
              (''Timeout exceeded - dead-lettered ('' @ timeout_reason j @ '')'') j))"

lemma handle_timed_out_job_error:
  "timed_out_row now u j = Inl e \<Longrightarrow> handle_timed_out_job now u j d = Inl e"
  by (auto simp: timed_out_row_def handle_timed_out_job_def split: if_splits sum.splits)

lemma handle_timed_out_job_row:
  assumes "jobs_ok d" and "timed_out_row now u j = Inr r" and "j_state j = Running"
  shows "\<exists>d'. handle_timed_out_job now u j d = Inr d' \<and> jobs_ok d'
    \<and> (\<forall>i. i \<noteq> j_id j \<longrightarrow> lookup_job d' i = lookup_job d i)
    \<and> (lookup_job d (j_id j) = Some j \<longrightarrow> lookup_job d' (j_id j) = Some r)"
proof (cases "timeout_retryable j")
  case True
  then obtain delay where delay: "calculate_retry_from_job j (j_error_count j + 1) u = Inr delay"
    and r: "r = retry_timed_out_set now ''Timeout exceeded - retrying'' delay j"
    using assms(2) by (auto simp: timed_out_row_def split: sum.splits)
  let ?d = "retry_timed_out.after (j_id j) now ''Timeout exceeded - retrying'' delay d"
  have "handle_timed_out_job now u j d = Inr ?d"
    using True delay by (simp add: handle_timed_out_job_def RETRY_TIMED_OUT_SQL_def lift_failure_def
        retry_timed_out.runs [OF assms(1)])
  moreover have "lookup_job ?d i = lookup_job d i" if "i \<noteq> j_id j" for i
    by (rule retry_timed_out.after_lookup_other) (use that in \<open>auto simp: running_where_def\<close>)
  moreover have "lookup_job ?d (j_id j) = Some r" if "lookup_job d (j_id j) = Some j"
    using that assms(3) by (simp add: retry_timed_out.after_lookup running_where_def r)
  ultimately show ?thesis using retry_timed_out.after_ok [OF assms(1)] by blast
next
  case False
  let ?m = "''Timeout exceeded - dead-lettered ('' @ timeout_reason j @ '')''"
  have r: "r = deadletter_timed_out_set now ?m j"
    using False assms(2) by (simp add: timed_out_row_def)
  let ?d = "deadletter_timed_out.after (j_id j) now ?m d"
  have "handle_timed_out_job now u j d = Inr ?d"
    using False by (simp add: handle_timed_out_job_def DEADLETTER_TIMED_OUT_SQL_def lift_failure_def
        deadletter_timed_out.runs [OF assms(1)])
  moreover have "lookup_job ?d i = lookup_job d i" if "i \<noteq> j_id j" for i
    by (rule deadletter_timed_out.after_lookup_other) (use that in \<open>auto simp: running_where_def\<close>)
  moreover have "lookup_job ?d (j_id j) = Some r" if "lookup_job d (j_id j) = Some j"
    using that assms(3) by (simp add: deadletter_timed_out.after_lookup running_where_def r)
  ultimately show ?thesis using deadletter_timed_out.after_ok [OF assms(1)] by blast
qed

lemma handle_all_rows:
  assumes "jobs_ok d" and "distinct (map j_id js)"
    and "\<forall>j \<in> set js. lookup_job d (j_id j) = Some j \<and> j_state j = Running"
    and "\<forall>j \<in> set js. \<exists>r. timed_out_row now (u (j_id j)) j = Inr r"
  shows "\<exists>d'. handle_all now u js d = Inr d' \<and> jobs_ok d'
    \<and> (\<forall>i. i \<notin> j_id ` set js \<longrightarrow> lookup_job d' i = lookup_job d i)
    \<and> (\<forall>j \<in> set js. \<exists>r. timed_out_row now (u (j_id j)) j = Inr r \<and> lookup_job d' (j_id j) = Some r)"
  using assms
proof (induction js arbitrary: d)
  case (Cons j js)
  from Cons.prems(4) obtain r where r: "timed_out_row now (u (j_id j)) j = Inr r" by auto
  have j: "lookup_job d (j_id j) = Some j" "j_state j = Running" using Cons.prems(3) by auto
  from handle_timed_out_job_row [OF Cons.prems(1) r j(2)] j(1)
  obtain e where e: "handle_timed_out_job now (u (j_id j)) j d = Inr e" "jobs_ok e"
    and others: "\<And>i. i \<noteq> j_id j \<Longrightarrow> lookup_job e i = lookup_job d i"
    and self: "lookup_job e (j_id j) = Some r" by blast
  have apart: "j_id k \<noteq> j_id j" if "k \<in> set js" for k
    using that Cons.prems(2) by (auto simp: image_iff)
  have "\<exists>d'. handle_all now u js e = Inr d' \<and> jobs_ok d'
    \<and> (\<forall>i. i \<notin> j_id ` set js \<longrightarrow> lookup_job d' i = lookup_job e i)
    \<and> (\<forall>j \<in> set js. \<exists>r. timed_out_row now (u (j_id j)) j = Inr r \<and> lookup_job d' (j_id j) = Some r)"
    using Cons.prems(2-4) apart by (intro Cons.IH e(2)) (auto simp: others)
  then obtain d' where d': "handle_all now u js e = Inr d'" "jobs_ok d'"
    and same: "\<And>i. i \<notin> j_id ` set js \<Longrightarrow> lookup_job d' i = lookup_job e i"
    and moved: "\<forall>j \<in> set js. \<exists>r. timed_out_row now (u (j_id j)) j = Inr r \<and> lookup_job d' (j_id j) = Some r"
    by blast
  have "lookup_job d' (j_id j) = Some r" using same [of "j_id j"] self apart by (force simp: image_iff)
  moreover have "lookup_job d' i = lookup_job d i" if "i \<notin> j_id ` set (j # js)" for i
    using that same [of i] others [of i] by simp
  ultimately show ?case using e(1) d' moved r by simp
qed simp

text \<open>
  Timeouts are enforced. With a batch that holds the table, and provided no backoff
  raises, the sweep requeues or dead-letters every overdue running row no transaction has
  locked, as its policy and its remaining budget say, past its epoch; every other row is
  as it was.
\<close>

theorem timeouts_are_enforced:
  assumes "jobs_ok d" and "length (jobs d) \<le> n"
    and "\<forall>j \<in> set (jobs d). overdue now j \<longrightarrow> (\<exists>r. timed_out_row now (u (j_id j)) j = Inr r)"
  shows "\<exists>m d'. sweep_timed_out_jobs now u n locked d = (Inr m, d') \<and> jobs_ok d'
    \<and> (\<forall>i j. lookup_job d i = Some j \<longrightarrow>
          (if overdue now j \<and> i \<notin> locked
           then \<exists>r. timed_out_row now (u i) j = Inr r \<and> lookup_job d' i = Some r
                    \<and> j_state r \<in> {Queued, Crashed} \<and> j_run_epoch r = j_run_epoch j + 1
                    \<and> j_error_count r = j_error_count j + 1
           else lookup_job d' i = Some j))"
proof -
  let ?js = "probe (overdue now) locked n (jobs d)"
  have js: "set ?js = {j \<in> set (jobs d). overdue now j \<and> j_id j \<notin> locked}"
    using assms(2) by (auto simp: probe_all)
  have rows: "lookup_job d (j_id j) = Some j" if "j \<in> set (jobs d)" for j
    using that jobs_ok_distinct [OF assms(1)] by (simp add: lookup_job_def find_row_job)
  have distinct: "distinct (map j_id ?js)"
    using jobs_ok_distinct [OF assms(1)] assms(2) by (simp add: probe_all distinct_map_filter)
  obtain d' where d': "handle_all now u ?js d = Inr d'" "jobs_ok d'"
    and same: "\<And>i. i \<notin> j_id ` set ?js \<Longrightarrow> lookup_job d' i = lookup_job d i"
    and moved: "\<And>j. j \<in> set ?js \<Longrightarrow>
        \<exists>r. timed_out_row now (u (j_id j)) j = Inr r \<and> lookup_job d' (j_id j) = Some r"
    using handle_all_rows [OF assms(1) distinct, of now u] assms(3) rows
    by (auto simp: js overdue_def)
  have "if overdue now j \<and> i \<notin> locked
        then \<exists>r. timed_out_row now (u i) j = Inr r \<and> lookup_job d' i = Some r
               \<and> j_state r \<in> {Queued, Crashed} \<and> j_run_epoch r = j_run_epoch j + 1
               \<and> j_error_count r = j_error_count j + 1
        else lookup_job d' i = Some j" if found: "lookup_job d i = Some j" for i j
  proof (cases "overdue now j \<and> i \<notin> locked")
    case True
    with found have "j \<in> set ?js" "j_id j = i" by (auto simp: js dest: lookup_job_SomeD)
    with True moved show ?thesis
      by (fastforce simp: timed_out_row_def row_simps split: if_splits sum.splits)
  next
    case False
    have "i \<notin> j_id ` set ?js"
    proof
      assume "i \<in> j_id ` set ?js"
      then obtain k where "k \<in> set (jobs d)" "j_id k = i" "overdue now k" "i \<notin> locked" by (auto simp: js)
      with rows found False show False by auto
    qed
    with False same found show ?thesis by auto
  qed
  then have all: "\<forall>i j. lookup_job d i = Some j \<longrightarrow>
          (if overdue now j \<and> i \<notin> locked
           then \<exists>r. timed_out_row now (u i) j = Inr r \<and> lookup_job d' i = Some r
                    \<and> j_state r \<in> {Queued, Crashed} \<and> j_run_epoch r = j_run_epoch j + 1
                    \<and> j_error_count r = j_error_count j + 1
           else lookup_job d' i = Some j)" by blast
  show ?thesis
    unfolding sweep_timed_out_jobs_def Let_def d'(1) sum.case using d'(2) all by blast
qed

theorem timeouts_are_enforced_witness:
  "\<exists>m d' j. sweep_timed_out_jobs 100 (\<lambda>i. 0) 5 {} orphaned_db = (Inr m, d')
     \<and> lookup_job d' 1 = Some j \<and> j_state j \<in> {Queued, Crashed} \<and> j_run_epoch j = 2"
proof -
  let ?j = "(default_jorb 0 1)\<lparr>j_state := Running, j_run_epoch := 1, j_run_count := 1,
         j_claimed_by := Some 7, j_timeout_at := Some 90, j_deadline_key := Some ''k''\<rparr>"
  have row: "lookup_job orphaned_db 1 = Some ?j" "jobs orphaned_db = [?j]"
    by (simp_all add: orphaned_db_def seed_simps)
  have late: "overdue 100 ?j" by (simp add: overdue_def)
  have "\<exists>t. calculate_retry_from_job ?j 1 0 = Inr t"
    using calculate_retry_delay_eq [of 1 1 3600 0 "''exponential''"]
    by (simp add: calculate_retry_from_job_def get_retry_config_def no_admin_data_def Let_def
        DEFAULT_RETRY_STRATEGY_def DEFAULT_MAX_RETRIES_def DEFAULT_INITIAL_RETRY_DELAY_def
        DEFAULT_MAX_RETRY_DELAY_def)
  then have "\<exists>r. timed_out_row 100 0 ?j = Inr r" by (auto simp: timed_out_row_def)
  then obtain m d' where "sweep_timed_out_jobs 100 (\<lambda>i. 0) 5 {} orphaned_db = (Inr m, d')"
    and "if overdue 100 ?j \<and> 1 \<notin> {}
           then \<exists>r. timed_out_row 100 0 ?j = Inr r \<and> lookup_job d' 1 = Some r
                    \<and> j_state r \<in> {Queued, Crashed} \<and> j_run_epoch r = j_run_epoch ?j + 1
                    \<and> j_error_count r = j_error_count ?j + 1
           else lookup_job d' 1 = Some ?j"
    using timeouts_are_enforced [OF orphaned_ok, of 5 100 "\<lambda>i. 0" "{}"] row by auto
  with late show ?thesis by auto
qed

text \<open>
  One row can disable timeout recovery. An overdue job that still has retries left after
  1024 failures under the exponential strategy makes the backoff overflow, the exception
  rolls the whole batch back, and no overdue row of it is handled; nor in the next sweep,
  which finds the same rows.
\<close>

theorem one_overflow_stops_the_timeout_sweep:
  assumes "j \<in> set (probe (overdue now) locked n (jobs d))" and "timeout_retryable j"
    and "retry_strategy (get_retry_config (j_admin_data j)) = ''exponential''"
    and "1024 \<le> j_error_count j"
  shows "\<exists>e. sweep_timed_out_jobs now u n locked d = (Inl e, d)"
proof -
  have "of_int float_limit \<le> (2 :: real) ^ 1024" by (simp add: float_limit_def)
  also have "(2 :: real) ^ 1024 \<le> 2 ^ nat (j_error_count j)"
    using assms(4) by (intro power_increasing) auto
  finally have "\<not> (2 :: real) powi (j_error_count j) < of_int float_limit"
    using assms(4) by (simp add: power_int_def)
  then have "timed_out_row now v j = Inl (BackoffFailure OverflowError)" for v
    using assms(2,3)
    by (simp add: timed_out_row_def calculate_retry_from_job_def calculate_retry_delay_def base_delay_def
        float_pow_def Let_def)
  then have err: "handle_timed_out_job now v j d' = Inl (BackoffFailure OverflowError)" for v d'
    by (rule handle_timed_out_job_error)
  have "\<exists>e. handle_all now u js d' = Inl e" if "j \<in> set js" for js d'
    using that
  proof (induction js arbitrary: d')
    case (Cons k js)
    show ?case
    proof (cases "j = k")
      case False
      with Cons show ?thesis by (cases "handle_timed_out_job now (u (j_id k)) k d'") auto
    qed (use err in simp)
  qed simp
  from this [OF assms(1)] obtain e where "handle_all now u (probe (overdue now) locked n (jobs d)) d = Inl e"
    by blast
  then show ?thesis by (simp add: sweep_timed_out_jobs_def Let_def)
qed

text \<open>A job retried 1024 times with budget left, beside one that is merely late.\<close>

definition poisoned_db :: database where
  "poisoned_db = seed_db
     [((default_jorb 0 1)\<lparr>j_state := Running, j_run_epoch := 1025, j_run_count := 1025,
         j_error_count := 1024, j_timeout_at := Some 90,
         j_admin_data := no_admin_data\<lparr>ad_max_retries := Some 2000\<rparr>\<rparr>, [Queued, Claimed, Running]),
      ((default_jorb 0 2)\<lparr>j_state := Running, j_run_epoch := 1, j_run_count := 1,
         j_timeout_at := Some 50\<rparr>, [Queued, Claimed, Running])]"

theorem one_overflow_stops_the_timeout_sweep_witness:
  "\<exists>e j. sweep_timed_out_jobs 100 (\<lambda>i. 0) 100 {} poisoned_db = (Inl e, poisoned_db)
     \<and> lookup_job poisoned_db 2 = Some j \<and> overdue 100 j"
proof -
  let ?p = "(default_jorb 0 1)\<lparr>j_state := Running, j_run_epoch := 1025, j_run_count := 1025,
         j_error_count := 1024, j_timeout_at := Some 90,
         j_admin_data := no_admin_data\<lparr>ad_max_retries := Some 2000\<rparr>\<rparr>"
  have "?p \<in> set (probe (overdue 100) {} 100 (jobs poisoned_db))"
    by (simp add: probe_def poisoned_db_def seed_db_def overdue_def)
  moreover have "timeout_retryable ?p" "retry_strategy (get_retry_config (j_admin_data ?p)) = ''exponential''"
    by (simp_all add: timeout_retryable_def get_retry_config_def no_admin_data_def DEFAULT_RETRY_STRATEGY_def)
  ultimately have "\<exists>e. sweep_timed_out_jobs 100 (\<lambda>i. 0) 100 {} poisoned_db = (Inl e, poisoned_db)"
    by (rule one_overflow_stops_the_timeout_sweep) simp
  moreover have "\<exists>j. lookup_job poisoned_db 2 = Some j \<and> overdue 100 j"
    by (simp add: poisoned_db_def seed_db_def lookup_job_def overdue_def)
  ultimately show ?thesis by blast
qed

section \<open>No waiter is left behind\<close>

lemma sweep_waiters_rows:
  assumes ok: "jobs_ok d" and batch: "length (jobs d) \<le> n"
    and contract: "\<And>is. job_update (p is) f"
    and p: "\<And>is j. j \<in> set (jobs d) \<Longrightarrow> p is j \<longleftrightarrow> j_id j \<in> set is \<and> j_state j = Waiting \<and> sat j"
    and dep: "\<And>j. dep (jobs d) j \<Longrightarrow> sat j"
    and stmt: "\<And>is. stmt is d = update_jobs (p is) f d"
  shows "\<exists>m d'. sweep_waiters dep stmt n locked moved d = (Inr m, d') \<and> jobs_ok d'
    \<and> jobs d' = map (\<lambda>j. if waiter dep (jobs d) j \<and> j_id j \<notin> locked then f j else j) (jobs d)"
proof -
  let ?rows = "probe (waiter dep (jobs d)) locked n (jobs d)"
  have found: "set ?rows = {j \<in> set (jobs d). waiter dep (jobs d) j \<and> j_id j \<notin> locked}"
    using batch by (auto simp: probe_all)
  show ?thesis
  proof (cases "?rows = []")
    case True
    then have "\<not> (waiter dep (jobs d) j \<and> j_id j \<notin> locked)" if "j \<in> set (jobs d)" for j
      using found that by auto
    then have "map (\<lambda>j. if waiter dep (jobs d) j \<and> j_id j \<notin> locked then f j else j) (jobs d) = jobs d"
      by (intro map_idI) auto
    with True ok show ?thesis by (simp add: sweep_waiters_def)
  next
    case False
    let ?is = "map j_id ?rows"
    let ?d = "job_update.after (p ?is) f d"
    have "p ?is j \<longleftrightarrow> waiter dep (jobs d) j \<and> j_id j \<notin> locked" if "j \<in> set (jobs d)" for j
      using p [OF that, of ?is] probe_hits [OF ok that batch] dep by (auto simp: waiter_def)
    then have "jobs ?d = map (\<lambda>j. if waiter dep (jobs d) j \<and> j_id j \<notin> locked then f j else j) (jobs d)"
      by (simp add: job_update.after_simps [OF contract])
    with False show ?thesis
      by (simp add: sweep_waiters_def Let_def stmt job_update.runs [OF contract ok]
          job_update.after_ok [OF contract ok])
  qed
qed

text \<open>What the sweep makes of one row.\<close>

definition waiter_row :: "instant \<Rightarrow> jorb list \<Rightarrow> job_id set \<Rightarrow> jorb \<Rightarrow> jorb" where
  "waiter_row now rows locked j =
     (if j_state j \<noteq> Waiting \<or> j_id j \<in> locked then j
      else if job_satisfied rows j \<or> group_satisfied rows j then wake_set now j
      else if unsatisfiable rows j then cancel_unsatisfiable_set now j
      else j)"

text \<open>Waking changes no row's id, group, dependency, or whether it is finished.\<close>

lemma dependencies_kept:
  assumes "\<And>j. j_id (g j) = j_id j \<and> j_run_group (g j) = j_run_group j
      \<and> (j_state (g j) = Finished \<longleftrightarrow> j_state j = Finished)"
  shows "job_satisfied (map g rows) = job_satisfied rows"
    and "group_satisfied (map g rows) = group_satisfied rows"
    and "unsatisfiable (map g rows) = unsatisfiable rows"
  using assms
  by (auto simp: fun_eq_iff job_satisfied_def group_satisfied_def unsatisfiable_def group_exists_def
      group_unfinished_def list_ex_iff split: option.splits)

lemma woken_dependency [simp]:
  "job_satisfied rows (wake_set now j) = job_satisfied rows j"
  "group_satisfied rows (wake_set now j) = group_satisfied rows j"
  "unsatisfiable rows (wake_set now j) = unsatisfiable rows j"
  "j_id (wake_set now j) = j_id j" "j_state (wake_set now j) = Queued"
  by (simp_all add: job_satisfied_def group_satisfied_def unsatisfiable_def wake_set_def WAKE_CLEARS_KEYS_def)

lemma sweep_stranded_waiters_rows:
  assumes ok: "jobs_ok d" and batch: "length (jobs d) \<le> n"
  shows "\<exists>m d'. sweep_stranded_waiters now n locked d = (Inr m, d') \<and> jobs_ok d'
    \<and> jobs d' = map (waiter_row now (jobs d) locked) (jobs d)"
proof -
  let ?wake = "\<lambda>dep j. if waiter dep (jobs d) j \<and> j_id j \<notin> locked then wake_set now j else j"
  have kept: "j_id (?wake dep j) = j_id j \<and> j_run_group (?wake dep j) = j_run_group j
      \<and> (j_state (?wake dep j) = Finished \<longleftrightarrow> j_state j = Finished)" for dep j
    by (auto simp: row_simps waiter_def)
  obtain m1 d1 where d1: "sweep_waiters job_satisfied (WAKE_WAITERS_SQL now) n locked 0 d = (Inr m1, d1)"
    "jobs_ok d1" "jobs d1 = map (?wake job_satisfied) (jobs d)"
    using sweep_waiters_rows [OF ok batch, of "wake_waiters_where (jobs d)" "wake_set now"
        "\<lambda>j. job_satisfied (jobs d) j \<or> group_satisfied (jobs d) j" job_satisfied "WAKE_WAITERS_SQL now" locked 0]
      wake_waiters.job_update_axioms by (auto simp: wake_waiters_where_def WAKE_WAITERS_SQL_def)
  note same1 = dependencies_kept [OF kept [of job_satisfied], of "jobs d", folded d1(3)]
  have batch1: "length (jobs d1) \<le> n" using batch by (simp add: d1(3))
  obtain m2 d2 where d2: "sweep_waiters group_satisfied (WAKE_WAITERS_SQL now) n locked m1 d1 = (Inr m2, d2)"
    "jobs_ok d2" "jobs d2 = map (\<lambda>j. if waiter group_satisfied (jobs d1) j \<and> j_id j \<notin> locked
                           then wake_set now j else j) (jobs d1)"
    using sweep_waiters_rows [OF d1(2) batch1, of "wake_waiters_where (jobs d1)" "wake_set now"
        "\<lambda>j. job_satisfied (jobs d1) j \<or> group_satisfied (jobs d1) j" group_satisfied "WAKE_WAITERS_SQL now" locked m1]
      wake_waiters.job_update_axioms by (auto simp: wake_waiters_where_def WAKE_WAITERS_SQL_def)
  have rows2: "jobs d2 = map (?wake group_satisfied) (map (?wake job_satisfied) (jobs d))"
    unfolding d2(3) waiter_def same1 unfolding d1(3) waiter_def by (rule refl)
  have "group_satisfied (jobs d2) = group_satisfied (jobs d) \<and> job_satisfied (jobs d2) = job_satisfied (jobs d)
      \<and> unsatisfiable (jobs d2) = unsatisfiable (jobs d)"
    using dependencies_kept [OF kept [of group_satisfied], of "jobs d1"] same1
    by (simp add: rows2 d1(3))
  then have same2: "unsatisfiable (jobs d2) = unsatisfiable (jobs d)" by blast
  have batch2: "length (jobs d2) \<le> n" using batch by (simp add: rows2)
  obtain m3 d3 where d3: "sweep_waiters unsatisfiable (CANCEL_UNSATISFIABLE_WAITERS_SQL now) n locked m2 d2 = (Inr m3, d3)"
    "jobs_ok d3" "jobs d3 = map (\<lambda>j. if waiter unsatisfiable (jobs d2) j \<and> j_id j \<notin> locked
                           then cancel_unsatisfiable_set now j else j) (jobs d2)"
    using sweep_waiters_rows [OF d2(2) batch2, of "cancel_unsatisfiable_where (jobs d2)" "cancel_unsatisfiable_set now"
        "unsatisfiable (jobs d2)" unsatisfiable "CANCEL_UNSATISFIABLE_WAITERS_SQL now" locked m2]
      cancel_unsatisfiable.job_update_axioms
    by (auto simp: cancel_unsatisfiable_where_def CANCEL_UNSATISFIABLE_WAITERS_SQL_def)
  have "jobs d3 = map (waiter_row now (jobs d) locked) (jobs d)"
    unfolding d3(3) waiter_def same2 unfolding rows2 by (auto simp: waiter_def waiter_row_def)
  with d1(1) d2(1) d3(1,2) show ?thesis by (simp add: sweep_stranded_waiters_def)
qed


text \<open>A waiter whose upstream finished while nobody looked, and one of a job that never was.\<close>

definition stranded_db :: database where
  "stranded_db = seed_db
     [((default_jorb 0 1)\<lparr>j_state := Finished, j_run_count := 1\<rparr>, [Queued, Claimed, Running, Finished]),
      ((default_jorb 0 2)\<lparr>j_state := Waiting, j_waitfor_job := Some 1\<rparr>, [Waiting]),
      ((default_jorb 0 3)\<lparr>j_state := Waiting, j_waitfor_job := Some 99\<rparr>, [Waiting])]"

lemma stranded_ok: "jobs_ok stranded_db"
  by (simp add: stranded_db_def seed_simps PRE_CLAIM_STATES_def)


end
