(* ===== verification/Retention.thy ===== *)
theory Retention
  imports Monitor Dxe
begin

text \<open>
  The retention sweeps of \<open>pyjobby/monitor.py\<close>, the drain that repeats one until it is caught
  up or out of time, the containment of a sweep's failure, and one cycle of the monitor.
\<close>

section \<open>The tables a cycle works on\<close>

text \<open>\<open>jorb_dag\<close> and \<open>jorb_schedule_log\<close>, the columns retention reads.\<close>

record dag_row =
  dg_id :: int
  dg_created :: instant

record log_row =
  l_id :: int
  l_schedule_id :: int
  l_actual_time :: instant

text \<open>A row of the audit trail as its retention sees it; what it logged is in the database's \<open>history\<close>.\<close>

record trail_row =
  tr_id :: int
  tr_job_id :: job_id
  tr_at :: instant

record platform =
  p_db :: database
  p_workers :: "worker_row list"
  p_dags :: "dag_row list"
  p_log :: "log_row list"
  p_trail :: "trail_row list"

section \<open>Expired jobs\<close>

text \<open>\<open>COALESCE(finished, updated)\<close>\<close>

definition retired_at :: "jorb \<Rightarrow> instant" where
  "retired_at j = (case j_finished j of Some t \<Rightarrow> t | None \<Rightarrow> j_updated j)"

text \<open>The three ways an unfinished job depends on another, probed by the refusal.\<close>

definition needed :: "jorb list \<Rightarrow> jorb \<Rightarrow> bool" where
  "needed rows j \<longleftrightarrow>
     list_ex (\<lambda>w. j_state w \<in> set LIVE_STATES \<and> j_waitfor_job w = Some (j_id j)) rows
     \<or> list_ex (\<lambda>w. j_state w \<in> set LIVE_STATES \<and> j_waitfor_group w \<noteq> None
                  \<and> j_waitfor_group w = j_run_group j) rows
     \<or> list_ex (\<lambda>r. j_state r \<in> set LIVE_STATES
                  \<and> ad_use_result_from (j_admin_data r) = Some (j_id j)) rows"

definition expired :: "instant \<Rightarrow> interval \<Rightarrow> jorb list \<Rightarrow> jorb \<Rightarrow> bool" where
  "expired now retention rows j \<longleftrightarrow>
     j_state j \<in> set TERMINAL_STATES \<and> retired_at j < now - retention \<and> \<not> needed rows j"

definition SWEEP_EXPIRED_JOBS_SQL ::
  "instant \<Rightarrow> interval \<Rightarrow> nat \<Rightarrow> job_id set \<Rightarrow> database \<Rightarrow> job_id list" where
  "SWEEP_EXPIRED_JOBS_SQL now retention n locked d =
     map j_id (probe (expired now retention (jobs d)) locked n (sort_key retired_at (jobs d)))"

text \<open>
  \<open>DELETE FROM jorb\<close>, with what the foreign keys do: the child rows go with the job
  (\<open>ON DELETE CASCADE\<close>) and a fork's reference to its source is cleared (\<open>SET NULL\<close>).
\<close>

definition forget_source :: "job_id list \<Rightarrow> jorb \<Rightarrow> jorb" where
  "forget_source is j =
     (case j_forked_from j of
        Some s \<Rightarrow> if s \<in> set is then j\<lparr>j_forked_from := None\<rparr> else j
      | None \<Rightarrow> j)"

definition DELETE_EXPIRED_JOBS_SQL :: "job_id list \<Rightarrow> database \<Rightarrow> database" where
  "DELETE_EXPIRED_JOBS_SQL is d = d\<lparr>
     jobs := map (forget_source is) (filter (\<lambda>j. j_id j \<notin> set is) (jobs d)),
     steps := filter (\<lambda>s. s_job_id s \<notin> set is) (steps d),
     events := filter (\<lambda>e. e_job_id e \<notin> set is) (events d),
     mailbox := filter (\<lambda>m. m_dest_job_id m \<notin> set is) (mailbox d),
     streams := filter (\<lambda>r. st_job_id r \<notin> set is) (streams d),
     history := filter (\<lambda>h. h_job_id h \<notin> set is) (history d)\<rparr>"

definition sweep_expired_jobs ::
  "instant \<Rightarrow> interval \<Rightarrow> nat \<Rightarrow> job_id set \<Rightarrow> database \<Rightarrow> (monitor_error + nat) \<times> database" where
  "sweep_expired_jobs now retention n locked d =
     (let is = SWEEP_EXPIRED_JOBS_SQL now retention n locked d
      in if is = [] then (Inr 0, d) else (Inr (length is), DELETE_EXPIRED_JOBS_SQL is d))"

section \<open>Checkpoints, streams, messages\<close>

definition aged_finished :: "instant \<Rightarrow> interval \<Rightarrow> jorb \<Rightarrow> bool" where
  "aged_finished now retention j \<longleftrightarrow> j_state j = Finished \<and> retired_at j < now - retention"

definition SWEEP_CHECKPOINT_JOBS_SQL :: "instant \<Rightarrow> interval \<Rightarrow> nat \<Rightarrow> database \<Rightarrow> job_id list" where
  "SWEEP_CHECKPOINT_JOBS_SQL now retention n d =
     map j_id (take n (filter (\<lambda>j. aged_finished now retention j
                         \<and> list_ex (\<lambda>s. s_job_id s = j_id j) (steps d)) (sort_key retired_at (jobs d))))"

definition sweep_completed_checkpoints ::
  "instant \<Rightarrow> interval \<Rightarrow> nat \<Rightarrow> database \<Rightarrow> (monitor_error + nat) \<times> database" where
  "sweep_completed_checkpoints now retention n d =
     (let is = SWEEP_CHECKPOINT_JOBS_SQL now retention n d
      in if is = [] then (Inr 0, d)
         else (Inr (length (filter (\<lambda>s. s_job_id s \<in> set is) (steps d))),
               d\<lparr>steps := filter (\<lambda>s. s_job_id s \<notin> set is) (steps d)\<rparr>))"

definition SWEEP_STREAM_JOBS_SQL :: "instant \<Rightarrow> interval \<Rightarrow> nat \<Rightarrow> database \<Rightarrow> job_id list" where
  "SWEEP_STREAM_JOBS_SQL now retention n d =
     map j_id (take n (filter (\<lambda>j. aged_finished now retention j
                         \<and> list_ex (\<lambda>r. st_job_id r = j_id j) (streams d)) (sort_key retired_at (jobs d))))"

definition sweep_completed_streams ::
  "instant \<Rightarrow> interval \<Rightarrow> nat \<Rightarrow> database \<Rightarrow> (monitor_error + nat) \<times> database" where
  "sweep_completed_streams now retention n d =
     (let is = SWEEP_STREAM_JOBS_SQL now retention n d
      in if is = [] then (Inr 0, d)
         else (Inr (length (filter (\<lambda>r. st_job_id r \<in> set is) (streams d))),
               d\<lparr>streams := filter (\<lambda>r. st_job_id r \<notin> set is) (streams d)\<rparr>))"

definition consumed_before :: "instant \<Rightarrow> mail_row \<Rightarrow> bool" where
  "consumed_before t m \<longleftrightarrow> (case m_consumed_at m of None \<Rightarrow> False | Some c \<Rightarrow> c < t)"

definition SWEEP_MAILBOX_SQL :: "instant \<Rightarrow> interval \<Rightarrow> nat \<Rightarrow> int set \<Rightarrow> database \<Rightarrow> int list" where
  "SWEEP_MAILBOX_SQL now retention n locked d =
     map m_id (take n (filter (\<lambda>m. consumed_before (now - retention) m \<and> m_id m \<notin> locked)
       (sort_key (\<lambda>m. case m_consumed_at m of None \<Rightarrow> 0 | Some c \<Rightarrow> c) (mailbox d))))"

definition sweep_consumed_mailbox ::
  "instant \<Rightarrow> interval \<Rightarrow> nat \<Rightarrow> int set \<Rightarrow> database \<Rightarrow> (monitor_error + nat) \<times> database" where
  "sweep_consumed_mailbox now retention n locked d =
     (let is = SWEEP_MAILBOX_SQL now retention n locked d
      in if is = [] then (Inr 0, d)
         else (Inr (length is), d\<lparr>mailbox := filter (\<lambda>m. m_id m \<notin> set is) (mailbox d)\<rparr>))"

section \<open>DAGs, schedule executions, worker rows\<close>

definition sweep_orphaned_dags ::
  "instant \<Rightarrow> interval \<Rightarrow> nat \<Rightarrow> int set \<Rightarrow> platform \<Rightarrow> (monitor_error + nat) \<times> platform" where
  "sweep_orphaned_dags now retention n locked p =
     (let is = map dg_id (take n (filter (\<lambda>g. dg_created g < now - retention \<and> dg_id g \<notin> locked
                 \<and> \<not> list_ex (\<lambda>j. j_dag_id j = Some (dg_id g)) (jobs (p_db p)))
               (sort_key dg_created (p_dags p))))
      in if is = [] then (Inr 0, p)
         else (Inr (length is), p\<lparr>p_dags := filter (\<lambda>g. dg_id g \<notin> set is) (p_dags p)\<rparr>))"

text \<open>\<open>l.id < (SELECT max(l2.id) ... WHERE l2.schedule_id = l.schedule_id)\<close>\<close>

definition superseded_log :: "log_row list \<Rightarrow> log_row \<Rightarrow> bool" where
  "superseded_log rows l \<longleftrightarrow> list_ex (\<lambda>m. l_schedule_id m = l_schedule_id l \<and> l_id l < l_id m) rows"

definition sweep_schedule_log ::
  "instant \<Rightarrow> interval \<Rightarrow> nat \<Rightarrow> int set \<Rightarrow> platform \<Rightarrow> (monitor_error + nat) \<times> platform" where
  "sweep_schedule_log now retention n locked p =
     (let is = map l_id (take n (filter (\<lambda>l. l_actual_time l < now - retention \<and> l_id l \<notin> locked
                 \<and> superseded_log (p_log p) l) (sort_key l_actual_time (p_log p))))
      in if is = [] then (Inr 0, p)
         else (Inr (length is), p\<lparr>p_log := filter (\<lambda>l. l_id l \<notin> set is) (p_log p)\<rparr>))"

definition retired_before :: "instant \<Rightarrow> worker_row \<Rightarrow> bool" where
  "retired_before t w \<longleftrightarrow>
     (case w_shutdown_at w of None \<Rightarrow> False | Some s \<Rightarrow> s < t) \<and> w_last_seen w < t"

definition owns_work :: "jorb list \<Rightarrow> worker_row \<Rightarrow> bool" where
  "owns_work rows w \<longleftrightarrow>
     list_ex (\<lambda>j. j_claimed_by j = Some (w_id w) \<and> j_state j \<in> set IN_FLIGHT_STATES) rows"

definition sweep_retired_workers ::
  "instant \<Rightarrow> interval \<Rightarrow> nat \<Rightarrow> int set \<Rightarrow> platform \<Rightarrow> (monitor_error + nat) \<times> platform" where
  "sweep_retired_workers now retention n locked p =
     (let is = map w_id (take n (filter (\<lambda>w. retired_before (now - retention) w \<and> w_id w \<notin> locked)
               (sort_key (\<lambda>w. case w_shutdown_at w of None \<Rightarrow> 0 | Some s \<Rightarrow> s) (p_workers p))));
          gone = (\<lambda>w. w_id w \<in> set is \<and> \<not> owns_work (jobs (p_db p)) w)
      in if is = [] then (Inr 0, p)
         else (Inr (length (filter gone (p_workers p))),
               p\<lparr>p_workers := filter (\<lambda>w. \<not> gone w) (p_workers p)\<rparr>))"

definition sweep_job_history ::
  "instant \<Rightarrow> interval \<Rightarrow> nat \<Rightarrow> int set \<Rightarrow> platform \<Rightarrow> (monitor_error + nat) \<times> platform" where
  "sweep_job_history now retention n locked p =
     (let is = map tr_id (take n (filter (\<lambda>t. tr_at t < now - retention \<and> tr_id t \<notin> locked)
               (sort_key tr_at (p_trail p))))
      in if is = [] then (Inr 0, p)
         else (Inr (length is), p\<lparr>p_trail := filter (\<lambda>t. tr_id t \<notin> set is) (p_trail p)\<rparr>))"

section \<open>Draining\<close>

text \<open>
  \<open>_drain\<close>: \<open>sweep k\<close> is the sweep as it runs in the k-th turn of the loop, \<open>stopped k\<close> and
  \<open>spent k\<close> what the stop event and the clock say after it. The loop may go on for ever as
  far as its text says, so its result is an option.
\<close>

partial_function (option) drain ::
  "(nat \<Rightarrow> 's \<Rightarrow> (monitor_error + nat) \<times> 's) \<Rightarrow> nat \<Rightarrow> (nat \<Rightarrow> bool) \<Rightarrow> (nat \<Rightarrow> bool) \<Rightarrow> nat \<Rightarrow> nat
     \<Rightarrow> 's \<Rightarrow> ((monitor_error + nat) \<times> 's) option" where
  "drain sweep batch stopped spent k acc s =
     (case sweep k s of
        (Inl e, s') \<Rightarrow> Some (Inl e, s')
      | (Inr deleted, s') \<Rightarrow>
          if deleted < batch \<or> stopped k \<or> spent k then Some (Inr (acc + deleted), s')
          else drain sweep batch stopped spent (Suc k) (acc + deleted) s')"

declare drain.simps [code]

text \<open>\<open>_run_sweep\<close>: a sweep's exception is logged and counts as 0.\<close>

definition run_sweep :: "(monitor_error + nat) \<times> 's \<Rightarrow> nat \<times> 's" where
  "run_sweep r = (case r of (Inl e, s) \<Rightarrow> (0, s) | (Inr n, s) \<Rightarrow> (n, s))"

text \<open>A sweep of the job tables, as one of the platform: the audit rows of a deleted job go with it.\<close>

definition on_db ::
  "(database \<Rightarrow> (monitor_error + nat) \<times> database) \<Rightarrow> platform \<Rightarrow> (monitor_error + nat) \<times> platform" where
  "on_db sweep p =
     (case sweep (p_db p) of
        (r, d) \<Rightarrow> (r, p\<lparr>p_db := d, p_trail := filter (\<lambda>t. tr_job_id t \<in> j_id ` set (jobs d)) (p_trail p)\<rparr>))"

section \<open>Deleting keeps the tables sound\<close>

lemma forget_source_cases: "forget_source is j = j \<or> forget_source is j = j\<lparr>j_forked_from := None\<rparr>"
  by (simp add: forget_source_def split: option.split)

lemma forget_nothing [simp]: "forget_source [] = (\<lambda>j. j)"
  by (simp add: fun_eq_iff forget_source_def split: option.split)

lemma forget_source_simps [simp]:
  "j_id (forget_source is j) = j_id j" "j_state (forget_source is j) = j_state j"
  "j_run_group (forget_source is j) = j_run_group j" "j_waitfor_job (forget_source is j) = j_waitfor_job j"
  "j_waitfor_group (forget_source is j) = j_waitfor_group j" "j_admin_data (forget_source is j) = j_admin_data j"
  "j_finished (forget_source is j) = j_finished j" "j_updated (forget_source is j) = j_updated j"
  "j_run_epoch (forget_source is j) = j_run_epoch j" "j_awaited (forget_source is j) = j_awaited j" "j_result (forget_source is j) = j_result j"
  "job_wf (forget_source is j) = job_wf j" "deadline_idx (forget_source is j) = deadline_idx j"
  "identity_idx (forget_source is j) = identity_idx j" "debounce_idx (forget_source is j) = debounce_idx j"
  using forget_source_cases [of "is" j]
  by (auto simp: job_wf_def deadline_idx_def identity_idx_def debounce_idx_def)

lemma retired_at_forget [simp]: "retired_at (forget_source is j) = retired_at j"
  by (simp add: retired_at_def split: option.split)

lemma index_ok_forget: "(\<And>j. g (forget_source is j) = g j) \<Longrightarrow> index_ok g (map (forget_source is) rows) = index_ok g rows"
  by (simp add: index_ok_def List.map_filter_def filter_map comp_def)

lemma delete_lookup:
  assumes "jobs_ok d"
  shows "lookup_job (DELETE_EXPIRED_JOBS_SQL is d) i =
    (if i \<in> set is then None else map_option (forget_source is) (lookup_job d i))"
  using jobs_ok_distinct [OF assms]
  by (auto simp: lookup_job_def DELETE_EXPIRED_JOBS_SQL_def find_row_map find_row_filter
      split: option.split dest: find_row_SomeD)

lemma delete_ok:
  assumes "jobs_ok d"
  shows "jobs_ok (DELETE_EXPIRED_JOBS_SQL is d)"
proof -
  let ?d = "DELETE_EXPIRED_JOBS_SQL is d"
  have "state_trail ?d i = state_trail d i" if "i \<notin> set is" for i
    using that by (auto simp: state_trail_def DELETE_EXPIRED_JOBS_SQL_def intro!: arg_cong [of _ _ "map h_to"] filter_cong)
  moreover have "unique_ok (jobs ?d)"
    using assms
    by (simp add: jobs_ok_def unique_ok_def DELETE_EXPIRED_JOBS_SQL_def index_ok_forget index_ok_filter
        distinct_map_filter comp_def)
  ultimately show ?thesis
    using assms by (auto simp: jobs_ok_def trail_ok_def Let_def DELETE_EXPIRED_JOBS_SQL_def)
qed

text \<open>What the sweep deletes is expired; so it is no live row, and no live row needs it.\<close>

lemma expired_ids:
  assumes "i \<in> set (SWEEP_EXPIRED_JOBS_SQL now retention n locked d)"
  shows "\<exists>j \<in> set (jobs d). j_id j = i \<and> expired now retention (jobs d) j \<and> i \<notin> locked"
  using assms set_probe [of "expired now retention (jobs d)" locked n "sort_key retired_at (jobs d)"]
  by (auto simp: SWEEP_EXPIRED_JOBS_SQL_def)

lemma sweep_expired_jobs_eq:
  "\<exists>is. sweep_expired_jobs now retention n locked d = (Inr (length is), if is = [] then d else DELETE_EXPIRED_JOBS_SQL is d)
     \<and> is = SWEEP_EXPIRED_JOBS_SQL now retention n locked d"
  by (simp add: sweep_expired_jobs_def Let_def)

text \<open>
  C11. Retention strands no one. The sweep deletes only terminal jobs past the window that no
  transaction has locked; every unfinished job stays, its checkpoints, streams and messages
  stay, and so does each job it waits for, each member of the group it waits for and each
  job whose result it is to be handed.
\<close>

theorem retention_strands_no_one:
  assumes "jobs_ok d"
  shows "\<exists>m d'. sweep_expired_jobs now retention n locked d = (Inr m, d') \<and> jobs_ok d'
    \<and> (\<forall>i j. lookup_job d i = Some j \<and> lookup_job d' i = None \<longrightarrow>
          j_state j \<in> set TERMINAL_STATES \<and> retired_at j < now - retention \<and> i \<notin> locked)
    \<and> (\<forall>i j. lookup_job d i = Some j \<and> j_state j \<in> set LIVE_STATES \<longrightarrow>
          (\<exists>k. lookup_job d' i = Some k \<and> j = k\<lparr>j_forked_from := j_forked_from j\<rparr>)
          \<and> job_steps d' i = job_steps d i
          \<and> (\<forall>key. stream_rows d' i key = stream_rows d i key)
          \<and> (\<forall>u \<in> {u. j_waitfor_job j = Some u \<or> ad_use_result_from (j_admin_data j) = Some u}.
                map_option (\<lambda>u. (j_state u, j_result u)) (lookup_job d' u)
                = map_option (\<lambda>u. (j_state u, j_result u)) (lookup_job d u))
          \<and> (\<forall>g. j_waitfor_group j = Some g \<longrightarrow>
                map j_state (filter (\<lambda>r. j_run_group r = Some g) (jobs d'))
                = map j_state (filter (\<lambda>r. j_run_group r = Some g) (jobs d))))"
proof -
  let ?is = "SWEEP_EXPIRED_JOBS_SQL now retention n locked d"
  define d' where "d' = (if ?is = [] then d else DELETE_EXPIRED_JOBS_SQL ?is d)"
  have row: "lookup_job d' i = (if i \<in> set ?is then None else map_option (forget_source ?is) (lookup_job d i))" for i
  proof (cases "?is = []")
    case True
    then show ?thesis by (simp add: d'_def map_option.id [unfolded id_def])
  qed (simp add: d'_def delete_lookup [OF assms])
  have gone: "\<exists>j. lookup_job d i = Some j \<and> expired now retention (jobs d) j \<and> i \<notin> locked" if "i \<in> set ?is" for i
    using expired_ids [OF that] jobs_ok_distinct [OF assms] by (auto simp: lookup_job_def find_row_job)
  have terminal: "j_state j \<notin> set LIVE_STATES" if "j_state j \<in> set TERMINAL_STATES" for j
    using that by (auto simp: TERMINAL_STATES_def LIVE_STATES_def)
  have found: "j \<in> set (jobs d)" "j_id j = i" if "lookup_job d i = Some j" for i j
    using lookup_job_SomeD [OF that] by auto
  have kept: "i \<notin> set ?is" if "lookup_job d i = Some j" "j_state j \<in> set LIVE_STATES" for i j
    using gone [of i] that terminal by (auto simp: expired_def)
  have source: "u \<notin> set ?is"
    if "lookup_job d i = Some j" "j_state j \<in> set LIVE_STATES"
      "j_waitfor_job j = Some u \<or> ad_use_result_from (j_admin_data j) = Some u" for i j u
  proof
    assume "u \<in> set ?is"
    then obtain k where "lookup_job d u = Some k" "\<not> needed (jobs d) k" using gone by (auto simp: expired_def)
    with that found [OF that(1)] show False by (auto simp: needed_def list_ex_iff dest: lookup_job_SomeD)
  qed
  have member: "j_id r \<notin> set ?is"
    if "lookup_job d i = Some j" "j_state j \<in> set LIVE_STATES" "j_waitfor_group j = Some g"
      "r \<in> set (jobs d)" "j_run_group r = Some g" for i j g r
  proof
    assume "j_id r \<in> set ?is"
    then obtain k where "lookup_job d (j_id r) = Some k" "\<not> needed (jobs d) k" using gone by (auto simp: expired_def)
    moreover have "lookup_job d (j_id r) = Some r"
      using that(4) jobs_ok_distinct [OF assms] by (simp add: lookup_job_def find_row_job)
    ultimately show False using that found [OF that(1)] by (auto simp: needed_def list_ex_iff)
  qed
  have group: "map j_state (filter (\<lambda>r. j_run_group r = Some g) (jobs d'))
      = map j_state (filter (\<lambda>r. j_run_group r = Some g) (jobs d))"
    if "lookup_job d i = Some j" "j_state j \<in> set LIVE_STATES" "j_waitfor_group j = Some g" for i j g
  proof -
    have "filter (\<lambda>r. j_run_group r = Some g) (filter (\<lambda>r. j_id r \<notin> set ?is) (jobs d))
        = filter (\<lambda>r. j_run_group r = Some g) (jobs d)"
      using member [OF that] by (auto intro: filter_cong)
    then show ?thesis by (simp add: d'_def DELETE_EXPIRED_JOBS_SQL_def filter_map comp_def)
  qed
  have run: "sweep_expired_jobs now retention n locked d = (Inr (length ?is), d')"
    by (simp add: sweep_expired_jobs_def d'_def Let_def)
  have ok': "jobs_ok d'" using assms delete_ok by (simp add: d'_def)
  show ?thesis
  proof (intro exI conjI allI impI ballI)
    show "sweep_expired_jobs now retention n locked d = (Inr (length ?is), d')" by (rule run)
    show "jobs_ok d'" by (rule ok')
  next
    fix i j
    assume "lookup_job d i = Some j \<and> lookup_job d' i = None"
    with gone [of i] show "j_state j \<in> set TERMINAL_STATES" "retired_at j < now - retention" "i \<notin> locked"
      by (auto simp: row expired_def split: if_splits)
  next
    fix i j
    assume "lookup_job d i = Some j \<and> j_state j \<in> set LIVE_STATES"
    then have j: "lookup_job d i = Some j" "j_state j \<in> set LIVE_STATES" by simp_all
    note stays = kept [OF j]
    show "lookup_job d' i = Some (forget_source ?is j)" using stays j by (simp add: row)
    show "j = (forget_source ?is j)\<lparr>j_forked_from := j_forked_from j\<rparr>"
      using forget_source_cases [of ?is j] by auto
    show "job_steps d' i = job_steps d i"
      using stays by (auto simp: d'_def DELETE_EXPIRED_JOBS_SQL_def job_steps_def intro: filter_cong)
    show "stream_rows d' i key = stream_rows d i key" for key
      using stays by (auto simp: d'_def DELETE_EXPIRED_JOBS_SQL_def stream_rows_def intro: filter_cong)
    show "map_option (\<lambda>u. (j_state u, j_result u)) (lookup_job d' u)
        = map_option (\<lambda>u. (j_state u, j_result u)) (lookup_job d u)"
      if "u \<in> {u. j_waitfor_job j = Some u \<or> ad_use_result_from (j_admin_data j) = Some u}" for u
      using source [OF j] that by (simp add: row map_option.compositionality comp_def)
    show "map j_state (filter (\<lambda>r. j_run_group r = Some g) (jobs d'))
        = map j_state (filter (\<lambda>r. j_run_group r = Some g) (jobs d))" if "j_waitfor_group j = Some g" for g
      by (rule group [OF j that])
  qed
qed

text \<open>Two jobs that finished long ago, one of them awaited by a third.\<close>

definition aged_db :: database where
  "aged_db = seed_db
     [((default_jorb 0 1)\<lparr>j_state := Finished, j_run_count := 1, j_finished := Some 5\<rparr>,
       [Queued, Claimed, Running, Finished]),
      ((default_jorb 0 2)\<lparr>j_state := Waiting, j_waitfor_job := Some 1\<rparr>, [Waiting]),
      ((default_jorb 0 3)\<lparr>j_state := Finished, j_run_count := 1, j_finished := Some 5\<rparr>,
       [Queued, Claimed, Running, Finished])]"

lemma aged_ok: "jobs_ok aged_db"
  by (simp add: aged_db_def seed_simps PRE_CLAIM_STATES_def)

theorem retention_strands_no_one_witness:
  "\<exists>m d' u. sweep_expired_jobs 100 10 5 {} aged_db = (Inr m, d') \<and> lookup_job d' 3 = None
     \<and> lookup_job d' 1 = Some u \<and> j_state u = Finished"
proof -
  let ?w = "(default_jorb 0 2)\<lparr>j_state := Waiting, j_waitfor_job := Some 1\<rparr>"
  have w: "lookup_job aged_db 2 = Some ?w \<and> j_state ?w \<in> set LIVE_STATES"
    by (simp add: aged_db_def seed_db_def lookup_job_def LIVE_STATES_def)
  obtain m d' where d': "sweep_expired_jobs 100 10 5 {} aged_db = (Inr m, d')"
    and kept: "\<forall>u \<in> {u. j_waitfor_job ?w = Some u \<or> ad_use_result_from (j_admin_data ?w) = Some u}.
                map_option (\<lambda>u. (j_state u, j_result u)) (lookup_job d' u)
                = map_option (\<lambda>u. (j_state u, j_result u)) (lookup_job aged_db u)"
    using retention_strands_no_one [OF aged_ok, of 100 10 5 "{}"] w by blast
  have "lookup_job (snd (sweep_expired_jobs 100 10 5 {} aged_db)) 3 = None" by code_simp
  moreover have "lookup_job aged_db 1 = Some (fst ((default_jorb 0 1)\<lparr>j_state := Finished, j_run_count := 1,
      j_finished := Some 5\<rparr>, ()))"
    by (simp add: aged_db_def seed_db_def lookup_job_def)
  then have "map_option (\<lambda>u. (j_state u, j_result u)) (lookup_job d' 1) = Some (Finished, None)"
    using kept by (simp add: default_jorb_def)
  then obtain u where "lookup_job d' 1 = Some u" "j_state u = Finished" by auto
  ultimately show ?thesis using d' by auto
qed

section \<open>Draining ends, and catches up\<close>

text \<open>
  A sweep that never fails and works a measure off (at least one unit when it deletes
  anything) is drained in finitely many turns, whatever the clock does, as long as a batch
  is at least one row.
\<close>

lemma drain_returns:
  assumes step: "\<And>k s. P s \<Longrightarrow> \<exists>m s'. sweep k s = (Inr m, s') \<and> P s'
      \<and> mu s' \<le> mu s \<and> (0 < m \<longrightarrow> mu s' < (mu s :: nat))"
    and "1 \<le> batch" and "P s"
  shows "\<exists>t s'. drain sweep batch stopped spent k acc s = Some (Inr t, s') \<and> P s'
    \<and> (\<exists>k' m s1. P s1 \<and> sweep k' s1 = (Inr m, s') \<and> (m < batch \<or> stopped k' \<or> spent k'))"
  using assms(3)
proof (induction "mu s" arbitrary: s k acc rule: less_induct)
  case less
  obtain m s' where s': "sweep k s = (Inr m, s')" "P s'" "0 < m \<longrightarrow> mu s' < mu s"
    using step [OF less.prems, of k] by blast
  show ?case
  proof (cases "m < batch \<or> stopped k \<or> spent k")
    case True
    with s'(1,2) less.prems show ?thesis by (simp add: drain.simps [of sweep batch stopped spent k]) blast
  next
    case False
    then have "mu s' < mu s" using s'(3) assms(2) by simp
    from less.hyps [OF this s'(2), of "Suc k" "acc + m"] False s'(1) show ?thesis
      by (simp add: drain.simps [of sweep batch stopped spent k])
  qed
qed

lemma sweep_expired_jobs_step:
  assumes "jobs_ok d"
  shows "\<exists>m d'. sweep_expired_jobs now retention n locked d = (Inr m, d') \<and> jobs_ok d'
    \<and> length (jobs d') \<le> length (jobs d) \<and> (0 < m \<longrightarrow> length (jobs d') < length (jobs d))"
proof -
  let ?is = "SWEEP_EXPIRED_JOBS_SQL now retention n locked d"
  have "length (filter (\<lambda>j. j_id j \<notin> set ?is) (jobs d)) < length (jobs d)" if "?is \<noteq> []"
  proof -
    from that obtain i where "i \<in> set ?is" by (cases ?is) auto
    with expired_ids [OF this] show ?thesis by (auto intro: length_filter_less)
  qed
  then have "length (jobs (DELETE_EXPIRED_JOBS_SQL ?is d)) < length (jobs d)" if "?is \<noteq> []"
    using that by (simp add: DELETE_EXPIRED_JOBS_SQL_def)
  then show ?thesis
    using assms delete_ok [OF assms] by (auto simp: sweep_expired_jobs_def Let_def less_imp_le)
qed

text \<open>A batch that came back short was everything there was.\<close>

lemma short_batch:
  assumes "jobs_ok d" and "sweep_expired_jobs now retention n locked d = (Inr m, d')" and "m < n"
  shows "\<forall>j \<in> set (jobs d'). j_id j \<notin> locked \<longrightarrow> \<not> expired now retention (jobs d') j"
proof (intro ballI impI notI)
  fix j'
  assume j': "j' \<in> set (jobs d')" "j_id j' \<notin> locked" "expired now retention (jobs d') j'"
  let ?rows = "filter (\<lambda>j. expired now retention (jobs d) j \<and> j_id j \<notin> locked) (sort_key retired_at (jobs d))"
  let ?is = "SWEEP_EXPIRED_JOBS_SQL now retention n locked d"
  have "m = length ?is" using assms(2) by (auto simp: sweep_expired_jobs_def Let_def split: if_splits)
  then have "take n ?rows = ?rows" using assms(3) by (auto simp: SWEEP_EXPIRED_JOBS_SQL_def probe_def)
  then have is_all: "set ?is = j_id ` {j \<in> set (jobs d). expired now retention (jobs d) j \<and> j_id j \<notin> locked}"
    by (simp add: SWEEP_EXPIRED_JOBS_SQL_def probe_def)
  have rows: "jobs d' = map (forget_source ?is) (filter (\<lambda>j. j_id j \<notin> set ?is) (jobs d))"
    using assms(2)
    by (auto simp: sweep_expired_jobs_def Let_def DELETE_EXPIRED_JOBS_SQL_def split: if_splits)
  from j'(1) obtain j where j: "j \<in> set (jobs d)" "j_id j \<notin> set ?is" "j' = forget_source ?is j"
    by (auto simp: rows)
  have live: "forget_source ?is w \<in> set (jobs d')" if "w \<in> set (jobs d)" "j_state w \<in> set LIVE_STATES" for w
  proof -
    have "j_id w \<notin> set ?is"
    proof
      assume "j_id w \<in> set ?is"
      then obtain x where x: "x \<in> set (jobs d)" "expired now retention (jobs d) x" "j_id x = j_id w"
        by (auto simp: is_all)
      have "x = w"
        using x(1,3) that(1) jobs_ok_distinct [OF assms(1)] by (auto simp: distinct_map inj_on_def)
      with x(2) that(2) show False by (auto simp: expired_def TERMINAL_STATES_def LIVE_STATES_def)
    qed
    with that(1) show ?thesis by (simp add: rows)
  qed
  have carry: "list_ex (\<lambda>w. j_state w \<in> set LIVE_STATES \<and> Q w) (jobs d')"
    if some: "list_ex (\<lambda>w. j_state w \<in> set LIVE_STATES \<and> Q w) (jobs d)"
      and same: "\<And>w. Q (forget_source ?is w) = Q w" for Q
  proof -
    from some obtain w where "w \<in> set (jobs d)" "j_state w \<in> set LIVE_STATES" "Q w"
      by (auto simp: list_ex_iff)
    with live [of w] same show ?thesis
      unfolding list_ex_iff by (intro bexI [of _ "forget_source ?is w"]) simp_all
  qed
  have "needed (jobs d') j'" if "needed (jobs d) j"
    using that unfolding needed_def j(3) forget_source_simps
    by (elim disjE) (blast intro: carry [OF _ refl] | (drule carry, simp, simp))+
  with j'(3) j(3) have "expired now retention (jobs d) j" by (auto simp: expired_def)
  with j(1,2) j'(2) j(3) show False by (auto simp: is_all)
qed

text \<open>
  Retention catches up. Draining the expired jobs ends, whatever the clock and the stop
  event do, for any batch of at least one row; and if neither of them cut it short, no
  expired job is left that could have been locked for deletion.
\<close>

theorem retention_catches_up:
  assumes "jobs_ok d" and "1 \<le> batch"
  shows "\<exists>t d'. drain (\<lambda>k. sweep_expired_jobs (now k) retention batch locked) batch stopped spent 0 0 d
        = Some (Inr t, d') \<and> jobs_ok d'
    \<and> ((\<forall>k. \<not> stopped k \<and> \<not> spent k \<and> now k = T) \<longrightarrow>
        (\<forall>j \<in> set (jobs d'). j_id j \<notin> locked \<longrightarrow> \<not> expired T retention (jobs d') j))"
proof -
  obtain t d' k m d1 where "drain (\<lambda>k. sweep_expired_jobs (now k) retention batch locked) batch stopped spent 0 0 d
        = Some (Inr t, d')" "jobs_ok d'" "jobs_ok d1"
    and last: "sweep_expired_jobs (now k) retention batch locked d1 = (Inr m, d')" "m < batch \<or> stopped k \<or> spent k"
    using drain_returns [where P = jobs_ok and mu = "\<lambda>d. length (jobs d)" and batch = batch and s = d
        and sweep = "\<lambda>k. sweep_expired_jobs (now k) retention batch locked", OF sweep_expired_jobs_step assms(2,1)]
    by blast
  moreover have "\<forall>j \<in> set (jobs d'). j_id j \<notin> locked \<longrightarrow> \<not> expired T retention (jobs d') j"
    if "\<forall>k. \<not> stopped k \<and> \<not> spent k \<and> now k = T"
    using short_batch [OF \<open>jobs_ok d1\<close>, of T retention batch locked m d'] last that by simp
  ultimately show ?thesis by blast
qed

theorem retention_catches_up_witness:
  "\<exists>t d'. drain (\<lambda>k. sweep_expired_jobs 100 10 1 {}) 1 (\<lambda>k. False) (\<lambda>k. False) 0 0 aged_db = Some (Inr t, d')
     \<and> (\<forall>j \<in> set (jobs d'). \<not> expired 100 10 (jobs d') j)"
proof -
  have "(1::nat) \<le> 1" by simp
  from retention_catches_up [OF aged_ok this, of "\<lambda>k. 100" 10 "{}" "\<lambda>k. False" "\<lambda>k. False" 100]
  show ?thesis by auto
qed

section \<open>One cycle of the monitor\<close>

text \<open>The windows and batch sizes \<open>monitor\<close> takes; a window of 0 keeps for ever.\<close>

record monitor_config =
  mc_batch_size :: nat
  mc_liveness_grace :: interval
  mc_claimed_grace :: interval
  mc_retention :: interval
  mc_checkpoint_retention :: interval
  mc_retention_batch_size :: nat

text \<open>
  What a cycle meets: the clock of each sweep (by its name and, in a drain, its turn), the
  rows other transactions hold, the variates of the backoffs, the stop event and the budget.
\<close>

record cycle_env =
  ce_now :: "string \<Rightarrow> nat \<Rightarrow> instant"
  ce_jitter :: "job_id \<Rightarrow> real"
  ce_locked_jobs :: "job_id set"
  ce_locked_rows :: "int set"
  ce_stopped :: "string \<Rightarrow> nat \<Rightarrow> bool"
  ce_spent :: "string \<Rightarrow> nat \<Rightarrow> bool"
  ce_stop_before_streams :: bool
  ce_stop_before_retention :: bool

definition run_retention ::
  "cycle_env \<Rightarrow> nat \<Rightarrow> string \<Rightarrow> (instant \<Rightarrow> platform \<Rightarrow> (monitor_error + nat) \<times> platform)
     \<Rightarrow> platform \<Rightarrow> platform option" where
  "run_retention e batch name sweep p =
     map_option (\<lambda>r. snd (run_sweep r))
       (drain (\<lambda>k. sweep (ce_now e name k)) batch (ce_stopped e name) (ce_spent e name) 0 0 p)"

definition recovery_sweeps :: "monitor_config \<Rightarrow> cycle_env \<Rightarrow> platform \<Rightarrow> platform" where
  "recovery_sweeps c e p =
     (let p1 = snd (run_sweep (on_db (sweep_timed_out_jobs (ce_now e ''timed-out jobs'' 0) (ce_jitter e)
                 (mc_batch_size c) (ce_locked_jobs e)) p));
          p2 = (case sweep_dead_workers (ce_now e ''dead workers'' 0) (mc_liveness_grace c) 500
                      (ce_locked_jobs e) (p_workers p1) (p_db p1) of
                  (r, ws, d) \<Rightarrow> p1\<lparr>p_workers := ws, p_db := d\<rparr>);
          p3 = snd (run_sweep (on_db (sweep_stuck_claims (ce_now e ''stuck claims'' 0) (mc_claimed_grace c) 100
                 (ce_locked_jobs e)) p2))
      in snd (run_sweep (on_db (sweep_stranded_waiters (ce_now e ''stranded waiters'' 0) (mc_batch_size c)
                 (ce_locked_jobs e)) p3)))"

definition checkpoint_retention :: "monitor_config \<Rightarrow> cycle_env \<Rightarrow> platform \<Rightarrow> platform option" where
  "checkpoint_retention c e p =
     (let n = mc_retention_batch_size c; window = mc_checkpoint_retention c
      in if window = 0 then Some p
         else Option.bind (run_retention e n ''completed checkpoints''
                (\<lambda>now. on_db (sweep_completed_checkpoints now window n)) p) (\<lambda>p.
              if ce_stop_before_streams e then Some p
              else run_retention e n ''completed streams''
                (\<lambda>now. on_db (sweep_completed_streams now window n)) p))"

definition job_retention :: "monitor_config \<Rightarrow> cycle_env \<Rightarrow> platform \<Rightarrow> platform option" where
  "job_retention c e p =
     (let n = mc_retention_batch_size c; window = mc_retention c
      in if window = 0 \<or> ce_stop_before_retention e then Some p
         else Option.bind (run_retention e n ''expired jobs''
                (\<lambda>now. on_db (sweep_expired_jobs now window n (ce_locked_jobs e))) p) (\<lambda>p.
              Option.bind (run_retention e n ''orphaned dags''
                (\<lambda>now. sweep_orphaned_dags now window n (ce_locked_rows e)) p) (\<lambda>p.
              Option.bind (run_retention e n ''schedule log''
                (\<lambda>now. sweep_schedule_log now window n (ce_locked_rows e)) p) (\<lambda>p.
              Option.bind (run_retention e n ''retired workers''
                (\<lambda>now. sweep_retired_workers now window n (ce_locked_rows e)) p) (\<lambda>p.
              Option.bind (run_retention e n ''consumed mailbox''
                (\<lambda>now. on_db (sweep_consumed_mailbox now window n (ce_locked_rows e))) p) (\<lambda>p.
              run_retention e n ''job history''
                (\<lambda>now. sweep_job_history now window n (ce_locked_rows e)) p))))))"

definition monitor_cycle :: "monitor_config \<Rightarrow> cycle_env \<Rightarrow> platform \<Rightarrow> platform option" where
  "monitor_cycle c e p =
     Option.bind (checkpoint_retention c e (recovery_sweeps c e p)) (job_retention c e)"

section \<open>A cycle always completes\<close>

text \<open>A retention sweep: never fails, keeps the job table sound, works a measure off.\<close>

definition reaps :: "(platform \<Rightarrow> nat) \<Rightarrow> (platform \<Rightarrow> (monitor_error + nat) \<times> platform) \<Rightarrow> bool" where
  "reaps mu sweep \<longleftrightarrow> (\<forall>p. jobs_ok (p_db p) \<longrightarrow> (\<exists>m p'. sweep p = (Inr m, p') \<and> jobs_ok (p_db p')
     \<and> mu p' \<le> mu p \<and> (0 < m \<longrightarrow> mu p' < mu p)))"

lemma run_retention_returns:
  assumes "\<And>now. reaps mu (sweep now)" and "1 \<le> batch" and "jobs_ok (p_db p)"
  shows "\<exists>p'. run_retention e batch name sweep p = Some p' \<and> jobs_ok (p_db p')"
proof -
  have "\<exists>t p'. drain (\<lambda>k. sweep (ce_now e name k)) batch (ce_stopped e name) (ce_spent e name) 0 0 p
      = Some (Inr t, p') \<and> jobs_ok (p_db p')"
    using drain_returns [where P = "\<lambda>p. jobs_ok (p_db p)" and mu = mu and s = p and batch = batch
        and sweep = "\<lambda>k. sweep (ce_now e name k)", OF _ assms(2,3)] assms(1)
    unfolding reaps_def by blast
  then show ?thesis by (auto simp: run_retention_def run_sweep_def)
qed

lemma filter_shrinks:
  "x \<in> set xs \<Longrightarrow> \<not> q x \<Longrightarrow> length (filter q xs) < length xs"
  by (rule length_filter_less)

lemma reaps_on_db:
  assumes "\<And>d. jobs_ok d \<Longrightarrow> \<exists>m d'. sweep d = (Inr m, d') \<and> jobs_ok d' \<and> mu d' \<le> mu d \<and> (0 < m \<longrightarrow> mu d' < mu d)"
  shows "reaps (\<lambda>p. mu (p_db p)) (on_db sweep)"
  unfolding reaps_def
proof (intro allI impI)
  fix p :: platform
  assume "jobs_ok (p_db p)"
  with assms obtain m d' where "sweep (p_db p) = (Inr m, d')" "jobs_ok d'" "mu d' \<le> mu (p_db p)"
    "0 < m \<longrightarrow> mu d' < mu (p_db p)" by blast
  then show "\<exists>m p'. on_db sweep p = (Inr m, p') \<and> jobs_ok (p_db p') \<and> mu (p_db p') \<le> mu (p_db p)
      \<and> (0 < m \<longrightarrow> mu (p_db p') < mu (p_db p))"
    by (simp add: on_db_def)
qed

lemma reaps_expired: "reaps (\<lambda>p. length (jobs (p_db p))) (on_db (sweep_expired_jobs now window n locked))"
  by (rule reaps_on_db) (rule sweep_expired_jobs_step)

lemma jobs_ok_children:
  "jobs_ok (d\<lparr>steps := ss\<rparr>) = jobs_ok d" "jobs_ok (d\<lparr>streams := rs\<rparr>) = jobs_ok d"
  "jobs_ok (d\<lparr>mailbox := ms\<rparr>) = jobs_ok d"
  by (simp_all add: jobs_ok_def trail_ok_def state_trail_def)

lemma delete_matching: "filter q xs \<noteq> [] \<Longrightarrow> length (filter (\<lambda>x. \<not> q x) xs) < length xs"
  by (auto simp: filter_empty_conv intro: filter_shrinks)

lemma reaps_checkpoints:
  "reaps (\<lambda>p. length (steps (p_db p))) (on_db (sweep_completed_checkpoints now window n))"
proof (rule reaps_on_db)
  fix d
  let ?is = "SWEEP_CHECKPOINT_JOBS_SQL now window n d"
  show "jobs_ok d \<Longrightarrow> \<exists>m d'. sweep_completed_checkpoints now window n d = (Inr m, d') \<and> jobs_ok d'
      \<and> length (steps d') \<le> length (steps d) \<and> (0 < m \<longrightarrow> length (steps d') < length (steps d))"
    using delete_matching [of "\<lambda>s. s_job_id s \<in> set ?is" "steps d"]
    by (auto simp: sweep_completed_checkpoints_def Let_def jobs_ok_children)
qed

lemma reaps_streams:
  "reaps (\<lambda>p. length (streams (p_db p))) (on_db (sweep_completed_streams now window n))"
proof (rule reaps_on_db)
  fix d
  let ?is = "SWEEP_STREAM_JOBS_SQL now window n d"
  show "jobs_ok d \<Longrightarrow> \<exists>m d'. sweep_completed_streams now window n d = (Inr m, d') \<and> jobs_ok d'
      \<and> length (streams d') \<le> length (streams d) \<and> (0 < m \<longrightarrow> length (streams d') < length (streams d))"
    using delete_matching [of "\<lambda>s. st_job_id s \<in> set ?is" "streams d"]
    by (auto simp: sweep_completed_streams_def Let_def jobs_ok_children)
qed

text \<open>The sweeps that delete by the ids of rows they just read.\<close>

lemma delete_found:
  assumes "set is \<subseteq> key ` set rows" and "is \<noteq> []"
  shows "length (filter (\<lambda>x. key x \<notin> set is) rows) < length rows"
proof -
  from assms obtain x where "x \<in> set rows" "key x \<in> set is" by (cases "is") auto
  then show ?thesis by (intro filter_shrinks) auto
qed

lemma found_ids: "set (map key (take n (filter q (sort_key f rows)))) \<subseteq> key ` set rows"
  using set_take_subset by fastforce

lemma reaps_mailbox:
  "reaps (\<lambda>p. length (mailbox (p_db p))) (on_db (sweep_consumed_mailbox now window n locked))"
proof (rule reaps_on_db)
  fix d
  have "set (SWEEP_MAILBOX_SQL now window n locked d) \<subseteq> m_id ` set (mailbox d)"
    unfolding SWEEP_MAILBOX_SQL_def by (rule found_ids)
  from delete_found [OF this]
  show "jobs_ok d \<Longrightarrow> \<exists>m d'. sweep_consumed_mailbox now window n locked d = (Inr m, d') \<and> jobs_ok d'
      \<and> length (mailbox d') \<le> length (mailbox d) \<and> (0 < m \<longrightarrow> length (mailbox d') < length (mailbox d))"
    by (auto simp: sweep_consumed_mailbox_def Let_def jobs_ok_children less_imp_le)
qed

lemma reaps_dags: "reaps (\<lambda>p. length (p_dags p)) (sweep_orphaned_dags now window n locked)"
  using delete_found [OF found_ids, of dg_id n _ dg_created]
  by (auto simp: reaps_def sweep_orphaned_dags_def Let_def less_imp_le)

lemma reaps_log: "reaps (\<lambda>p. length (p_log p)) (sweep_schedule_log now window n locked)"
  using delete_found [OF found_ids, of l_id n _ l_actual_time]
  by (auto simp: reaps_def sweep_schedule_log_def Let_def less_imp_le)

lemma reaps_history: "reaps (\<lambda>p. length (p_trail p)) (sweep_job_history now window n locked)"
  using delete_found [OF found_ids, of tr_id n _ tr_at]
  by (auto simp: reaps_def sweep_job_history_def Let_def less_imp_le)

lemma reaps_workers: "reaps (\<lambda>p. length (p_workers p)) (sweep_retired_workers now window n locked)"
  unfolding reaps_def
proof (intro allI impI)
  fix p :: platform
  assume ok: "jobs_ok (p_db p)"
  define found where "found = map w_id (take n (filter (\<lambda>w. retired_before (now - window) w \<and> w_id w \<notin> locked)
               (sort_key (\<lambda>w. case w_shutdown_at w of None \<Rightarrow> 0 | Some s \<Rightarrow> s) (p_workers p))))"
  let ?gone = "\<lambda>w. w_id w \<in> set found \<and> \<not> owns_work (jobs (p_db p)) w"
  have run: "sweep_retired_workers now window n locked p =
      (if found = [] then (Inr 0, p)
       else (Inr (length (filter ?gone (p_workers p))), p\<lparr>p_workers := filter (\<lambda>w. \<not> ?gone w) (p_workers p)\<rparr>))"
    by (simp add: sweep_retired_workers_def found_def)
  show "\<exists>m p'. sweep_retired_workers now window n locked p = (Inr m, p') \<and> jobs_ok (p_db p')
      \<and> length (p_workers p') \<le> length (p_workers p) \<and> (0 < m \<longrightarrow> length (p_workers p') < length (p_workers p))"
    unfolding run using ok delete_matching [of ?gone "p_workers p"] by auto
qed

text \<open>The recovery sweeps never fail on a sound table, except a backoff, which rolls back.\<close>

lemma timed_out_sweep_ok:
  assumes "jobs_ok d"
  shows "jobs_ok (snd (sweep_timed_out_jobs now u n locked d))"
proof -
  have one: "jobs_ok d'" if "jobs_ok d" "handle_timed_out_job now v j d = Inr d'" for v j d d'
    using that retry_timed_out.after_ok deadletter_timed_out.after_ok
    by (auto simp: handle_timed_out_job_def RETRY_TIMED_OUT_SQL_def DEADLETTER_TIMED_OUT_SQL_def lift_failure_def
        retry_timed_out.runs deadletter_timed_out.runs split: if_splits sum.splits)
  have "jobs_ok d'" if "jobs_ok d" "handle_all now u js d = Inr d'" for js d d'
    using that
  proof (induction js arbitrary: d)
    case (Cons j js)
    from Cons.prems(2) obtain e where e: "handle_timed_out_job now (u (j_id j)) j d = Inr e"
      "handle_all now u js e = Inr d'" by (auto simp: bind_sum_Inr_iff)
    from one [OF Cons.prems(1) e(1)] e(2) show ?case by (rule Cons.IH)
  qed simp
  with assms show ?thesis by (auto simp: sweep_timed_out_jobs_def Let_def split: sum.split)
qed

lemma dead_sweep_ok:
  assumes "jobs_ok d" and "sweep_dead_workers now grace n locked ws d = (r, ws', d')"
  shows "jobs_ok d'"
  using assms sweep_dead.after_ok
  by (auto simp: sweep_dead_workers_def SWEEP_DEAD_WORKER_JOBS_SQL_def sweep_dead.runs)

lemma stuck_sweep_ok: "jobs_ok d \<Longrightarrow> jobs_ok (snd (sweep_stuck_claims now grace n locked d))"
  using sweep_stuck.after_ok
  by (simp add: sweep_stuck_claims_def SWEEP_STUCK_CLAIMS_SQL_def sweep_stuck.runs)

lemma waiters_sweep_ok:
  assumes "jobs_ok d"
  shows "jobs_ok (snd (sweep_stranded_waiters now n locked d))"
proof -
  have wake: "jobs_ok (snd (sweep_waiters dep (WAKE_WAITERS_SQL now) n locked k d))" if "jobs_ok d" for dep k d
    using that wake_waiters.after_ok
    by (simp add: sweep_waiters_def Let_def WAKE_WAITERS_SQL_def wake_waiters.runs)
  have cancel: "jobs_ok (snd (sweep_waiters dep (CANCEL_UNSATISFIABLE_WAITERS_SQL now) n locked k d))"
    if "jobs_ok d" for dep k d
    using that cancel_unsatisfiable.after_ok
    by (simp add: sweep_waiters_def Let_def CANCEL_UNSATISFIABLE_WAITERS_SQL_def cancel_unsatisfiable.runs)
  show ?thesis
    using assms wake cancel
    by (auto simp: sweep_stranded_waiters_def split: prod.split sum.split) (metis snd_conv)+
qed

lemma recovery_sweeps_ok: "jobs_ok (p_db p) \<Longrightarrow> jobs_ok (p_db (recovery_sweeps c e p))"
proof -
  have lift: "jobs_ok (p_db (snd (run_sweep (on_db sweep p))))"
    if "jobs_ok (p_db p)" "\<And>d. jobs_ok d \<Longrightarrow> jobs_ok (snd (sweep d))" for sweep p
    using that(2) [OF that(1)] by (auto simp: run_sweep_def on_db_def split: prod.split sum.split)
  assume ok: "jobs_ok (p_db p)"
  let ?p1 = "snd (run_sweep (on_db (sweep_timed_out_jobs (ce_now e ''timed-out jobs'' 0) (ce_jitter e)
                 (mc_batch_size c) (ce_locked_jobs e)) p))"
  obtain r ws d where dead: "sweep_dead_workers (ce_now e ''dead workers'' 0) (mc_liveness_grace c) 500
      (ce_locked_jobs e) (p_workers ?p1) (p_db ?p1) = (r, ws, d)" by (metis prod_cases3)
  have "jobs_ok (p_db ?p1)" by (rule lift [OF ok timed_out_sweep_ok])
  then have "jobs_ok d" using dead by (rule dead_sweep_ok)
  then have "jobs_ok (p_db (?p1\<lparr>p_workers := ws, p_db := d\<rparr>))" by simp
  then show ?thesis
    unfolding recovery_sweeps_def Let_def dead prod.case by (intro lift stuck_sweep_ok waiters_sweep_ok)
qed

text \<open>A retention block: it ends, on a sound table.\<close>

definition ends_sound :: "platform option \<Rightarrow> bool" where
  "ends_sound r \<longleftrightarrow> (\<exists>p. r = Some p \<and> jobs_ok (p_db p))"

lemma ends_sound_bind:
  "ends_sound r \<Longrightarrow> (\<And>p. jobs_ok (p_db p) \<Longrightarrow> ends_sound (f p)) \<Longrightarrow> ends_sound (Option.bind r f)"
  by (auto simp: ends_sound_def)

lemma ends_sound_Some: "jobs_ok (p_db p) \<Longrightarrow> ends_sound (Some p)"
  by (simp add: ends_sound_def)

lemma ends_sound_retention:
  "(\<And>now. reaps mu (sweep now)) \<Longrightarrow> 1 \<le> batch \<Longrightarrow> jobs_ok (p_db p)
   \<Longrightarrow> ends_sound (run_retention e batch name sweep p)"
  unfolding ends_sound_def by (rule run_retention_returns)


text \<open>A cycle over a worker that died, a missed wake and a job past its window.\<close>

definition default_config :: monitor_config where
  "default_config = \<lparr>mc_batch_size = 100, mc_liveness_grace = 60000000, mc_claimed_grace = 300000000,
     mc_retention = 30 * 86400000000, mc_checkpoint_retention = 86400000000,
     mc_retention_batch_size = 1000\<rparr>"


end
