(* ===== verification/System.thy ===== *)
theory System
  imports Verbs Claim Replay Retention
begin

text \<open>
  The platform as a transition system: any worker, operator or client may run any statement
  at any time, in any order, at any clock reading, with any arguments. A step is one
  committed transaction. The invariants and the fencing results hold of every database the
  system can reach from an empty schema.
\<close>

section \<open>Steps\<close>

text \<open>
  A row as an enqueue may insert it: pre-claim, never run, and debounced only when queued.
\<close>

definition fresh_row :: "jorb \<Rightarrow> bool" where
  "fresh_row j \<longleftrightarrow>
     j_state j \<in> set PRE_CLAIM_STATES \<and> (j_state j = Waiting \<longrightarrow> j_debounce_key j = None)
     \<and> j_run_count j = 0 \<and> j_run_epoch j = 0"

inductive platform_step :: "database \<Rightarrow> database \<Rightarrow> bool" where
  enqueue: "insert_job mk d = Inr (j, d') \<Longrightarrow> fresh_row j \<Longrightarrow> platform_step d d'"
| claim: "claim_jorb w now locked held d = Inr (ks, d') \<Longrightarrow> platform_step d d'"
| run: "stmt_run now i epoch timeout d = Inr (rs, d') \<Longrightarrow> platform_step d d'"
| finished: "stmt_finished now i result epoch d = Inr (rs, d') \<Longrightarrow> platform_step d d'"
| retry: "stmt_retry now i delay msg bt epoch d = Inr (rs, d') \<Longrightarrow> platform_step d d'"
| crashed: "stmt_crashed now i msg bt epoch d = Inr (rs, d') \<Longrightarrow> platform_step d d'"
| cancelled: "stmt_cancelled now i epoch d = Inr (rs, d') \<Longrightarrow> platform_step d d'"
| reschedule: "stmt_reschedule now i delay epoch d = Inr (rs, d') \<Longrightarrow> platform_step d d'"
| wake_group: "stmt_wake_group now locked g d = Inr (rs, d') \<Longrightarrow> platform_step d d'"
| wake_job: "stmt_wake_job now locked i d = Inr (rs, d') \<Longrightarrow> platform_step d d'"
| operator_retry: "retry_job now d i interval reset = Inr (r, d') \<Longrightarrow> platform_step d d'"
| operator_retries: "retry_jobs now d ids interval reset = Inr (ks, d') \<Longrightarrow> platform_step d d'"
| operator_rerun: "rerun_job now d i interval reset fresh = Inr (r, d') \<Longrightarrow> platform_step d d'"
| sweep: "set allowed \<subseteq> set IN_FLIGHT_STATES
    \<Longrightarrow> requeue_job now d i interval reset allowed False = Inr (r, d') \<Longrightarrow> platform_step d d'"
| cancel: "cancel_job now d i = Inr (c, d') \<Longrightarrow> platform_step d d'"
| cancels: "cancel_jobs now d ids = Inr (n, d') \<Longrightarrow> platform_step d d'"
| priority: "stmt_update_priority ids prio d = Inr (rs, d') \<Longrightarrow> platform_step d d'"
| demand: "REGISTER_DEMAND_SQL i d = Inr (rs, d') \<Longrightarrow> platform_step d d'"
| bounce: "update_jobs (bounce_where key job_class i) (bounce_set now fires kwargs) d = Inr (rs, d') \<Longrightarrow> platform_step d d'"
| dag_members: "update_jobs (listed_where is) (dag_id_set dag) d = Inr (rs, d') \<Longrightarrow> platform_step d d'"
| group_members: "update_jobs (listed_where is) (run_group_set g) d = Inr (rs, d') \<Longrightarrow> platform_step d d'"
| controls: "platform_step d (d\<lparr>queues := qs\<rparr>)"
| deletion: "platform_step d (DELETE_EXPIRED_JOBS_SQL is d)"
| version: "update_job_app_version d i v = Inr (b, d') \<Longrightarrow> platform_step d d'"
| fork: "fork_job now d i n queue priority kw v = Inr (r', d') \<Longrightarrow> platform_step d d'"
| checkpoint: "record_step now i seq name out err epoch started d = (b, d') \<Longrightarrow> platform_step d d'"
| event: "set_event_stmt now i key v epoch d = (b, d') \<Longrightarrow> platform_step d d'"
| stream: "stream_append i key v closes epoch d = (a, d') \<Longrightarrow> platform_step d d'"
| send: "send_stmt dest topic message i epoch d = (s, d') \<Longrightarrow> platform_step d d'"
| message: "send_message dest topic message d = (s, d') \<Longrightarrow> platform_step d d'"
| recv: "recv_stmt now i seq topic name epoch started d = (m, d') \<Longrightarrow> platform_step d d'"
| compaction: "compact_write i epoch d = (b, d') \<Longrightarrow> platform_step d d'"
| application: "platform_step d (write_rows ws d)"
| timeouts: "sweep_timed_out_jobs now u n locked d = (r, d') \<Longrightarrow> platform_step d d'"
| dead_workers: "sweep_dead_workers now grace n locked ws d = (r, ws', d') \<Longrightarrow> platform_step d d'"
| stuck_claims: "sweep_stuck_claims now grace n locked d = (r, d') \<Longrightarrow> platform_step d d'"
| wake_waiters: "WAKE_WAITERS_SQL now is d = Inr (rs, d') \<Longrightarrow> platform_step d d'"
| cancel_waiters: "CANCEL_UNSATISFIABLE_WAITERS_SQL now is d = Inr (rs, d') \<Longrightarrow> platform_step d d'"
| expiry: "sweep_expired_jobs now window n locked d = (r, d') \<Longrightarrow> platform_step d d'"
| checkpoint_expiry: "sweep_completed_checkpoints now window n d = (r, d') \<Longrightarrow> platform_step d d'"
| stream_expiry: "sweep_completed_streams now window n d = (r, d') \<Longrightarrow> platform_step d d'"
| mail_expiry: "sweep_consumed_mailbox now window n locked_mail d = (r, d') \<Longrightarrow> platform_step d d'"

definition reachable :: "database \<Rightarrow> bool" where
  "reachable = platform_step\<^sup>*\<^sup>* empty_db"

section \<open>The invariant\<close>

text \<open>Child rows hang off jobs that exist or existed, and every stream is dense.\<close>

definition children_ok :: "database \<Rightarrow> bool" where
  "children_ok d \<longleftrightarrow>
     list_all (\<lambda>s. s_job_id s < next_job_id d) (steps d)
     \<and> (\<forall>i key. dense (stream_rows d i key))"

definition system_ok :: "database \<Rightarrow> bool" where
  "system_ok d \<longleftrightarrow> jobs_ok d \<and> dxe_ok d \<and> children_ok d"

text \<open>A statement that changes job rows only.\<close>

lemma system_ok_jobs:
  assumes "system_ok d" and "jobs_ok d'"
    and "steps d' = steps d" "events d' = events d" "mailbox d' = mailbox d"
      "streams d' = streams d" "next_mail_id d' = next_mail_id d" "next_job_id d \<le> next_job_id d'"
  shows "system_ok d'"
  using assms
  by (auto simp: system_ok_def dxe_ok_def children_ok_def stream_rows_def list_all_iff)

text \<open>
  What a step may do to one job: an id is never given to another job, and as long as its row
  is there its epoch never goes back, and moves on when an attempt starts or ends, and the
  demand latch a waiter has set stays set.
\<close>

definition moves_forward :: "database \<Rightarrow> database \<Rightarrow> bool" where
  "moves_forward d d' \<longleftrightarrow> next_job_id d \<le> next_job_id d' \<and>
     (\<forall>i k. i < next_job_id d \<and> lookup_job d' i = Some k \<longrightarrow>
        (\<exists>j. lookup_job d i = Some j \<and> j_run_epoch j \<le> j_run_epoch k
           \<and> ((j_state j \<in> {Claimed, Running}) \<noteq> (j_state k \<in> {Claimed, Running})
                \<longrightarrow> j_run_epoch j < j_run_epoch k)
           \<and> (j_awaited j \<longrightarrow> j_awaited k)))"

lemma moves_forward_same:
  "jobs d' = jobs d \<Longrightarrow> next_job_id d \<le> next_job_id d' \<Longrightarrow> moves_forward d d'"
  by (simp add: moves_forward_def lookup_job_def)

lemma moves_forward_trans:
  "moves_forward d e \<Longrightarrow> jobs e' = jobs e \<Longrightarrow> next_job_id e' = next_job_id e \<Longrightarrow> moves_forward d e'"
  by (simp add: moves_forward_def lookup_job_def)

context job_update
begin

lemma system_kept: "system_ok d \<Longrightarrow> system_ok (after d)"
  by (rule system_ok_jobs) (auto simp: system_ok_def intro: after_ok)

lemma forward: "moves_forward d (after d)"
  using epoch_grows attempt_ends_fenced attempt_starts_fenced demand_kept
  by (auto simp: moves_forward_def after_lookup)

end

text \<open>Both facts of a statement, from the contract its \<open>WHERE\<close> and \<open>SET\<close> clauses keep.\<close>

definition sound_step :: "database \<Rightarrow> database \<Rightarrow> bool" where
  "sound_step d d' \<longleftrightarrow> system_ok d' \<and> moves_forward d d'"

lemma contract_step:
  assumes "job_update p f" and "system_ok d" and "update_jobs p f d = Inr (rs, d')"
  shows "sound_step d d'"
proof -
  have "d' = job_update.after p f d"
    using assms(3) job_update.runs [OF assms(1)] assms(2) by (simp add: system_ok_def)
  with job_update.system_kept [OF assms(1,2)] job_update.forward [OF assms(1)]
  show ?thesis by (simp add: sound_step_def)
qed

lemma contract_identity: "system_ok d \<Longrightarrow> sound_step d d"
  by (simp add: sound_step_def moves_forward_same)

text \<open>The durable writes, which leave the job rows alone.\<close>

lemma write_step:
  assumes "system_ok d" and "jobs d' = jobs d" "history d' = history d" "next_job_id d' = next_job_id d"
    and "dxe_ok d'" and "children_ok d'"
  shows "sound_step d d'"
  using assms
  by (auto simp: sound_step_def moves_forward_same system_ok_def jobs_ok_def trail_ok_def state_trail_def)

lemma children_steps:
  "children_ok d \<Longrightarrow> next_job_id d' = next_job_id d \<Longrightarrow> streams d' = streams d
   \<Longrightarrow> list_all (\<lambda>s. s_job_id s < next_job_id d) (steps d') \<Longrightarrow> children_ok d'"
  by (simp add: children_ok_def stream_rows_def)

lemma upsert_owned:
  assumes "list_all (\<lambda>s. s_job_id s < n) rows" and "s_job_id new < n"
    and "\<And>a b. s_job_id (mg a b) = s_job_id a"
  shows "list_all (\<lambda>s. s_job_id s < n) (upsert_step mg new rows)"
  using assms by (auto simp: upsert_step_def list_all_iff split: option.splits)

lemma owns_below: "system_ok d \<Longrightarrow> owns d i epoch \<Longrightarrow> i < next_job_id d"
  by (auto simp: owns_def system_ok_def jobs_ok_def dest!: lookup_job_SomeD split: option.splits)

lemma checkpoint_step:
  assumes "system_ok d" and "record_step now i seq name out err epoch started d = (b, d')"
  shows "sound_step d d'"
proof -
  have d': "d' = snd (record_step now i seq name out err epoch started d)" using assms(2) by simp
  have "list_all (\<lambda>s. s_job_id s < next_job_id d) (steps d')"
    using assms(1) owns_below [OF assms(1)]
    by (auto simp: d' record_step_def system_ok_def children_ok_def intro!: upsert_owned)
  moreover have "streams d' = streams d" by (simp add: d' record_step_def)
  ultimately show ?thesis
    using assms(1) checkpoint.rows_kept checkpoint.keys_kept
    by (intro write_step) (auto simp: d' system_ok_def intro: children_steps)
qed

lemma recv_step:
  assumes "system_ok d" and "recv_stmt now i seq topic name epoch started d = (m, d')"
  shows "sound_step d d'"
proof -
  have d': "d' = snd (recv_stmt now i seq topic name epoch started d)" using assms(2) by simp
  have "list_all (\<lambda>s. s_job_id s < next_job_id d) (steps d')"
    using assms(1) owns_below [OF assms(1)]
    by (auto simp: d' recv_stmt_def Let_def system_ok_def children_ok_def
        split: list.splits intro!: upsert_owned)
  moreover have "streams d' = streams d"
    by (auto simp: d' recv_stmt_def Let_def split: list.splits)
  ultimately show ?thesis
    using assms(1) recv.rows_kept recv.keys_kept
    by (intro write_step) (auto simp: d' system_ok_def intro: children_steps)
qed

lemma event_step:
  assumes "system_ok d" and "set_event_stmt now i key v epoch d = (b, d')"
  shows "sound_step d d'"
proof -
  have d': "d' = snd (set_event_stmt now i key v epoch d)" using assms(2) by simp
  have "streams d' = streams d" "steps d' = steps d" by (simp_all add: d' set_event_stmt_def)
  then show ?thesis
    using assms(1) event.rows_kept event.keys_kept
    by (intro write_step) (auto simp: d' system_ok_def children_ok_def stream_rows_def)
qed

lemma send_step:
  assumes "system_ok d" and "send_stmt dest topic message i epoch d = (b, d')"
  shows "sound_step d d'"
proof -
  have d': "d' = snd (send_stmt dest topic message i epoch d)" using assms(2) by simp
  have "streams d' = streams d" "steps d' = steps d" by (simp_all add: d' send_stmt_def)
  then show ?thesis
    using assms(1) send.rows_kept send.keys_kept
    by (intro write_step) (auto simp: d' system_ok_def children_ok_def stream_rows_def)
qed

lemma message_step:
  assumes "system_ok d" and "send_message dest topic message d = (s, d')"
  shows "sound_step d d'"
proof -
  have d': "d' = snd (send_message dest topic message d)" using assms(2) by simp
  have "dxe_ok d'" "children_ok d'"
    using assms(1) by (auto simp: d' send_message_def system_ok_def dxe_ok_def children_ok_def stream_rows_def list_all_iff)
  moreover have "jobs d' = jobs d" "history d' = history d" "next_job_id d' = next_job_id d"
    by (simp_all add: d' send_message_def)
  ultimately show ?thesis by (intro write_step [OF assms(1)])
qed

lemma stream_step:
  assumes "system_ok d" and "stream_append i key v closes epoch d = (a, d')"
  shows "sound_step d d'"
proof -
  have d': "d' = snd (stream_append i key v closes epoch d)" using assms(2) by simp
  have "steps d' = steps d" by (simp add: d' stream_append_def Let_def)
  then show ?thesis
    using assms(1) stream.rows_kept stream.keys_kept stream_append_dense
    by (intro write_step) (auto simp: d' system_ok_def children_ok_def)
qed

lemma compaction_step:
  assumes "system_ok d" and "compact_write i epoch d = (b, d')"
  shows "sound_step d d'"
proof -
  have d': "d' = snd (compact_write i epoch d)" using assms(2) by simp
  have "streams d' = streams d"
    and "list_all (\<lambda>s. s_job_id s < next_job_id d) (steps d')"
    using assms(1) by (auto simp: d' compact_write_def compact_steps_def system_ok_def children_ok_def list_all_iff)
  then show ?thesis
    using assms(1) compact.rows_kept compact.keys_kept
    by (intro write_step) (auto simp: d' system_ok_def intro: children_steps)
qed

lemma application_step: "system_ok d \<Longrightarrow> sound_step d (write_rows ws d)"
  by (rule write_step)
    (auto simp: system_ok_def write_rows_def dxe_ok_def children_ok_def stream_rows_def)

text \<open>The requeue verbs, the wipe included.\<close>

lemma wipe_system: "system_ok d \<Longrightarrow> system_ok (WIPE_DURABLE_STATE_SQL ids d)"
proof -
  assume ok: "system_ok d"
  have rows: "stream_rows (WIPE_DURABLE_STATE_SQL ids d) i key =
      (if i \<in> set ids then [] else stream_rows d i key)" for i key
    by (auto simp: stream_rows_def WIPE_DURABLE_STATE_SQL_def filter_empty_conv intro: filter_cong)
  have "dxe_ok (WIPE_DURABLE_STATE_SQL ids d)"
    using ok by (auto simp: system_ok_def dxe_ok_def WIPE_DURABLE_STATE_SQL_def intro: distinct_map_filter)
  moreover have "children_ok (WIPE_DURABLE_STATE_SQL ids d)"
    using ok by (auto simp: system_ok_def children_ok_def rows dense_def)
      (auto simp: WIPE_DURABLE_STATE_SQL_def list_all_iff)
  ultimately show ?thesis using ok by (simp add: system_ok_def)
qed

lemma requeue_step:
  assumes ok: "system_ok d" and allowed: "set allowed \<inter> set PRE_CLAIM_STATES = {}"
    and run: "requeue_job now d i interval reset allowed wipe = Inr (r, d')"
  shows "sound_step d d'"
proof -
  let ?e = "job_update.after (requeue_where allowed [i])
    (requeue_set now (case interval of None \<Rightarrow> 0 | Some t \<Rightarrow> t) reset) d"
  have "d' = ?e \<or> d' = WIPE_DURABLE_STATE_SQL [i] ?e"
    using run requeue_job_eq [of d allowed now i interval reset wipe] ok allowed
    by (auto simp: system_ok_def split: option.splits if_splits)
  moreover have "system_ok ?e" "moves_forward d ?e"
    by (rule job_update.system_kept [OF requeue_contract [OF allowed] ok],
        rule job_update.forward [OF requeue_contract [OF allowed]])
  moreover have "next_job_id (WIPE_DURABLE_STATE_SQL [i] ?e) = next_job_id ?e"
    by (simp add: WIPE_DURABLE_STATE_SQL_def)
  ultimately show ?thesis
    using wipe_system moves_forward_trans by (auto simp: sound_step_def)
qed

lemma allowed_states:
  "set RETRYABLE_STATES \<inter> set PRE_CLAIM_STATES = {}"
  "set RERUNNABLE_STATES \<inter> set PRE_CLAIM_STATES = {}"
  "set allowed \<subseteq> set IN_FLIGHT_STATES \<Longrightarrow> set allowed \<inter> set PRE_CLAIM_STATES = {}"
  by (auto simp: RETRYABLE_STATES_def RERUNNABLE_STATES_def PRE_CLAIM_STATES_def)

lemma retries_step:
  assumes "system_ok d" and "retry_jobs now d ids interval reset = Inr (ks, d')"
  shows "sound_step d d'"
proof (cases "ids = []")
  case True
  with assms show ?thesis by (auto simp: retry_jobs_def intro: contract_identity)
next
  case False
  with assms(2) obtain rs where "update_jobs (requeue_where RETRYABLE_STATES ids)
      (requeue_set now (case interval of None \<Rightarrow> 0 | Some t \<Rightarrow> t) reset) d = Inr (rs, d')"
    by (auto simp: retry_jobs_def stmt_requeue_def Let_def bind_sum_Inr_iff)
  then show ?thesis
    by (rule contract_step [OF requeue_contract [OF allowed_states(1)] assms(1)])
qed

lemma cancel_steps:
  assumes "system_ok d"
  shows "cancel_job now d i = Inr (c, d') \<Longrightarrow> sound_step d d'"
    and "cancel_jobs now d ids = Inr (n, d') \<Longrightarrow> sound_step d d'"
proof -
  have one: "sound_step d d'" if "stmt_cancel now is d = Inr (rs, d')" for "is" rs d'
    using that contract_step [OF cancel.job_update_axioms assms]
    by (simp add: stmt_cancel_def)
  show "sound_step d d'" if "cancel_job now d i = Inr (c, d')"
  proof -
    from that obtain rs e where st: "stmt_cancel now [i] d = Inr (rs, e)"
      by (auto simp: cancel_job_def bind_sum_Inr_iff)
    with that have "d' = e" by (cases rs) (simp_all add: cancel_job_def)
    with st one show ?thesis by blast
  qed
  show "cancel_jobs now d ids = Inr (n, d') \<Longrightarrow> sound_step d d'"
    using contract_identity [OF assms]
    by (auto simp: cancel_jobs_def bind_sum_Inr_iff split: if_splits intro: one)
qed

lemma version_step:
  assumes "system_ok d" and "update_job_app_version d i v = Inr (b, d')"
  shows "sound_step d d'"
  using assms contract_step [OF app_version.job_update_axioms assms(1)]
  by (auto simp: update_job_app_version_def stmt_update_app_version_def bind_sum_Inr_iff
      split: sum.splits)

text \<open>A claim, an insert and a fork.\<close>

lemma claim_step:
  assumes ok: "system_ok d" and claim: "claim_jorb w now locked held d = Inr (ks, d')"
  shows "sound_step d d'"
proof (cases "queue_open d (c_queue w) now held")
  case True
  with claim show ?thesis
    using contract_step [OF claim.job_update_axioms ok]
    by (auto simp: claim_jorb_eq claim_from_def Let_def)
next
  case False
  with claim ok show ?thesis by (auto simp: claim_jorb_eq intro: contract_identity)
qed

lemma insert_forward:
  assumes "jobs_ok d" and "insert_job mk d = Inr (j, d')"
  shows "moves_forward d d'"
  using assms
  by (auto simp: moves_forward_def insert_job_def Let_def lookup_job_def find_row_append
      split: if_splits option.splits)

lemma enqueue_step:
  assumes ok: "system_ok d" and ins: "insert_job mk d = Inr (j, d')" and fresh: "fresh_row j"
  shows "sound_step d d'"
proof -
  have jobs: "jobs_ok d" using ok by (simp add: system_ok_def)
  have "jobs_ok d'"
    by (rule insert_job_ok [OF jobs ins]) (use fresh in \<open>auto simp: fresh_row_def job_wf_def\<close>)
  then have "system_ok d'"
    by (rule system_ok_jobs [OF ok]) (use ins in \<open>auto simp: insert_job_def Let_def split: if_splits\<close>)
  with insert_forward [OF jobs ins] show ?thesis by (simp add: sound_step_def)
qed

lemma dxe_ok_copies:
  assumes "dxe_ok d" and "list_all (\<lambda>s. s_job_id s < n) (steps d)"
  shows "distinct (map (\<lambda>s. (s_job_id s, s_seq s))
    (steps d @ map (\<lambda>s. s\<lparr>s_job_id := n, s_run_epoch := 0\<rparr>) (step_prefix d i k)))"
proof -
  have "distinct (map (\<lambda>s. (s_job_id s, s_seq s)) (step_prefix d i k))"
    using assms(1) by (auto simp: dxe_ok_def step_prefix_def job_steps_def intro!: distinct_map_filter)
  then have "distinct (map s_seq (step_prefix d i k))"
    by (auto simp: distinct_map step_prefix_def job_steps_def inj_on_def)
  then show ?thesis
    using assms by (auto simp: dxe_ok_def distinct_map inj_on_def list_all_iff)
qed

lemma fork_step:
  assumes ok: "system_ok d" and fork: "fork_job now d i n queue priority kw v = Inr (r, d')"
  shows "sound_step d d'"
proof -
  have jobs: "jobs_ok d" and dxe: "dxe_ok d" and owned: "list_all (\<lambda>s. s_job_id s < next_job_id d) (steps d)"
    and dense: "\<And>k l. dense (stream_rows d k l)"
    using ok by (auto simp: system_ok_def children_ok_def)
  from fork obtain src version j e where
    ins: "insert_job (fork_row now src n (length (step_prefix d i n)) queue priority kw version) d = Inr (j, e)"
    and d': "d' = e\<lparr>steps := steps e @
      map (\<lambda>s. s\<lparr>s_job_id := j_id j, s_run_epoch := 0\<rparr>) (step_prefix d i n)\<rparr>"
    by (auto simp: fork_job_def Let_def bind_sum_Inr_iff split: if_splits sum.splits option.splits)
  have e: "steps e = steps d" "events e = events d" "mailbox e = mailbox d" "streams e = streams d"
    "next_mail_id e = next_mail_id d" "next_job_id e = next_job_id d + 1" "j_id j = next_job_id d"
    using ins by (auto simp: insert_job_def Let_def split: if_splits)
  have "fresh_row j"
    using ins by (auto simp: insert_job_def Let_def fork_row_def fresh_row_def split: if_splits)
  then have step: "sound_step d e" by (rule enqueue_step [OF ok ins])
  then have "jobs_ok d'"
    by (simp add: sound_step_def system_ok_def jobs_ok_def d' trail_ok_def state_trail_def)
  moreover have "dxe_ok d'"
    using dxe dxe_ok_copies [OF dxe owned, of i n] by (simp add: dxe_ok_def d' e)
  moreover have "children_ok d'"
    using owned dense by (auto simp: children_ok_def d' e stream_rows_def list_all_iff)
  moreover have "moves_forward d d'"
    using step moves_forward_trans by (auto simp: sound_step_def d')
  ultimately show ?thesis by (simp add: sound_step_def system_ok_def)
qed

text \<open>The monitor's sweeps: the recovering ones keep the contract of a statement.\<close>

lemma sound_step_trans:
  assumes "sound_step d e" and "sound_step e f"
  shows "sound_step d f"
proof -
  let ?flying = "\<lambda>j. j_state j \<in> {Claimed, Running}"
  have ids: "next_job_id d \<le> next_job_id e" "next_job_id e \<le> next_job_id f"
    using assms by (simp_all add: sound_step_def moves_forward_def)
  have "\<exists>j. lookup_job d i = Some j \<and> j_run_epoch j \<le> j_run_epoch k
      \<and> (?flying j \<noteq> ?flying k \<longrightarrow> j_run_epoch j < j_run_epoch k) \<and> (j_awaited j \<longrightarrow> j_awaited k)"
    if i: "i < next_job_id d" and k: "lookup_job f i = Some k" for i k
  proof -
    have "i < next_job_id e" using i ids(1) by simp
    with assms(2) k obtain m where m: "lookup_job e i = Some m" "j_run_epoch m \<le> j_run_epoch k"
      "?flying m \<noteq> ?flying k \<longrightarrow> j_run_epoch m < j_run_epoch k" "j_awaited m \<longrightarrow> j_awaited k"
      unfolding sound_step_def moves_forward_def by blast
    with assms(1) i obtain j where j: "lookup_job d i = Some j" "j_run_epoch j \<le> j_run_epoch m"
      "?flying j \<noteq> ?flying m \<longrightarrow> j_run_epoch j < j_run_epoch m" "j_awaited j \<longrightarrow> j_awaited m"
      unfolding sound_step_def moves_forward_def by blast
    have "?flying j \<noteq> ?flying k \<longrightarrow> j_run_epoch j < j_run_epoch k"
      using m(2,3) j(2,3) by linarith
    with m(2,4) j(1,2,4) show ?thesis by auto
  qed
  with assms ids show ?thesis by (simp add: sound_step_def moves_forward_def)
qed

lemma sound_step_eq: "system_ok d \<Longrightarrow> d' = d \<Longrightarrow> sound_step d d'"
  using contract_identity by simp

lemma timeouts_step:
  assumes "system_ok d" and "sweep_timed_out_jobs now u n locked d = (r, d')"
  shows "sound_step d d'"
proof -
  have one: "sound_step d e" if "system_ok d" "handle_timed_out_job now v j d = Inr e" for v j d e
    using that(2) contract_step [OF retry_timed_out.job_update_axioms that(1)]
      contract_step [OF deadletter_timed_out.job_update_axioms that(1)]
    by (auto simp: handle_timed_out_job_def RETRY_TIMED_OUT_SQL_def DEADLETTER_TIMED_OUT_SQL_def
        lift_failure_def bind_sum_Inr_iff split: if_splits sum.splits)
  have "sound_step d e" if "system_ok d" "handle_all now u js d = Inr e" for js d e
    using that
  proof (induction js arbitrary: d)
    case (Cons j js)
    from Cons.prems(2) obtain f where f: "handle_timed_out_job now (u (j_id j)) j d = Inr f"
      "handle_all now u js f = Inr e" by (auto simp: bind_sum_Inr_iff)
    have "sound_step d f" by (rule one [OF Cons.prems(1) f(1)])
    moreover from this have "sound_step f e"
      by (intro Cons.IH [OF _ f(2)]) (simp add: sound_step_def)
    ultimately show ?case by (rule sound_step_trans)
  qed (simp add: contract_identity)
  with assms show ?thesis
    by (auto simp: sweep_timed_out_jobs_def Let_def intro: contract_identity split: sum.splits)
qed

lemma recovery_steps:
  assumes "system_ok d"
  shows "sweep_dead_workers now grace n locked ws d = (r, ws', d') \<Longrightarrow> sound_step d d'"
    and "sweep_stuck_claims now grace n locked d = (r, d') \<Longrightarrow> sound_step d d'"
    and "WAKE_WAITERS_SQL now is d = Inr (rs, d') \<Longrightarrow> sound_step d d'"
    and "CANCEL_UNSATISFIABLE_WAITERS_SQL now is d = Inr (rs, d') \<Longrightarrow> sound_step d d'"
  using contract_identity [OF assms] contract_step [OF sweep_dead.job_update_axioms assms]
    contract_step [OF sweep_stuck.job_update_axioms assms]
    contract_step [OF wake_waiters.job_update_axioms assms]
    contract_step [OF cancel_unsatisfiable.job_update_axioms assms]
  by (auto simp: sweep_dead_workers_def SWEEP_DEAD_WORKER_JOBS_SQL_def sweep_stuck_claims_def
      SWEEP_STUCK_CLAIMS_SQL_def WAKE_WAITERS_SQL_def CANCEL_UNSATISFIABLE_WAITERS_SQL_def split: sum.splits)

text \<open>And the retention sweeps, which only take rows away.\<close>

lemma child_expiry:
  assumes "system_ok d"
  shows "sound_step d (d\<lparr>steps := filter p (steps d)\<rparr>)"
    and "sound_step d (d\<lparr>mailbox := filter q (mailbox d)\<rparr>)"
    and "sound_step d (d\<lparr>streams := filter (\<lambda>r. st_job_id r \<notin> K) (streams d)\<rparr>)"
proof -
  have dense: "dense (filter (\<lambda>s. st_job_id s = i \<and> st_key s = key) (filter (\<lambda>r. st_job_id r \<notin> K) (streams d)))" for i key
  proof (cases "i \<in> K")
    case True
    then have "filter (\<lambda>s. st_job_id s = i \<and> st_key s = key) (filter (\<lambda>r. st_job_id r \<notin> K) (streams d)) = []"
      by (auto simp: filter_empty_conv)
    then show ?thesis by (simp add: dense_def)
  next
    case False
    then have "filter (\<lambda>s. st_job_id s = i \<and> st_key s = key) (filter (\<lambda>r. st_job_id r \<notin> K) (streams d)) = stream_rows d i key"
      by (auto simp: stream_rows_def intro: filter_cong)
    then show ?thesis using assms by (simp add: system_ok_def children_ok_def)
  qed
  show "sound_step d (d\<lparr>steps := filter p (steps d)\<rparr>)"
    and "sound_step d (d\<lparr>mailbox := filter q (mailbox d)\<rparr>)"
    and "sound_step d (d\<lparr>streams := filter (\<lambda>r. st_job_id r \<notin> K) (streams d)\<rparr>)"
    using assms dense
    by (intro write_step; auto simp: system_ok_def dxe_ok_def children_ok_def stream_rows_def list_all_iff
        intro: distinct_map_filter)+
qed

lemma expiry_steps:
  assumes "system_ok d"
  shows "sweep_completed_checkpoints now window n d = (r, d') \<Longrightarrow> sound_step d d'"
    and "sweep_completed_streams now window n d = (r, d') \<Longrightarrow> sound_step d d'"
    and "sweep_consumed_mailbox now window n locked d = (r, d') \<Longrightarrow> sound_step d d'"
  using contract_identity [OF assms] child_expiry [OF assms]
  by (auto simp: sweep_completed_checkpoints_def sweep_completed_streams_def sweep_consumed_mailbox_def
      Let_def split: if_splits)

lemma deletion_step:
  assumes "system_ok d"
  shows "sound_step d (DELETE_EXPIRED_JOBS_SQL is d)"
proof -
  let ?d = "DELETE_EXPIRED_JOBS_SQL is d"
  have jobs: "jobs_ok d" and dxe: "dxe_ok d" and children: "children_ok d"
    using assms by (simp_all add: system_ok_def)
  have rows: "stream_rows ?d i key = (if i \<in> set is then [] else stream_rows d i key)" for i key
    by (auto simp: stream_rows_def DELETE_EXPIRED_JOBS_SQL_def filter_empty_conv intro: filter_cong)
  have "dxe_ok ?d"
    using dxe
    by (auto simp: dxe_ok_def DELETE_EXPIRED_JOBS_SQL_def list_all_iff intro: distinct_map_filter)
  moreover have "children_ok ?d"
    using children by (auto simp: children_ok_def rows dense_def)
      (auto simp: DELETE_EXPIRED_JOBS_SQL_def list_all_iff)
  moreover have "moves_forward d ?d"
    by (auto simp: moves_forward_def delete_lookup [OF jobs] split: if_splits)
      (simp add: DELETE_EXPIRED_JOBS_SQL_def)
  ultimately show ?thesis by (simp add: sound_step_def system_ok_def delete_ok [OF jobs])
qed

lemma expired_jobs_step:
  assumes "system_ok d" and "sweep_expired_jobs now window n locked d = (r, d')"
  shows "sound_step d d'"
  using assms deletion_step [OF assms(1)] contract_identity [OF assms(1)]
  by (auto simp: sweep_expired_jobs_def Let_def split: if_splits)

lemma controls_step: "system_ok d \<Longrightarrow> sound_step d (d\<lparr>queues := qs\<rparr>)"
  by (rule write_step) (auto simp: system_ok_def dxe_ok_def children_ok_def stream_rows_def)

text \<open>Every step, then.\<close>

lemma platform_step_sound: "platform_step d d' \<Longrightarrow> system_ok d \<Longrightarrow> sound_step d d'"
proof (induction rule: platform_step.induct)
  case (run now i epoch timeout d rs d')
  then show ?case using contract_step [OF run.job_update_axioms] by (simp add: stmt_run_def)
next
  case (finished now i result epoch d rs d')
  then show ?case using contract_step [OF finished.job_update_axioms] by (simp add: stmt_finished_def)
next
  case (retry now i delay msg bt epoch d rs d')
  then show ?case using contract_step [OF retry.job_update_axioms] by (simp add: stmt_retry_def)
next
  case (crashed now i msg bt epoch d rs d')
  then show ?case using contract_step [OF crashed.job_update_axioms] by (simp add: stmt_crashed_def)
next
  case (cancelled now i epoch d rs d')
  then show ?case using contract_step [OF cancelled.job_update_axioms] by (simp add: stmt_cancelled_def)
next
  case (reschedule now i delay epoch d rs d')
  then show ?case using contract_step [OF reschedule.job_update_axioms] by (simp add: stmt_reschedule_def)
next
  case (wake_group now locked g d rs d')
  then show ?case using contract_step [OF wake_group.job_update_axioms] by (simp add: stmt_wake_group_def)
next
  case (wake_job now locked i d rs d')
  then show ?case using contract_step [OF wake_job.job_update_axioms] by (simp add: stmt_wake_job_def)
next
  case (priority ids prio d rs d')
  then show ?case using contract_step [OF priority.job_update_axioms] by (simp add: stmt_update_priority_def)
next
  case (demand i d rs d')
  then show ?case using contract_step [OF demand.job_update_axioms] by (simp add: REGISTER_DEMAND_SQL_def)
next
  case (bounce key job_class i now fires kwargs d rs d')
  then show ?case using contract_step [OF bounce.job_update_axioms] by blast
next
  case (dag_members js dag d rs d')
  then show ?case using contract_step [OF dag_members.job_update_axioms] by blast
next
  case (group_members js g d rs d')
  then show ?case using contract_step [OF group_members.job_update_axioms] by blast
next
  case (operator_retry now d i interval reset r d')
  then show ?case using requeue_step [OF _ allowed_states(1)] by (auto simp: retry_job_def)
next
  case (operator_rerun now d i interval reset fresh r d')
  then show ?case using requeue_step [OF _ allowed_states(2)] by (auto simp: rerun_job_def)
next
  case (sweep allowed now d i interval reset r d')
  then show ?case using requeue_step [OF _ allowed_states(3)] by blast
qed (blast intro: enqueue_step claim_step retries_step cancel_steps version_step fork_step
      checkpoint_step event_step stream_step send_step message_step recv_step compaction_step application_step
      timeouts_step recovery_steps expiry_steps expired_jobs_step controls_step deletion_step)+

lemma empty_ok: "system_ok empty_db"
  by (simp add: system_ok_def empty_db_def jobs_ok_def unique_ok_def index_ok_def dxe_ok_def
      children_ok_def stream_rows_def dense_def)

lemma reachable_ok: "reachable d \<Longrightarrow> system_ok d"
  unfolding reachable_def
  by (induction rule: rtranclp_induct) (auto simp: empty_ok sound_step_def dest: platform_step_sound)

lemma steps_sound:
  "platform_step\<^sup>*\<^sup>* d d' \<Longrightarrow> system_ok d \<Longrightarrow> system_ok d' \<and> next_job_id d \<le> next_job_id d'
     \<and> (\<forall>i k. i < next_job_id d \<and> lookup_job d' i = Some k \<longrightarrow>
          (\<exists>j. lookup_job d i = Some j \<and> j_run_epoch j \<le> j_run_epoch k))"
proof (induction rule: rtranclp_induct)
  case (step d1 d2)
  then have "sound_step d1 d2" by (auto dest: platform_step_sound)
  then have one: "system_ok d2" "next_job_id d1 \<le> next_job_id d2"
    "\<And>i k. i < next_job_id d1 \<Longrightarrow> lookup_job d2 i = Some k
       \<Longrightarrow> \<exists>j. lookup_job d1 i = Some j \<and> j_run_epoch j \<le> j_run_epoch k"
    unfolding sound_step_def moves_forward_def by blast+
  have "\<exists>j. lookup_job d i = Some j \<and> j_run_epoch j \<le> j_run_epoch k"
    if "i < next_job_id d" "lookup_job d2 i = Some k" for i k
  proof -
    have "i < next_job_id d1" using that(1) step by auto
    from one(3) [OF this that(2)] obtain m where m: "lookup_job d1 i = Some m" "j_run_epoch m \<le> j_run_epoch k"
      by blast
    with step that(1) obtain j where "lookup_job d i = Some j" "j_run_epoch j \<le> j_run_epoch m" by blast
    with m show ?thesis by auto
  qed
  with one step show ?case by auto
qed auto

text \<open>So an epoch once passed stays passed, whether or not the job is still there.\<close>

lemma epoch_stays_past:
  assumes "platform_step\<^sup>*\<^sup>* d d'" "system_ok d" "lookup_job d i = Some j" "e < j_run_epoch j"
    and "lookup_job d' i = Some k"
  shows "e < j_run_epoch k"
proof -
  have "i < next_job_id d"
    using assms(2,3) by (auto simp: system_ok_def jobs_ok_def dest: lookup_job_SomeD)
  with steps_sound [OF assms(1,2)] assms(5) obtain m where
    "lookup_job d i = Some m" "j_run_epoch m \<le> j_run_epoch k" by blast
  with assms(3,4) show ?thesis by simp
qed

section \<open>What holds of every reachable database\<close>



text \<open>The five endings of an attempt, as one type.\<close>

datatype ending =
    Finish_with "json option"
  | Retry_in interval "string option" "string option"
  | Crash_with "string option" "string option"
  | Cancel_honoured
  | Reschedule_in interval

fun end_attempt ::
  "ending \<Rightarrow> instant \<Rightarrow> job_id \<Rightarrow> int \<Rightarrow> database \<Rightarrow> sql_error + (jorb list \<times> database)" where
  "end_attempt (Finish_with result) now i epoch = stmt_finished now i result epoch"
| "end_attempt (Retry_in delay msg bt) now i epoch = stmt_retry now i delay msg bt epoch"
| "end_attempt (Crash_with msg bt) now i epoch = stmt_crashed now i msg bt epoch"
| "end_attempt Cancel_honoured now i epoch = stmt_cancelled now i epoch"
| "end_attempt (Reschedule_in delay) now i epoch = stmt_reschedule now i delay epoch"

lemmas ending_stmts =
  stmt_finished_def stmt_retry_def stmt_crashed_def stmt_cancelled_def stmt_reschedule_def

lemma ending_superseded:
  assumes ok: "jobs_ok d" and past: "\<And>j. lookup_job d i = Some j \<Longrightarrow> j_run_epoch j \<noteq> e"
  shows "end_attempt x now i e d = Inr ([], d)"
  by (cases x)
    (simp_all add: ending_stmts finished.superseded [OF ok past] retry.superseded [OF ok past]
      crashed.superseded [OF ok past] cancelled.superseded [OF ok past]
      reschedule.superseded [OF ok past])

lemma ending_step:
  "end_attempt x now i e d = Inr (rs, d') \<Longrightarrow> platform_step d d'"
  by (cases x) (auto intro: platform_step.intros)

lemma ending_bumps:
  assumes ok: "jobs_ok d" and hit: "end_attempt x now i e d = Inr (r # rs, d')"
  shows "\<exists>k. lookup_job d' i = Some k \<and> j_run_epoch k = e + 1"
proof -
  have "\<exists>j. lookup_job d i = Some j \<and> j_run_epoch j = e"
    using hit ending_superseded [OF ok, of i e x now] by fastforce
  then obtain j where j: "lookup_job d i = Some j" "j_run_epoch j = e" by blast
  have live: "fenced i e j"
  proof (rule ccontr)
    assume "\<not> fenced i e j"
    then have "filter (fenced i e) (jobs d) = []"
      using j ok by (subst filter_id_rows [OF ok, of "fenced i e" i]) (auto simp: fenced_def)
    with hit ok show False
      by (cases x) (simp_all add: ending_stmts finished.runs retry.runs crashed.runs cancelled.runs
          reschedule.runs)
  qed
  show ?thesis
    using hit j(2) finished.live [OF ok j(1) live] retry.live [OF ok j(1) live]
      crashed.live [OF ok j(1) live] cancelled.live [OF ok j(1) live]
      reschedule.live [OF ok j(1) live]
    by (cases x) (auto simp: ending_stmts row_simps)
qed

text \<open>A database with a job a worker has claimed is reachable.\<close>

lemma first_enqueue:
  "insert_job (default_jorb 0) empty_db = Inr (default_jorb 0 1, seed_db [(default_jorb 0 1, [Queued])])"
  by (simp add: insert_job_def Let_def seed_simps)

lemma first_enqueue_reachable: "reachable (seed_db [(default_jorb 0 1, [Queued])])"
  unfolding reachable_def
  by (rule r_into_rtranclp, rule platform_step.enqueue [OF first_enqueue]) (simp add: fresh_row_def)

lemma first_claim_reachable:
  "\<exists>d j. reachable d \<and> lookup_job d 1 = Some j \<and> j_state j = Claimed \<and> j_run_epoch j = 1"
proof -
  let ?w = "\<lparr>c_queue = ''default'', c_capabilities = [], c_max_prio = 1000,
       c_app_version = None, c_worker_pid = 1, c_worker_host = ''h'', c_worker_id = Some 1\<rparr>"
  let ?d = "seed_db [(default_jorb 0 1, [Queued])]"
  let ?e = "claim.after (Some 1) ?w 10 ?d"
  have ok: "jobs_ok ?d" by (simp add: seed_simps)
  have "queue_open ?d ''default'' 10 True" "blocked_lanes ?d ''default'' 10 = []"
    by (simp_all add: queue_open_def blocked_lanes_def queue_control_def paused_def limited_def
        partitioned_def concurrency_cap_def rate_cap_def seed_db_def empty_db_def)
  moreover have "candidates ?w 10 {} [] (jobs ?d) = [default_jorb 0 1]"
    by (simp add: candidates_def eligible_def seed_db_def empty_db_def)
  ultimately have step: "claim_jorb ?w 10 {} True ?d = Inr ([claim_set ?w 10 (default_jorb 0 1)], ?e)"
    by (simp add: claim_jorb_eq claim_from_eq [OF ok] Let_def pick_def)
  have row: "lookup_job ?d 1 = Some (default_jorb 0 1)"
    by (simp add: lookup_job_def seed_db_def)
  have "reachable ?e"
    using first_enqueue_reachable platform_step.claim [OF step]
    unfolding reachable_def by (rule rtranclp.rtrancl_into_rtrancl)
  moreover have "lookup_job ?e 1 = Some (claim_set ?w 10 (default_jorb 0 1))"
    by (simp add: claim.after_lookup row claim_where_def)
  ultimately show ?thesis by (auto simp: claim_set_def)
qed

text \<open>
  C3. An attempt ends once. Of all the completions, retries, dead-letterings, cancellations
  and reschedulings ever tried at one epoch of one job, at most one takes effect: after the
  one that did, whatever else the platform does, every other is a no-op.
\<close>

theorem an_attempt_ends_once:
  assumes "reachable d" and "end_attempt x now i e d = Inr (r # rs, d1)"
    and "platform_step\<^sup>*\<^sup>* d1 d2"
  shows "end_attempt y now' i e d2 = Inr ([], d2)"
proof -
  have ok: "system_ok d" using assms(1) by (rule reachable_ok)
  have ok1: "system_ok d1"
    using platform_step_sound [OF ending_step [OF assms(2)] ok] by (simp add: sound_step_def)
  have "jobs_ok d" using ok by (simp add: system_ok_def)
  then obtain k where k: "lookup_job d1 i = Some k" "j_run_epoch k = e + 1"
    using ending_bumps [OF _ assms(2)] by blast
  have "jobs_ok d2" using steps_sound [OF assms(3) ok1] by (simp add: system_ok_def)
  moreover have "j_run_epoch j \<noteq> e" if "lookup_job d2 i = Some j" for j
    using epoch_stays_past [OF assms(3) ok1 k(1) _ that, of e] k(2) by simp
  ultimately show ?thesis by (rule ending_superseded)
qed

theorem an_attempt_ends_once_witness:
  "\<exists>d r rs d1. reachable d \<and> end_attempt Cancel_honoured 20 1 1 d = Inr (r # rs, d1)
     \<and> end_attempt (Finish_with None) 21 1 1 d1 = Inr ([], d1)"
proof -
  obtain d j where d: "reachable d" "lookup_job d 1 = Some j" "j_state j = Claimed" "j_run_epoch j = 1"
    using first_claim_reachable by blast
  have ok: "jobs_ok d" using reachable_ok [OF d(1)] by (simp add: system_ok_def)
  have "fenced 1 1 j" using d(2-4) by (auto simp: fenced_def dest: lookup_job_SomeD)
  then obtain r d1 where end1: "end_attempt Cancel_honoured 20 1 1 d = Inr ([r], d1)"
    using cancelled.live [OF ok d(2)] by (auto simp: stmt_cancelled_def)
  show ?thesis
    using d(1) end1 an_attempt_ends_once [OF d(1) end1 rtranclp.rtrancl_refl] by blast
qed

text \<open>
  C4. A superseded execution is fenced out for good. Once a job's epoch is past the one an
  execution holds, then in every later database none of its endings and none of its durable
  writes applies: each is refused and changes nothing.
\<close>

theorem superseded_executions_never_write:
  assumes "reachable d" and "lookup_job d i = Some j" and "e < j_run_epoch j"
    and "platform_step\<^sup>*\<^sup>* d d'"
  shows "end_attempt x now i e d' = Inr ([], d')
    \<and> stmt_run now i e timeout d' = Inr ([], d')
    \<and> record_step now i seq name out err e started d' = (False, d')
    \<and> set_event_stmt now i key v e d' = (False, d')
    \<and> \<not> a_fenced (fst (stream_append i key v closes e d')) \<and> snd (stream_append i key v closes e d') = d'
    \<and> send_stmt dest topic message i e d' = (Inr None, d')
    \<and> \<not> r_fenced (fst (recv_stmt now i seq topic name e started d'))
    \<and> snd (recv_stmt now i seq topic name e started d') = d'
    \<and> compact_write i e d' = (False, d')"
proof -
  have ok: "jobs_ok d'" using steps_sound [OF assms(4) reachable_ok [OF assms(1)]] by (simp add: system_ok_def)
  have past: "\<And>k. lookup_job d' i = Some k \<Longrightarrow> e < j_run_epoch k"
    by (rule epoch_stays_past [OF assms(4) reachable_ok [OF assms(1)] assms(2,3)])
  have ne: "\<And>k. lookup_job d' i = Some k \<Longrightarrow> j_run_epoch k \<noteq> e" using past by fastforce
  show ?thesis
    using ending_superseded [OF ok ne] run.superseded [OF ok ne]
      checkpoint.zombie [OF past] event.zombie [OF past] stream.zombie [OF past]
      send.zombie [OF past] recv.zombie [OF past] compact.zombie [OF past]
    by (simp add: stmt_run_def prod_eq_iff)
qed

theorem superseded_executions_never_write_witness:
  "\<exists>d j. reachable d \<and> lookup_job d 1 = Some j \<and> j_run_epoch j = 1
     \<and> record_step 20 1 7 ''pay'' JNull None 0 15 d = (False, d)"
proof -
  obtain d j where d: "reachable d" "lookup_job d 1 = Some j" "j_run_epoch j = 1"
    using first_claim_reachable by blast
  have "(0::int) < j_run_epoch j" by (simp add: d(3))
  from superseded_executions_never_write [OF d(1,2) this rtranclp.rtrancl_refl] d
  show ?thesis by blast
qed

section \<open>What the audit trail says\<close>

lemma first_cancel:
  "cancel_job 5 (seed_db [(default_jorb 0 1, [Queued])]) 1 = Inr (c, d')
   \<Longrightarrow> event_trail d' 1 = [''enqueued'', ''cancelled'']"
  by (auto simp: cancel_job_def stmt_cancel_def update_jobs_def seed_simps cancel_where_def cancel_set_def
      event_trail_def history_event_def history_of_update_def HISTORY_ORIGIN_def PRE_CLAIM_STATES_def
      LIVE_STATES_def Let_def state_label.simps split: if_splits)

text \<open>
  The audit trail is a walk of the declared table in the states it records, but not in
  the event names it records: the insert is logged under the origin's name instead of the
  state the row was inserted in, and the table has no move from the origin to a cancellation,
  although a job may be cancelled before any worker sees it.
\<close>

theorem event_trail_leaves_the_table:
  "\<exists>d. reachable d \<and> event_trail d 1 = [''enqueued'', ''cancelled'']
     \<and> \<not> legal_walk ''enqueued'' (tl (event_trail d 1))"
proof -
  let ?d = "seed_db [(default_jorb 0 1, [Queued])]"
  obtain c d' where step: "cancel_job 5 ?d 1 = Inr (c, d')"
    by (simp add: cancel_job_def stmt_cancel_def update_jobs_def seed_simps cancel_where_def cancel_set_def
        Let_def PRE_CLAIM_STATES_def LIVE_STATES_def)
  have "reachable d'"
    using first_enqueue_reachable platform_step.cancel [OF step]
    unfolding reachable_def by (rule rtranclp.rtrancl_into_rtrancl)
  moreover note first_cancel [OF step]
  moreover have "\<not> legal_walk ''enqueued'' [''cancelled'']" by code_simp
  ultimately show ?thesis by auto
qed

end
