(* ===== verification/Fsm.thy ===== *)
theory Fsm
  imports Prelude "HOL-Library.List_Lexorder" "HOL-Library.Char_ord"
begin

text \<open>
  What a durable state machine is (\<open>pyjobby/fsm.py\<close>): the declaration, its normal form, the
  checks made when a machine class is created, the query \<open>may\<close> and the rendering
  \<open>to_mermaid\<close>. A Python dict is the list of its items in insertion order, a frozenset the
  list of its elements; \<open>sorted\<close> orders strings by code point, as \<open>linorder\<close> on strings does.
\<close>

section \<open>Declarations\<close>

record fsm_transition =
  tr_target :: string
  tr_action :: "string option"

text \<open>The three shapes of an edge: a \<open>Transition\<close>, a pair, a bare target.\<close>

datatype edge =
    Named fsm_transition
  | Pair string "string option"
  | Bare string

type_synonym transition_spec = "(string \<times> (string \<times> edge) list) list"
type_synonym edge_table = "(string \<times> (string \<times> fsm_transition) list) list"

definition STATE_KEY :: string where "STATE_KEY = ''machine.state''"
definition EVENT_TOPIC :: string where "EVENT_TOPIC = ''fsm''"
definition EVENT_FIELD :: string where "EVENT_FIELD = ''event''"

fun edge_transition :: "edge \<Rightarrow> fsm_transition" where
  "edge_transition (Named t) = t"
| "edge_transition (Bare target) = \<lparr>tr_target = target, tr_action = None\<rparr>"
| "edge_transition (Pair target action) = \<lparr>tr_target = target, tr_action = action\<rparr>"

definition normalize :: "transition_spec \<Rightarrow> edge_table" where
  "normalize spec =
     map (\<lambda>(source, row). (source, map (\<lambda>(event, e). (event, edge_transition e)) row)) spec"

definition targets :: "edge_table \<Rightarrow> string list" where
  "targets edges = concat (map (\<lambda>(source, row). map (\<lambda>(event, t). tr_target t) row) edges)"

definition states :: "edge_table \<Rightarrow> string set" where
  "states edges = set (map fst edges) \<union> set (targets edges)"

text \<open>\<open>edges.get(state, {}).get(event)\<close>, and \<open>may\<close> on it.\<close>

definition edge_of :: "edge_table \<Rightarrow> string \<Rightarrow> string \<Rightarrow> fsm_transition option" where
  "edge_of edges state event =
     map_of (case map_of edges state of None \<Rightarrow> [] | Some row \<Rightarrow> row) event"

definition may :: "edge_table \<Rightarrow> string \<Rightarrow> string \<Rightarrow> bool" where
  "may edges state event \<longleftrightarrow> edge_of edges state event \<noteq> None"

section \<open>Validation\<close>

text \<open>\<open>MachineDefinitionError\<close>, one constructor per message.\<close>

datatype machine_error =
    NoInitial
  | InitialUnknown string "string list"
  | FinalUnknown string
  | FinalHasEdges string "string list"
  | TargetUnknown string string string "string list"
  | NoSuchAction string string string string
  | Unreachable "string list"

definition known_list :: "edge_table \<Rightarrow> string list" where
  "known_list edges = py_sorted (map fst edges @ targets edges)"

text \<open>The inner loop's body, the outer loop's body, and the two loops over them.\<close>

definition check_edge ::
  "edge_table \<Rightarrow> (string \<Rightarrow> bool) option \<Rightarrow> string \<Rightarrow> string \<times> fsm_transition
     \<Rightarrow> machine_error option" where
  "check_edge edges has_action source ev =
     (case ev of (event, t) \<Rightarrow>
        if tr_target t \<notin> states edges
        then Some (TargetUnknown source event (tr_target t) (known_list edges))
        else case (tr_action t, has_action) of
               (Some a, Some p) \<Rightarrow>
                 if \<not> p a then Some (NoSuchAction source event (tr_target t) a) else None
             | _ \<Rightarrow> None)"

definition check_source ::
  "edge_table \<Rightarrow> string list \<Rightarrow> (string \<Rightarrow> bool) option
     \<Rightarrow> string \<times> (string \<times> fsm_transition) list \<Rightarrow> machine_error option" where
  "check_source edges final has_action sr =
     (case sr of (source, row) \<Rightarrow>
        if source \<in> set final then Some (FinalHasEdges source (py_sorted (map fst row)))
        else first_error (check_edge edges has_action source) row)"

definition validate ::
  "edge_table \<Rightarrow> string \<Rightarrow> string list \<Rightarrow> (string \<Rightarrow> bool) option \<Rightarrow> machine_error + unit" where
  "validate edges initial final has_action =
     (if edges = [] then Inr ()
      else if initial = [] then Inl NoInitial
      else if initial \<notin> states edges then Inl (InitialUnknown initial (known_list edges))
      else case py_sorted (filter (\<lambda>s. s \<notin> states edges) final) of
             bad # _ \<Rightarrow> Inl (FinalUnknown bad)
           | [] \<Rightarrow>
             (case first_error (check_source edges final has_action) edges of
                Some e \<Rightarrow> Inl e
              | None \<Rightarrow>
                  (let unreachable =
                         filter (\<lambda>s. s \<noteq> initial \<and> s \<notin> set (targets edges)) (known_list edges)
                   in if unreachable \<noteq> [] then Inl (Unreachable unreachable) else Inr ())))"

section \<open>Rendering\<close>

definition join_lines :: "string list \<Rightarrow> string" where
  "join_lines ls = (case ls of [] \<Rightarrow> [] | l # rest \<Rightarrow> l @ concat (map (\<lambda>x. CHR 0x0A # x) rest))"

definition edge_label :: "string \<Rightarrow> fsm_transition \<Rightarrow> string" where
  "edge_label event t =
     (case tr_action t of
        None \<Rightarrow> event
      | Some a \<Rightarrow> if a = [] then event else event @ '' / '' @ a)"

definition to_mermaid :: "edge_table \<Rightarrow> string \<Rightarrow> string list \<Rightarrow> string" where
  "to_mermaid edges initial final =
     join_lines (
       [''stateDiagram-v2'', ''    [*] --> '' @ initial]
       @ concat (map (\<lambda>(source, row).
           map (\<lambda>(event, t). ''    '' @ source @ '' --> '' @ tr_target t @ '': '' @ edge_label event t)
             (sort_key fst row)) (sort_key fst edges))
       @ map (\<lambda>s. ''    '' @ s @ '' --> [*]'') (py_sorted final))"

section \<open>What the checks establish\<close>

lemma set_known [simp]: "set (known_list edges) = states edges"
  by (simp add: known_list_def states_def)

lemma target_known:
  "(source, row) \<in> set edges \<Longrightarrow> (event, t) \<in> set row \<Longrightarrow> tr_target t \<in> states edges"
  by (force simp: states_def targets_def)

lemma edge_of_known: "edge_of edges s event = Some t \<Longrightarrow> tr_target t \<in> states edges"
  by (auto simp: edge_of_def split: option.splits dest!: map_of_SomeD intro: target_known)

text \<open>Every action named in the declaration, and whether it resolves.\<close>

definition actions_resolve :: "edge_table \<Rightarrow> (string \<Rightarrow> bool) option \<Rightarrow> bool" where
  "actions_resolve edges has_action \<longleftrightarrow>
     (case has_action of
        None \<Rightarrow> True
      | Some p \<Rightarrow>
          list_all (\<lambda>(source, row). list_all (\<lambda>(event, t). tr_action t = None \<or> p (the (tr_action t))) row) edges)"

lemma check_edge_None:
  assumes "(source, row) \<in> set edges" and "(event, t) \<in> set row"
  shows "check_edge edges p source (event, t) = None
    \<longleftrightarrow> (case p of None \<Rightarrow> True | Some q \<Rightarrow> tr_action t = None \<or> q (the (tr_action t)))"
  using target_known [OF assms] by (auto simp: check_edge_def split: option.splits)

lemma check_source_None:
  assumes "(source, row) \<in> set edges"
  shows "check_source edges final p (source, row) = None \<longleftrightarrow>
    source \<notin> set final
    \<and> (case p of None \<Rightarrow> True
       | Some q \<Rightarrow> list_all (\<lambda>(event, t). tr_action t = None \<or> q (the (tr_action t))) row)"
  using check_edge_None [OF assms]
  by (auto simp: check_source_def first_error_None list_all_iff split: option.splits)

lemma sources_checked:
  "first_error (check_source edges final p) edges = None \<longleftrightarrow>
     set (map fst edges) \<inter> set final = {} \<and> actions_resolve edges p"
proof -
  have "first_error (check_source edges final p) edges = None \<longleftrightarrow>
    (\<forall>(source, row) \<in> set edges. source \<notin> set final
       \<and> (case p of None \<Rightarrow> True
          | Some q \<Rightarrow> list_all (\<lambda>(event, t). tr_action t = None \<or> q (the (tr_action t))) row))"
    by (auto simp: first_error_None check_source_None)
  then show ?thesis by (cases p) (fastforce simp: actions_resolve_def list_all_iff)+
qed

text \<open>
  \<open>validate\<close> accepts exactly the consistent declarations: an empty one, or one whose
  initial state is named and known, whose final states are known and have no outgoing edges,
  whose actions all resolve, and each of whose states is the initial one or some edge's target.
\<close>

theorem validate_accepts_consistent_machines:
  "validate edges initial final has_action = Inr () \<longleftrightarrow>
     edges = []
     \<or> initial \<noteq> [] \<and> initial \<in> states edges
       \<and> set final \<subseteq> states edges
       \<and> set (map fst edges) \<inter> set final = {}
       \<and> actions_resolve edges has_action
       \<and> states edges \<subseteq> insert initial (set (targets edges))"
proof -
  have final: "py_sorted (filter (\<lambda>s. s \<notin> states edges) final) = [] \<longleftrightarrow> set final \<subseteq> states edges"
    by (auto simp: filter_empty_conv)
  have reached: "filter (\<lambda>s. s \<noteq> initial \<and> s \<notin> set (targets edges)) (known_list edges) = []
      \<longleftrightarrow> states edges \<subseteq> insert initial (set (targets edges))"
    by (auto simp: filter_empty_conv)
  show ?thesis
    using final reached sources_checked [of edges final has_action]
    by (cases "py_sorted (filter (\<lambda>s. s \<notin> states edges) final)";
        cases "first_error (check_source edges final has_action) edges")
      (auto simp: validate_def Let_def simp del: py_sorted_Nil)
qed

section \<open>Runs of a declaration\<close>

text \<open>What an event does to a state: its edge's target, or nothing when there is no edge.\<close>

definition fsm_next :: "edge_table \<Rightarrow> string \<Rightarrow> string \<Rightarrow> string" where
  "fsm_next edges s event = (case edge_of edges s event of None \<Rightarrow> s | Some t \<Rightarrow> tr_target t)"

lemma fsm_next_known: "s \<in> states edges \<Longrightarrow> fsm_next edges s event \<in> states edges"
  by (auto simp: fsm_next_def edge_of_known split: option.splits)

definition fsm_run :: "edge_table \<Rightarrow> string \<Rightarrow> string list \<Rightarrow> string" where
  "fsm_run edges = foldl (fsm_next edges)"

text \<open>
  A misspelled target passes every check: the check for a target that appears nowhere else
  looks it up among the states, and every target is a state. The machine below is accepted
  although its edge \<open>skip\<close> leads to \<open>donee\<close>, from which no event leads on and which is not final.
\<close>

theorem misspelled_target_is_accepted:
  "let edges = normalize [(''start'', [(''go'', Bare ''done''), (''skip'', Bare ''donee'')])]
   in validate edges ''start'' [''done''] None = Inr ()
      \<and> fsm_run edges ''start'' [''skip''] = ''donee'' \<and> ''donee'' \<notin> set [''done'']
      \<and> may edges ''donee'' = (\<lambda>event. False)
      \<and> fsm_run edges ''donee'' = (\<lambda>events. ''donee'')"
proof -
  let ?edges = "normalize [(''start'', [(''go'', Bare ''done''), (''skip'', Bare ''donee'')])]"
  have stuck: "edge_of ?edges ''donee'' event = None" for event
    by (simp add: edge_of_def normalize_def)
  have "fsm_run ?edges ''donee'' events = ''donee''" for events
    by (induction events) (simp_all add: fsm_run_def fsm_next_def stuck)
  moreover have "validate ?edges ''start'' [''done''] None = Inr ()" by code_simp
  moreover have "fsm_run ?edges ''start'' [''skip''] = ''donee''" by code_simp
  ultimately show ?thesis using stuck by (simp add: may_def fun_eq_iff Let_def)
qed

end
