(* ===== verification/Machine.thy ===== *)
theory Machine
  imports Fsm Replay Verbs
begin

text \<open>
  The worker end of a durable state machine: \<open>StateMachineJob\<close> of \<open>pyjobby/statemachine.py\<close>,
  a job over the durable primitives. A subclass is a \<open>machine\<close>: its resolved declaration, its
  actions and its overridable hooks; \<open>m_str\<close> is Python's \<open>str()\<close> of a payload field that is
  not a string.
\<close>

section \<open>The class\<close>

record machine =
  m_edges :: edge_table
  m_initial :: string
  m_final :: "string list"
  m_topic :: string
  m_state_key :: string
  m_idle_seconds :: interval
  m_action :: "string \<Rightarrow> string \<Rightarrow> json \<Rightarrow> json job_m"   \<comment> \<open>the bound methods, by name\<close>
  m_on_unhandled :: "string \<Rightarrow> string \<Rightarrow> json \<Rightarrow> unit job_m"
  m_on_transition :: "string \<Rightarrow> string \<Rightarrow> string \<Rightarrow> unit job_m"
  m_str :: "json \<Rightarrow> string"

text \<open>What one turn of the loop sees of the world.\<close>

record turn =
  w_recv :: timing
  w_polls :: "(database \<Rightarrow> database) list"   \<comment> \<open>what commits elsewhere between two polls\<close>
  w_step :: timing
  w_db_now :: instant
  w_now :: instant

text \<open>\<open>await\<close>: run one primitive, then the rest unless it raised.\<close>

definition and_then :: "'a job_m \<Rightarrow> ('a \<Rightarrow> 'b job_m) \<Rightarrow> 'b job_m" where
  "and_then p f c d =
     (case p c d of (Inl e, c', d') \<Rightarrow> (Inl e, c', d') | (Inr v, c', d') \<Rightarrow> f v c' d')"

definition return_m :: "'a \<Rightarrow> 'a job_m" where
  "return_m v c d = (Inr v, c, d)"

text \<open>The base class's hooks only log.\<close>

definition on_unhandled :: "string \<Rightarrow> string \<Rightarrow> json \<Rightarrow> unit job_m" where
  "on_unhandled state event payload = return_m ()"

definition on_transition :: "string \<Rightarrow> string \<Rightarrow> string \<Rightarrow> unit job_m" where
  "on_transition source event target = return_m ()"

definition py_str :: "(json \<Rightarrow> string) \<Rightarrow> json \<Rightarrow> string" where
  "py_str other v = (case v of JStr s \<Rightarrow> s | _ \<Rightarrow> other v)"

definition state_value :: "string \<Rightarrow> json" where
  "state_value s = JObj [(''state'', JStr s)]"

definition current_state :: "machine \<Rightarrow> job_ctx \<Rightarrow> database \<Rightarrow> string" where
  "current_state m c d =
     (case get_event (m_state_key m) None c d of
        None \<Rightarrow> m_initial m
      | Some published \<Rightarrow>
          (case json_get published ''state'' of
             None \<Rightarrow> m_initial m
           | Some v \<Rightarrow> py_str (m_str m) v))"

definition publish :: "machine \<Rightarrow> instant \<Rightarrow> string \<Rightarrow> unit job_m" where
  "publish m now s = set_event now (m_state_key m) (state_value s)"

definition turn_boundary :: "machine \<Rightarrow> instant \<Rightarrow> string \<Rightarrow> unit job_m" where
  "turn_boundary m now s =
     (if s \<in> set (m_final m) then publish m now s
      else commit_position now (m_state_key m) (state_value s))"

text \<open>\<open>str(payload.get(EVENT_FIELD, "")) if isinstance(payload, dict) else ""\<close>\<close>

definition event_of :: "machine \<Rightarrow> json \<Rightarrow> string" where
  "event_of m payload =
     (case json_get payload EVENT_FIELD of None \<Rightarrow> [] | Some v \<Rightarrow> py_str (m_str m) v)"

definition step_label :: "string \<Rightarrow> string \<Rightarrow> string \<Rightarrow> string" where
  "step_label s event target = s @ ''--'' @ event @ ''->'' @ target"

text \<open>
  The body of the loop of \<open>task\<close>: what a turn does with the message \<open>recv\<close> gave it, and the
  turn. Its value is the state it goes on with and whether it counted (\<open>turns += 1\<close>).
\<close>

definition handle :: "machine \<Rightarrow> turn \<Rightarrow> string \<Rightarrow> json \<Rightarrow> (string \<times> nat) job_m" where
  "handle m w s payload =
     (if payload = JNull then
        and_then (sleep (w_db_now w) (w_now w) (m_idle_seconds m)) (\<lambda>_.
        and_then (turn_boundary m (w_now w) s) (\<lambda>_. return_m (s, 0)))
      else
        let event = event_of m payload in
        (case edge_of (m_edges m) s event of
           None \<Rightarrow>
             and_then (m_on_unhandled m s event payload) (\<lambda>_.
             and_then (turn_boundary m (w_now w) s) (\<lambda>_. return_m (s, 1)))
         | Some t \<Rightarrow>
             and_then
               (case tr_action t of
                  None \<Rightarrow> return_m JNull
                | Some a \<Rightarrow>
                    step (w_step w) (step_label s event (tr_target t)) (m_action m a event payload)) (\<lambda>_.
             and_then (turn_boundary m (w_now w) (tr_target t)) (\<lambda>_.
             and_then (m_on_transition m s event (tr_target t)) (\<lambda>_.
             return_m (tr_target t, 1))))))"

definition machine_turn :: "machine \<Rightarrow> turn \<Rightarrow> string \<Rightarrow> (string \<times> nat) job_m" where
  "machine_turn m w s =
     and_then (recv (w_recv w) (Some (m_topic m)) (w_polls w)) (handle m w s)"

text \<open>
  \<open>task\<close>: the loop ends in a final state; where the turns given run out the machine is still
  running (\<open>None\<close>).
\<close>

fun machine_loop ::
  "machine \<Rightarrow> turn list \<Rightarrow> string \<Rightarrow> nat \<Rightarrow> (string \<times> nat) option job_m" where
  "machine_loop m ws s turns =
     (if s \<in> set (m_final m) then return_m (Some (s, turns))
      else case ws of
             [] \<Rightarrow> return_m None
           | w # rest \<Rightarrow>
               and_then (machine_turn m w s) (\<lambda>(s', k). machine_loop m rest s' (turns + k)))"

declare machine_loop.simps [simp del]

definition machine_task :: "machine \<Rightarrow> instant \<Rightarrow> turn list \<Rightarrow> (string \<times> nat) option job_m" where
  "machine_task m now ws c d =
     (let s = current_state m c d
      in and_then (publish m now s) (\<lambda>_. machine_loop m ws s 0) c d)"

section \<open>Publishing\<close>

lemma and_then_cases:
  assumes "and_then p f c d = (r, c', d')"
  obtains (raised) e where "p c d = (Inl e, c', d')" "r = Inl e"
  | (went) v c1 d1 where "p c d = (Inr v, c1, d1)" "f v c1 d1 = (r, c', d')"
  using assms by (auto simp: and_then_def split: prod.splits sum.splits)

lemma find_event_put:
  "find_row (\<lambda>e. (e_job_id e, e_key e)) (i, key)
     (map (\<lambda>e. if e_job_id e = i \<and> e_key e = key then e\<lparr>e_value := v, e_updated := now\<rparr> else e) rows)
   = map_option (\<lambda>e. e\<lparr>e_value := v, e_updated := now\<rparr>)
       (find_row (\<lambda>e. (e_job_id e, e_key e)) (i, key) rows)"
  by (induction rows) auto

lemma get_event_set:
  "set_event_stmt now i key v e d = (True, d') \<Longrightarrow> get_event_stmt i key d' = Some v"
  by (cases "find_row (\<lambda>e. (e_job_id e, e_key e)) (i, key) (events d)")
    (auto simp: set_event_stmt_def get_event_stmt_def find_row_append find_event_put
      simp del: map_map split: if_splits)

lemma owns_events [simp]: "owns (d\<lparr>events := es\<rparr>) i e = owns d i e"
  by (simp add: owns_def lookup_job_def)

lemma current_state_published:
  "get_event_stmt (x_job c) (m_state_key m) d = Some (state_value s) \<Longrightarrow> current_state m c d = s"
  by (simp add: current_state_def get_event_def state_value_def py_str_def)

lemma current_state_cong:
  "get_event_stmt (x_job c') (m_state_key m) d' = get_event_stmt (x_job c) (m_state_key m) d
   \<Longrightarrow> current_state m c' d' = current_state m c d"
  by (simp add: current_state_def get_event_def)

text \<open>
  A turn boundary is one commit. A superseded execution changes nothing. The owner's
  boundary into a non-final state publishes the state and empties the job's log at once; into
  a final state it publishes and keeps the log. Either way the next attempt derives the state
  it was given, and no other job's checkpoints are touched.
\<close>

theorem turn_boundary_is_one_commit:
  "if owns d (x_job c) (x_epoch c)
   then \<exists>c' d'. turn_boundary m now s c d = (Inr (), c', d')
      \<and> current_state m c' d' = s
      \<and> job_steps d' (x_job c) = (if s \<in> set (m_final m) then job_steps d (x_job c) else [])
      \<and> (x_steps c', x_seq c') = (if s \<in> set (m_final m) then (x_steps c, x_seq c) else ([], 0))
      \<and> (\<lambda>k. if k = x_job c then [] else job_steps d' k)
          = (\<lambda>k. if k = x_job c then [] else job_steps d k)
      \<and> jobs d' = jobs d \<and> mailbox d' = mailbox d \<and> streams d' = streams d
   else turn_boundary m now s c d = (Inl StaleExecutionError, c, d)"
proof (cases "owns d (x_job c) (x_epoch c)")
  case True
  obtain d1 where put: "set_event_stmt now (x_job c) (m_state_key m) (state_value s) (x_epoch c) d
      = (True, d1)"
    using True by (simp add: set_event_stmt_def)
  from get_event_set [OF put]
  have pub: "get_event_stmt (x_job c) (m_state_key m) d1 = Some (state_value s)" .
  have rest: "steps d1 = steps d" "jobs d1 = jobs d" "mailbox d1 = mailbox d" "streams d1 = streams d"
    using put True by (auto simp: set_event_stmt_def)
  have pub2: "get_event_stmt (x_job c) (m_state_key m) (d1\<lparr>steps := ss\<rparr>) = Some (state_value s)" for ss
    using pub by (simp add: get_event_stmt_def)
  show ?thesis
    using True put rest pub pub2
    by (auto simp: turn_boundary_def publish_def set_event_def commit_position_def dxe_compact_def
        compact_fence_def compact_steps_def job_steps_def filter_empty_conv fun_eq_iff
        current_state_published intro!: filter_cong)
next
  case False
  then show ?thesis
    by (simp add: turn_boundary_def publish_def set_event_def set_event_stmt_def commit_position_def
        dxe_compact_def compact_fence_def)
qed

section \<open>Computations that leave the position alone\<close>

text \<open>The published event of job \<open>i\<close> under a key is as it was, and the context is still the job's.\<close>

definition keeps_place :: "job_id \<Rightarrow> string \<Rightarrow> 'a job_m \<Rightarrow> bool" where
  "keeps_place i key fn \<longleftrightarrow>
     (\<forall>c d r c' d'. x_job c = i \<longrightarrow> fn c d = (r, c', d') \<longrightarrow>
        x_job c' = i \<and> get_event_stmt i key d' = get_event_stmt i key d)"

lemma keeps_placeD:
  "keeps_place i key fn \<Longrightarrow> fn c d = (r, c', d') \<Longrightarrow> x_job c = i
   \<Longrightarrow> x_job c' = i \<and> get_event_stmt i key d' = get_event_stmt i key d"
  by (auto simp: keeps_place_def)

lemma get_event_steps [simp]: "get_event_stmt i key (d\<lparr>steps := ss\<rparr>) = get_event_stmt i key d"
  by (simp add: get_event_stmt_def)

lemma record_step_place:
  "record_step now j seq name out err epoch started d = (b, d')
   \<Longrightarrow> get_event_stmt i key d' = get_event_stmt i key d"
  by (auto simp: record_step_def split: if_splits)

lemma dxe_record_place:
  "dxe_record t seq name v err c d = (r, c', d')
   \<Longrightarrow> c' = c \<and> get_event_stmt i key d' = get_event_stmt i key d"
  by (auto simp: dxe_record_def split: prod.splits bool.splits dest: record_step_place)

lemma dxe_fail_place:
  "dxe_fail t seq name e c d = (r, c', d')
   \<Longrightarrow> c' = c \<and> get_event_stmt i key d' = get_event_stmt i key d"
  unfolding dxe_fail_def
  by (auto split: if_splits prod.splits sum.splits dest!: dxe_record_place [where i = i and key = key])

lemma resume_job: "dxe_resume name c = (r, c') \<Longrightarrow> x_job c' = x_job c"
  by (auto simp: dxe_resume_def dxe_next_seq_def Let_def split: option.splits if_splits)

lemma invoke_place:
  assumes "keeps_place i key fn" and "dxe_invoke t name fn c d = (r, c', d')" and "x_job c = i"
  shows "x_job c' = i \<and> get_event_stmt i key d' = get_event_stmt i key d"
proof -
  obtain r0 where "fn c d = (r0, c', d')"
    using assms(2) unfolding dxe_invoke_def
    by (auto split: option.splits prod.splits sum.splits exn.splits)
  with keeps_placeD [OF assms(1)] assms(3) show ?thesis by blast
qed

lemma step_place:
  assumes "keeps_place i key fn"
  shows "keeps_place i key (step t name fn)"
  unfolding keeps_place_def step_def
  by (auto split: prod.splits sum.splits option.splits
      dest!: resume_job invoke_place [OF assms] dxe_fail_place [where i = i and key = key]
        dxe_record_place [where i = i and key = key])

lemma update_jobs_events:
  "update_jobs p f d = Inr (rs, d') \<Longrightarrow> events d' = events d"
  by (auto simp: update_jobs_def Let_def split: if_splits)

lemma reschedule_place:
  "reschedule_self now interval c d = (r, c', d')
   \<Longrightarrow> x_job c' = x_job c \<and> get_event_stmt i key d' = get_event_stmt i key d"
  unfolding reschedule_self_def stmt_reschedule_def
  by (auto simp: get_event_stmt_def split: sum.splits list.splits prod.splits dest!: update_jobs_events)

lemma sleep_place: "keeps_place i key (sleep db_now now duration)"
  unfolding keeps_place_def sleep_def dxe_next_seq_def Let_def
  by (auto split: option.splits if_splits json.splits prod.splits sum.splits bool.splits
      dest!: reschedule_place [where i = i and key = key] record_step_place [where i = i and key = key])

lemma return_place: "keeps_place i key (return_m v)"
  by (simp add: keeps_place_def return_m_def)

text \<open>Other transactions may do anything but write this job's position.\<close>

definition quiet :: "job_id \<Rightarrow> string \<Rightarrow> (database \<Rightarrow> database) list \<Rightarrow> bool" where
  "quiet i key fs \<longleftrightarrow> (\<forall>f \<in> set fs. \<forall>d. get_event_stmt i key (f d) = get_event_stmt i key d)"

lemma recv_stmt_place:
  "recv_stmt now j seq topic name epoch started d = (row, d')
   \<Longrightarrow> get_event_stmt i key d' = get_event_stmt i key d"
  by (auto simp: recv_stmt_def get_event_stmt_def Let_def split: if_splits list.splits)

lemma recv_loop_place:
  "quiet i key polls \<Longrightarrow> recv_loop t seq topic polls c d = (r, c', d')
   \<Longrightarrow> c' = c \<and> get_event_stmt i key d' = get_event_stmt i key d"
proof (induction polls arbitrary: d)
  case Nil
  then show ?case
    by (auto split: prod.splits option.splits if_splits sum.splits
        dest!: recv_stmt_place [where i = i and key = key] dxe_record_place [where i = i and key = key])
next
  case (Cons f fs)
  obtain row d1 where row: "recv_stmt (t_now t) (x_job c) seq topic (recv_name topic) (x_epoch c)
      (t_started t) d = (row, d1)"
    by (metis surj_pair)
  have f: "get_event_stmt i key (f d1) = get_event_stmt i key d1" and fs: "quiet i key fs"
    using Cons.prems(1) by (auto simp: quiet_def)
  show ?case
    using Cons.prems(2) Cons.IH [OF fs, of "f d1"] f recv_stmt_place [OF row, of i key]
    by (auto simp: row split: if_splits option.splits)
qed

lemma recv_place:
  assumes "quiet i key polls"
  shows "keeps_place i key (recv t topic polls)"
  unfolding keeps_place_def recv_def dxe_next_seq_def Let_def
  by (auto simp del: recv_loop.simps split: option.splits if_splits dest!: recv_loop_place [OF assms])

section \<open>The machine follows its table\<close>

definition tame :: "machine \<Rightarrow> job_id \<Rightarrow> bool" where
  "tame m i \<longleftrightarrow>
     (\<forall>a event payload. keeps_place i (m_state_key m) (m_action m a event payload))
     \<and> (\<forall>s event payload. keeps_place i (m_state_key m) (m_on_unhandled m s event payload))
     \<and> (\<forall>s event target. keeps_place i (m_state_key m) (m_on_transition m s event target))"

text \<open>
  A triple on the position: from a state satisfying \<open>P\<close>, the computation leaves one that
  satisfies \<open>Q\<close> with its value, or \<open>E\<close> when it raises.
\<close>

definition moves ::
  "machine \<Rightarrow> job_id \<Rightarrow> (string \<Rightarrow> bool) \<Rightarrow> 'a job_m \<Rightarrow> ('a \<Rightarrow> string \<Rightarrow> bool) \<Rightarrow> (string \<Rightarrow> bool) \<Rightarrow> bool"
  where
  "moves m i P p Q E \<longleftrightarrow>
     (\<forall>c d r c' d'. x_job c = i \<longrightarrow> P (current_state m c d) \<longrightarrow> p c d = (r, c', d') \<longrightarrow>
        x_job c' = i
        \<and> (case r of Inl _ \<Rightarrow> E (current_state m c' d') | Inr v \<Rightarrow> Q v (current_state m c' d')))"

lemma movesD:
  "moves m i P p Q E \<Longrightarrow> p c d = (r, c', d') \<Longrightarrow> x_job c = i \<Longrightarrow> P (current_state m c d)
   \<Longrightarrow> x_job c' = i
     \<and> (case r of Inl _ \<Rightarrow> E (current_state m c' d') | Inr v \<Rightarrow> Q v (current_state m c' d'))"
  unfolding moves_def by blast

lemma moves_then:
  assumes p: "moves m i P p R E" and f: "\<And>v. moves m i (R v) (f v) Q E"
  shows "moves m i P (and_then p f) Q E"
  unfolding moves_def
proof (intro allI impI)
  fix c d r c' d'
  assume start: "x_job c = i" "P (current_state m c d)" and run: "and_then p f c d = (r, c', d')"
  from run show "x_job c' = i
      \<and> (case r of Inl _ \<Rightarrow> E (current_state m c' d') | Inr v \<Rightarrow> Q v (current_state m c' d'))"
  proof (cases rule: and_then_cases)
    case (raised e)
    with movesD [OF p raised(1) start] show ?thesis by simp
  next
    case (went v c1 d1)
    with movesD [OF p went(1) start] show ?thesis by (intro movesD [OF f went(2)]) simp_all
  qed
qed

lemma moves_keep:
  assumes "keeps_place i (m_state_key m) p" and "\<And>x. P x \<Longrightarrow> E x"
  shows "moves m i P p (\<lambda>_. P) E"
  unfolding moves_def
proof (intro allI impI)
  fix c d r c' d'
  assume start: "x_job c = i" "P (current_state m c d)" and run: "p c d = (r, c', d')"
  from keeps_placeD [OF assms(1) run start(1)] start
  have "x_job c' = i" "current_state m c' d' = current_state m c d"
    by (simp_all add: current_state_cong)
  with start assms(2)
  show "x_job c' = i \<and> (case r of Inl _ \<Rightarrow> E (current_state m c' d') | Inr v \<Rightarrow> P (current_state m c' d'))"
    by (simp split: sum.split)
qed

lemma moves_return: "moves m i (Q v) (return_m v) Q E"
  by (simp add: moves_def return_m_def)

lemma moves_weaken:
  assumes "moves m i P p Q E" and "\<And>x. P' x \<Longrightarrow> P x"
    and "\<And>v x. Q v x \<Longrightarrow> Q' v x" and "\<And>x. E x \<Longrightarrow> E' x"
  shows "moves m i P' p Q' E'"
  unfolding moves_def
proof (intro allI impI)
  fix c d r c' d'
  assume start: "x_job c = i" "P' (current_state m c d)" and run: "p c d = (r, c', d')"
  from movesD [OF assms(1) run start(1) assms(2) [OF start(2)]] assms(3,4)
  show "x_job c' = i
      \<and> (case r of Inl _ \<Rightarrow> E' (current_state m c' d') | Inr v \<Rightarrow> Q' v (current_state m c' d'))"
    by (cases r) simp_all
qed

lemma publish_moves:
  assumes "\<And>x. P x \<Longrightarrow> E x"
  shows "moves m i P (publish m now s) (\<lambda>_ x. x = s) E"
  unfolding moves_def
proof (intro allI impI)
  fix c d r c' d'
  assume start: "x_job c = i" "P (current_state m c d)" and run: "publish m now s c d = (r, c', d')"
  obtain b d1 where put: "set_event_stmt now (x_job c) (m_state_key m) (state_value s) (x_epoch c) d
      = (b, d1)"
    by (metis surj_pair)
  show "x_job c' = i \<and> (case r of Inl _ \<Rightarrow> E (current_state m c' d') | Inr v \<Rightarrow> current_state m c' d' = s)"
  proof (cases b)
    case True
    with put have "get_event_stmt (x_job c) (m_state_key m) d1 = Some (state_value s)"
      by (auto intro: get_event_set)
    with True put run start show ?thesis
      by (auto simp: publish_def set_event_def current_state_published)
  next
    case False
    then have "d1 = d" using put by (auto simp: set_event_stmt_def split: if_splits)
    with False put run start assms show ?thesis by (auto simp: publish_def set_event_def)
  qed
qed

lemma boundary_moves:
  assumes "\<And>x. P x \<Longrightarrow> E x"
  shows "moves m i P (turn_boundary m now s) (\<lambda>_ x. x = s) E"
proof (cases "s \<in> set (m_final m)")
  case True
  then have "turn_boundary m now s = publish m now s" by (simp add: turn_boundary_def)
  with publish_moves [OF assms] show ?thesis by simp
next
  case False
  show ?thesis
    unfolding moves_def
  proof (intro allI impI)
    fix c d r c' d'
    assume start: "x_job c = i" "P (current_state m c d)" and run: "turn_boundary m now s c d = (r, c', d')"
    obtain b d1 where put: "set_event_stmt now (x_job c) (m_state_key m) (state_value s) (x_epoch c) d
        = (b, d1)"
      by (metis surj_pair)
    have b: "b = owns d (x_job c) (x_epoch c)"
      using put by (auto simp: set_event_stmt_def split: if_splits)
    show "x_job c' = i \<and> (case r of Inl _ \<Rightarrow> E (current_state m c' d') | Inr v \<Rightarrow> current_state m c' d' = s)"
    proof (cases b)
      case True
      with put have "get_event_stmt (x_job c) (m_state_key m) d1 = Some (state_value s)"
        by (auto intro: get_event_set)
      with True put run start False b show ?thesis
        by (auto simp: turn_boundary_def commit_position_def dxe_compact_def compact_fence_def
            compact_steps_def intro!: current_state_published)
    next
      case nob: False
      with put run start False b assms show ?thesis
        by (auto simp: turn_boundary_def commit_position_def dxe_compact_def compact_fence_def)
    qed
  qed
qed

text \<open>A turn's value, its position and its events agree.\<close>

definition followed :: "machine \<Rightarrow> string \<Rightarrow> nat \<Rightarrow> string \<Rightarrow> bool" where
  "followed m s n s' \<longleftrightarrow> (\<exists>evs. length evs = n \<and> s' = fsm_run (m_edges m) s evs)"

lemma followed_none [simp]: "followed m s 0 s"
  by (simp add: followed_def fsm_run_def)

lemma followed_one: "followed m s (Suc 0) (fsm_next (m_edges m) s ev)"
  by (auto simp: followed_def fsm_run_def intro: exI [of _ "[ev]"])

lemma followed_add: "followed m s n s1 \<Longrightarrow> followed m s1 k s2 \<Longrightarrow> followed m s (n + k) s2"
  unfolding followed_def fsm_run_def by (metis foldl_append length_append)

lemma handle_follows:
  assumes "tame m i"
  shows "moves m i (\<lambda>x. x = s) (handle m w s payload) (\<lambda>(s', k) x. x = s' \<and> followed m s k s')
           (\<lambda>x. \<exists>n. followed m s n x)"
    (is "moves m i ?P _ ?Q ?E")
proof -
  let ?ev = "event_of m payload"
  have start: "?P x \<Longrightarrow> ?E x" for x by (auto intro: exI [of _ 0])
  have there: "x = fsm_next (m_edges m) s ?ev \<Longrightarrow> ?E x" for x
    using followed_one [of m s ?ev] by blast
  have finish: "moves m i ?P (and_then (turn_boundary m (w_now w) s) (\<lambda>_. return_m (s, k))) ?Q ?E"
    if "followed m s k s" for k
    by (rule moves_then [OF boundary_moves [OF start]], assumption,
        rule moves_weaken [OF moves_return [where Q = ?Q]]) (use that in auto)
  show ?thesis
  proof (cases "payload = JNull")
    case True
    then show ?thesis
      unfolding handle_def by (auto intro!: moves_then [OF moves_keep [OF sleep_place start]] finish)
  next
    case payload: False
    show ?thesis
    proof (cases "edge_of (m_edges m) s ?ev")
      case None
      then have "followed m s 1 s"
        using followed_one [of m s ?ev] by (simp add: fsm_next_def)
      moreover have "keeps_place i (m_state_key m) (m_on_unhandled m s ?ev payload)"
        using assms by (simp add: tame_def)
      ultimately show ?thesis
        using payload None
        by (simp add: handle_def Let_def) (intro moves_then [OF moves_keep [OF _ start]] finish, simp_all)
    next
      case (Some t)
      have t: "tr_target t = fsm_next (m_edges m) s ?ev" by (simp add: fsm_next_def Some)
      have act: "keeps_place i (m_state_key m) (case tr_action t of None \<Rightarrow> return_m JNull
          | Some a \<Rightarrow> step (w_step w) (step_label s ?ev (tr_target t)) (m_action m a ?ev payload))"
        using assms by (auto simp: tame_def intro: return_place step_place split: option.split)
      have hook: "keeps_place i (m_state_key m) (m_on_transition m s ?ev (tr_target t))"
        using assms by (simp add: tame_def)
      have last: "moves m i (\<lambda>x. x = tr_target t) (return_m (tr_target t, 1)) ?Q ?E"
        by (rule moves_weaken [OF moves_return [where Q = ?Q]]) (auto simp: t followed_one)
      have "moves m i ?P (and_then (case tr_action t of None \<Rightarrow> return_m JNull
          | Some a \<Rightarrow> step (w_step w) (step_label s ?ev (tr_target t)) (m_action m a ?ev payload)) (\<lambda>_.
          and_then (turn_boundary m (w_now w) (tr_target t)) (\<lambda>_.
          and_then (m_on_transition m s ?ev (tr_target t)) (\<lambda>_. return_m (tr_target t, 1))))) ?Q ?E"
        by (intro moves_then [OF moves_keep [OF act start]] moves_then [OF boundary_moves [OF start]]
            moves_then [OF moves_keep [OF hook]] last) (assumption, assumption, use t there in blast)
      with payload Some show ?thesis by (simp add: handle_def Let_def)
    qed
  qed
qed

lemma turn_follows:
  assumes "tame m i" and "quiet i (m_state_key m) (w_polls w)"
  shows "moves m i (\<lambda>x. x = s) (machine_turn m w s) (\<lambda>(s', k) x. x = s' \<and> followed m s k s')
           (\<lambda>x. \<exists>n. followed m s n x)"
  unfolding machine_turn_def
  by (rule moves_then [OF moves_keep [OF recv_place [OF assms(2)]] handle_follows [OF assms(1)]])
    (auto intro: exI [of _ 0])

lemma loop_follows:
  assumes "tame m i" and "\<forall>w \<in> set ws. quiet i (m_state_key m) (w_polls w)" and "followed m s0 n s"
  shows "moves m i (\<lambda>x. x = s) (machine_loop m ws s n)
           (\<lambda>out x. case out of
              None \<Rightarrow> \<exists>k. followed m s0 k x
            | Some (s', k) \<Rightarrow> x = s' \<and> s' \<in> set (m_final m) \<and> followed m s0 k s')
           (\<lambda>x. \<exists>k. followed m s0 k x)"
    (is "moves m i _ _ ?Q ?E")
  using assms(2,3)
proof (induction ws arbitrary: s n)
  case Nil
  then show ?case
    by (auto simp: machine_loop.simps [of m "[]"] intro!: moves_weaken [OF moves_return [where Q = ?Q]])
next
  case (Cons w ws)
  show ?case
  proof (cases "s \<in> set (m_final m)")
    case True
    with Cons.prems show ?thesis
      by (auto simp: machine_loop.simps [of m "w # ws"]
          intro!: moves_weaken [OF moves_return [where Q = ?Q]])
  next
    case False
    have turn: "moves m i (\<lambda>x. x = s) (machine_turn m w s)
        (\<lambda>(s', k) x. x = s' \<and> followed m s0 (n + k) s') ?E"
      using Cons.prems followed_add [OF Cons.prems(2)]
      by (intro moves_weaken [OF turn_follows [OF assms(1)]]) (auto split: prod.splits)
    have rest: "moves m i (case v of (s', k) \<Rightarrow> \<lambda>x. x = s' \<and> followed m s0 (n + k) s')
        (case v of (s', k) \<Rightarrow> machine_loop m ws s' (n + k)) ?Q ?E" for v
    proof (cases v)
      case (Pair s' k)
      show ?thesis
      proof (cases "followed m s0 (n + k) s'")
        case True
        with Cons.IH [of "n + k" s'] Cons.prems(1) Pair show ?thesis by simp
      next
        case False
        with Pair show ?thesis by (simp add: moves_def)
      qed
    qed
    from False moves_then [OF turn rest] show ?thesis
      by (simp add: machine_loop.simps [of m "w # ws"])
  qed
qed

text \<open>
  C8. The machine follows its table. However an attempt goes - it runs to its end, is still
  running, raises, or is superseded, whatever its actions do to the rest of the database and
  whatever commits elsewhere - the state it leaves published is one its declaration leads to
  from the state it found; and when it returns, that state is final, is the one it reports,
  and is reached by as many events as the turns it reports.
\<close>

theorem machine_follows_its_table:
  assumes "tame m (x_job c)" and "\<forall>w \<in> set ws. quiet (x_job c) (m_state_key m) (w_polls w)"
    and "machine_task m now ws c d = (r, c', d')"
  shows "(\<exists>evs. current_state m c' d' = fsm_run (m_edges m) (current_state m c d) evs)
    \<and> (\<forall>s n. r = Inr (Some (s, n)) \<longrightarrow>
          s = current_state m c' d' \<and> s \<in> set (m_final m)
          \<and> (\<exists>evs. length evs = n \<and> s = fsm_run (m_edges m) (current_state m c d) evs))"
proof -
  let ?s = "current_state m c d"
  let ?Q = "\<lambda>out x. case out of
      None \<Rightarrow> \<exists>k. followed m ?s k x
    | Some (s', k) \<Rightarrow> x = s' \<and> s' \<in> set (m_final m) \<and> followed m ?s k s'"
  let ?E = "\<lambda>x. \<exists>k. followed m ?s k x"
  have "moves m (x_job c) (\<lambda>x. x = ?s) (and_then (publish m now ?s) (\<lambda>_. machine_loop m ws ?s 0)) ?Q ?E"
    by (rule moves_then [OF publish_moves loop_follows [OF assms(1,2)]]) (auto intro: exI [of _ 0])
  from movesD [OF this _ refl, of d r c' d'] assms(3)
  have "case r of Inl _ \<Rightarrow> ?E (current_state m c' d') | Inr v \<Rightarrow> ?Q v (current_state m c' d')"
    by (simp add: machine_task_def Let_def)
  then show ?thesis by (auto simp: followed_def split: sum.splits option.splits)
qed

section \<open>A turn interrupted\<close>

lemma step_at_cong: "steps d' = steps d \<Longrightarrow> step_at d' i n = step_at d i n"
  by (simp add: step_at_def)

text \<open>A call of \<open>recv\<close> that returned has recorded what it returned.\<close>

lemma recv_loop_recorded:
  assumes "recv_loop t seq topic polls c d = (Inr v, c', d')"
    and "\<And>d. \<forall>f \<in> set polls. step_at (f d) (x_job c) seq = step_at d (x_job c) seq"
    and "step_at d (x_job c) seq = None"
  shows "\<exists>r. step_at d' (x_job c) seq = Some r \<and> s_name r = recv_name topic \<and> s_error r = None
    \<and> s_output r = v"
  using assms
proof (induction polls arbitrary: d)
  case Nil
  then show ?case
    by (auto simp: recv_stmt_def prior_success_def Let_def dxe_record_def record_step_def
        step_at_def step_at_record split: if_splits list.splits)
next
  case (Cons f fs)
  have unroll: "recv_loop t seq topic (f # fs) c d =
      (if \<not> owns d (x_job c) (x_epoch c) then (Inl StaleExecutionError, c, d)
       else case recv_stmt (t_now t) (x_job c) seq topic (recv_name topic) (x_epoch c) (t_started t) d of
              (row, d0) \<Rightarrow>
                (case r_message row of Some v \<Rightarrow> (Inr v, c, d0)
                 | None \<Rightarrow> recv_loop t seq topic fs c (f d)))"
    using Cons.prems(3)
    by (subst recv_loop.simps)
      (auto simp: recv_stmt_def prior_success_def Let_def simp del: recv_loop.simps split: list.split)
  show ?case
  proof (cases "sort_key m_id (pending d (x_job c) topic)")
    case Nil
    with Cons.prems(1,3) have "recv_loop t seq topic fs c (f d) = (Inr v, c', d')"
      unfolding unroll
      by (auto simp: recv_stmt_def prior_success_def Let_def simp del: recv_loop.simps split: if_splits)
    moreover have "step_at (f d) (x_job c) seq = None" using Cons.prems(2,3) by simp
    ultimately show ?thesis using Cons.IH Cons.prems(2) by simp
  next
    case (Cons msg rest)
    with \<open>recv_loop t seq topic (f # fs) c d = (Inr v, c', d')\<close> \<open>step_at d (x_job c) seq = None\<close>
    show ?thesis
      unfolding unroll
      by (auto simp: recv_stmt_def prior_success_def Let_def step_at_def step_at_record
          simp del: recv_loop.simps split: if_splits)
  qed
qed

text \<open>
  C9. An interrupted turn is the same turn. If an attempt, at the start of a turn, received a
  message and was then lost anywhere before the boundary, the next attempt - bound to the log
  as it then is, whatever has arrived in the mailbox since - receives that same message
  without consuming another, and handles it from the same state: its turn is exactly that of
  an attempt that was handed the message directly.
\<close>

theorem interrupted_turn_is_the_same_turn:
  assumes got: "recv t (Some (m_topic m)) polls c d = (Inr msg, c1, d1)"
    and start: "x_steps c = []" "x_seq c = 0" "step_at d (x_job c) 1 = None"
    and quiet: "\<And>d. \<forall>f \<in> set polls. step_at (f d) (x_job c) 1 = step_at d (x_job c) 1"
    and log: "dxe_ok d2" "step_at d2 (x_job c) 1 = step_at d1 (x_job c) 1"
    and resumed: "c2 = dxe_bind (load_steps d2 (x_job c)) epoch c0"
  shows "machine_turn m w s c2 d2 = handle m w s msg (c2\<lparr>x_seq := 1\<rparr>) d2"
proof -
  have "recv_loop t 1 (Some (m_topic m)) polls (c\<lparr>x_seq := 1\<rparr>) d = (Inr msg, c1, d1)"
    using got start(1,2) by (simp add: recv_def dxe_next_seq_def prior_step_def Let_def)
  from recv_loop_recorded [OF this] quiet start(3)
  obtain r where r: "step_at d1 (x_job c) 1 = Some r" "s_name r = recv_name (Some (m_topic m))"
    "s_error r = None" "s_output r = msg"
    by auto
  have "prior_step (c2\<lparr>x_seq := 1\<rparr>) 1 = Some r"
    using r(1) log by (simp add: resumed dxe_bind_def prior_step_def find_load_steps)
  then have "recv (w_recv w) (Some (m_topic m)) (w_polls w) c2 d2 = (Inr msg, c2\<lparr>x_seq := 1\<rparr>, d2)"
    using r by (simp add: recv_def dxe_next_seq_def Let_def resumed dxe_bind_def)
  then show ?thesis by (simp add: machine_turn_def and_then_def)
qed

section \<open>Re-running a finished machine\<close>

lemma rerun_events:
  assumes "rerun_job now d i delay reset fresh = Inr (r, d')"
  shows "events d' = events d"
proof -
  from assms obtain rows d1 where q: "stmt_requeue RERUNNABLE_STATES now [i]
      (case delay of None \<Rightarrow> 0 | Some t \<Rightarrow> t) reset d = Inr (rows, d1)"
    by (auto simp: rerun_job_def requeue_job_def bind_sum_Inr_iff Let_def)
  then have "events d1 = events d" by (auto simp: stmt_requeue_def dest: update_jobs_events)
  with assms q show ?thesis
    by (cases rows)
      (auto simp: rerun_job_def requeue_job_def WIPE_DURABLE_STATE_SQL_def split: if_splits)
qed

text \<open>
  A fresh re-run of a finished machine runs nothing. The wipe discards the checkpoints and
  the streams but not the published state, from which the next attempt derives its position:
  it finds itself in the final state, receives no message, takes no turn, and returns.
\<close>

theorem fresh_rerun_leaves_a_machine_finished:
  assumes "get_event_stmt i (m_state_key m) d = Some (state_value s)" and "s \<in> set (m_final m)"
    and "rerun_job now d i delay reset True = Inr (r, d')"
    and "events d2 = events d'" and "x_job c = i" and "owns d2 i (x_epoch c)"
  shows "\<exists>d3. machine_task m now' ws c d2 = (Inr (Some (s, 0)), c, d3)
    \<and> mailbox d3 = mailbox d2 \<and> steps d3 = steps d2 \<and> current_state m c d3 = s"
proof -
  have pub: "get_event_stmt i (m_state_key m) d2 = Some (state_value s)"
    using assms(1,4) rerun_events [OF assms(3)] by (simp add: get_event_stmt_def)
  then have at: "current_state m c d2 = s" by (simp add: assms(5) current_state_published)
  obtain d3 where put: "set_event_stmt now' i (m_state_key m) (state_value s) (x_epoch c) d2 = (True, d3)"
    using assms(6) by (simp add: set_event_stmt_def)
  then have "machine_task m now' ws c d2 = (Inr (Some (s, 0)), c, d3)"
    using assms(2,5)
    by (simp add: machine_task_def at Let_def and_then_def publish_def set_event_def
        machine_loop.simps [of m ws] return_m_def)
  moreover have "mailbox d3 = mailbox d2" "steps d3 = steps d2"
    using put by (auto simp: set_event_stmt_def split: if_splits)
  moreover have "current_state m c d3 = s"
    using get_event_set [OF put] by (simp add: assms(5) current_state_published)
  ultimately show ?thesis by blast
qed

section \<open>A machine, concretely\<close>

text \<open>The order machine of the class's documentation, with actions that only compute.\<close>

definition order_machine :: machine where
  "order_machine = \<lparr>
     m_edges = normalize
       [(''awaiting_payment'', [(''paid'', Pair ''packing'' (Some ''charge'')), (''cancel'', Bare ''refunded'')]),
        (''packing'', [(''packed'', Pair ''shipped'' (Some ''buy_label''))])],
     m_initial = ''awaiting_payment'', m_final = [''shipped'', ''refunded''],
     m_topic = EVENT_TOPIC, m_state_key = STATE_KEY, m_idle_seconds = 300000000,
     m_action = (\<lambda>a event payload. return_m JNull),
     m_on_unhandled = on_unhandled, m_on_transition = on_transition,
     m_str = (\<lambda>v. [])\<rparr>"

definition order_db :: "json option \<Rightarrow> string list \<Rightarrow> database" where
  "order_db state mail =
     (seed_db [((default_jorb 0 7)\<lparr>j_state := Running, j_run_epoch := 1\<rparr>, [Queued, Claimed, Running])])
       \<lparr>events := (case state of None \<Rightarrow> []
                   | Some v \<Rightarrow> [\<lparr>e_job_id = 7, e_key = STATE_KEY, e_value = v, e_updated = 0\<rparr>]),
        mailbox := map (\<lambda>(n, ev). \<lparr>m_id = int n, m_dest_job_id = 7, m_topic = Some EVENT_TOPIC,
                          m_message = JObj [(EVENT_FIELD, JStr ev)], m_consumed_at = None\<rparr>)
                     (enumerate 1 mail),
        next_mail_id := int (length mail) + 1\<rparr>"

definition order_ctx :: job_ctx where
  "order_ctx = \<lparr>x_job = 7, x_epoch = 1, x_steps = [], x_seq = 0, x_rescheduled = False,
     x_step_timeout = None\<rparr>"

definition plain_turn :: turn where
  "plain_turn = (let t = \<lparr>t_started = 0, t_now = 1, t_timeout = None, t_remaining = None, t_expired = False\<rparr>
     in \<lparr>w_recv = t, w_polls = [], w_step = t, w_db_now = 1, w_now = 1\<rparr>)"

lemma order_tame: "tame order_machine i"
  by (simp add: tame_def order_machine_def on_unhandled_def on_transition_def return_place)

lemmas order_simps =
  order_machine_def order_db_def order_ctx_def plain_turn_def seed_db_def empty_db_def

lemma order_runs:
  "fst (machine_task order_machine 1 [plain_turn, plain_turn] order_ctx
     (order_db None [''paid'', ''packed''])) = Inr (Some (''shipped'', 2))"
  by code_simp

theorem machine_follows_its_table_witness:
  "\<exists>c' d'. machine_task order_machine 1 [plain_turn, plain_turn] order_ctx
     (order_db None [''paid'', ''packed'']) = (Inr (Some (''shipped'', 2)), c', d')
   \<and> current_state order_machine c' d' = ''shipped''"
proof -
  obtain r c' d' where run: "machine_task order_machine 1 [plain_turn, plain_turn] order_ctx
     (order_db None [''paid'', ''packed'']) = (r, c', d')"
    using prod_cases3 by blast
  then have r: "r = Inr (Some (''shipped'', 2))" using order_runs by simp
  have "\<forall>w \<in> set [plain_turn, plain_turn]. quiet (x_job order_ctx) (m_state_key order_machine) (w_polls w)"
    by (simp add: plain_turn_def quiet_def Let_def)
  from machine_follows_its_table [OF order_tame this run] r run show ?thesis by auto
qed

theorem interrupted_turn_is_the_same_turn_witness:
  "\<exists>c1 d1. recv (w_recv plain_turn) (Some EVENT_TOPIC) [] order_ctx (order_db None [''paid'', ''packed''])
       = (Inr (JObj [(EVENT_FIELD, JStr ''paid'')]), c1, d1)
   \<and> machine_turn order_machine plain_turn ''awaiting_payment''
         (dxe_bind (load_steps d1 7) 2 order_ctx) d1
     = handle order_machine plain_turn ''awaiting_payment'' (JObj [(EVENT_FIELD, JStr ''paid'')])
         ((dxe_bind (load_steps d1 7) 2 order_ctx)\<lparr>x_seq := 1\<rparr>) d1"
proof -
  let ?d = "order_db None [''paid'', ''packed'']"
  let ?m = "JObj [(EVENT_FIELD, JStr ''paid'')]"
  obtain r c1 d1 where run: "recv (w_recv plain_turn) (Some EVENT_TOPIC) [] order_ctx ?d = (r, c1, d1)"
    using prod_cases3 by blast
  have r: "r = Inr ?m" and ok: "dxe_ok d1"
  proof -
    have "fst (recv (w_recv plain_turn) (Some EVENT_TOPIC) [] order_ctx ?d) = Inr ?m" by code_simp
    with run show "r = Inr ?m" by simp
    have "dxe_ok (snd (snd (recv (w_recv plain_turn) (Some EVENT_TOPIC) [] order_ctx ?d)))" by code_simp
    with run show "dxe_ok d1" by simp
  qed
  have start: "x_steps order_ctx = []" "x_seq order_ctx = 0" "step_at ?d (x_job order_ctx) 1 = None"
    by (simp_all add: order_ctx_def order_db_def step_at_def seed_db_def empty_db_def)
  have topic: "m_topic order_machine = EVENT_TOPIC" by (simp add: order_machine_def)
  have job: "x_job order_ctx = 7" by (simp add: order_ctx_def)
  show ?thesis
    using interrupted_turn_is_the_same_turn [of "w_recv plain_turn" order_machine "[]" order_ctx ?d ?m c1 d1
        d1 "dxe_bind (load_steps d1 7) 2 order_ctx" 2 order_ctx plain_turn "''awaiting_payment''"]
      run r ok start topic job
    by auto
qed

theorem fresh_rerun_leaves_a_machine_finished_witness:
  "\<exists>d' d3. rerun_job 50 ((order_db (Some (state_value ''shipped'')) [''paid''])
        \<lparr>jobs := [(default_jorb 0 7)\<lparr>j_state := Finished, j_run_epoch := 0\<rparr>]\<rparr>) 7 None True True = Inr (Some 7, d')
    \<and> machine_task order_machine 60 [plain_turn, plain_turn] order_ctx d' = (Inr (Some (''shipped'', 0)), order_ctx, d3)"
proof -
  let ?d = "(order_db (Some (state_value ''shipped'')) [''paid''])
        \<lparr>jobs := [(default_jorb 0 7)\<lparr>j_state := Finished, j_run_epoch := 0\<rparr>]\<rparr>"
  obtain x where res: "rerun_job 50 ?d 7 None True True = x" by blast
  have "case rerun_job 50 ?d 7 None True True of
      Inl _ \<Rightarrow> False | Inr (r, d') \<Rightarrow> r = Some 7 \<and> owns d' 7 1"
    by code_simp
  then obtain d' where run: "rerun_job 50 ?d 7 None True True = Inr (Some 7, d')" "owns d' 7 1"
    by (auto split: sum.splits)
  have pub: "get_event_stmt 7 (m_state_key order_machine) ?d = Some (state_value ''shipped'')" by code_simp
  have final: "''shipped'' \<in> set (m_final order_machine)" by (simp add: order_machine_def)
  have ctx: "x_job order_ctx = 7" "owns d' 7 (x_epoch order_ctx)" using run(2) by (simp_all add: order_ctx_def)
  show ?thesis
    using fresh_rerun_leaves_a_machine_finished [OF pub final run(1) refl ctx] run(1) by blast
qed

end
