(* ===== verification/Worker.thy ===== *)
theory Worker
  imports Durable Retry
begin

text \<open>
  The worker's driving of one claimed job (\<open>JobSystem._process\<close> of \<open>pyjobby/pj.py\<close> and what
  it calls): resolving the class, binding the checkpoints, the \<open>run\<close> statement, the task
  under its deadline, and the one statement that ends the attempt. The task is any
  computation over the durable primitives, so what other transactions commit while it runs
  is part of it.
\<close>

section \<open>The process and its surroundings\<close>

text \<open>What \<open>run()\<close> stages: a value, or an async generator still to be drained.\<close>

datatype staged = Value json | Yields "json list"

text \<open>
  A job class: its \<open>timeout\<close> and \<open>step_timeout\<close> attributes, its task applied to the job's
  kwargs, and its override of \<open>rescheduleBackoff\<close> when it has one.
\<close>

record job_class =
  k_timeout :: "int option"
  k_step_timeout :: "int option"
  k_run :: "(string \<times> json) list \<Rightarrow> staged job_m"
  k_backoff :: "(jorb \<Rightarrow> int \<Rightarrow> exn + interval) option"

text \<open>What \<open>pydoc.locate\<close> finds under a dotted path.\<close>

datatype located = Located_nothing | Located_other | Located_class job_class | Locate_raises exn

record worker =
  wk_default_timeout :: "int option"
  wk_max_retries :: int
  wk_reload_jobs :: bool
  wk_class_cache :: "string \<Rightarrow> job_class option"
  wk_class_mtimes :: "string \<Rightarrow> int option"
  wk_processed :: nat
  wk_errors :: nat

text \<open>What one attempt observes: imports, clocks, its deadline, an operator's cancel, chance.\<close>

record attempt_env =
  v_locate :: "string \<Rightarrow> located"
  v_reload_raises :: "exn option"
  v_mtime_before :: int
  v_mtime_after :: int
  v_run_at :: instant
  v_end_at :: instant
  v_wake_at :: instant
  v_wake_locked :: "job_id set"
  v_expired :: bool            \<comment> \<open>the deadline's timer fired while the task ran\<close>
  v_cancel_current :: bool     \<comment> \<open>the cancellation was an operator's\<close>
  v_jitter :: real
  v_backtrace :: string

section \<open>Resolving the class\<close>

definition resolve_job_class ::
  "worker \<Rightarrow> attempt_env \<Rightarrow> string \<Rightarrow> (exn + job_class) \<times> worker" where
  "resolve_job_class w v name =
     (let cached = wk_class_cache w name;
          known = (case wk_class_mtimes w name of None \<Rightarrow> 0 | Some t \<Rightarrow> t);
          changed = wk_reload_jobs w \<and> cached \<noteq> None \<and> known < v_mtime_before v
      in case (if changed then v_reload_raises v else None) of
           Some e \<Rightarrow> (Inl e, w)
         | None \<Rightarrow>
             (case (if changed then None else cached) of
                Some k \<Rightarrow> (Inr k, w)
              | None \<Rightarrow>
                  (case v_locate v name of
                     Locate_raises e \<Rightarrow> (Inl e, w)
                   | Located_nothing \<Rightarrow>
                       (Inl (UserError ''FileNotFoundError'' (''Job class not found: '' @ name)), w)
                   | Located_other \<Rightarrow>
                       (Inl (UserError ''TypeError'' (name @ '' is not a pyjobby Job subclass'')), w)
                   | Located_class k \<Rightarrow>
                       (Inr k, w\<lparr>wk_class_cache := (wk_class_cache w)(name := Some k),
                                 wk_class_mtimes :=
                                   (if wk_reload_jobs w
                                    then (wk_class_mtimes w)(name := Some (v_mtime_after v))
                                    else wk_class_mtimes w)\<rparr>))))"

section \<open>Running the task\<close>

definition resolve :: "job_class \<Rightarrow> (string \<times> json) list \<Rightarrow> json job_m" where
  "resolve k kwargs c d =
     (case k_run k kwargs c d of
        (Inl e, c', d') \<Rightarrow> (Inl e, c', d')
      | (Inr (Value v), c', d') \<Rightarrow> (Inr v, c', d')
      | (Inr (Yields vs), c', d') \<Rightarrow> (Inr (JArr vs), c', d'))"

text \<open>
  \<open>_execute\<close>: the one deadline. What leaves the timeout scope is its outcome; a
  \<open>TimeoutError\<close> out of an expired scope, and a return from one, are the job's timeout.
\<close>

definition execute_job :: "int option \<Rightarrow> bool \<Rightarrow> json job_m \<Rightarrow> json job_m" where
  "execute_job job_timeout expired task c d =
     (case job_timeout of
        None \<Rightarrow> task c d
      | Some b \<Rightarrow>
          if b = 0 then task c d
          else case task c d of
                 (Inl (TimeoutError m), c', d') \<Rightarrow>
                   (Inl (if expired then JobTimeout b else TimeoutError m), c', d')
               | (Inl e, c', d') \<Rightarrow> (Inl e, c', d')
               | (Inr v, c', d') \<Rightarrow> (if expired then Inl (JobTimeout b) else Inr v, c', d'))"

text \<open>The run-time result passing: the kwargs the task gets.\<close>

definition upstream_kwargs :: "jorb \<Rightarrow> database \<Rightarrow> exn + (string \<times> json) list" where
  "upstream_kwargs job d =
     (case ad_use_result_from (j_admin_data job) of
        None \<Rightarrow> Inr (j_kwargs job)
      | Some u \<Rightarrow>
          if u = 0 then Inr (j_kwargs job)
          else case lookup_job d u of
                 None \<Rightarrow> Inl (UserError ''LookupError'' (''job '' @ int_text (j_id job)
                   @ '' reads its input from job '' @ int_text u @ '', which no longer exists''))
               | Some up \<Rightarrow>
                   if j_state up \<noteq> Finished
                   then Inl (UserError ''LookupError'' (''job '' @ int_text (j_id job)
                     @ '' reads its input from job '' @ int_text u @ '', which is not finished''))
                   else Inr (dict_put ''upstream_result''
                          (case j_result up of None \<Rightarrow> JNull | Some r \<Rightarrow> r) (j_kwargs job)))"

text \<open>A first attempt has no checkpoints to load unless the row is a fork born with some.\<close>

definition bound_checkpoints :: "jorb \<Rightarrow> database \<Rightarrow> step_row list" where
  "bound_checkpoints job d =
     (if 1 < j_run_count job
         \<or> (case ad_fork (j_admin_data job) of None \<Rightarrow> False | Some (_, copied) \<Rightarrow> copied \<noteq> 0)
      then load_steps d (j_id job) else [])"

definition effective_timeout :: "worker \<Rightarrow> job_class \<Rightarrow> jorb \<Rightarrow> int option" where
  "effective_timeout w k job =
     (case ad_timeout_seconds (j_admin_data job) of
        Some t \<Rightarrow> Some t
      | None \<Rightarrow> (case k_timeout k of Some t \<Rightarrow> Some t | None \<Rightarrow> wk_default_timeout w))"

text \<open>\<open>timedelta(seconds=t) if t else None\<close>, in microseconds.\<close>

definition timeout_interval :: "int option \<Rightarrow> interval option" where
  "timeout_interval t = (case t of None \<Rightarrow> None | Some s \<Rightarrow> if s = 0 then None else Some (s * 1000000))"

section \<open>Completion\<close>

text \<open>A JSON null is stored as SQL \<open>NULL\<close>; \<open>save_result: false\<close> stores nothing.\<close>

definition stored_result :: "jorb \<Rightarrow> json \<Rightarrow> json option" where
  "stored_result job v =
     (if ad_save_result (j_admin_data job) = Some False \<or> v = JNull then None else Some v)"

definition wake_dependents ::
  "attempt_env \<Rightarrow> jorb \<Rightarrow> database \<Rightarrow> (exn + unit) \<times> database" where
  "wake_dependents v job d =
     (case stmt_wake_job (v_wake_at v) (v_wake_locked v) (j_id job) d of
        Inl e \<Rightarrow> (Inl (SqlError e), d)
      | Inr (_, d1) \<Rightarrow>
          (case j_run_group job of
             None \<Rightarrow> (Inr (), d1)
           | Some g \<Rightarrow>
               if g = 0 then (Inr (), d1)
               else case stmt_wake_group (v_wake_at v) (v_wake_locked v) g d1 of
                      Inl e \<Rightarrow> (Inl (SqlError e), d1)
                    | Inr (_, d2) \<Rightarrow> (Inr (), d2)))"

section \<open>Failure\<close>

text \<open>\<open>str(e)\<close>, without what a message renders of other objects.\<close>

fun exn_str :: "exn \<Rightarrow> string" where
  "exn_str NondeterminismError = []"
| "exn_str StaleExecutionError = []"
| "exn_str (DurableSleep t) = ''durable sleep until ''"
| "exn_str (StreamClosedError k c) = k"
| "exn_str (StepTimeoutError n b) = ''step '' @ n @ '' exceeded its '' @ int_text b @ ''s timeout''"
| "exn_str (JobTimeout b) = ''Job timed out after '' @ int_text b @ ''s''"
| "exn_str (TimeoutError m) = m"
| "exn_str (UserError ty m) = m"
| "exn_str (SqlError e) = []"
| "exn_str CancelledError = []"

definition arith_exn :: "arith_error \<Rightarrow> exn" where
  "arith_exn e =
     (case e of OverflowError \<Rightarrow> UserError ''OverflowError'' [] | ZeroDivisionError \<Rightarrow> UserError ''ZeroDivisionError'' [])"

definition reschedule_backoff ::
  "attempt_env \<Rightarrow> job_class option \<Rightarrow> jorb \<Rightarrow> int \<Rightarrow> exn + interval" where
  "reschedule_backoff v k job attempt =
     (case Option.bind k k_backoff of
        Some f \<Rightarrow> f job attempt
      | None \<Rightarrow>
          (case calculate_retry_from_job job attempt (v_jitter v) of
             Inl e \<Rightarrow> Inl (arith_exn e)
           | Inr delay \<Rightarrow> Inr delay))"

definition retryable :: "worker \<Rightarrow> jorb \<Rightarrow> bool \<Rightarrow> bool" where
  "retryable w job timed_out \<longleftrightarrow>
     j_error_count job + 1
       < (case ad_max_retries (j_admin_data job) of None \<Rightarrow> wk_max_retries w | Some n \<Rightarrow> n)
     \<and> (\<not> timed_out
        \<or> (case ad_on_timeout (j_admin_data job) of None \<Rightarrow> ''retry'' | Some p \<Rightarrow> p) = ''retry'')"

definition handle_failure ::
  "worker \<Rightarrow> attempt_env \<Rightarrow> jorb \<Rightarrow> job_class option \<Rightarrow> string \<Rightarrow> string \<Rightarrow> bool \<Rightarrow> database
     \<Rightarrow> (exn + unit) \<times> worker \<times> database" where
  "handle_failure w v job k error backtrace timed_out d =
     (let w' = w\<lparr>wk_errors := wk_errors w + 1\<rparr>
      in if retryable w job timed_out
         then (case reschedule_backoff v k job (j_error_count job + 1) of
                 Inl e \<Rightarrow> (Inl e, w', d)
               | Inr delay \<Rightarrow>
                   (case stmt_retry (v_end_at v) (j_id job) delay (Some error) (Some backtrace)
                           (j_run_epoch job) d of
                      Inl e \<Rightarrow> (Inl (SqlError e), w', d)
                    | Inr (_, d') \<Rightarrow> (Inr (), w', d')))
         else (case stmt_crashed (v_end_at v) (j_id job) (Some error) (Some backtrace)
                      (j_run_epoch job) d of
                 Inl e \<Rightarrow> (Inl (SqlError e), w', d)
               | Inr (_, d') \<Rightarrow> (Inr (), w', d')))"

section \<open>One claimed job\<close>

text \<open>What the \<open>try\<close> block leaves: its outcome, \<open>klass\<close> as far as it got, and the states.\<close>

definition process_body ::
  "worker \<Rightarrow> attempt_env \<Rightarrow> jorb \<Rightarrow> database
     \<Rightarrow> (exn + unit) \<times> job_class option \<times> worker \<times> database" where
  "process_body w v job d =
     (case upstream_kwargs job d of
        Inl e \<Rightarrow> (Inl e, None, w, d)
      | Inr kwargs \<Rightarrow>
      case resolve_job_class w v (j_job_class job) of
        (Inl e, w') \<Rightarrow> (Inl e, None, w', d)
      | (Inr k, w') \<Rightarrow>
      let i = j_id job; epoch = j_run_epoch job;
          ctx = dxe_bind (bound_checkpoints job d) epoch (new_ctx job (k_step_timeout k));
          timeout = effective_timeout w' k job
      in case stmt_run (v_run_at v) i epoch (timeout_interval timeout) d of
           Inl e \<Rightarrow> (Inl (SqlError e), Some k, w', d)
         | Inr ([], d1) \<Rightarrow> (Inr (), Some k, w', d1)
         | Inr (row # _, d1) \<Rightarrow>
             if j_cancel_requested row
             then (case stmt_cancelled (v_end_at v) i epoch d1 of
                     Inl e \<Rightarrow> (Inl (SqlError e), Some k, w', d1)
                   | Inr (_, d2) \<Rightarrow> (Inr (), Some k, w', d2))
             else (case execute_job timeout (v_expired v) (resolve k kwargs) ctx d1 of
                     (Inl e, c1, d2) \<Rightarrow> (Inl e, Some k, w', d2)
                   | (Inr result, c1, d2) \<Rightarrow>
                       (case stmt_finished (v_end_at v) i (stored_result job result) epoch d2 of
                          Inl e \<Rightarrow> (Inl (SqlError e), Some k, w', d2)
                        | Inr ([], d3) \<Rightarrow> (Inr (), Some k, w', d3)
                        | Inr (_ # _, d3) \<Rightarrow>
                            (case wake_dependents v job d3 of
                               (res, d4) \<Rightarrow> (res, Some k, w', d4)))))"

text \<open>The \<open>except\<close> clauses, in their order.\<close>

definition process_except ::
  "attempt_env \<Rightarrow> jorb \<Rightarrow> exn \<Rightarrow> job_class option \<Rightarrow> worker \<Rightarrow> database
     \<Rightarrow> (exn + unit) \<times> worker \<times> database" where
  "process_except v job e k w d =
     (case e of
        DurableSleep t \<Rightarrow> (Inr (), w, d)
      | JobTimeout b \<Rightarrow>
          handle_failure w v job k (exn_str e)
            ''Timeout error - job exceeded maximum execution time'' True d
      | StaleExecutionError \<Rightarrow> (Inr (), w, d)
      | CancelledError \<Rightarrow>
          if \<not> v_cancel_current v then (Inl CancelledError, w, d)
          else (case stmt_cancelled (v_end_at v) (j_id job) (j_run_epoch job) d of
                  Inl e' \<Rightarrow> (Inl (SqlError e'), w, d)
                | Inr (_, d') \<Rightarrow> (Inr (), w\<lparr>wk_errors := wk_errors w + 1\<rparr>, d'))
      | _ \<Rightarrow> handle_failure w v job k (exn_str e) (''Traceback:'' @ v_backtrace v) False d)"

definition process_job ::
  "worker \<Rightarrow> attempt_env \<Rightarrow> jorb \<Rightarrow> database \<Rightarrow> (exn + unit) \<times> worker \<times> database" where
  "process_job w v job d =
     (case process_body (w\<lparr>wk_processed := wk_processed w + 1\<rparr>) v job d of
        (Inr u, k, w', d') \<Rightarrow> (Inr u, w', d')
      | (Inl e, k, w', d') \<Rightarrow> process_except v job e k w' d')"

section \<open>Every ending settles the attempt\<close>

text \<open>A wake leaves no row in flight that was not.\<close>

lemma wake_settled:
  assumes "job_update p f" and "\<And>j. j_state (f j) = Queued"
    and "jobs_ok d" "settled d i e" and "update_jobs p f d = Inr (rs, d')"
  shows "jobs_ok d' \<and> settled d' i e"
proof -
  have d': "d' = job_update.after p f d"
    using assms(5) job_update.runs [OF assms(1,3)] by simp
  have "settled (job_update.after p f d) i e"
    using assms(2,4) by (auto simp: settled_def job_update.after_lookup [OF assms(1)])
  with d' job_update.after_ok [OF assms(1,3)] show ?thesis by simp
qed

lemma wake_set_queues: "j_state (wake_set now j) = Queued"
  by (simp add: row_simps)

lemma wake_dependents_settled:
  assumes "jobs_ok d" "settled d i e"
  shows "\<exists>d'. wake_dependents v job d = (Inr (), d') \<and> jobs_ok d' \<and> settled d' i e"
proof -
  obtain rs d1 where w1: "stmt_wake_job (v_wake_at v) (v_wake_locked v) (j_id job) d = Inr (rs, d1)"
    using wake_job.never_refused [OF assms(1)] unfolding stmt_wake_job_def by blast
  then have 1: "jobs_ok d1 \<and> settled d1 i e"
    unfolding stmt_wake_job_def
    by (rule wake_settled [OF wake_job.job_update_axioms wake_set_queues assms])
  show ?thesis
  proof (cases "j_run_group job")
    case None
    with w1 1 show ?thesis by (simp add: wake_dependents_def)
  next
    case (Some g)
    obtain rs2 d2 where w2: "stmt_wake_group (v_wake_at v) (v_wake_locked v) g d1 = Inr (rs2, d2)"
      using wake_group.never_refused 1 unfolding stmt_wake_group_def by blast
    then have "jobs_ok d2 \<and> settled d2 i e"
      unfolding stmt_wake_group_def
      by (intro wake_settled [OF wake_group.job_update_axioms wake_set_queues conjunct1 [OF 1] conjunct2 [OF 1]])
    with Some w1 w2 1 show ?thesis by (auto simp: wake_dependents_def)
  qed
qed

lemma handle_failure_settles:
  assumes "jobs_ok d" and "handle_failure w v job k msg bt to d = (out, w', d')"
  shows "jobs_ok d'
    \<and> (out = Inr () \<and> settled d' (j_id job) (j_run_epoch job)
       \<or> (\<exists>x. out = Inl x \<and> reschedule_backoff v k job (j_error_count job + 1) = Inl x))"
proof (cases "retryable w job to")
  case True
  show ?thesis
  proof (cases "reschedule_backoff v k job (j_error_count job + 1)")
    case (Inl x)
    with True assms show ?thesis by (auto simp: handle_failure_def Let_def)
  next
    case (Inr delay)
    obtain rs d1 where u: "stmt_retry (v_end_at v) (j_id job) delay (Some msg) (Some bt)
        (j_run_epoch job) d = Inr (rs, d1)"
      using retry.never_refused [OF assms(1)] unfolding stmt_retry_def by blast
    with retry.settles [OF assms(1)] True Inr assms(2) show ?thesis
      by (auto simp: handle_failure_def Let_def stmt_retry_def)
  qed
next
  case False
  obtain rs d1 where u: "stmt_crashed (v_end_at v) (j_id job) (Some msg) (Some bt) (j_run_epoch job) d
      = Inr (rs, d1)"
    using crashed.never_refused [OF assms(1)] unfolding stmt_crashed_def by blast
  with crashed.settles [OF assms(1)] False assms(2) show ?thesis
    by (auto simp: handle_failure_def Let_def stmt_crashed_def)
qed

lemma cancelled_settles:
  assumes "jobs_ok d"
  shows "\<exists>rs d'. stmt_cancelled now i e d = Inr (rs, d') \<and> jobs_ok d' \<and> settled d' i e"
  using cancelled.never_refused [OF assms] cancelled.settles [OF assms]
  unfolding stmt_cancelled_def by blast

lemma finished_settles:
  assumes "jobs_ok d"
  shows "\<exists>rs d'. stmt_finished now i r e d = Inr (rs, d') \<and> jobs_ok d' \<and> settled d' i e"
  using finished.never_refused [OF assms] finished.settles [OF assms]
  unfolding stmt_finished_def by blast

text \<open>The signals by which a task says its row already moved on.\<close>

fun signals :: "exn \<Rightarrow> bool" where
  "signals (DurableSleep t) = True"
| "signals StaleExecutionError = True"
| "signals _ = False"

lemma process_except_settles:
  assumes ok: "jobs_ok d" and sig: "signals e \<Longrightarrow> settled d (j_id job) (j_run_epoch job)"
    and run: "process_except v job e k w d = (out, w', d')"
  shows "jobs_ok d'
    \<and> (out = Inr () \<and> settled d' (j_id job) (j_run_epoch job)
       \<or> out = Inl CancelledError \<and> \<not> v_cancel_current v
       \<or> (\<exists>x. out = Inl x \<and> reschedule_backoff v k job (j_error_count job + 1) = Inl x))"
proof (cases "signals e \<or> e = CancelledError")
  case True
  then show ?thesis
    using ok sig run cancelled_settles [OF ok, of "v_end_at v" "j_id job" "j_run_epoch job"]
    by (cases e) (auto simp: process_except_def split: if_splits)
next
  case False
  then obtain msg bt to where "handle_failure w v job k msg bt to d = (out, w', d')"
    using run by (cases e) (auto simp: process_except_def)
  from handle_failure_settles [OF ok this] show ?thesis by blast
qed

text \<open>
  A task of the platform's contract, in one attempt: it keeps the tables sound, and it unwinds
  with a signal only when the attempt's row has in fact moved on - which is when the
  primitives raise one.
\<close>

definition honest :: "job_class \<Rightarrow> job_id \<Rightarrow> int \<Rightarrow> bool" where
  "honest k i e \<longleftrightarrow>
     (\<forall>kw c d r c' d'. jobs_ok d \<longrightarrow> k_run k kw c d = (r, c', d') \<longrightarrow>
        jobs_ok d' \<and> (\<forall>x. r = Inl x \<longrightarrow> signals x \<longrightarrow> settled d' i e))"

lemma execute_job_honest:
  assumes "honest k i e" and "jobs_ok d" and "execute_job t expired (resolve k kw) c d = (r, c', d')"
  shows "jobs_ok d' \<and> (\<forall>x. r = Inl x \<longrightarrow> signals x \<longrightarrow> settled d' i e)"
proof -
  obtain r0 c0 d0 where run: "k_run k kw c d = (r0, c0, d0)" using prod_cases3 by blast
  with assms(1,2) have "jobs_ok d0" "\<And>x. r0 = Inl x \<Longrightarrow> signals x \<Longrightarrow> settled d0 i e"
    unfolding honest_def by blast+
  moreover have "d' = d0"
    using assms(3) run
    by (auto simp: execute_job_def resolve_def split: sum.splits staged.splits option.splits
        if_splits exn.splits prod.splits)
  moreover have "r0 = Inl x" if "r = Inl x" "signals x" for x
    using assms(3) run that
    by (auto simp: execute_job_def resolve_def split: sum.splits staged.splits option.splits
        if_splits exn.splits prod.splits)
  ultimately show ?thesis by blast
qed

lemma run_missed:
  assumes "jobs_ok d" and "stmt_run now i e t d = Inr ([], d1)"
  shows "settled d i e \<and> d1 = d"
proof -
  have none: "filter (fenced i e) (jobs d) = []"
    using assms run.runs [OF assms(1)] by (simp add: stmt_run_def)
  have "settled d i e"
    using none by (auto simp: settled_def filter_empty_conv fenced_def dest!: lookup_job_SomeD)
  with assms show ?thesis by (simp add: stmt_run_def run.missed)
qed

lemma process_body_settles:
  assumes ok: "jobs_ok d"
    and task: "\<And>k. fst (resolve_job_class w v (j_job_class job)) = Inr k
                 \<Longrightarrow> honest k (j_id job) (j_run_epoch job)"
    and imported: "\<And>e. fst (resolve_job_class w v (j_job_class job)) = Inl e \<Longrightarrow> \<not> signals e"
    and run: "process_body w v job d = (out, k, w', d')"
  shows "jobs_ok d' \<and> (\<forall>e. out = Inl e \<longrightarrow> signals e \<longrightarrow> settled d' (j_id job) (j_run_epoch job))
    \<and> (out = Inr () \<longrightarrow> settled d' (j_id job) (j_run_epoch job))"
proof (cases "upstream_kwargs job d")
  case (Inl e)
  then have "\<not> signals e" by (auto simp: upstream_kwargs_def split: option.splits if_splits)
  with Inl ok run show ?thesis by (auto simp: process_body_def)
next
  case kwargs: (Inr kw)
  obtain rk w1 where res: "resolve_job_class w v (j_job_class job) = (rk, w1)" by fastforce
  show ?thesis
  proof (cases rk)
    case (Inl e)
    with imported res have "\<not> signals e" by simp
    with Inl ok run kwargs res show ?thesis by (auto simp: process_body_def)
  next
    case (Inr kc)
    let ?i = "j_id job" and ?e = "j_run_epoch job" and ?t = "effective_timeout w1 kc job"
    let ?c = "dxe_bind (bound_checkpoints job d) ?e (new_ctx job (k_step_timeout kc))"
    have honest: "honest kc ?i ?e" using task res Inr by simp
    obtain rs d1 where st: "stmt_run (v_run_at v) ?i ?e (timeout_interval ?t) d = Inr (rs, d1)"
      using run.never_refused [OF ok] unfolding stmt_run_def by blast
    have ok1: "jobs_ok d1" using st run.keeps_ok [OF ok] by (simp add: stmt_run_def)
    show ?thesis
    proof (cases rs)
      case Nil
      with st run_missed [OF ok] have "settled d ?i ?e \<and> d1 = d" by blast
      with Nil st run kwargs res Inr ok show ?thesis by (auto simp: process_body_def Let_def)
    next
      case (Cons row rest)
      show ?thesis
      proof (cases "j_cancel_requested row")
        case True
        with cancelled_settles [OF ok1, of "v_end_at v" ?i ?e] Cons st run kwargs res Inr show ?thesis
          by (auto simp: process_body_def Let_def)
      next
        case False
        obtain r c2 d2 where ex: "execute_job ?t (v_expired v) (resolve kc kw) ?c d1 = (r, c2, d2)"
          using prod_cases3 by blast
        note task = execute_job_honest [OF honest ok1 ex]
        show ?thesis
        proof (cases r)
          case (Inl e)
          with task False Cons st run kwargs res Inr ex show ?thesis
            by (auto simp: process_body_def Let_def)
        next
          case result: (Inr result)
          obtain rs3 d3 where fin: "stmt_finished (v_end_at v) ?i (stored_result job result) ?e d2 = Inr (rs3, d3)"
            and 3: "jobs_ok d3" "settled d3 ?i ?e"
            using finished_settles task by blast
          from wake_dependents_settled [OF 3, of v job] 3 result fin False Cons st run kwargs res Inr ex
          show ?thesis by (cases rs3) (auto simp: process_body_def Let_def)
        qed
      qed
    qed
  qed
qed

lemma resolve_processed [simp]:
  "fst (resolve_job_class (w\<lparr>wk_processed := n\<rparr>) v name) = fst (resolve_job_class w v name)"
  by (auto simp: resolve_job_class_def Let_def split: option.splits located.splits)


text \<open>A job class that only computes, and the environment it runs in.\<close>

definition pure_class :: "(exn + json) \<Rightarrow> job_class" where
  "pure_class out = \<lparr>k_timeout = None, k_step_timeout = None,
     k_run = (\<lambda>kw c d. (map_sum id Value out, c, d)), k_backoff = None\<rparr>"

definition plain_env :: "(exn + json) \<Rightarrow> attempt_env" where
  "plain_env out = \<lparr>v_locate = (\<lambda>name. Located_class (pure_class out)), v_reload_raises = None,
     v_mtime_before = 0, v_mtime_after = 0, v_run_at = 20, v_end_at = 30, v_wake_at = 31,
     v_wake_locked = {}, v_expired = False, v_cancel_current = False, v_jitter = 0, v_backtrace = []\<rparr>"

definition new_worker :: worker where
  "new_worker = \<lparr>wk_default_timeout = None, wk_max_retries = 10, wk_reload_jobs = False,
     wk_class_cache = (\<lambda>_. None), wk_class_mtimes = (\<lambda>_. None), wk_processed = 0, wk_errors = 0\<rparr>"

definition claimed_row :: jorb where
  "claimed_row = (default_jorb 0 7)\<lparr>j_state := Claimed, j_run_epoch := 1, j_run_count := 1\<rparr>"

lemma claimed_row_simps [simp]:
  "j_id claimed_row = 7" "j_state claimed_row = Claimed" "j_run_epoch claimed_row = 1"
  "j_run_count claimed_row = 1" "j_cancel_requested claimed_row = False" "j_error_count claimed_row = 0"
  "j_run_group claimed_row = None" "j_admin_data claimed_row = no_admin_data"
  by (simp_all add: claimed_row_def)

lemma claimed_seed:
  "jobs_ok (seed_db [(claimed_row, [Queued, Claimed])])"
  "lookup_job (seed_db [(claimed_row, [Queued, Claimed])]) 7 = Some claimed_row"
  by (simp_all add: seed_simps claimed_row_def)

lemma pure_resolves: "fst (resolve_job_class new_worker (plain_env out) name) = Inr (pure_class out)"
  by (simp add: resolve_job_class_def new_worker_def plain_env_def)


section \<open>What each outcome leaves\<close>

text \<open>
  A superseded claim runs nothing. If the row moved on between the claim and this worker
  - requeued, cancelled, claimed again, or gone - then processing the claimed copy changes no
  table at all, whatever the class's task would have written: it is never called.
\<close>

theorem superseded_claim_runs_nothing:
  assumes "jobs_ok d" and "settled d (j_id job) (j_run_epoch job)"
  shows "snd (snd (process_job w v job d)) = d"
proof -
  note noop = run.missed [OF assms] retry.missed [OF assms] crashed.missed [OF assms]
    cancelled.missed [OF assms]
  have failure: "snd (snd (handle_failure w v job k msg bt to d)) = d" for w k msg bt to
    by (simp add: handle_failure_def Let_def stmt_retry_def stmt_crashed_def noop split: sum.split)
  have except: "snd (snd (process_except v job e k w d)) = d" for e k w
    by (cases e) (simp_all add: process_except_def failure stmt_cancelled_def noop)
  have "snd (snd (snd (process_body w v job d))) = d" for w
  proof (cases "upstream_kwargs job d")
    case (Inr kw)
    obtain r w' where "resolve_job_class w v (j_job_class job) = (r, w')" by fastforce
    with Inr show ?thesis by (cases r) (simp_all add: process_body_def Let_def stmt_run_def noop)
  qed (simp add: process_body_def)
  moreover obtain r k w' d' where body: "process_body (w\<lparr>wk_processed := wk_processed w + 1\<rparr>) v job d = (r, k, w', d')"
    using prod_cases4 by blast
  ultimately have "d' = d" by (metis snd_conv)
  with except body show ?thesis
    by (cases r) (simp_all add: process_job_def)
qed

theorem superseded_claim_runs_nothing_witness:
  "let d = seed_db [(claimed_row\<lparr>j_run_epoch := 2, j_run_count := 2\<rparr>, [Queued, Claimed, Queued, Claimed])]
   in snd (snd (process_job new_worker (plain_env (Inr JNull)) claimed_row d)) = d"
proof -
  let ?j = "claimed_row\<lparr>j_run_epoch := 2, j_run_count := 2\<rparr>"
  let ?d = "seed_db [(?j, [Queued, Claimed, Queued, Claimed])]"
  have "jobs_ok ?d" "settled ?d (j_id claimed_row) (j_run_epoch claimed_row)"
    by (simp_all add: seed_simps claimed_row_def settled_def)
  from superseded_claim_runs_nothing [OF this, of new_worker "plain_env (Inr JNull)"]
  show ?thesis by (simp add: Let_def)
qed

text \<open>
  C7. A failure retries the same row with backoff until the budget is spent. A failing attempt
  that still owns its row is requeued, due after its backoff, exactly when its error count is
  below the job's budget and - for the job's own timeout - its policy is to retry; otherwise
  it is dead-lettered. Either way the error count and the epoch grow by one and the error is
  recorded, and every other row is as it was.
\<close>

theorem failures_retry_until_the_budget:
  assumes ok: "jobs_ok d" and row: "lookup_job d (j_id job) = Some j"
    and live: "j_state j \<in> {Claimed, Running}" "j_run_epoch j = j_run_epoch job"
    and backoff: "reschedule_backoff v k job (j_error_count job + 1) = Inr delay"
  shows "\<exists>w' d' r. handle_failure w v job k msg bt timed_out d = (Inr (), w', d')
    \<and> lookup_job d' (j_id job) = Some r \<and> jobs_ok d'
    \<and> (if j_error_count job + 1
             < (case ad_max_retries (j_admin_data job) of None \<Rightarrow> wk_max_retries w | Some n \<Rightarrow> n)
           \<and> (timed_out \<longrightarrow> ad_on_timeout (j_admin_data job) \<in> {None, Some ''retry''})
        then j_state r = Queued \<and> j_run_after r = v_end_at v + delay
        else j_state r = Crashed \<and> j_finished r = Some (v_end_at v))
    \<and> j_error_count r = j_error_count j + 1 \<and> j_run_epoch r = j_run_epoch j + 1
    \<and> j_error_message r = Some msg \<and> j_error_backtrace r = Some bt
    \<and> (\<forall>m. m \<noteq> j_id job \<longrightarrow> lookup_job d' m = lookup_job d m)
    \<and> wk_errors w' = wk_errors w + 1"
proof -
  let ?i = "j_id job" and ?e = "j_run_epoch job"
  have id: "j_id j = ?i" using row by (auto dest: lookup_job_SomeD)
  have f: "fenced ?i ?e j" using live id by (auto simp: fenced_def)
  have policy: "retryable w job timed_out \<longleftrightarrow> j_error_count job + 1
             < (case ad_max_retries (j_admin_data job) of None \<Rightarrow> wk_max_retries w | Some n \<Rightarrow> n)
           \<and> (timed_out \<longrightarrow> ad_on_timeout (j_admin_data job) \<in> {None, Some ''retry''})"
    by (auto simp: retryable_def split: option.splits)
  show ?thesis
  proof (cases "retryable w job timed_out")
    case True
    have "lookup_job (retry.after ?i ?e (v_end_at v) delay (Some msg) (Some bt) d) m = lookup_job d m"
      if "m \<noteq> ?i" for m
      using that by (intro retry.after_lookup_other) (auto simp: fenced_def)
    with True retry.live [OF ok row f, of "v_end_at v" delay "Some msg" "Some bt"]
      retry.after_ok [OF ok, of ?i ?e "v_end_at v" delay "Some msg" "Some bt"]
    show ?thesis
      unfolding policy [symmetric]
      by (auto simp: handle_failure_def Let_def backoff stmt_retry_def row_simps)
  next
    case False
    have "lookup_job (crashed.after ?i ?e (v_end_at v) (Some msg) (Some bt) d) m = lookup_job d m"
      if "m \<noteq> ?i" for m
      using that by (intro crashed.after_lookup_other) (auto simp: fenced_def)
    with False crashed.live [OF ok row f, of "v_end_at v" "Some msg" "Some bt"]
      crashed.after_ok [OF ok, of ?i ?e "v_end_at v" "Some msg" "Some bt"]
    show ?thesis
      unfolding policy [symmetric]
      by (auto simp: handle_failure_def Let_def stmt_crashed_def row_simps)
  qed
qed

theorem failures_retry_until_the_budget_witness:
  "\<exists>w' d' r. handle_failure new_worker (plain_env (Inr JNull)) claimed_row
       (Some (pure_class (Inr JNull)\<lparr>k_backoff := Some (\<lambda>job n. Inr 5)\<rparr>)) ''boom'' [] False
       (seed_db [(claimed_row, [Queued, Claimed])]) = (Inr (), w', d')
     \<and> lookup_job d' 7 = Some r \<and> j_state r = Queued \<and> j_run_after r = 35 \<and> j_error_count r = 1"
proof -
  let ?k = "Some (pure_class (Inr JNull)\<lparr>k_backoff := Some (\<lambda>job n. Inr 5)\<rparr>)"
  let ?d = "seed_db [(claimed_row, [Queued, Claimed])]"
  have "lookup_job ?d (j_id claimed_row) = Some claimed_row" using claimed_seed(2) by simp
  moreover have "reschedule_backoff (plain_env (Inr JNull)) ?k claimed_row (j_error_count claimed_row + 1) = Inr 5"
    by (simp add: reschedule_backoff_def)
  ultimately show ?thesis
    using failures_retry_until_the_budget [OF claimed_seed(1) _ _ _ _, where job = claimed_row and j = claimed_row
        and k = ?k and delay = 5 and w = new_worker and v = "plain_env (Inr JNull)" and msg = "''boom''"
        and bt = "[]" and timed_out = False]
    by (auto simp: new_worker_def plain_env_def no_admin_data_def)
qed

text \<open>What a wake leaves of a row: it, or it queued; and a waiter the wake is for is queued.\<close>

lemma wake_keeps:
  assumes "job_update p f" "jobs_ok d" and "update_jobs p f d = Inr (rs, d')"
    and "\<And>j. p j \<Longrightarrow> j_state j = Waiting" and "\<And>j. j_state (f j) = Queued"
    and "lookup_job d m = Some q"
  shows "\<exists>q'. lookup_job d' m = Some q' \<and> (p q \<and> j_state q' = Queued \<or> \<not> p q \<and> q' = q)"
proof -
  have "d' = job_update.after p f d"
    using assms(3) job_update.runs [OF assms(1,2)] by simp
  then show ?thesis using assms(5,6) by (auto simp: job_update.after_lookup [OF assms(1)])
qed

lemma wake_dependents_wakes:
  assumes ok: "jobs_ok d" and up: "lookup_job d (j_id job) = Some r" "j_state r = Finished"
    and run: "wake_dependents v job d = (Inr (), d')"
    and q: "lookup_job d m = Some q"
  shows "\<exists>q'. lookup_job d' m = Some q' \<and> (j_state q \<noteq> Waiting \<longrightarrow> q' = q)
    \<and> (j_state q = Waiting \<and> j_waitfor_job q = Some (j_id job) \<and> m \<notin> v_wake_locked v
         \<longrightarrow> j_state q' = Queued)"
proof -
  let ?p = "wake_job_where (jobs d) (v_wake_locked v) (j_id job)"
  obtain rs d1 where w1: "stmt_wake_job (v_wake_at v) (v_wake_locked v) (j_id job) d = Inr (rs, d1)"
    using wake_job.never_refused [OF ok] unfolding stmt_wake_job_def by blast
  have ok1: "jobs_ok d1" using w1 wake_job.keeps_ok [OF ok] unfolding stmt_wake_job_def by blast
  obtain q1 where q1: "lookup_job d1 m = Some q1" "?p q \<and> j_state q1 = Queued \<or> \<not> ?p q \<and> q1 = q"
    using wake_keeps [OF wake_job.job_update_axioms ok w1 [unfolded stmt_wake_job_def] _ wake_set_queues q]
    by (auto simp: wake_job_where_def)
  have fin: "list_ex (\<lambda>u. j_id u = j_id job \<and> j_state u = Finished) (jobs d)"
    using up by (auto simp: list_ex_iff dest: lookup_job_SomeD)
  have here: "(j_state q \<noteq> Waiting \<longrightarrow> q1 = q)
    \<and> (j_state q = Waiting \<and> j_waitfor_job q = Some (j_id job) \<and> m \<notin> v_wake_locked v \<longrightarrow> j_state q1 = Queued)"
    using q1(2) q fin by (auto simp: wake_job_where_def dest: lookup_job_SomeD)
  show ?thesis
  proof (cases "j_run_group job = None \<or> j_run_group job = Some 0")
    case True
    then have "d' = d1" using run w1 by (auto simp: wake_dependents_def)
    with here q1 show ?thesis by blast
  next
    case False
    then obtain g where g: "j_run_group job = Some g" "g \<noteq> 0" by auto
    obtain rs2 d2 where w2: "stmt_wake_group (v_wake_at v) (v_wake_locked v) g d1 = Inr (rs2, d2)"
      using wake_group.never_refused [OF ok1] unfolding stmt_wake_group_def by blast
    have "d' = d2" using run w1 w2 g by (simp add: wake_dependents_def)
    moreover obtain q2 where "lookup_job d2 m = Some q2"
      "wake_group_where (jobs d1) (v_wake_locked v) g q1 \<and> j_state q2 = Queued
       \<or> \<not> wake_group_where (jobs d1) (v_wake_locked v) g q1 \<and> q2 = q1"
      using wake_keeps [OF wake_group.job_update_axioms ok1 w2 [unfolded stmt_wake_group_def] _ wake_set_queues q1(1)]
      by (auto simp: wake_group_where_def)
    ultimately show ?thesis using here by (auto simp: wake_group_where_def)
  qed
qed

text \<open>
  C6. A completed attempt is recorded and wakes its waiters. When the task of a live attempt
  returns inside its deadline, the row is finished with the result (none when the job asked
  not to save it), one epoch on, and every job that was waiting for it and is not locked
  elsewhere is queued.
\<close>

theorem completion_is_recorded_and_wakes:
  assumes ok: "jobs_ok d" and row: "lookup_job d (j_id job) = Some j"
    and live: "fenced (j_id job) (j_run_epoch job) j" and calm: "\<not> j_cancel_requested j"
    and kwargs: "upstream_kwargs job d = Inr kw"
    and found: "resolve_job_class (w\<lparr>wk_processed := wk_processed w + 1\<rparr>) v (j_job_class job) = (Inr k, w1)"
    and task: "execute_job (effective_timeout w1 k job) (v_expired v) (resolve k kw)
        (dxe_bind (bound_checkpoints job d) (j_run_epoch job) (new_ctx job (k_step_timeout k)))
        (run.after (j_id job) (j_run_epoch job) (v_run_at v) (timeout_interval (effective_timeout w1 k job)) d)
      = (Inr result, c2, d2)"
    and tame: "jobs_ok d2" "lookup_job d2 (j_id job) = Some j2" "fenced (j_id job) (j_run_epoch job) j2"
  shows "\<exists>d' r. process_job w v job d = (Inr (), w1, d')
    \<and> lookup_job d' (j_id job) = Some r \<and> j_state r = Finished
    \<and> j_result r = (if ad_save_result (j_admin_data job) = Some False \<or> result = JNull then None else Some result)
    \<and> j_run_epoch r = j_run_epoch job + 1
    \<and> (\<forall>m q. lookup_job d2 m = Some q \<and> j_state q = Waiting \<and> j_waitfor_job q = Some (j_id job)
          \<and> m \<notin> v_wake_locked v \<longrightarrow> (\<exists>q'. lookup_job d' m = Some q' \<and> j_state q' = Queued))"
proof -
  let ?i = "j_id job" and ?e = "j_run_epoch job" and ?r = "stored_result job result"
  let ?d3 = "finished.after ?i ?e (v_end_at v) ?r d2"
  have fin: "stmt_finished (v_end_at v) ?i ?r ?e d2 = Inr ([finished_set (v_end_at v) ?r j2], ?d3)"
    "lookup_job ?d3 ?i = Some (finished_set (v_end_at v) ?r j2)"
    using finished.live [OF tame] by (simp_all add: stmt_finished_def)
  have set: "settled ?d3 ?i ?e" and ok3: "jobs_ok ?d3"
    using finished.settles [OF tame(1)] fin(1) by (auto simp: stmt_finished_def)
  obtain d' where wake: "wake_dependents v job ?d3 = (Inr (), d')"
    using wake_dependents_settled [OF ok3 set, of v job] by blast
  have fstate: "j_state (finished_set (v_end_at v) ?r j2) = Finished" by (simp add: row_simps)
  note woken = wake_dependents_wakes [OF ok3 fin(2) fstate wake]
  have "process_job w v job d = (Inr (), w1, d')"
    using run.live(1) [OF ok row live, of "v_run_at v" "timeout_interval (effective_timeout w1 k job)"]
      calm kwargs found task fin(1) wake
    by (simp add: process_job_def process_body_def Let_def stmt_run_def run_set_def)
  moreover have "lookup_job d' ?i = Some (finished_set (v_end_at v) ?r j2)"
    using woken [OF fin(2)] fstate by auto
  moreover have "\<exists>q'. lookup_job d' m = Some q' \<and> j_state q' = Queued"
    if "lookup_job d2 m = Some q" "j_state q = Waiting" "j_waitfor_job q = Some ?i" "m \<notin> v_wake_locked v" for m q
  proof -
    have "\<not> fenced ?i ?e q" using that(2) by (simp add: fenced_def IN_FLIGHT_STATES_def)
    then have "lookup_job ?d3 m = Some q" using that(1) by (simp add: finished.after_lookup)
    from woken [OF this] that show ?thesis by auto
  qed
  ultimately show ?thesis
    using tame(3) by (intro exI [of _ d']) (auto simp: row_simps stored_result_def fenced_def)
qed

theorem completion_is_recorded_and_wakes_witness:
  "\<exists>w1 d' r q. process_job new_worker (plain_env (Inr (JInt 42))) claimed_row
      (seed_db [(claimed_row, [Queued, Claimed]),
                ((default_jorb 0 8)\<lparr>j_state := Waiting, j_waitfor_job := Some 7\<rparr>, [Waiting])])
    = (Inr (), w1, d')
    \<and> lookup_job d' 7 = Some r \<and> j_state r = Finished \<and> j_result r = Some (JInt 42)
    \<and> lookup_job d' 8 = Some q \<and> j_state q = Queued"
proof -
  let ?w = "(default_jorb 0 8)\<lparr>j_state := Waiting, j_waitfor_job := Some 7\<rparr>"
  let ?d = "seed_db [(claimed_row, [Queued, Claimed]), (?w, [Waiting])]"
  let ?v = "plain_env (Inr (JInt 42))"
  let ?k = "pure_class (Inr (JInt 42))"
  let ?d1 = "run.after 7 1 20 None ?d"
  have ok: "jobs_ok ?d" by (simp add: seed_simps claimed_row_def)
  have row: "lookup_job ?d 7 = Some claimed_row" "lookup_job ?d 8 = Some ?w"
    by (simp_all add: lookup_job_def seed_db_def)
  have live: "fenced 7 1 claimed_row" by (simp add: fenced_def IN_FLIGHT_STATES_def)
  obtain w1 where res: "resolve_job_class (new_worker\<lparr>wk_processed := wk_processed new_worker + 1\<rparr>) ?v
      (j_job_class claimed_row) = (Inr ?k, w1)" "wk_default_timeout w1 = None"
    by (simp add: resolve_job_class_def new_worker_def plain_env_def)
  have t: "effective_timeout w1 ?k claimed_row = None"
    using res(2) by (simp add: effective_timeout_def no_admin_data_def pure_class_def)
  have kw: "upstream_kwargs claimed_row ?d = Inr (j_kwargs claimed_row)"
    by (simp add: upstream_kwargs_def no_admin_data_def)
  have env: "v_run_at ?v = 20" "v_wake_locked ?v = {}" "timeout_interval None = None"
    by (simp_all add: plain_env_def timeout_interval_def)
  have pure: "resolve ?k kws c d1 = (Inr (JInt 42), c, d1)" for kws c d1
    by (simp add: resolve_def pure_class_def)
  have d1: "jobs_ok ?d1" "lookup_job ?d1 7 = Some (run_set 20 None claimed_row)"
    "lookup_job ?d1 8 = Some ?w"
    using run.after_ok [OF ok] by (simp_all add: run.after_lookup row live fenced_def)
  have f: "fenced 7 1 (run_set 20 None claimed_row)"
    by (simp add: fenced_def run_set_def IN_FLIGHT_STATES_def)
  note applied = completion_is_recorded_and_wakes [where job = claimed_row and d = ?d and w = new_worker and v = ?v
        and j = claimed_row and kw = "j_kwargs claimed_row" and k = ?k and ?w1.0 = w1 and result = "JInt 42"
        and ?c2.0 = "dxe_bind (bound_checkpoints claimed_row ?d) 1 (new_ctx claimed_row (k_step_timeout ?k))"
        and ?d2.0 = ?d1 and ?j2.0 = "run_set 20 None claimed_row", unfolded t claimed_row_simps env]
  have "\<exists>d' r. process_job new_worker ?v claimed_row ?d = (Inr (), w1, d')
    \<and> lookup_job d' 7 = Some r \<and> j_state r = Finished
    \<and> j_result r = (if ad_save_result no_admin_data = Some False \<or> JInt 42 = JNull then None else Some (JInt 42))
    \<and> j_run_epoch r = 1 + 1
    \<and> (\<forall>m q. lookup_job ?d1 m = Some q \<and> j_state q = Waiting \<and> j_waitfor_job q = Some 7 \<and> m \<notin> {}
          \<longrightarrow> (\<exists>q'. lookup_job d' m = Some q' \<and> j_state q' = Queued))"
    by (rule applied) (use ok row live d1 f kw res(1) in \<open>simp_all add: execute_job_def pure\<close>)
  then obtain d' r where d': "process_job new_worker ?v claimed_row ?d = (Inr (), w1, d')"
    "lookup_job d' 7 = Some r" "j_state r = Finished" "j_result r = Some (JInt 42)"
    and woken: "\<And>m q. lookup_job ?d1 m = Some q \<Longrightarrow> j_state q = Waiting \<Longrightarrow> j_waitfor_job q = Some 7
      \<Longrightarrow> \<exists>q'. lookup_job d' m = Some q' \<and> j_state q' = Queued"
    by (auto simp: no_admin_data_def)
  from woken [OF d1(3)] d' show ?thesis by auto
qed

end
