(* ===== verification/Dag.thy ===== *)
theory Dag
  imports Store
begin

text \<open>
  \<open>pyjobby/dag.py\<close>: the graph a \<open>DAGBuilder\<close> collects, its validation, its levels and the
  wait groups of its fan-in nodes. A node is identified by its \<open>node_id\<close>, as its equality and
  hash are; a dependency list holds the ids of the nodes it references. Python's iteration
  order over the set of remaining nodes is unspecified; here it is the order of the builder.
\<close>

section \<open>The builder\<close>

record dag_node =
  dn_id :: nat
  dn_job_class :: string
  dn_kwargs :: "(string \<times> json) list"
  dn_depends_on :: "nat list"
  dn_job_options :: "(string \<times> json) list"

datatype dag_error =
    NodeIdentity string
  | NotInDag string nat
  | ContainsCycle
  | SharedDependency string "nat list"
  | KeyError nat

record dag_builder =
  db_name :: "string option"
  db_common_options :: "(string \<times> json) list"
  db_nodes :: "dag_node list"

definition refuse_identity :: "dag_node \<Rightarrow> dag_error option" where
  "refuse_identity n =
     (case map_of (dn_job_options n) ''identity_key'' of
        None \<Rightarrow> None
      | Some v \<Rightarrow> if v = JNull then None else Some (NodeIdentity (dn_job_class n)))"

text \<open>\<open>for dep in depends_on: if dep not in deps: deps.append(dep)\<close>\<close>

fun dedup :: "nat list \<Rightarrow> nat list \<Rightarrow> nat list" where
  "dedup deps [] = deps"
| "dedup deps (d # ds) = dedup (if d \<in> set deps then deps else deps @ [d]) ds"

text \<open>\<open>add\<close>, with the fresh \<open>node_id\<close> it draws.\<close>

definition add_node ::
  "nat \<Rightarrow> string \<Rightarrow> (string \<times> json) list \<Rightarrow> nat list \<Rightarrow> (string \<times> json) list \<Rightarrow> dag_builder
     \<Rightarrow> dag_error + (dag_node \<times> dag_builder)" where
  "add_node fresh job_class kwargs depends_on options b =
     (let n = \<lparr>dn_id = fresh, dn_job_class = job_class, dn_kwargs = kwargs,
               dn_depends_on = dedup [] depends_on,
               dn_job_options = dict_merge (db_common_options b) options\<rparr>
      in case refuse_identity n of
           Some e \<Rightarrow> Inl e
         | None \<Rightarrow> Inr (n, b\<lparr>db_nodes := db_nodes b @ [n]\<rparr>))"

lemma set_dedup [simp]: "set (dedup deps ds) = set deps \<union> set ds"
  by (induction deps ds rule: dedup.induct) auto

lemma distinct_dedup: "distinct deps \<Longrightarrow> distinct (dedup deps ds)"
  by (induction deps ds rule: dedup.induct) auto

section \<open>The graph\<close>

definition deps_of :: "dag_node list \<Rightarrow> nat \<Rightarrow> nat list" where
  "deps_of ns i = (case find_row dn_id i ns of None \<Rightarrow> [] | Some n \<Rightarrow> dn_depends_on n)"

definition ids :: "dag_node list \<Rightarrow> nat set" where
  "ids ns = dn_id ` set ns"

definition depends :: "dag_node list \<Rightarrow> (nat \<times> nat) set" where
  "depends ns = {(i, d). d \<in> set (deps_of ns i)}"

lemma finite_ids [simp]: "finite (ids ns)"
  by (simp add: ids_def)

lemma deps_of_outside: "i \<notin> ids ns \<Longrightarrow> deps_of ns i = []"
  using find_row_None [of dn_id i ns] by (simp add: deps_of_def ids_def)

lemma depends_source: "(i, d) \<in> depends ns \<Longrightarrow> i \<in> ids ns"
  using deps_of_outside by (fastforce simp: depends_def)

lemma deps_of_node:
  "distinct (map dn_id ns) \<Longrightarrow> n \<in> set ns \<Longrightarrow> deps_of ns (dn_id n) = dn_depends_on n"
  using find_row_Some [of dn_id ns "dn_id n" n] by (simp add: deps_of_def)

section \<open>The cycle check\<close>

text \<open>
  The nested function \<open>has_cycle\<close>, its loop over \<open>node.depends_on\<close> inlined: \<open>cycle_from\<close> is
  the loop, and visiting a dependency is the call on it. The visited set and the recursion
  stack are threaded through, and the stack gives a node up when its loop ends.
\<close>

function (sequential) cycle_from ::
  "dag_node list \<Rightarrow> nat list \<Rightarrow> nat list \<Rightarrow> nat list \<Rightarrow> bool \<times> nat list \<times> nat list" where
  "cycle_from ns [] visited stack = (False, visited, stack)"
| "cycle_from ns (d # ds) visited stack =
     (if d \<notin> set visited then
        (let r = cycle_from ns (deps_of ns d) (d # visited) (d # stack)
         in if fst r then r else cycle_from ns ds (fst (snd r)) (removeAll d (snd (snd r))))
      else if d \<in> set stack then (True, visited, stack)
      else cycle_from ns ds visited stack)"
  by pat_completeness auto

lemma cycle_from_visited:
  "cycle_from_dom (ns, ds, vs, st) \<Longrightarrow> set vs \<subseteq> set (fst (snd (cycle_from ns ds vs st)))"
proof (induction ns ds vs st rule: cycle_from.pinduct)
  case (1 ns vs st)
  then show ?case by (simp add: cycle_from.psimps)
next
  case (2 ns d ds vs st)
  let ?r = "cycle_from ns (deps_of ns d) (d # vs) (d # st)"
  show ?case
  proof (cases "d \<in> set vs")
    case True
    with 2 show ?thesis by (cases "d \<in> set st") (simp_all add: cycle_from.psimps)
  next
    case False
    have inner: "set vs \<subseteq> set (fst (snd ?r))" using 2(2) [OF False] by auto
    have outer: "set (fst (snd ?r))
        \<subseteq> set (fst (snd (cycle_from ns ds (fst (snd ?r)) (removeAll d (snd (snd ?r))))))" if "\<not> fst ?r"
      using 2(3) [OF False refl that] .
    show ?thesis
    proof (cases "fst ?r")
      case True
      then have "cycle_from ns (d # ds) vs st = ?r"
        using False by (simp add: cycle_from.psimps 2(1) Let_def)
      with inner show ?thesis by simp
    next
      case nf: False
      then have "cycle_from ns (d # ds) vs st = cycle_from ns ds (fst (snd ?r)) (removeAll d (snd (snd ?r)))"
        using False by (simp add: cycle_from.psimps 2(1) Let_def)
      with inner outer [OF nf] show ?thesis by simp
    qed
  qed
qed

termination cycle_from
proof (relation "measures [\<lambda>(ns, ds, vs, st). card (ids ns - set vs), \<lambda>(ns, ds, vs, st). length ds]",
    goal_cases)
  case (2 ns d ds vs st)
  show ?case
  proof (cases "d \<in> ids ns")
    case True
    with 2 have "card (ids ns - set (d # vs)) < card (ids ns - set vs)"
      by (intro psubset_card_mono) auto
    then show ?thesis by simp
  next
    case False
    then have "ids ns - set (d # vs) = ids ns - set vs" by auto
    with deps_of_outside [OF False] show ?thesis by simp
  qed
next
  case (3 ns d ds vs st r)
  have "set vs \<subseteq> set (fst (snd r))"
    using cycle_from_visited [of ns "deps_of ns d" "d # vs" "d # st"] 3 by auto
  then have "card (ids ns - set (fst (snd r))) \<le> card (ids ns - set vs)"
    by (intro card_mono) auto
  then show ?case by auto
qed simp_all

text \<open>\<open>has_cycle(node)\<close>, and the loop of \<open>validate\<close> over the nodes.\<close>

definition has_cycle :: "dag_node list \<Rightarrow> nat \<Rightarrow> nat list \<Rightarrow> nat list \<Rightarrow> bool \<times> nat list \<times> nat list" where
  "has_cycle ns i visited stack =
     (let r = cycle_from ns (deps_of ns i) (i # visited) (i # stack)
      in if fst r then r else (False, fst (snd r), removeAll i (snd (snd r))))"

fun cycle_check :: "dag_node list \<Rightarrow> nat list \<Rightarrow> nat list \<Rightarrow> nat list \<Rightarrow> bool" where
  "cycle_check ns [] visited stack = False"
| "cycle_check ns (i # todo) visited stack =
     (if i \<notin> set visited then
        (let r = has_cycle ns i visited stack
         in fst r \<or> cycle_check ns todo (fst (snd r)) (snd (snd r)))
      else cycle_check ns todo visited stack)"

text \<open>
  What a call leaves: on \<open>True\<close>, a cycle; on \<open>False\<close>, the stack as it was, and the nodes
  visited but not on the stack closed under dependency and free of cycles.
\<close>

definition explored :: "dag_node list \<Rightarrow> nat set \<Rightarrow> bool" where
  "explored ns D \<longleftrightarrow> depends ns `` D \<subseteq> D \<and> (\<forall>x \<in> D. (x, x) \<notin> (depends ns)\<^sup>+)"

lemma explored_reach:
  assumes "explored ns D" and "x \<in> D" and "(x, y) \<in> (depends ns)\<^sup>+"
  shows "y \<in> D"
  using assms(3,2) assms(1) by (induction rule: trancl_induct) (auto simp: explored_def)

lemma explored_insert:
  assumes "explored ns D" and "set (deps_of ns d) \<subseteq> D" and "d \<notin> D"
  shows "explored ns (insert d D)"
proof -
  have step: "x \<in> D" if "(d, x) \<in> depends ns" for x
    using that assms(2) by (auto simp: depends_def)
  have "(d, d) \<notin> (depends ns)\<^sup>+"
  proof
    assume "(d, d) \<in> (depends ns)\<^sup>+"
    then obtain x where x: "(d, x) \<in> depends ns" "(x, d) \<in> (depends ns)\<^sup>*"
      by (auto dest: tranclD)
    with step have "x \<in> D" by blast
    with x(2) explored_reach [OF assms(1)] assms(3) show False
      by (metis rtranclD)
  qed
  with assms(1) step show ?thesis by (auto simp: explored_def)
qed

definition left_clean :: "dag_node list \<Rightarrow> nat list \<Rightarrow> nat list \<Rightarrow> nat list \<Rightarrow> bool \<times> nat list \<times> nat list \<Rightarrow> bool" where
  "left_clean ns ds vs st r \<longleftrightarrow>
     (if fst r then \<not> acyclic (depends ns)
      else snd (snd r) = st \<and> set vs \<subseteq> set (fst (snd r)) \<and> explored ns (set (fst (snd r)) - set st)
           \<and> set ds \<subseteq> set (fst (snd r)) - set st)"

lemma cycle_from_correct:
  assumes "set st \<subseteq> set vs" and "\<forall>s \<in> set st. \<forall>d \<in> set ds. (s, d) \<in> (depends ns)\<^sup>+"
    and "explored ns (set vs - set st)"
  shows "left_clean ns ds vs st (cycle_from ns ds vs st)"
  using assms
proof (induction ns ds vs st rule: cycle_from.induct)
  case (1 ns vs st)
  then show ?case by (simp add: left_clean_def)
next
  case (2 ns d ds vs st)
  let ?r = "cycle_from ns (deps_of ns d) (d # vs) (d # st)"
  show ?case
  proof (cases "d \<in> set vs")
    case True
    show ?thesis
    proof (cases "d \<in> set st")
      case on: True
      with "2.prems"(2) have "(d, d) \<in> (depends ns)\<^sup>+" by simp
      then have "\<not> acyclic (depends ns)" by (auto simp: acyclic_def)
      with True on show ?thesis by (simp add: left_clean_def)
    next
      case False
      have "left_clean ns ds vs st (cycle_from ns ds vs st)"
        by (rule 2(3)) (use True False "2.prems" in auto)
      with True False show ?thesis by (auto simp: left_clean_def split: if_splits)
    qed
  next
    case False
    have fresh: "d \<notin> set st" using False "2.prems"(1) by auto
    have down: "(s, e) \<in> (depends ns)\<^sup>+" if "s \<in> set (d # st)" "e \<in> set (deps_of ns d)" for s e
    proof -
      have "(d, e) \<in> depends ns" using that(2) by (simp add: depends_def)
      with that(1) "2.prems"(2) show ?thesis by (auto intro: trancl_into_trancl)
    qed
    have "set (d # vs) - set (d # st) = set vs - set st" using False by auto
    then have inner: "left_clean ns (deps_of ns d) (d # vs) (d # st) ?r"
      by (intro 2(1)) (use False down "2.prems" in auto)
    show ?thesis
    proof (cases "fst ?r")
      case True
      with inner False show ?thesis by (simp add: left_clean_def Let_def)
    next
      case nf: False
      let ?vs = "fst (snd ?r)"
      have restored: "removeAll d (snd (snd ?r)) = st"
        using inner nf fresh by (simp add: left_clean_def)
      have sub: "set (d # vs) \<subseteq> set ?vs" using inner nf by (simp add: left_clean_def)
      have "insert d (set ?vs - set (d # st)) = set ?vs - set st" using sub fresh by auto
      moreover have "explored ns (insert d (set ?vs - set (d # st)))"
        using inner nf by (intro explored_insert) (auto simp: left_clean_def)
      ultimately have expl: "explored ns (set ?vs - set st)" by simp
      have outer: "left_clean ns ds ?vs st (cycle_from ns ds ?vs st)"
        using 2(2) [OF False refl nf] "2.prems" sub expl by (auto simp: restored)
      have "cycle_from ns (d # ds) vs st = cycle_from ns ds ?vs st"
        using False nf by (simp add: Let_def restored)
      with outer sub fresh show ?thesis by (auto simp: left_clean_def split: if_splits)
    qed
  qed
qed

lemma has_cycle_correct:
  assumes "explored ns (set vs)" and "i \<notin> set vs"
  shows "left_clean ns [i] vs [] (has_cycle ns i vs [])"
proof -
  let ?r = "cycle_from ns (deps_of ns i) (i # vs) [i]"
  have r: "left_clean ns (deps_of ns i) (i # vs) [i] ?r"
    using assms by (intro cycle_from_correct) (auto simp: depends_def)
  show ?thesis
  proof (cases "fst ?r")
    case True
    with r show ?thesis by (simp add: has_cycle_def left_clean_def Let_def)
  next
    case False
    have "insert i (set (fst (snd ?r)) - {i}) = set (fst (snd ?r))"
      using r False by (auto simp: left_clean_def)
    moreover have "explored ns (insert i (set (fst (snd ?r)) - {i}))"
      using r False by (intro explored_insert) (auto simp: left_clean_def)
    ultimately show ?thesis
      using r False by (auto simp: has_cycle_def left_clean_def Let_def)
  qed
qed

lemma cycle_check_correct:
  assumes "explored ns (set vs)" and "ids ns \<subseteq> set todo \<union> set vs"
  shows "cycle_check ns todo vs [] \<longleftrightarrow> \<not> acyclic (depends ns)"
  using assms
proof (induction todo arbitrary: vs)
  case Nil
  have "(x, x) \<notin> (depends ns)\<^sup>+" for x
  proof
    assume x: "(x, x) \<in> (depends ns)\<^sup>+"
    then have "x \<in> ids ns" by (auto dest!: tranclD depends_source)
    with x Nil show False by (auto simp: explored_def)
  qed
  then show ?case by (simp add: acyclic_def)
next
  case (Cons i todo)
  show ?case
  proof (cases "i \<in> set vs")
    case True
    with Cons show ?thesis by auto
  next
    case False
    let ?r = "has_cycle ns i vs []"
    note r = has_cycle_correct [OF Cons.prems(1) False]
    show ?thesis
    proof (cases "fst ?r")
      case True
      with r False show ?thesis by (simp add: left_clean_def Let_def)
    next
      case nf: False
      have "cycle_check ns todo (fst (snd ?r)) [] \<longleftrightarrow> \<not> acyclic (depends ns)"
        by (rule Cons.IH) (use r nf Cons.prems(2) in \<open>auto simp: left_clean_def\<close>)
      moreover have "snd (snd ?r) = []" using r nf by (simp add: left_clean_def)
      ultimately show ?thesis using False nf by (simp add: Let_def)
    qed
  qed
qed

section \<open>Levels\<close>

text \<open>
  \<open>topological_sort\<close>: the in-degrees, then level by level. A level that comes out empty while
  nodes remain is the error; otherwise its nodes leave one by one, each taking one off the
  in-degree of every remaining node that lists it.
\<close>

definition in_degrees :: "dag_node list \<Rightarrow> nat \<Rightarrow> int" where
  "in_degrees ns = foldl (\<lambda>deg n. deg(dn_id n := deg (dn_id n) + int (length (dn_depends_on n)))) (\<lambda>_. 0) ns"

fun remove_level ::
  "dag_node list \<Rightarrow> nat list \<Rightarrow> nat list \<Rightarrow> (nat \<Rightarrow> int) \<Rightarrow> nat list \<times> (nat \<Rightarrow> int)" where
  "remove_level ns [] remaining deg = (remaining, deg)"
| "remove_level ns (i # level) remaining deg =
     (let rest = removeAll i remaining
      in remove_level ns level rest
           (\<lambda>k. if k \<in> set rest \<and> i \<in> set (deps_of ns k) then deg k - 1 else deg k))"

lemma remove_level_remaining [simp]:
  "fst (remove_level ns level remaining deg) = filter (\<lambda>k. k \<notin> set level) remaining"
proof (induction ns level remaining deg rule: remove_level.induct)
  case (2 ns i level remaining deg)
  then show ?case by (simp add: Let_def removeAll_filter_not_eq) (metis (mono_tags, lifting) filter_cong)
qed simp

function topo_levels ::
  "dag_node list \<Rightarrow> nat list \<Rightarrow> (nat \<Rightarrow> int) \<Rightarrow> dag_error + nat list list" where
  "topo_levels ns remaining deg =
     (if remaining = [] then Inr []
      else let level = filter (\<lambda>k. deg k = 0) remaining
           in if level = [] then Inl ContainsCycle
              else case topo_levels ns (fst (remove_level ns level remaining deg))
                          (snd (remove_level ns level remaining deg)) of
                     Inl e \<Rightarrow> Inl e
                   | Inr levels \<Rightarrow> Inr (level # levels))"
  by pat_completeness auto

termination topo_levels
proof (relation "measure (\<lambda>(ns, remaining, deg). length remaining)", goal_cases)
  case (2 ns remaining deg level)
  then obtain k where k: "k \<in> set remaining" "k \<in> set level" by (auto simp: filter_empty_conv)
  have "length (filter (\<lambda>k. k \<notin> set level) remaining) < length remaining"
    by (rule length_filter_less [of k]) (use k in auto)
  then show ?case by simp
qed simp

declare topo_levels.simps [simp del]

definition topological_sort :: "dag_node list \<Rightarrow> dag_error + nat list list" where
  "topological_sort ns = topo_levels ns (remdups (map dn_id ns)) (in_degrees ns)"

section \<open>The levels are a topological order\<close>

text \<open>
  A builder whose nodes and dependency lists have no duplicates and stay inside the graph, as
  \<open>add\<close> and the second check of \<open>validate\<close> guarantee.
\<close>

definition graph_wf :: "dag_node list \<Rightarrow> bool" where
  "graph_wf ns \<longleftrightarrow> distinct (map dn_id ns)
     \<and> list_all (\<lambda>n. distinct (dn_depends_on n) \<and> set (dn_depends_on n) \<subseteq> ids ns) ns"

lemma graph_wf_deps:
  assumes "graph_wf ns"
  shows "distinct (deps_of ns i) \<and> set (deps_of ns i) \<subseteq> ids ns"
proof (cases "i \<in> ids ns")
  case True
  then obtain n where "n \<in> set ns" "i = dn_id n" by (auto simp: ids_def)
  with assms show ?thesis by (auto simp: graph_wf_def deps_of_node list_all_iff)
qed (simp add: deps_of_outside)

text \<open>What an in-degree counts: the dependencies that still remain.\<close>

definition counts :: "dag_node list \<Rightarrow> nat list \<Rightarrow> (nat \<Rightarrow> int) \<Rightarrow> bool" where
  "counts ns remaining deg \<longleftrightarrow> distinct remaining
     \<and> (\<forall>k \<in> set remaining. deg k = int (length (filter (\<lambda>d. d \<in> set remaining) (deps_of ns k))))"

lemma in_degrees_fold:
  "foldl (\<lambda>deg n. deg(dn_id n := deg (dn_id n) + int (length (dn_depends_on n)))) a ns k =
     a k + (\<Sum>n\<leftarrow>ns. if dn_id n = k then int (length (dn_depends_on n)) else 0)"
  by (induction ns arbitrary: a) auto

lemma sum_one_node:
  "distinct (map dn_id ns) \<Longrightarrow>
   (\<Sum>n\<leftarrow>ns. if dn_id n = k then int (length (dn_depends_on n)) else 0) = int (length (deps_of ns k))"
proof (induction ns)
  case (Cons n ns)
  have "deps_of ns k = []" if "dn_id n = k"
    using that Cons.prems by (intro deps_of_outside) (auto simp: ids_def)
  with Cons show ?case by (auto simp: deps_of_def)
qed (simp add: deps_of_def)

lemma counts_initially:
  assumes "graph_wf ns"
  shows "counts ns (remdups (map dn_id ns)) (in_degrees ns)"
proof -
  have "filter (\<lambda>d. d \<in> dn_id ` set ns) (deps_of ns k) = deps_of ns k" for k
    using graph_wf_deps [OF assms, of k] by (auto simp: filter_id_conv ids_def)
  with assms show ?thesis
    by (auto simp: counts_def in_degrees_def in_degrees_fold sum_one_node graph_wf_def)
qed

lemma length_filter_removeAll:
  "distinct ds \<Longrightarrow> i \<in> set rem \<Longrightarrow>
   length (filter (\<lambda>d. d \<in> set rem) ds) =
     length (filter (\<lambda>d. d \<in> set (removeAll i rem)) ds) + (if i \<in> set ds then 1 else 0)"
  by (induction ds) auto

lemma counts_remove:
  assumes "graph_wf ns" and "counts ns remaining deg" and "distinct level" "set level \<subseteq> set remaining"
  shows "counts ns (fst (remove_level ns level remaining deg)) (snd (remove_level ns level remaining deg))"
  using assms
proof (induction ns level remaining deg rule: remove_level.induct)
  case (2 ns i level remaining deg)
  let ?rest = "removeAll i remaining"
  note wf = conjunct1 [OF graph_wf_deps [OF 2(2)]] and cnt = 2(3)
  have i: "i \<in> set remaining" using 2(5) by simp
  have here: "deg k - (if i \<in> set (deps_of ns k) then 1 else 0)
      = int (length (filter (\<lambda>d. d \<in> set ?rest) (deps_of ns k)))" if "k \<in> set ?rest" for k
    using that cnt length_filter_removeAll [OF wf i, of k] by (simp add: counts_def)
  have "counts ns ?rest (\<lambda>k. if k \<in> set ?rest \<and> i \<in> set (deps_of ns k) then deg k - 1 else deg k)"
    using here cnt by (fastforce simp: counts_def distinct_removeAll)
  with 2 show ?case by (auto simp: Let_def)
qed simp

lemma level_no_deps:
  assumes "counts ns remaining deg" and "k \<in> set (filter (\<lambda>k. deg k = 0) remaining)"
  shows "set (deps_of ns k) \<inter> set remaining = {}"
  using assms by (auto simp: counts_def filter_empty_conv)

text \<open>Each level's dependencies among the nodes at hand are in the levels before it.\<close>

fun ordered_levels :: "dag_node list \<Rightarrow> nat set \<Rightarrow> nat list list \<Rightarrow> bool" where
  "ordered_levels ns later [] = True"
| "ordered_levels ns later (level # levels) \<longleftrightarrow>
     (\<forall>k \<in> set level. set (deps_of ns k) \<inter> later = {})
     \<and> ordered_levels ns (later - set level) levels"

lemma topo_levels_sound:
  assumes "graph_wf ns" and "counts ns remaining deg" and "topo_levels ns remaining deg = Inr levels"
  shows "distinct (concat levels) \<and> set (concat levels) = set remaining
    \<and> ordered_levels ns (set remaining) levels
    \<and> (\<exists>rank :: nat \<Rightarrow> nat. \<forall>k \<in> set remaining. \<forall>d \<in> set (deps_of ns k) \<inter> set remaining. rank d < rank k)"
  using assms
proof (induction ns remaining deg arbitrary: levels rule: topo_levels.induct)
  case (1 ns remaining deg)
  let ?level = "filter (\<lambda>k. deg k = 0) remaining"
  let ?next = "remove_level ns ?level remaining deg"
  show ?case
  proof (cases "remaining = []")
    case True
    with 1(4) show ?thesis by (auto simp: topo_levels.simps [of ns "[]"])
  next
    case False
    with 1(4) have level: "?level \<noteq> []"
      by (auto simp: topo_levels.simps [of ns remaining] Let_def split: if_splits)
    with 1(4) False obtain rest where rest: "topo_levels ns (fst ?next) (snd ?next) = Inr rest"
      "levels = ?level # rest"
      by (auto simp: topo_levels.simps [of ns remaining] Let_def split: sum.splits)
    have dist: "distinct remaining" using 1(3) by (simp add: counts_def)
    have sub: "set ?level \<subseteq> set remaining" by auto
    note nodeps = level_no_deps [OF 1(3)]
    have next_set: "set (fst ?next) = set remaining - set ?level" by auto
    have "counts ns (fst ?next) (snd ?next)"
      by (rule counts_remove [OF 1(2) 1(3)]) (use dist in auto)
    from 1(1) [OF False refl level 1(2) this rest(1)] obtain rank :: "nat \<Rightarrow> nat"
      where IH: "distinct (concat rest)" "set (concat rest) = set remaining - set ?level"
        "ordered_levels ns (set remaining - set ?level) rest"
        and rank: "\<forall>k \<in> set remaining - set ?level. \<forall>d \<in> set (deps_of ns k) \<inter> (set remaining - set ?level).
          rank d < rank k"
      unfolding next_set by blast
    let ?rank = "\<lambda>k. if k \<in> set ?level then 0 else Suc (rank k)"
    have "?rank d < ?rank k" if "k \<in> set remaining" "d \<in> set (deps_of ns k) \<inter> set remaining" for k d
      using that nodeps [of k] rank by auto
    then have "\<exists>rank :: nat \<Rightarrow> nat. \<forall>k \<in> set remaining. \<forall>d \<in> set (deps_of ns k) \<inter> set remaining. rank d < rank k"
      by (intro exI [of _ ?rank] ballI)
    moreover have "distinct (concat levels)" using IH(1,2) dist by (auto simp: rest(2))
    moreover have "set (concat levels) = set remaining" using IH(2) sub by (auto simp: rest(2))
    moreover have "ordered_levels ns (set remaining) levels" using IH(3) nodeps by (simp add: rest(2))
    ultimately show ?thesis by blast
  qed
qed

lemma finite_depends: "finite (depends ns)"
proof (rule finite_subset)
  show "depends ns \<subseteq> Sigma (ids ns) (\<lambda>i. set (deps_of ns i))"
    using depends_source by (auto simp: depends_def)
qed auto

lemma topo_levels_progress:
  assumes "graph_wf ns" and "acyclic (depends ns)" and "counts ns remaining deg"
  shows "\<exists>levels. topo_levels ns remaining deg = Inr levels"
  using assms
proof (induction ns remaining deg rule: topo_levels.induct)
  case (1 ns remaining deg)
  let ?level = "filter (\<lambda>k. deg k = 0) remaining"
  let ?next = "remove_level ns ?level remaining deg"
  show ?case
  proof (cases "remaining = []")
    case True
    then show ?thesis by (simp add: topo_levels.simps [of ns "[]"])
  next
    case False
    have "wf ((depends ns)\<inverse>)"
      by (rule finite_acyclic_wf_converse [OF finite_depends 1(3)])
    then obtain k where k: "k \<in> set remaining" "\<And>d. (d, k) \<in> (depends ns)\<inverse> \<Longrightarrow> d \<notin> set remaining"
      using False by (metis wfE_min' set_empty)
    then have "filter (\<lambda>d. d \<in> set remaining) (deps_of ns k) = []"
      by (auto simp: depends_def filter_empty_conv)
    with 1(4) k(1) have "k \<in> set ?level" by (simp add: counts_def)
    then have level: "?level \<noteq> []" by (metis empty_iff empty_set)
    have "counts ns (fst ?next) (snd ?next)"
      by (rule counts_remove [OF 1(2) 1(4)]) (use 1(4) in \<open>auto simp: counts_def\<close>)
    with 1(1) [OF False refl level 1(2,3)] False level show ?thesis
      by (auto simp: topo_levels.simps [of ns remaining] Let_def)
  qed
qed

lemma ranked_acyclic:
  assumes "\<forall>k \<in> ids ns. \<forall>d \<in> set (deps_of ns k) \<inter> ids ns. rank d < (rank k :: nat)" and "graph_wf ns"
  shows "acyclic (depends ns)"
proof -
  have "(depends ns)\<inverse> \<subseteq> measure rank"
    using assms graph_wf_deps [OF assms(2)] depends_source by (fastforce simp: depends_def)
  then have "acyclic ((depends ns)\<inverse>)" by (rule acyclic_subset [OF wf_acyclic [OF wf_measure]])
  then show ?thesis by simp
qed

end
