(* ===== verification/DagGroups.thy ===== *)
theory DagGroups
  imports Dag
begin

text \<open>
  The wait groups of \<open>pyjobby/dag.py\<close> (\<open>dependency_groups\<close>): a union-find over the
  dependency sets of the fan-in nodes, the members of each class, and the check that no
  member is downstream of a waiter; and \<open>validate\<close>, which calls it last.
\<close>

section \<open>Union-find\<close>

text \<open>
  The dict \<open>parent\<close> as a function: a node without an entry is its own parent, which is what
  \<open>setdefault\<close> makes of it. Following the parents may in principle not end (\<open>None\<close>).
\<close>

partial_function (option) find_root :: "(nat \<Rightarrow> nat) \<Rightarrow> nat \<Rightarrow> nat option" where
  "find_root parent root =
     (if parent root = root then Some root else find_root parent (parent root))"

declare find_root.simps [code]

definition uf_find :: "(nat \<Rightarrow> nat) \<Rightarrow> nat \<Rightarrow> (nat \<times> (nat \<Rightarrow> nat)) option" where
  "uf_find parent node =
     (case find_root parent node of None \<Rightarrow> None | Some root \<Rightarrow> Some (root, parent(node := root)))"

text \<open>\<open>parent[find(dep)] = find(first)\<close>: the right-hand side first.\<close>

definition uf_union :: "(nat \<Rightarrow> nat) \<Rightarrow> nat \<times> nat \<Rightarrow> (nat \<Rightarrow> nat) option" where
  "uf_union parent fd =
     Option.bind (uf_find parent (fst fd)) (\<lambda>(first_root, p1).
     Option.bind (uf_find p1 (snd fd)) (\<lambda>(dep_root, p2).
     Some (p2(dep_root := first_root))))"

fun unite_all :: "(nat \<Rightarrow> nat) \<Rightarrow> (nat \<times> nat) list \<Rightarrow> (nat \<Rightarrow> nat) option" where
  "unite_all p [] = Some p"
| "unite_all p (fd # fds) = Option.bind (uf_union p fd) (\<lambda>p'. unite_all p' fds)"

section \<open>Groups\<close>

definition fan_in :: "dag_node list \<Rightarrow> dag_node list" where
  "fan_in ns = filter (\<lambda>n. 1 < length (dn_depends_on n)) ns"

definition union_pairs :: "dag_node list \<Rightarrow> (nat \<times> nat) list" where
  "union_pairs fans = concat (map (\<lambda>n. map (\<lambda>d. (hd (dn_depends_on n), d)) (tl (dn_depends_on n))) fans)"

fun collect_members ::
  "(nat \<Rightarrow> nat) \<Rightarrow> (nat \<Rightarrow> nat list) \<Rightarrow> nat list \<Rightarrow> ((nat \<Rightarrow> nat) \<times> (nat \<Rightarrow> nat list)) option" where
  "collect_members p members [] = Some (p, members)"
| "collect_members p members (d # ds) =
     Option.bind (uf_find p d) (\<lambda>(r, p').
       collect_members p' (members(r := members r @ [d])) ds)"

definition in_dag_order :: "dag_node list \<Rightarrow> (nat \<Rightarrow> nat list) \<Rightarrow> nat \<Rightarrow> nat list" where
  "in_dag_order ns members r = filter (\<lambda>i. i \<in> set (members r)) (map dn_id ns)"

text \<open>\<open>_downstream_sets\<close>: the dependents of a node, and a search from it with a stack.\<close>

definition dependents :: "dag_node list \<Rightarrow> nat \<Rightarrow> nat list" where
  "dependents ns i =
     concat (map (\<lambda>n. map (\<lambda>d. dn_id n) (filter (\<lambda>d. d = i) (dn_depends_on n))) ns)"

definition fresh_children :: "dag_node list \<Rightarrow> nat list \<Rightarrow> nat \<Rightarrow> nat list" where
  "fresh_children ns reached i = dedup [] (filter (\<lambda>c. c \<notin> set reached) (dependents ns i))"

lemma set_dependents: "set (dependents ns i) = dn_id ` {n \<in> set ns. i \<in> set (dn_depends_on n)}"
  by (auto simp: dependents_def)

function reach_loop :: "dag_node list \<Rightarrow> nat list \<Rightarrow> nat list \<Rightarrow> nat list" where
  "reach_loop ns reached [] = reached"
| "reach_loop ns reached (i # stack) =
     reach_loop ns (reached @ fresh_children ns reached i) (rev (fresh_children ns reached i) @ stack)"
  by pat_completeness auto

termination reach_loop
proof (relation "measures [\<lambda>(ns, reached, stack). card (ids ns - set reached), \<lambda>(ns, reached, stack). length stack]",
    goal_cases)
  case (2 ns reached i stack)
  let ?new = "fresh_children ns reached i"
  show ?case
  proof (cases "?new = []")
    case False
    then obtain c where c: "c \<in> set ?new" by (metis ex_in_conv set_empty)
    have new: "set ?new \<subseteq> ids ns - set reached"
      by (auto simp: fresh_children_def set_dependents ids_def)
    with c have "card (ids ns - set (reached @ ?new)) < card (ids ns - set reached)"
      by (intro psubset_card_mono) auto
    then show ?thesis by simp
  qed simp
qed simp

definition downstream :: "dag_node list \<Rightarrow> nat \<Rightarrow> nat list" where
  "downstream ns i = reach_loop ns [i] [i]"

text \<open>A dependency outside the graph has no entry in \<open>dependents\<close>: \<open>KeyError\<close>.\<close>

definition missing_dep :: "dag_node list \<Rightarrow> nat option" where
  "missing_dep ns = List.find (\<lambda>d. d \<notin> ids ns) (concat (map dn_depends_on ns))"

text \<open>The check over the fan-in nodes, and the result over them.\<close>

fun check_groups ::
  "dag_node list \<Rightarrow> (nat \<Rightarrow> nat list) \<Rightarrow> (nat \<Rightarrow> nat) \<Rightarrow> dag_node list
     \<Rightarrow> (dag_error option \<times> (nat \<Rightarrow> nat)) option" where
  "check_groups ns members p [] = Some (None, p)"
| "check_groups ns members p (n # fans) =
     Option.bind (uf_find p (hd (dn_depends_on n))) (\<lambda>(r, p').
       let blocked = filter (\<lambda>o'. o' \<in> set (downstream ns (dn_id n))) (members r)
       in if blocked \<noteq> [] then Some (Some (SharedDependency (dn_job_class n) blocked), p')
          else check_groups ns members p' fans)"

fun group_table ::
  "(nat \<Rightarrow> nat list) \<Rightarrow> (nat \<Rightarrow> nat) \<Rightarrow> dag_node list \<Rightarrow> (nat \<times> nat list) list option" where
  "group_table members p [] = Some []"
| "group_table members p (n # fans) =
     Option.bind (uf_find p (hd (dn_depends_on n))) (\<lambda>(r, p').
     Option.bind (group_table members p' fans) (\<lambda>rest. Some ((dn_id n, members r) # rest)))"

definition dependency_groups :: "dag_node list \<Rightarrow> (dag_error + (nat \<times> nat list) list) option" where
  "dependency_groups ns =
     (let fans = fan_in ns
      in if fans = [] then Some (Inr [])
         else
           Option.bind (unite_all (\<lambda>i. i) (union_pairs fans)) (\<lambda>p.
           Option.bind (collect_members p (\<lambda>r. []) (concat (map dn_depends_on fans))) (\<lambda>(p, members).
           let members = in_dag_order ns members
           in case missing_dep ns of
                Some d \<Rightarrow> Some (Inl (KeyError d))
              | None \<Rightarrow>
                  Option.bind (check_groups ns members p fans) (\<lambda>(err, p).
                    case err of
                      Some e \<Rightarrow> Some (Inl e)
                    | None \<Rightarrow> map_option Inr (group_table members p fans)))))"

section \<open>Validation\<close>

definition check_membership :: "dag_node list \<Rightarrow> dag_error option" where
  "check_membership ns =
     first_error (\<lambda>n. first_error (\<lambda>d. if d \<in> ids ns then None else Some (NotInDag (dn_job_class n) d))
       (dn_depends_on n)) ns"

definition validate_dag :: "dag_node list \<Rightarrow> (dag_error + unit) option" where
  "validate_dag ns =
     (case first_error refuse_identity ns of
        Some e \<Rightarrow> Some (Inl e)
      | None \<Rightarrow>
     (case check_membership ns of
        Some e \<Rightarrow> Some (Inl e)
      | None \<Rightarrow>
          if cycle_check ns (map dn_id ns) [] [] then Some (Inl ContainsCycle)
          else map_option (\<lambda>r. case r of Inl e \<Rightarrow> Inl e | Inr _ \<Rightarrow> Inr ()) (dependency_groups ns)))"

section \<open>Following the parents ends\<close>

definition parents :: "(nat \<Rightarrow> nat) \<Rightarrow> (nat \<times> nat) set" where
  "parents p = {(x, p x) |x. p x \<noteq> x}"

definition forest :: "(nat \<Rightarrow> nat) \<Rightarrow> bool" where
  "forest p \<longleftrightarrow> finite {x. p x \<noteq> x} \<and> acyclic (parents p)"

lemma forest_wf: "forest p \<Longrightarrow> wf ((parents p)\<inverse>)"
proof (rule finite_acyclic_wf_converse)
  assume "forest p"
  then have "finite ((\<lambda>x. (x, p x)) ` {x. p x \<noteq> x})" by (simp add: forest_def)
  moreover have "(\<lambda>x. (x, p x)) ` {x. p x \<noteq> x} = parents p" by (auto simp: parents_def)
  ultimately show "finite (parents p)" by simp
qed (simp add: forest_def)

lemma forest_induct [consumes 1, case_names step]:
  assumes "forest p" and "\<And>x. (p x \<noteq> x \<Longrightarrow> P (p x)) \<Longrightarrow> P x"
  shows "P x"
  using forest_wf [OF assms(1)]
proof (induction x rule: wf_induct_rule)
  case (less x)
  show ?case
  proof (rule assms(2))
    assume "p x \<noteq> x"
    then have "(p x, x) \<in> (parents p)\<inverse>" by (auto simp: parents_def)
    then show "P (p x)" by (rule less)
  qed
qed

definition rep :: "(nat \<Rightarrow> nat) \<Rightarrow> nat \<Rightarrow> nat" where
  "rep p x = the (find_root p x)"

lemma find_root_step:
  "find_root p x = (if p x = x then Some x else find_root p (p x))"
  by (rule find_root.simps)

lemma find_root_rep:
  assumes "forest p"
  shows "find_root p x = Some (rep p x) \<and> p (rep p x) = rep p x \<and> (x, rep p x) \<in> (parents p)\<^sup>*"
  using assms
proof (induction x rule: forest_induct)
  case (step x)
  show ?case
  proof (cases "p x = x")
    case True
    then have "find_root p x = Some x" by (subst find_root_step) simp
    with True show ?thesis by (simp add: rep_def)
  next
    case False
    then have up: "find_root p x = find_root p (p x)" by (subst find_root_step) simp
    then have "rep p x = rep p (p x)" by (simp add: rep_def)
    moreover have "(x, p x) \<in> parents p" using False by (auto simp: parents_def)
    ultimately show ?thesis
      using step [OF False] up by (auto intro: converse_rtrancl_into_rtrancl)
  qed
qed

lemma rep_step: "rep p x = (if p x = x then x else rep p (p x))"
  unfolding rep_def by (subst find_root_step) simp

lemma rep_root: "p r = r \<Longrightarrow> rep p r = r"
  by (subst rep_step) simp

lemma rep_up: "p x \<noteq> x \<Longrightarrow> rep p x = rep p (p x)"
  by (subst rep_step) simp

lemma rep_rep: "forest p \<Longrightarrow> rep p (rep p x) = rep p x"
  using find_root_rep [of p x] by (simp add: rep_root)

text \<open>Path compression changes no representative.\<close>

lemma compress:
  assumes "forest p" and q: "q = p(x := rep p x)"
  shows "forest q \<and> rep q y = rep p y"
proof -
  have qx: "q x = rep p x" and qz: "\<And>z. z \<noteq> x \<Longrightarrow> q z = p z" by (simp_all add: q)
  have "parents q \<subseteq> (parents p)\<^sup>+"
  proof
    fix e
    assume "e \<in> parents q"
    then obtain z where z: "e = (z, q z)" "q z \<noteq> z" by (auto simp: parents_def)
    show "e \<in> (parents p)\<^sup>+"
    proof (cases "z = x")
      case True
      with z qx find_root_rep [OF assms(1), of x] show ?thesis by (auto simp: rtrancl_eq_or_trancl)
    next
      case False
      with z qz show ?thesis by (auto simp: parents_def)
    qed
  qed
  moreover have "acyclic ((parents p)\<^sup>+)" using assms by (simp add: forest_def acyclic_def)
  ultimately have "acyclic (parents q)" by (metis acyclic_subset)
  moreover have "finite {z. q z \<noteq> z}"
    by (rule finite_subset [of _ "insert x {z. p z \<noteq> z}"]) (use assms qz in \<open>auto simp: forest_def\<close>)
  ultimately have f: "forest q" by (simp add: forest_def)
  have root: "q (rep p z) = rep p z" for z
    using find_root_rep [OF assms(1), of z] rep_rep [OF assms(1), of z] qx qz by metis
  have "rep q y = rep p y"
    using assms(1)
  proof (induction y rule: forest_induct)
    case (step y)
    show ?case
    proof (cases "y = x")
      case True
      show ?thesis
      proof (cases "q x = x")
        case t: True
        then show ?thesis using rep_root [of q x] qx True by simp
      next
        case False
        then have "rep q x = rep q (rep p x)" using rep_up [of q x] qx by simp
        then show ?thesis using rep_root [of q "rep p x"] root [of x] True by simp
      qed
    next
      case False
      show ?thesis
      proof (cases "p y = y")
        case True
        then show ?thesis using rep_root [of q y] rep_root [of p y] qz [OF False] by simp
      next
        case up: False
        then show ?thesis using rep_up [of q y] rep_up [of p y] qz [OF False] step [OF up] by simp
      qed
    qed
  qed
  with f show ?thesis by simp
qed

lemma uf_find_rep:
  assumes "forest p"
  shows "\<exists>q. uf_find p x = Some (rep p x, q) \<and> forest q \<and> rep q = rep p"
proof -
  have "uf_find p x = Some (rep p x, p(x := rep p x))"
    using find_root_rep [OF assms, of x] by (simp add: uf_find_def)
  with compress [OF assms refl, of x] show ?thesis by blast
qed

lemma link:
  assumes "forest p" and "p a = a" "p b = b" "a \<noteq> b" and q: "q = p(b := a)"
  shows "forest q \<and> rep q y = (if rep p y = b then a else rep p y)"
proof -
  have qb: "q b = a" and qz: "\<And>z. z \<noteq> b \<Longrightarrow> q z = p z" by (simp_all add: q)
  have "parents q = insert (b, a) (parents p)"
    using assms qb qz by (auto simp: parents_def)
  moreover have "(a, b) \<notin> (parents p)\<^sup>*"
    using assms by (auto simp: parents_def elim: converse_rtranclE)
  ultimately have "acyclic (parents q)" using assms by (simp add: forest_def)
  moreover have "finite {z. q z \<noteq> z}"
    by (rule finite_subset [of _ "insert b {z. p z \<noteq> z}"]) (use assms qz in \<open>auto simp: forest_def\<close>)
  ultimately have f: "forest q" by (simp add: forest_def)
  have ra: "rep q a = a" using rep_root [of q a] qz assms by simp
  have "rep q y = (if rep p y = b then a else rep p y)"
    using assms(1)
  proof (induction y rule: forest_induct)
    case (step y)
    show ?case
    proof (cases "p y = y")
      case True
      then have "rep p y = y" by (rule rep_root)
      then show ?thesis
        using True rep_up [of q b] rep_root [of q y] qb qz [of y] ra assms(4) by (cases "y = b") auto
    next
      case False
      with assms(3) have "y \<noteq> b" by auto
      then show ?thesis using False rep_up [of q y] rep_up [of p y] qz [of y] step [OF False] by simp
    qed
  qed
  with f show ?thesis by simp
qed

lemma uf_union_rep:
  assumes "forest p"
  shows "\<exists>q. uf_union p fd = Some q \<and> forest q \<and> rep q (fst fd) = rep q (snd fd)
    \<and> (\<forall>x y. rep p x = rep p y \<longrightarrow> rep q x = rep q y)"
proof -
  obtain p1 where 1: "uf_find p (fst fd) = Some (rep p (fst fd), p1)" "forest p1" "rep p1 = rep p"
    using uf_find_rep [OF assms] by blast
  obtain p2 where 2: "uf_find p1 (snd fd) = Some (rep p (snd fd), p2)" "forest p2" "rep p2 = rep p"
    using uf_find_rep [OF 1(2), of "snd fd"] 1(3) by auto
  let ?a = "rep p (fst fd)" and ?b = "rep p (snd fd)"
  have fix2: "p2 ?a = ?a" "p2 ?b = ?b"
    using find_root_rep [OF 2(2), of "fst fd"] find_root_rep [OF 2(2), of "snd fd"] 2(3) by simp_all
  have run: "uf_union p fd = Some (p2(?b := ?a))"
    using 1(1) 2(1) by (simp add: uf_union_def)
  show ?thesis
  proof (cases "?a = ?b")
    case True
    then have "p2(?b := ?a) = p2" using fix2 by (simp add: fun_upd_idem)
    with run True 2 show ?thesis by auto
  next
    case False
    note l = link [OF 2(2) fix2 False refl]
    show ?thesis
    proof (intro exI conjI allI impI)
      show "uf_union p fd = Some (p2(?b := ?a))" by (rule run)
      show "forest (p2(?b := ?a))" using l by blast
      show "rep (p2(?b := ?a)) (fst fd) = rep (p2(?b := ?a)) (snd fd)"
        using l [of "fst fd"] l [of "snd fd"] False 2(3) by simp
      fix x y
      assume "rep p x = rep p y"
      then show "rep (p2(?b := ?a)) x = rep (p2(?b := ?a)) y"
        using l [of x] l [of y] 2(3) by simp
    qed
  qed
qed

lemma unite_all_rep:
  "forest p \<Longrightarrow> \<exists>q. unite_all p fds = Some q \<and> forest q
     \<and> (\<forall>(a, b) \<in> set fds. rep q a = rep q b) \<and> (\<forall>x y. rep p x = rep p y \<longrightarrow> rep q x = rep q y)"
proof (induction fds arbitrary: p)
  case (Cons fd fds)
  obtain q where q: "uf_union p fd = Some q" "forest q" "rep q (fst fd) = rep q (snd fd)"
    "\<forall>x y. rep p x = rep p y \<longrightarrow> rep q x = rep q y"
    using uf_union_rep [OF Cons.prems, of fd] by blast
  obtain q' where q': "unite_all q fds = Some q'" "forest q'" "\<forall>(a, b) \<in> set fds. rep q' a = rep q' b"
    "\<forall>x y. rep q x = rep q y \<longrightarrow> rep q' x = rep q' y"
    using Cons.IH [OF q(2)] by blast
  have "rep q' (fst fd) = rep q' (snd fd)" using q(3) q'(4) by blast
  then have "\<forall>(a, b) \<in> set (fd # fds). rep q' a = rep q' b" using q'(3) by (cases fd) simp
  moreover have "unite_all p (fd # fds) = Some q'" using q(1) q'(1) by simp
  moreover have "\<forall>x y. rep p x = rep p y \<longrightarrow> rep q' x = rep q' y" 
    by (intro allI impI q'(4) [rule_format] q(4) [rule_format])
  ultimately show ?case using q'(2) by (intro exI [of _ q'] conjI)
qed simp

lemma collect_members_rep:
  "forest p \<Longrightarrow> \<exists>q. collect_members p members ds
      = Some (q, \<lambda>r. members r @ filter (\<lambda>d. rep p d = r) ds) \<and> forest q \<and> rep q = rep p"
proof (induction ds arbitrary: p members)
  case (Cons d ds)
  obtain p1 where 1: "uf_find p d = Some (rep p d, p1)" "forest p1" "rep p1 = rep p"
    using uf_find_rep [OF Cons.prems] by blast
  let ?m = "members(rep p d := members (rep p d) @ [d])"
  obtain q where q: "collect_members p1 ?m ds = Some (q, \<lambda>r. ?m r @ filter (\<lambda>d. rep p1 d = r) ds)"
    "forest q" "rep q = rep p1"
    using Cons.IH [OF 1(2)] by blast
  have "(\<lambda>r. ?m r @ filter (\<lambda>d. rep p1 d = r) ds) = (\<lambda>r. members r @ filter (\<lambda>d. rep p d = r) (d # ds))"
    by (auto simp: fun_eq_iff 1(3))
  with 1 q show ?case by (simp add: fun_upd_def)
qed simp

lemma check_groups_rep:
  "forest p \<Longrightarrow> \<exists>err q. check_groups ns members p fans = Some (err, q) \<and> forest q \<and> rep q = rep p
     \<and> (err = None \<longrightarrow> (\<forall>n \<in> set fans.
          set (members (rep p (hd (dn_depends_on n)))) \<inter> set (downstream ns (dn_id n)) = {}))"
proof (induction fans arbitrary: p)
  case (Cons n fans)
  obtain p1 where 1: "uf_find p (hd (dn_depends_on n)) = Some (rep p (hd (dn_depends_on n)), p1)"
    "forest p1" "rep p1 = rep p"
    using uf_find_rep [OF Cons.prems] by blast
  let ?blocked = "filter (\<lambda>o'. o' \<in> set (downstream ns (dn_id n))) (members (rep p (hd (dn_depends_on n))))"
  obtain err q where q: "check_groups ns members p1 fans = Some (err, q)" "forest q" "rep q = rep p1"
    "err = None \<longrightarrow> (\<forall>n \<in> set fans.
        set (members (rep p1 (hd (dn_depends_on n)))) \<inter> set (downstream ns (dn_id n)) = {})"
    using Cons.IH [OF 1(2)] by blast
  show ?case
  proof (cases "?blocked = []")
    case True
    then have "set (members (rep p (hd (dn_depends_on n)))) \<inter> set (downstream ns (dn_id n)) = {}"
      by (auto simp: filter_empty_conv)
    moreover have "check_groups ns members p (n # fans) = Some (err, q)"
      using True 1(1) q(1) by simp
    ultimately show ?thesis using q 1(3) by simp
  next
    case False
    then have "check_groups ns members p (n # fans)
        = Some (Some (SharedDependency (dn_job_class n) ?blocked), p1)"
      using 1(1) by (simp add: Let_def)
    with 1 show ?thesis by blast
  qed
qed simp

lemma group_table_rep:
  "forest p \<Longrightarrow> group_table members p fans
     = Some (map (\<lambda>n. (dn_id n, members (rep p (hd (dn_depends_on n))))) fans)"
proof (induction fans arbitrary: p)
  case (Cons n fans)
  obtain p1 where 1: "uf_find p (hd (dn_depends_on n)) = Some (rep p (hd (dn_depends_on n)), p1)"
    "forest p1" "rep p1 = rep p"
    using uf_find_rep [OF Cons.prems] by blast
  from Cons.IH [OF 1(2)] 1 show ?case by simp
qed simp

lemma forest_id: "forest (\<lambda>i. i)"
  by (simp add: forest_def parents_def acyclic_def)

text \<open>The representatives the unions leave, and the groups over them.\<close>

lemma dependency_groups_eq:
  assumes "fan_in ns \<noteq> []" and "missing_dep ns = None"
  shows "\<exists>rp. (\<forall>n \<in> set (fan_in ns). \<forall>d \<in> set (dn_depends_on n). rp d = rp (hd (dn_depends_on n)))
    \<and> (\<exists>r. dependency_groups ns = Some r
        \<and> (\<forall>table. r = Inr table \<longrightarrow>
             table = map (\<lambda>n. (dn_id n, in_dag_order ns (\<lambda>r. filter (\<lambda>d. rp d = r)
                        (concat (map dn_depends_on (fan_in ns)))) (rp (hd (dn_depends_on n))))) (fan_in ns)
             \<and> (\<forall>(i, group) \<in> set table. set group \<inter> set (downstream ns i) = {})))"
proof -
  let ?fans = "fan_in ns"
  obtain p where p: "unite_all (\<lambda>i. i) (union_pairs ?fans) = Some p" "forest p"
    "\<forall>(a, b) \<in> set (union_pairs ?fans). rep p a = rep p b"
    using unite_all_rep [OF forest_id] by blast
  let ?members = "\<lambda>r. filter (\<lambda>d. rep p d = r) (concat (map dn_depends_on ?fans))"
  obtain q where q: "collect_members p (\<lambda>r. []) (concat (map dn_depends_on ?fans)) = Some (q, ?members)"
    "forest q" "rep q = rep p"
    using collect_members_rep [OF p(2), of "\<lambda>r. []"] by auto
  let ?groups = "in_dag_order ns ?members"
  obtain err q2 where c: "check_groups ns ?groups q ?fans = Some (err, q2)" "forest q2" "rep q2 = rep q"
    "err = None \<longrightarrow> (\<forall>n \<in> set ?fans. set (?groups (rep q (hd (dn_depends_on n)))) \<inter> set (downstream ns (dn_id n)) = {})"
    using check_groups_rep [OF q(2)] by blast
  have same: "rep p d = rep p (hd (dn_depends_on n))" if "n \<in> set ?fans" "d \<in> set (dn_depends_on n)" for n d
  proof (cases "d = hd (dn_depends_on n)")
    case False
    with that(2) have "d \<in> set (tl (dn_depends_on n))" by (cases "dn_depends_on n") auto
    with that(1) have "(hd (dn_depends_on n), d) \<in> set (union_pairs ?fans)" by (auto simp: union_pairs_def)
    with p(3) show ?thesis by fastforce
  qed simp
  have "dependency_groups ns = Some (case err of Some e \<Rightarrow> Inl e
      | None \<Rightarrow> Inr (map (\<lambda>n. (dn_id n, ?groups (rep p (hd (dn_depends_on n))))) ?fans))"
    using assms p(1) q(1,3) c group_table_rep [OF c(2)]
    by (simp add: dependency_groups_def Let_def split: option.split)
  with same c(4) q(3) show ?thesis by (intro exI [of _ "rep p"]) (auto split: option.splits)
qed

section \<open>The search reaches what is downstream\<close>

lemma reach_loop_closed:
  assumes "set stack \<subseteq> set reached" and "\<forall>x \<in> set reached - set stack. set (dependents ns x) \<subseteq> set reached"
  shows "set reached \<subseteq> set (reach_loop ns reached stack)
    \<and> (\<forall>x \<in> set (reach_loop ns reached stack). set (dependents ns x) \<subseteq> set (reach_loop ns reached stack))"
  using assms
proof (induction ns reached stack rule: reach_loop.induct)
  case (2 ns reached i stack)
  let ?new = "fresh_children ns reached i"
  have all: "set (dependents ns i) \<subseteq> set (reached @ ?new)" by (auto simp: fresh_children_def)
  then have "\<forall>x \<in> set (reached @ ?new) - set (rev ?new @ stack). set (dependents ns x) \<subseteq> set (reached @ ?new)"
    using 2(3) by auto
  moreover have "set (rev ?new @ stack) \<subseteq> set (reached @ ?new)" using 2(2) by auto
  ultimately have "set (reached @ ?new) \<subseteq> set (reach_loop ns (reached @ ?new) (rev ?new @ stack))
    \<and> (\<forall>x \<in> set (reach_loop ns (reached @ ?new) (rev ?new @ stack)).
          set (dependents ns x) \<subseteq> set (reach_loop ns (reached @ ?new) (rev ?new @ stack)))"
    using 2(1) by blast
  then show ?case by simp
qed auto

lemma downstream_complete:
  assumes "(j, i) \<in> (depends ns)\<^sup>*"
  shows "j \<in> set (downstream ns i)"
proof -
  have base: "i \<in> set (downstream ns i)"
    and closed: "\<And>x. x \<in> set (downstream ns i) \<Longrightarrow> set (dependents ns x) \<subseteq> set (downstream ns i)"
    using reach_loop_closed [of "[i]" "[i]" ns] by (auto simp: downstream_def)
  show ?thesis
    using assms
  proof (induction rule: converse_rtrancl_induct)
    case (step j k)
    from step(1) obtain n where "find_row dn_id j ns = Some n" "k \<in> set (dn_depends_on n)"
      by (cases "find_row dn_id j ns") (auto simp: depends_def deps_of_def)
    then have "j \<in> set (dependents ns k)" by (auto simp: set_dependents dest: find_row_SomeD)
    with closed [OF step(3)] show ?case by blast
  qed (rule base)
qed

lemma graph_wf_missing: "graph_wf ns \<Longrightarrow> missing_dep ns = None"
  by (fastforce simp: missing_dep_def graph_wf_def list_all_iff find_None_iff)

lemma dependency_groups_returns: "missing_dep ns = None \<Longrightarrow> \<exists>r. dependency_groups ns = Some r"
proof (cases "fan_in ns = []")
  case True
  then show ?thesis by (simp add: dependency_groups_def)
next
  case False
  assume "missing_dep ns = None"
  from dependency_groups_eq [OF False this] show ?thesis by blast
qed

lemma topo_levels_error: "topo_levels ns remaining deg = Inl e \<Longrightarrow> e = ContainsCycle"
proof (induction ns remaining deg rule: topo_levels.induct)
  case (1 ns remaining deg)
  from 1(2) have "remaining \<noteq> []" by (auto simp: topo_levels.simps [of ns "[]"])
  with 1 show ?case
    by (cases "filter (\<lambda>k. deg k = 0) remaining = []")
      (auto simp: topo_levels.simps [of ns remaining] Let_def split: sum.splits)
qed

section \<open>What the builder promises\<close>

text \<open>
  \<open>topological_sort\<close> ends, and is exact: on a graph with a cycle it raises, and on any
  other it returns every node once, in levels each of which depends only on earlier ones.
\<close>

theorem topological_sort_is_exact:
  assumes "graph_wf ns"
  shows "case topological_sort ns of
      Inl e \<Rightarrow> e = ContainsCycle \<and> \<not> acyclic (depends ns)
    | Inr levels \<Rightarrow> acyclic (depends ns) \<and> distinct (concat levels) \<and> set (concat levels) = ids ns
        \<and> ordered_levels ns (ids ns) levels"
proof -
  have ids: "set (remdups (map dn_id ns)) = ids ns" by (simp add: ids_def)
  note cnt = counts_initially [OF assms]
  show ?thesis
  proof (cases "topological_sort ns")
    case (Inl e)
    then show ?thesis
      using topo_levels_error topo_levels_progress [OF assms _ cnt] by (auto simp: topological_sort_def)
  next
    case (Inr levels)
    then show ?thesis
      using topo_levels_sound [OF assms cnt] ranked_acyclic [OF _ assms]
      unfolding topological_sort_def ids by auto
  qed
qed

text \<open>Three nodes of an ETL pipeline: two fetches and a transform of both.\<close>

definition etl_dag :: "dag_node list" where
  "etl_dag = [\<lparr>dn_id = 0, dn_job_class = ''Fetch'', dn_kwargs = [], dn_depends_on = [], dn_job_options = []\<rparr>,
     \<lparr>dn_id = 1, dn_job_class = ''Fetch'', dn_kwargs = [], dn_depends_on = [], dn_job_options = []\<rparr>,
     \<lparr>dn_id = 2, dn_job_class = ''Transform'', dn_kwargs = [], dn_depends_on = [0, 1], dn_job_options = []\<rparr>]"

lemma etl_wf: "graph_wf etl_dag"
  by (simp add: graph_wf_def etl_dag_def ids_def)

theorem topological_sort_is_exact_witness:
  "topological_sort etl_dag = Inr [[0, 1], [2]] \<and> acyclic (depends etl_dag)"
proof -
  have "topological_sort etl_dag = Inr [[0, 1], [2]]" by code_simp
  with topological_sort_is_exact [OF etl_wf] show ?thesis by simp
qed

lemma check_membership_wf: "graph_wf ns \<Longrightarrow> check_membership ns = None"
  by (fastforce simp: check_membership_def first_error_None graph_wf_def list_all_iff)



text \<open>
  C27. A wait group never waits for less than the node depends on. The groups are computed
  without fail; every fan-in node's group holds all its dependencies, two fan-in nodes that
  share a dependency share their group, and no group holds a node downstream of its waiter.
\<close>

theorem wait_groups_cover_dependencies:
  assumes "graph_wf ns"
  shows "\<exists>r. dependency_groups ns = Some r
    \<and> (\<forall>table. r = Inr table \<longrightarrow> (\<forall>n \<in> set (fan_in ns). \<exists>group. (dn_id n, group) \<in> set table
          \<and> set (dn_depends_on n) \<subseteq> set group
          \<and> (\<forall>j \<in> set group. (j, dn_id n) \<notin> (depends ns)\<^sup>*)
          \<and> (\<forall>m \<in> set (fan_in ns). set (dn_depends_on m) \<inter> set (dn_depends_on n) \<noteq> {}
                \<longrightarrow> (dn_id m, group) \<in> set table)))"
proof (cases "fan_in ns = []")
  case True
  then show ?thesis by (simp add: dependency_groups_def)
next
  case False
  let ?all = "concat (map dn_depends_on (fan_in ns))"
  note eq = dependency_groups_eq [OF False graph_wf_missing [OF assms]]
  from eq obtain rp where rp: "\<forall>n \<in> set (fan_in ns). \<forall>d \<in> set (dn_depends_on n). rp d = rp (hd (dn_depends_on n))"
    and ex: "\<exists>r. dependency_groups ns = Some r
        \<and> (\<forall>table. r = Inr table \<longrightarrow>
             table = map (\<lambda>n. (dn_id n, in_dag_order ns (\<lambda>r. filter (\<lambda>d. rp d = r) ?all) (rp (hd (dn_depends_on n))))) (fan_in ns)
             \<and> (\<forall>(i, group) \<in> set table. set group \<inter> set (downstream ns i) = {}))"
    by (rule exE) (erule conjE, rule that)
  from ex obtain r where r: "dependency_groups ns = Some r"
    and tables: "\<forall>table. r = Inr table \<longrightarrow>
             table = map (\<lambda>n. (dn_id n, in_dag_order ns (\<lambda>r. filter (\<lambda>d. rp d = r) ?all) (rp (hd (dn_depends_on n))))) (fan_in ns)
             \<and> (\<forall>(i, group) \<in> set table. set group \<inter> set (downstream ns i) = {})"
    by (elim exE conjE)
  from tables have table: "\<And>table. r = Inr table \<Longrightarrow>
             table = map (\<lambda>n. (dn_id n, in_dag_order ns (\<lambda>r. filter (\<lambda>d. rp d = r) ?all) (rp (hd (dn_depends_on n))))) (fan_in ns)"
    by simp
  from tables have clear: "\<And>table i group. r = Inr table \<Longrightarrow> (i, group) \<in> set table \<Longrightarrow> set group \<inter> set (downstream ns i) = {}"
    by blast
  let ?group = "\<lambda>n. in_dag_order ns (\<lambda>r. filter (\<lambda>d. rp d = r) ?all) (rp (hd (dn_depends_on n)))"
  have entry: "(dn_id n, ?group n) \<in> set table" if "r = Inr table" "n \<in> set (fan_in ns)" for n table
    using that table by auto
  have cover: "set (dn_depends_on n) \<subseteq> set (?group n)" if "n \<in> set (fan_in ns)" for n
  proof
    fix d
    assume d: "d \<in> set (dn_depends_on n)"
    have "d \<in> ids ns" using d that assms by (auto simp: graph_wf_def list_all_iff fan_in_def)
    moreover have "rp d = rp (hd (dn_depends_on n))" using rp that d by blast
    moreover have "d \<in> set ?all" using d that by auto
    ultimately show "d \<in> set (?group n)" by (simp add: in_dag_order_def ids_def)
  qed
  have shared: "?group m = ?group n" if "m \<in> set (fan_in ns)" "n \<in> set (fan_in ns)"
    "set (dn_depends_on m) \<inter> set (dn_depends_on n) \<noteq> {}" for m n
  proof -
    from that(3) obtain d where "d \<in> set (dn_depends_on m)" "d \<in> set (dn_depends_on n)" by blast
    with rp that have "rp (hd (dn_depends_on m)) = rp (hd (dn_depends_on n))" by metis
    then show ?thesis by simp
  qed
  have "\<exists>group. (dn_id n, group) \<in> set table \<and> set (dn_depends_on n) \<subseteq> set group
      \<and> (\<forall>j \<in> set group. (j, dn_id n) \<notin> (depends ns)\<^sup>*)
      \<and> (\<forall>m \<in> set (fan_in ns). set (dn_depends_on m) \<inter> set (dn_depends_on n) \<noteq> {}
            \<longrightarrow> (dn_id m, group) \<in> set table)"
    if t: "r = Inr table" and n: "n \<in> set (fan_in ns)" for table n
  proof (intro exI conjI ballI impI)
    show "(dn_id n, ?group n) \<in> set table" by (rule entry [OF t n])
    show "set (dn_depends_on n) \<subseteq> set (?group n)" by (rule cover [OF n])
    show "(j, dn_id n) \<notin> (depends ns)\<^sup>*" if "j \<in> set (?group n)" for j
      using clear [OF t entry [OF t n]] downstream_complete that by blast
    show "(dn_id m, ?group n) \<in> set table"
      if "m \<in> set (fan_in ns)" "set (dn_depends_on m) \<inter> set (dn_depends_on n) \<noteq> {}" for m
      using entry [OF t that(1)] shared [OF that(1) n that(2)] by simp
  qed
  with r show ?thesis by blast
qed

theorem wait_groups_cover_dependencies_witness:
  "\<exists>r. dependency_groups etl_dag = Some r \<and> r = Inr [(2, [0, 1])]"
proof -
  obtain r where "dependency_groups etl_dag = Some r"
    using wait_groups_cover_dependencies [OF etl_wf] by blast
  moreover have "dependency_groups etl_dag = Some (Inr [(2, [0, 1])])" by code_simp
  ultimately show ?thesis by simp
qed

section \<open>A graph that is accepted and never runs\<close>

text \<open>What the job of a node waits for: its one dependency, or its whole group.\<close>

definition waits_for :: "dag_node list \<Rightarrow> (nat \<times> nat list) list \<Rightarrow> nat \<Rightarrow> nat list" where
  "waits_for ns table i =
     (if length (deps_of ns i) \<le> 1 then deps_of ns i
      else (case map_of table i of None \<Rightarrow> [] | Some js \<Rightarrow> js))"

definition crossed_dag :: "dag_node list" where
  "crossed_dag = map (\<lambda>(i, ds). \<lparr>dn_id = i, dn_job_class = ''J'', dn_kwargs = [], dn_depends_on = ds,
       dn_job_options = []\<rparr>)
     [(0, []), (1, []), (2, [12]), (3, []), (4, []), (5, [10]),
      (10, [0, 1]), (11, [1, 2]), (12, [3, 4]), (13, [4, 5])]"

text \<open>
  Crossed wait groups deadlock. The graph above is acyclic and passes \<open>validate\<close>, but the
  check looks at one group at a time: the fan-in 10 waits, through the dependency 1 that it
  shares, for 2, which waits for 12, which waits through 4 for 5, which waits for 10.
\<close>

theorem crossed_groups_deadlock:
  "\<exists>table. validate_dag crossed_dag = Some (Inr ()) \<and> dependency_groups crossed_dag = Some (Inr table)
    \<and> \<not> acyclic {(i, w). w \<in> set (waits_for crossed_dag table i)}"
proof (intro exI conjI)
  let ?table = "[(10, [0, 1, 2]), (11, [0, 1, 2]), (12, [3, 4, 5]), (13, [3, 4, 5])]"
  show "validate_dag crossed_dag = Some (Inr ())" by code_simp
  show "dependency_groups crossed_dag = Some (Inr ?table)" by code_simp
  let ?w = "{(i, w). w \<in> set (waits_for crossed_dag ?table i)}"
  have "(10, 2) \<in> ?w" "(2, 12) \<in> ?w" "(12, 5) \<in> ?w" "(5, 10) \<in> ?w"
    by (simp_all add: waits_for_def deps_of_def crossed_dag_def)
  then have "(10, 10) \<in> ?w\<^sup>+" by (meson trancl.r_into_trancl trancl_into_trancl)
  then show "\<not> acyclic ?w" by (auto simp: acyclic_def)
qed

end
