(* ===== verification/Enqueue.thy ===== *)
theory Enqueue
  imports System
begin

text \<open>
  The enqueue paths of \<open>pyjobby/client.py\<close>: the one construction path of a row with every
  refusal, the plain, identified and debounced statements, the batch, the chain and the
  fan-out. A speculative statement races other transactions: what they commit while it
  waits, and between two attempts, is a parameter.
\<close>

section \<open>Options\<close>

text \<open>
  A call's keyword arguments, as the dict they arrive in: \<open>Kwarg\<close> is any name
  \<open>build_enqueue_row\<close> does not declare, which is the job's own argument.
\<close>

datatype enqueue_option =
    Queue string
  | Priority int
  | RunAfter "instant option"
  | Capability "string option"
  | Uid "int option"
  | RunGroup "int option"
  | WaitforJob "int option"
  | WaitforGroup "int option"
  | DeadlineKey "string option"
  | IdentityKey "string option"
  | DebounceKey "string option"
  | DebounceDeadline "instant option"
  | PartitionKey "string option"
  | AppVersion json
  | AdminData "admin_data option"
  | Tags json
  | SaveResult bool
  | UseResultFrom "int option"
  | RetryStrategyName string
  | MaxRetries int
  | InitialRetryDelay int
  | MaxRetryDelay int
  | TimeoutSeconds "int option"
  | OnTimeout string
  | PrioCeiling int
  | JobKwargs "(string \<times> json) list option"
  | ScheduleId "int option"
  | Kwarg string json

text \<open>
  A call that unpacks two dicts into one argument list is refused when they share a name;
  the error names the first one.
\<close>

fun option_name :: "enqueue_option \<Rightarrow> string" where
  "option_name (Queue v) = ''queue''"
| "option_name (Priority v) = ''priority''"
| "option_name (RunAfter v) = ''run_after''"
| "option_name (Capability v) = ''capability''"
| "option_name (Uid v) = ''uid''"
| "option_name (RunGroup v) = ''run_group''"
| "option_name (WaitforJob v) = ''waitfor_job''"
| "option_name (WaitforGroup v) = ''waitfor_group''"
| "option_name (DeadlineKey v) = ''deadline_key''"
| "option_name (IdentityKey v) = ''identity_key''"
| "option_name (DebounceKey v) = ''debounce_key''"
| "option_name (DebounceDeadline v) = ''debounce_deadline''"
| "option_name (PartitionKey v) = ''partition_key''"
| "option_name (AppVersion v) = ''app_version''"
| "option_name (AdminData v) = ''admin_data''"
| "option_name (Tags v) = ''tags''"
| "option_name (SaveResult v) = ''save_result''"
| "option_name (UseResultFrom v) = ''use_result_from''"
| "option_name (RetryStrategyName v) = ''retry_strategy''"
| "option_name (MaxRetries v) = ''max_retries''"
| "option_name (InitialRetryDelay v) = ''initial_retry_delay''"
| "option_name (MaxRetryDelay v) = ''max_retry_delay''"
| "option_name (TimeoutSeconds v) = ''timeout_seconds''"
| "option_name (OnTimeout v) = ''on_timeout''"
| "option_name (PrioCeiling v) = ''prio_ceiling''"
| "option_name (JobKwargs v) = ''job_kwargs''"
| "option_name (ScheduleId v) = ''schedule_id''"
| "option_name (Kwarg k v) = k"

definition first_clash :: "enqueue_option list \<Rightarrow> enqueue_option list \<Rightarrow> string option" where
  "first_clash xs ys = List.find (\<lambda>n. n \<in> set (map option_name xs)) (map option_name ys)"

record enqueue_options =
  eo_queue :: string
  eo_priority :: int
  eo_run_after :: "instant option"
  eo_capability :: "string option"
  eo_uid :: "int option"
  eo_run_group :: "int option"
  eo_waitfor_job :: "int option"
  eo_waitfor_group :: "int option"
  eo_deadline_key :: "string option"
  eo_identity_key :: "string option"
  eo_debounce_key :: "string option"
  eo_debounce_deadline :: "instant option"
  eo_partition_key :: "string option"
  eo_app_version :: json
  eo_admin_data :: "admin_data option"
  eo_tags :: json
  eo_save_result :: bool
  eo_use_result_from :: "int option"
  eo_retry_strategy :: string
  eo_max_retries :: int
  eo_initial_retry_delay :: int
  eo_max_retry_delay :: int
  eo_timeout_seconds :: "int option"
  eo_on_timeout :: string
  eo_prio_ceiling :: int
  eo_job_kwargs :: "(string \<times> json) list option"
  eo_schedule_id :: "int option"
  eo_kwargs :: "(string \<times> json) list"

definition default_options :: enqueue_options where
  "default_options =
     \<lparr>eo_queue = ''default'', eo_priority = 100, eo_run_after = None, eo_capability = None, eo_uid = None,
      eo_run_group = None, eo_waitfor_job = None, eo_waitfor_group = None, eo_deadline_key = None,
      eo_identity_key = None, eo_debounce_key = None, eo_debounce_deadline = None,
      eo_partition_key = None, eo_app_version = JNull, eo_admin_data = None, eo_tags = JNull,
      eo_save_result = True, eo_use_result_from = None, eo_retry_strategy = DEFAULT_RETRY_STRATEGY,
      eo_max_retries = DEFAULT_MAX_RETRIES, eo_initial_retry_delay = DEFAULT_INITIAL_RETRY_DELAY,
      eo_max_retry_delay = DEFAULT_MAX_RETRY_DELAY, eo_timeout_seconds = None, eo_on_timeout = ''retry'',
      eo_prio_ceiling = DEFAULT_PRIO_CEILING, eo_job_kwargs = None, eo_schedule_id = None, eo_kwargs = []\<rparr>"

fun set_option :: "enqueue_options \<Rightarrow> enqueue_option \<Rightarrow> enqueue_options" where
  "set_option p (Queue v) = p\<lparr>eo_queue := v\<rparr>"
| "set_option p (Priority v) = p\<lparr>eo_priority := v\<rparr>"
| "set_option p (RunAfter v) = p\<lparr>eo_run_after := v\<rparr>"
| "set_option p (Capability v) = p\<lparr>eo_capability := v\<rparr>"
| "set_option p (Uid v) = p\<lparr>eo_uid := v\<rparr>"
| "set_option p (RunGroup v) = p\<lparr>eo_run_group := v\<rparr>"
| "set_option p (WaitforJob v) = p\<lparr>eo_waitfor_job := v\<rparr>"
| "set_option p (WaitforGroup v) = p\<lparr>eo_waitfor_group := v\<rparr>"
| "set_option p (DeadlineKey v) = p\<lparr>eo_deadline_key := v\<rparr>"
| "set_option p (IdentityKey v) = p\<lparr>eo_identity_key := v\<rparr>"
| "set_option p (DebounceKey v) = p\<lparr>eo_debounce_key := v\<rparr>"
| "set_option p (DebounceDeadline v) = p\<lparr>eo_debounce_deadline := v\<rparr>"
| "set_option p (PartitionKey v) = p\<lparr>eo_partition_key := v\<rparr>"
| "set_option p (AppVersion v) = p\<lparr>eo_app_version := v\<rparr>"
| "set_option p (AdminData v) = p\<lparr>eo_admin_data := v\<rparr>"
| "set_option p (Tags v) = p\<lparr>eo_tags := v\<rparr>"
| "set_option p (SaveResult v) = p\<lparr>eo_save_result := v\<rparr>"
| "set_option p (UseResultFrom v) = p\<lparr>eo_use_result_from := v\<rparr>"
| "set_option p (RetryStrategyName v) = p\<lparr>eo_retry_strategy := v\<rparr>"
| "set_option p (MaxRetries v) = p\<lparr>eo_max_retries := v\<rparr>"
| "set_option p (InitialRetryDelay v) = p\<lparr>eo_initial_retry_delay := v\<rparr>"
| "set_option p (MaxRetryDelay v) = p\<lparr>eo_max_retry_delay := v\<rparr>"
| "set_option p (TimeoutSeconds v) = p\<lparr>eo_timeout_seconds := v\<rparr>"
| "set_option p (OnTimeout v) = p\<lparr>eo_on_timeout := v\<rparr>"
| "set_option p (PrioCeiling v) = p\<lparr>eo_prio_ceiling := v\<rparr>"
| "set_option p (JobKwargs v) = p\<lparr>eo_job_kwargs := v\<rparr>"
| "set_option p (ScheduleId v) = p\<lparr>eo_schedule_id := v\<rparr>"
| "set_option p (Kwarg k v) = p\<lparr>eo_kwargs := dict_put k v (eo_kwargs p)\<rparr>"

text \<open>A later entry of the dict wins, as in \<open>{**options, **per_job}\<close>.\<close>

definition options_of :: "enqueue_option list \<Rightarrow> enqueue_options" where
  "options_of os = foldl set_option default_options os"

section \<open>Refusals\<close>

datatype client_error =
    Refused rule_error
  | UnknownOptions "string list"
  | BothWaitfors
  | KeysContradict "string list"
  | NoDebounceWaitfor
  | DeadlineWithoutKey
  | IdentityAndDeadline
  | NoIdentityWaitfor
  | NoDeadlineWaitfor
  | BadOnTimeout string
  | BadAdminOnTimeout string
  | BadRetryStrategy string
  | NoOutboxDebounce
  | IdentityNames job_id string
  | DebounceNames job_id string
  | SpeculativeEnqueueExhausted string string nat
  | PeriodNotPositive interval
  | CapNotPositive interval
  | BatchReserved "string list"
  | NoBatchIdentity
  | NoBatchDebounce
  | MultipleValues string
  | SqlRaised sql_error

definition refuse_if :: "bool \<Rightarrow> client_error \<Rightarrow> client_error + unit" where
  "refuse_if b e = (if b then Inl e else Inr ())"

definition lift_rule :: "rule_error + 'a \<Rightarrow> client_error + 'a" where
  "lift_rule r = (case r of Inl e \<Rightarrow> Inl (Refused e) | Inr x \<Rightarrow> Inr x)"

lemma refuse_if_Inr [simp]: "refuse_if b e = Inr u \<longleftrightarrow> \<not> b"
  by (simp add: refuse_if_def)

lemma lift_rule_Inr [simp]: "lift_rule r = Inr x \<longleftrightarrow> r = Inr x"
  by (simp add: lift_rule_def split: sum.split)

text \<open>\<open>if waitfor_job\<close>: an id is true unless it is 0.\<close>

definition given :: "int option \<Rightarrow> bool" where
  "given x \<longleftrightarrow> (case x of None \<Rightarrow> False | Some v \<Rightarrow> v \<noteq> 0)"

definition waits :: "enqueue_options \<Rightarrow> bool" where
  "waits p \<longleftrightarrow> given (eo_waitfor_job p) \<or> given (eo_waitfor_group p)"

definition conflicting_keys :: "enqueue_options \<Rightarrow> string list" where
  "conflicting_keys p =
     (if eo_identity_key p \<noteq> None then [''identity_key''] else [])
     @ (if eo_deadline_key p \<noteq> None then [''deadline_key''] else [])"

text \<open>The mutual exclusions, in the order they are checked.\<close>

definition check_debounce :: "enqueue_options \<Rightarrow> client_error + unit" where
  "check_debounce p =
     (if eo_debounce_key p \<noteq> None
      then bind_sum (refuse_if (conflicting_keys p \<noteq> []) (KeysContradict (conflicting_keys p)))
             (\<lambda>_. refuse_if (waits p) NoDebounceWaitfor)
      else refuse_if (eo_debounce_deadline p \<noteq> None) DeadlineWithoutKey)"

definition check_identity :: "enqueue_options \<Rightarrow> client_error + unit" where
  "check_identity p =
     (if eo_identity_key p = None then Inr ()
      else bind_sum (refuse_if (eo_deadline_key p \<noteq> None) IdentityAndDeadline)
             (\<lambda>_. refuse_if (waits p) NoIdentityWaitfor))"

definition check_keys :: "enqueue_options \<Rightarrow> client_error + unit" where
  "check_keys p =
     bind_sum (refuse_if (given (eo_waitfor_job p) \<and> given (eo_waitfor_group p)) BothWaitfors) (\<lambda>_.
     bind_sum (check_debounce p) (\<lambda>_.
     bind_sum (check_identity p) (\<lambda>_.
     refuse_if (eo_deadline_key p \<noteq> None \<and> waits p) NoDeadlineWaitfor)))"

text \<open>The values: keys, version pin, priority; the pin it returns is the one written.\<close>

definition check_values :: "enqueue_options \<Rightarrow> client_error + string option" where
  "check_values p =
     bind_sum (lift_rule (validate_key ''deadline_key'' (eo_deadline_key p))) (\<lambda>_.
     bind_sum (lift_rule (validate_key ''identity_key'' (eo_identity_key p))) (\<lambda>_.
     bind_sum (lift_rule (validate_key ''debounce_key'' (eo_debounce_key p))) (\<lambda>_.
     bind_sum (lift_rule (validate_key ''partition_key'' (eo_partition_key p))) (\<lambda>_.
     bind_sum (lift_rule (validate_app_version (eo_app_version p))) (\<lambda>version.
     bind_sum (lift_rule (validate_priority (eo_priority p) (eo_prio_ceiling p))) (\<lambda>_.
     Inr version))))))"

definition ON_TIMEOUT_POLICIES :: "string list" where
  "ON_TIMEOUT_POLICIES = [''retry'', ''fail'']"

definition RETRY_STRATEGIES :: "string list" where
  "RETRY_STRATEGIES = map strategy_value [FIXED, QUADRATIC, EXPONENTIAL, LINEAR, FIBONACCI]"

text \<open>\<open>d.setdefault(k, v)\<close> on an optional field.\<close>

definition setdefault :: "'a option \<Rightarrow> 'a \<Rightarrow> 'a option" where
  "setdefault x v = (case x of None \<Rightarrow> Some v | Some w \<Rightarrow> Some w)"

definition merge_admin_data :: "enqueue_options \<Rightarrow> admin_data" where
  "merge_admin_data p =
     (let a = (case eo_admin_data p of None \<Rightarrow> no_admin_data | Some a \<Rightarrow> a);
          a = (if eo_save_result p then a else a\<lparr>ad_save_result := Some False\<rparr>);
          a = (if given (eo_use_result_from p) then a\<lparr>ad_use_result_from := eo_use_result_from p\<rparr> else a);
          a = a\<lparr>ad_retry_strategy := setdefault (ad_retry_strategy a) (eo_retry_strategy p),
                ad_max_retries := setdefault (ad_max_retries a) (eo_max_retries p),
                ad_initial_retry_delay := setdefault (ad_initial_retry_delay a) (eo_initial_retry_delay p),
                ad_max_retry_delay := setdefault (ad_max_retry_delay a) (eo_max_retry_delay p)\<rparr>;
          a = (if eo_timeout_seconds p = None then a else a\<lparr>ad_timeout_seconds := eo_timeout_seconds p\<rparr>)
      in a\<lparr>ad_on_timeout := setdefault (ad_on_timeout a) (eo_on_timeout p)\<rparr>)"

definition check_admin_data :: "admin_data \<Rightarrow> client_error + unit" where
  "check_admin_data a =
     bind_sum (refuse_if (the (ad_on_timeout a) \<notin> set ON_TIMEOUT_POLICIES) (BadAdminOnTimeout (the (ad_on_timeout a)))) (\<lambda>_.
     refuse_if (the (ad_retry_strategy a) \<notin> set RETRY_STRATEGIES) (BadRetryStrategy (the (ad_retry_strategy a))))"

section \<open>The row\<close>

text \<open>The parameters of \<open>ENQUEUE_SQL\<close>, in its order.\<close>

record enqueue_row =
  er_job_class :: string
  er_kwargs :: "(string \<times> json) list"
  er_queue :: string
  er_prio :: int
  er_run_after :: instant
  er_capability :: "string option"
  er_uid :: "int option"
  er_run_group :: "int option"
  er_waitfor_job :: "int option"
  er_waitfor_group :: "int option"
  er_deadline_key :: "string option"
  er_admin_data :: admin_data
  er_tags :: "(string \<times> json) list"
  er_state :: jorbstate
  er_schedule_id :: "int option"
  er_identity_key :: "string option"
  er_debounce_key :: "string option"
  er_debounce_deadline :: "instant option"
  er_partition_key :: "string option"
  er_app_version :: "string option"

definition build_enqueue_row ::
  "instant \<Rightarrow> string \<Rightarrow> enqueue_option list \<Rightarrow> client_error + enqueue_row" where
  "build_enqueue_row clock job_class os =
     (let p = options_of os
      in bind_sum (refuse_if (eo_job_kwargs p \<noteq> None \<and> eo_kwargs p \<noteq> []) (UnknownOptions (py_sorted (map fst (eo_kwargs p))))) (\<lambda>_.
         bind_sum (check_keys p) (\<lambda>_.
         bind_sum (check_values p) (\<lambda>version.
         bind_sum (refuse_if (eo_on_timeout p \<notin> set ON_TIMEOUT_POLICIES) (BadOnTimeout (eo_on_timeout p))) (\<lambda>_.
         bind_sum (lift_rule (validate_tags (eo_tags p))) (\<lambda>tags.
         let admin = merge_admin_data p
         in bind_sum (check_admin_data admin) (\<lambda>_.
            Inr \<lparr>er_job_class = job_class,
                 er_kwargs = (case eo_job_kwargs p of None \<Rightarrow> eo_kwargs p | Some kw \<Rightarrow> kw),
                 er_queue = eo_queue p, er_prio = eo_priority p,
                 er_run_after = (case eo_run_after p of None \<Rightarrow> clock | Some t \<Rightarrow> t),
                 er_capability = eo_capability p, er_uid = eo_uid p, er_run_group = eo_run_group p,
                 er_waitfor_job = eo_waitfor_job p, er_waitfor_group = eo_waitfor_group p,
                 er_deadline_key = eo_deadline_key p, er_admin_data = admin, er_tags = tags,
                 er_state = (if waits p then Waiting else Queued),
                 er_schedule_id = eo_schedule_id p, er_identity_key = eo_identity_key p,
                 er_debounce_key = eo_debounce_key p, er_debounce_deadline = eo_debounce_deadline p,
                 er_partition_key = eo_partition_key p, er_app_version = version\<rparr>)))))))"

text \<open>The row as inserted: the columns the statement does not name take their defaults.\<close>

definition row_of :: "instant \<Rightarrow> enqueue_row \<Rightarrow> job_id \<Rightarrow> jorb" where
  "row_of now r i = (default_jorb now i)\<lparr>
     j_job_class := er_job_class r, j_kwargs := er_kwargs r, j_queue := er_queue r, j_prio := er_prio r,
     j_run_after := er_run_after r, j_capability := er_capability r, j_uid := er_uid r,
     j_run_group := er_run_group r, j_waitfor_job := er_waitfor_job r,
     j_waitfor_group := er_waitfor_group r, j_deadline_key := er_deadline_key r,
     j_admin_data := er_admin_data r, j_tags := er_tags r, j_state := er_state r,
     j_schedule_id := er_schedule_id r, j_identity_key := er_identity_key r,
     j_debounce_key := er_debounce_key r, j_debounce_deadline := er_debounce_deadline r,
     j_partition_key := er_partition_key r, j_app_version := er_app_version r\<rparr>"

definition ENQUEUE_SQL :: "instant \<Rightarrow> enqueue_row \<Rightarrow> database \<Rightarrow> sql_error + (jorb \<times> database)" where
  "ENQUEUE_SQL now r = insert_job (row_of now r)"

section \<open>What a built row is\<close>

lemma setdefault_the [simp]: "the (setdefault x v) = or_default x v" "setdefault x v = Some (or_default x v)"
  by (simp_all add: setdefault_def split: option.split)

lemma waits_given: "\<not> waits p \<longleftrightarrow> \<not> given (eo_waitfor_job p) \<and> \<not> given (eo_waitfor_group p)"
  by (simp add: waits_def)

lemma check_keys_Inr:
  assumes "check_keys p = Inr u"
  shows "\<not> (given (eo_waitfor_job p) \<and> given (eo_waitfor_group p))"
    and "length (filter (\<lambda>k. k \<noteq> None) [eo_deadline_key p, eo_identity_key p, eo_debounce_key p]) \<le> 1"
    and "waits p \<Longrightarrow> eo_deadline_key p = None \<and> eo_identity_key p = None \<and> eo_debounce_key p = None"
    and "eo_debounce_key p = None \<Longrightarrow> eo_debounce_deadline p = None"
  using assms
  by (auto simp: check_keys_def check_debounce_def check_identity_def conflicting_keys_def bind_sum_Inr_iff
      split: if_splits)

text \<open>The checks of \<open>build_enqueue_row\<close> and the row, when it accepts.\<close>

lemma build_enqueue_row_Inr:
  assumes "build_enqueue_row clock job_class os = Inr r"
  shows "check_keys (options_of os) = Inr ()" and "check_values (options_of os) = Inr (er_app_version r)"
    and "check_admin_data (er_admin_data r) = Inr ()" and "validate_tags (eo_tags (options_of os)) = Inr (er_tags r)"
    and "er_job_class r = job_class" and "er_prio r = eo_priority (options_of os)"
    and "er_state r = (if waits (options_of os) then Waiting else Queued)"
    and "er_admin_data r = merge_admin_data (options_of os)"
    and "er_deadline_key r = eo_deadline_key (options_of os)"
    and "er_identity_key r = eo_identity_key (options_of os)"
    and "er_debounce_key r = eo_debounce_key (options_of os)"
    and "er_debounce_deadline r = eo_debounce_deadline (options_of os)"
    and "er_partition_key r = eo_partition_key (options_of os)"
    and "er_run_after r = (case eo_run_after (options_of os) of None \<Rightarrow> clock | Some t \<Rightarrow> t)"
    and "er_waitfor_job r = eo_waitfor_job (options_of os)"
    and "er_waitfor_group r = eo_waitfor_group (options_of os)"
    and "er_queue r = eo_queue (options_of os)"
    and "er_kwargs r = (case eo_job_kwargs (options_of os) of None \<Rightarrow> eo_kwargs (options_of os) | Some kw \<Rightarrow> kw)"
    and "er_prio r \<le> eo_prio_ceiling (options_of os)"
  using assms
  by (auto simp: build_enqueue_row_def Let_def bind_sum_Inr_iff check_values_def validate_priority_def
      split: if_splits)

lemma row_of_fresh:
  assumes "build_enqueue_row clock job_class os = Inr r"
  shows "fresh_row (row_of now r i)"
  using build_enqueue_row_Inr [OF assms] check_keys_Inr(3) [OF build_enqueue_row_Inr(1) [OF assms]]
  by (auto simp: fresh_row_def row_of_def PRE_CLAIM_STATES_def)

text \<open>
  C40. Every row an enqueue builds is one the platform can carry out. It waits for a job or
  for a group, never both, and is inserted waiting exactly when it waits; it carries at most
  one of the three dedupe keys, none when it waits, and a collapse cap only with a debounce
  key; its priority is within the fleet's ceiling; and the policy it carries is complete,
  with a strategy and a timeout policy the worker knows.
\<close>

theorem built_rows_are_well_formed:
  assumes "build_enqueue_row clock job_class os = Inr r"
  shows "fresh_row (row_of now r i)
    \<and> (er_state r = Waiting \<longleftrightarrow> given (er_waitfor_job r) \<or> given (er_waitfor_group r))
    \<and> \<not> (given (er_waitfor_job r) \<and> given (er_waitfor_group r))
    \<and> length (filter (\<lambda>k. k \<noteq> None) [er_deadline_key r, er_identity_key r, er_debounce_key r]) \<le> 1
    \<and> (er_state r = Waiting \<longrightarrow> er_deadline_key r = None \<and> er_identity_key r = None \<and> er_debounce_key r = None)
    \<and> (er_debounce_key r = None \<longrightarrow> er_debounce_deadline r = None)
    \<and> er_prio r \<le> eo_prio_ceiling (options_of os)
    \<and> (\<exists>s t. ad_retry_strategy (er_admin_data r) = Some s \<and> s \<in> set RETRY_STRATEGIES
          \<and> ad_on_timeout (er_admin_data r) = Some t \<and> t \<in> {''retry'', ''fail''}
          \<and> ad_max_retries (er_admin_data r) \<noteq> None)"
proof -
  note built = build_enqueue_row_Inr [OF assms] and keys = check_keys_Inr [OF build_enqueue_row_Inr(1) [OF assms]]
  have "\<exists>s t. ad_retry_strategy (er_admin_data r) = Some s \<and> s \<in> set RETRY_STRATEGIES
      \<and> ad_on_timeout (er_admin_data r) = Some t \<and> t \<in> {''retry'', ''fail''}
      \<and> ad_max_retries (er_admin_data r) \<noteq> None"
    using built(3,8)
    by (auto simp: check_admin_data_def merge_admin_data_def Let_def bind_sum_Inr_iff ON_TIMEOUT_POLICIES_def
        split: if_splits)
  with row_of_fresh [OF assms] built keys show ?thesis
    by (auto simp: waits_def)
qed

theorem built_rows_are_well_formed_witness:
  "\<exists>r. build_enqueue_row 7 ''J'' [WaitforJob (Some 3), Kwarg ''url'' (JStr ''x''), OnTimeout ''fail''] = Inr r
     \<and> er_state r = Waiting \<and> er_deadline_key r = None"
proof -
  let ?os = "[WaitforJob (Some 3), Kwarg ''url'' (JStr ''x''), OnTimeout ''fail'']"
  have "isl (build_enqueue_row 7 ''J'' ?os) = False" by code_simp
  then obtain r where r: "build_enqueue_row 7 ''J'' ?os = Inr r" by (cases "build_enqueue_row 7 ''J'' ?os") auto
  have "er_state (projr (build_enqueue_row 7 ''J'' ?os)) = Waiting" by code_simp
  with r built_rows_are_well_formed [OF r] show ?thesis by auto
qed

end
