(* ===== verification/Speculative.thy ===== *)
theory Speculative
  imports Enqueue
begin

text \<open>
  The enqueue verbs over the row of \<open>Enqueue\<close>: the plain insert, the identified and the
  debounced one with their retry loops, the batch, the chain and the fan-out.
\<close>

section \<open>The plain insert and the identified one\<close>

text \<open>
  What the other transactions do to the database: \<open>during k\<close> while the k-th attempt's
  statement waits, after its snapshot was taken, and \<open>between k\<close> before the next.
\<close>

record others =
  during :: "nat \<Rightarrow> database \<Rightarrow> database"
  between :: "nat \<Rightarrow> database \<Rightarrow> database"

definition nobody :: others where
  "nobody = \<lparr>during = \<lambda>k d. d, between = \<lambda>k d. d\<rparr>"

definition SPECULATIVE_ATTEMPTS :: nat where
  "SPECULATIVE_ATTEMPTS = 5"

text \<open>
  \<open>ENQUEUE_IDENTIFIED_SQL\<close>: the index decides on the rows committed when the insert runs,
  the second branch reads the snapshot.
\<close>

definition holder :: "string \<Rightarrow> database \<Rightarrow> jorb option" where
  "holder key d = List.find (\<lambda>j. j_identity_key j = Some key) (jobs d)"

definition ENQUEUE_IDENTIFIED_SQL ::
  "instant \<Rightarrow> enqueue_row \<Rightarrow> string \<Rightarrow> database \<Rightarrow> database
     \<Rightarrow> sql_error + ((job_id \<times> string \<times> bool) option \<times> database)" where
  "ENQUEUE_IDENTIFIED_SQL now r key snapshot d =
     (case holder key d of
        None \<Rightarrow> bind_sum (ENQUEUE_SQL now r d) (\<lambda>(j, d'). Inr (Some (j_id j, j_job_class j, True), d'))
      | Some _ \<Rightarrow>
          (case holder key snapshot of
             None \<Rightarrow> Inr (None, d)
           | Some h \<Rightarrow> Inr (Some (j_id h, j_job_class h, False), d)))"

fun identity_loop ::
  "instant \<Rightarrow> enqueue_row \<Rightarrow> string \<Rightarrow> others \<Rightarrow> nat \<Rightarrow> nat \<Rightarrow> database
     \<Rightarrow> (client_error + (job_id \<times> bool)) \<times> database" where
  "identity_loop now r key w k 0 d =
     (Inl (SpeculativeEnqueueExhausted ''identity_key'' key SPECULATIVE_ATTEMPTS), d)"
| "identity_loop now r key w k (Suc n) d =
     (let d1 = during w k d
      in case ENQUEUE_IDENTIFIED_SQL now r key d d1 of
           Inl e \<Rightarrow> (Inl (SqlRaised e), d1)
         | Inr (Some (i, held, created), d2) \<Rightarrow>
             if held \<noteq> er_job_class r then (Inl (IdentityNames i held), d2) else (Inr (i, created), d2)
         | Inr (None, d2) \<Rightarrow> identity_loop now r key w (Suc k) n (between w k d2))"

definition enqueue_identity ::
  "instant \<Rightarrow> enqueue_row \<Rightarrow> string \<Rightarrow> others \<Rightarrow> database
     \<Rightarrow> (client_error + (job_id \<times> bool)) \<times> database" where
  "enqueue_identity now r key w d = identity_loop now r key w 0 SPECULATIVE_ATTEMPTS d"

definition enqueue_row ::
  "instant \<Rightarrow> instant \<Rightarrow> string \<Rightarrow> enqueue_option list \<Rightarrow> others \<Rightarrow> database
     \<Rightarrow> (client_error + (job_id \<times> bool)) \<times> database" where
  "enqueue_row clock now job_class os w d =
     (case build_enqueue_row clock job_class os of
        Inl e \<Rightarrow> (Inl e, d)
      | Inr r \<Rightarrow>
          (case eo_identity_key (options_of os) of
             None \<Rightarrow> (case ENQUEUE_SQL now r d of
                        Inl e \<Rightarrow> (Inl (SqlRaised e), d)
                      | Inr (j, d') \<Rightarrow> (Inr (j_id j, True), d'))
           | Some key \<Rightarrow> enqueue_identity now r key w d))"

definition enqueue_in_transaction ::
  "instant \<Rightarrow> instant \<Rightarrow> string \<Rightarrow> enqueue_option list \<Rightarrow> others \<Rightarrow> database
     \<Rightarrow> (client_error + job_id) \<times> database" where
  "enqueue_in_transaction clock now job_class os w d =
     (if eo_debounce_key (options_of os) \<noteq> None then (Inl NoOutboxDebounce, d)
      else case enqueue_row clock now job_class os w d of
             (Inl e, d') \<Rightarrow> (Inl e, d')
           | (Inr (i, created), d') \<Rightarrow> (Inr i, d'))"

text \<open>The client's own ceil and version, which a call may override.\<close>

record job_client =
  cl_prio_ceiling :: int
  cl_app_version :: "string option"

definition stored_version :: "string option \<Rightarrow> json" where
  "stored_version v = (case v of None \<Rightarrow> JNull | Some s \<Rightarrow> JStr s)"

definition client_version :: "job_client \<Rightarrow> json \<Rightarrow> json" where
  "client_version c override = (if override = JNull then stored_version (cl_app_version c) else override)"

definition with_client :: "job_client \<Rightarrow> int option \<Rightarrow> json \<Rightarrow> enqueue_option list \<Rightarrow> enqueue_option list" where
  "with_client c ceil version os =
     os @ [PrioCeiling (case ceil of None \<Rightarrow> cl_prio_ceiling c | Some n \<Rightarrow> n),
           AppVersion (client_version c version)]"

definition enqueue ::
  "job_client \<Rightarrow> instant \<Rightarrow> instant \<Rightarrow> string \<Rightarrow> int option \<Rightarrow> json \<Rightarrow> enqueue_option list \<Rightarrow> others \<Rightarrow> database
     \<Rightarrow> (client_error + job_id) \<times> database" where
  "enqueue c clock now job_class ceil version os w d =
     enqueue_in_transaction clock now job_class (with_client c ceil version os) w d"

definition enqueue_identified ::
  "job_client \<Rightarrow> instant \<Rightarrow> instant \<Rightarrow> string \<Rightarrow> string \<Rightarrow> int option \<Rightarrow> json \<Rightarrow> enqueue_option list \<Rightarrow> others
     \<Rightarrow> database \<Rightarrow> (client_error + (job_id \<times> bool)) \<times> database" where
  "enqueue_identified c clock now job_class key ceil version os w d =
     enqueue_row clock now job_class (IdentityKey (Some key) # with_client c ceil version os) w d"

section \<open>Debouncing\<close>

text \<open>\<open>DEBOUNCE_BOUNCE_SQL\<close>: the parked row of the snapshot, updated if it still qualifies.\<close>

definition DEBOUNCE_BOUNCE_SQL ::
  "instant \<Rightarrow> string \<Rightarrow> instant \<Rightarrow> (string \<times> json) list \<Rightarrow> string \<Rightarrow> database \<Rightarrow> database
     \<Rightarrow> sql_error + ((job_id \<times> string \<times> instant option) option \<times> database)" where
  "DEBOUNCE_BOUNCE_SQL now key fires kwargs job_class snapshot d =
     (case List.find (window_open key) (jobs snapshot) of
        None \<Rightarrow> Inr (None, d)
      | Some p \<Rightarrow>
          bind_sum (update_jobs (bounce_where key job_class (j_id p)) (bounce_set now fires kwargs) d) (\<lambda>(rs, d').
            Inr (Some (j_id p, j_job_class p, (case rs of [] \<Rightarrow> None | j # _ \<Rightarrow> Some (j_run_after j))), d')))"

text \<open>\<open>ENQUEUE_DEBOUNCED_SQL\<close>: no row when the index already holds the key.\<close>

definition ENQUEUE_DEBOUNCED_SQL ::
  "instant \<Rightarrow> enqueue_row \<Rightarrow> string \<Rightarrow> database \<Rightarrow> sql_error + (job_id option \<times> database)" where
  "ENQUEUE_DEBOUNCED_SQL now r key d =
     (if list_ex (window_open key) (jobs d) then Inr (None, d)
      else bind_sum (ENQUEUE_SQL now r d) (\<lambda>(j, d'). Inr (Some (j_id j), d')))"

text \<open>
  What the bounce settles: the row it moved, the refusal of a key that names another class,
  or nothing (no row, or one claimed from under it: the caller opens the next window).
\<close>

definition bounce_verdict ::
  "string \<Rightarrow> (job_id \<times> string \<times> instant option) option \<Rightarrow> (client_error + job_id) option" where
  "bounce_verdict job_class held =
     (case held of
        None \<Rightarrow> None
      | Some (i, holder_class, fires_at) \<Rightarrow>
          (case fires_at of
             Some t \<Rightarrow> Some (Inr i)
           | None \<Rightarrow> if holder_class \<noteq> job_class then Some (Inl (DebounceNames i holder_class)) else None))"

text \<open>
  Attempt k is two statements: \<open>during (2 * k)\<close> commits while the bounce waits,
  \<open>during (2 * k + 1)\<close> before the index decides the insert.
\<close>

fun debounce_loop ::
  "instant \<Rightarrow> enqueue_row \<Rightarrow> string \<Rightarrow> instant \<Rightarrow> others \<Rightarrow> nat \<Rightarrow> nat \<Rightarrow> database
     \<Rightarrow> (client_error + (job_id \<times> bool)) \<times> database" where
  "debounce_loop now r key fires w k 0 d =
     (Inl (SpeculativeEnqueueExhausted ''debounce_key'' key SPECULATIVE_ATTEMPTS), d)"
| "debounce_loop now r key fires w k (Suc n) d =
     (let d1 = during w (2 * k) d
      in case DEBOUNCE_BOUNCE_SQL now key fires (er_kwargs r) (er_job_class r) d d1 of
           Inl e \<Rightarrow> (Inl (SqlRaised e), d1)
         | Inr (held, d2) \<Rightarrow>
             (case bounce_verdict (er_job_class r) held of
                Some (Inr i) \<Rightarrow> (Inr (i, False), d2)
              | Some (Inl e) \<Rightarrow> (Inl e, d2)
              | None \<Rightarrow>
                  (let d3 = during w (2 * k + 1) d2
                   in case ENQUEUE_DEBOUNCED_SQL now r key d3 of
                        Inl e \<Rightarrow> (Inl (SqlRaised e), d3)
                      | Inr (Some i, d4) \<Rightarrow> (Inr (i, True), d4)
                      | Inr (None, d4) \<Rightarrow> debounce_loop now r key fires w (Suc k) n (between w k d4))))"

definition debounce ::
  "job_client \<Rightarrow> instant \<Rightarrow> instant \<Rightarrow> string \<Rightarrow> string \<Rightarrow> interval \<Rightarrow> interval option \<Rightarrow> int option \<Rightarrow> json
     \<Rightarrow> enqueue_option list \<Rightarrow> others \<Rightarrow> database \<Rightarrow> (client_error + (job_id \<times> bool)) \<times> database" where
  "debounce c clock now job_class key period cap ceil version os w d =
     (if period \<le> 0 then (Inl (PeriodNotPositive period), d)
      else if (case cap of None \<Rightarrow> False | Some s \<Rightarrow> s \<le> 0) then (Inl (CapNotPositive (the cap)), d)
      else
        let deadline = map_option (\<lambda>s. clock + s) cap;
            fires_at = (case deadline of None \<Rightarrow> clock + period
                        | Some t \<Rightarrow> if t < clock + period then t else clock + period);
            options = with_client c ceil version os;
            window = [RunAfter (Some fires_at), DebounceKey (Some key), DebounceDeadline deadline]
        in case first_clash window options of
             Some name \<Rightarrow> (Inl (MultipleValues name), d)
           | None \<Rightarrow>
               (case build_enqueue_row clock job_class (options @ window) of
                  Inl e \<Rightarrow> (Inl e, d)
                | Inr r \<Rightarrow> debounce_loop now r key fires_at w 0 SPECULATIVE_ATTEMPTS d))"

section \<open>Batches, chains, groups\<close>

text \<open>\<open>ENQUEUE_BATCH_SQL\<close>: one statement over all rows, so one refusal writes none of them.\<close>

fun ENQUEUE_BATCH_SQL :: "instant \<Rightarrow> enqueue_row list \<Rightarrow> database \<Rightarrow> sql_error + (job_id list \<times> database)" where
  "ENQUEUE_BATCH_SQL now [] d = Inr ([], d)"
| "ENQUEUE_BATCH_SQL now (r # rs) d =
     bind_sum (ENQUEUE_SQL now r d) (\<lambda>(j, d1).
     bind_sum (ENQUEUE_BATCH_SQL now rs d1) (\<lambda>(is, d2). Inr (j_id j # is, d2)))"

fun reserved_name :: "enqueue_option \<Rightarrow> string option" where
  "reserved_name (JobKwargs v) = Some ''job_kwargs''"
| "reserved_name (PrioCeiling v) = Some ''prio_ceiling''"
| "reserved_name (Kwarg k v) = (if k = ''job_class'' then Some k else None)"
| "reserved_name _ = None"

definition reserved :: "enqueue_option list \<Rightarrow> string list" where
  "reserved os = List.map_filter reserved_name os"

fun is_identity_key :: "enqueue_option \<Rightarrow> bool" where
  "is_identity_key (IdentityKey v) = True"
| "is_identity_key _ = False"

fun is_debounce_key :: "enqueue_option \<Rightarrow> bool" where
  "is_debounce_key (DebounceKey v) = True"
| "is_debounce_key _ = False"

definition refuse_batch_options :: "enqueue_option list \<Rightarrow> client_error + unit" where
  "refuse_batch_options os =
     bind_sum (refuse_if (reserved os \<noteq> []) (BatchReserved (py_sorted (reserved os)))) (\<lambda>_.
     bind_sum (refuse_if (list_ex is_identity_key os) NoBatchIdentity) (\<lambda>_.
     refuse_if (list_ex is_debounce_key os) NoBatchDebounce))"

text \<open>A batch item: its class, its kwargs and its own options over the shared ones.\<close>

definition batch_options ::
  "job_client \<Rightarrow> int option \<Rightarrow> enqueue_option list \<Rightarrow> (string \<times> json) list \<Rightarrow> enqueue_option list
     \<Rightarrow> enqueue_option list" where
  "batch_options c ceil options kwargs per_job =
     options @ per_job
     @ [AppVersion (client_version c (eo_app_version (options_of (options @ per_job)))),
        PrioCeiling (case ceil of None \<Rightarrow> cl_prio_ceiling c | Some n \<Rightarrow> n), JobKwargs (Some kwargs)]"

fun build_batch_rows ::
  "job_client \<Rightarrow> instant \<Rightarrow> int option \<Rightarrow> enqueue_option list
     \<Rightarrow> (string \<times> (string \<times> json) list \<times> enqueue_option list) list \<Rightarrow> client_error + enqueue_row list" where
  "build_batch_rows c clock ceil options [] = Inr []"
| "build_batch_rows c clock ceil options ((job_class, kwargs, per_job) # items) =
     bind_sum (refuse_batch_options per_job) (\<lambda>_.
     bind_sum (build_enqueue_row clock job_class (batch_options c ceil options kwargs per_job)) (\<lambda>r.
     bind_sum (build_batch_rows c clock ceil options items) (\<lambda>rs. Inr (r # rs))))"

definition enqueue_batch ::
  "job_client \<Rightarrow> instant \<Rightarrow> instant \<Rightarrow> (string \<times> (string \<times> json) list \<times> enqueue_option list) list
     \<Rightarrow> int option \<Rightarrow> enqueue_option list \<Rightarrow> database \<Rightarrow> (client_error + job_id list) \<times> database" where
  "enqueue_batch c clock now batch ceil options d =
     (if batch = [] then (Inr [], d)
      else case bind_sum (refuse_batch_options options) (\<lambda>_. build_batch_rows c clock ceil options batch) of
             Inl e \<Rightarrow> (Inl e, d)
           | Inr rows \<Rightarrow>
               (case ENQUEUE_BATCH_SQL now rows d of
                  Inl e \<Rightarrow> (Inl (SqlRaised e), d)
                | Inr (is, d') \<Rightarrow> (Inr is, d')))"

text \<open>
  The chain: each stage's kwargs may name options of their own; \<open>previous\<close> is the stage
  before it and whether it saved its result.
\<close>

fun chain_loop ::
  "job_client \<Rightarrow> instant \<Rightarrow> instant \<Rightarrow> string \<Rightarrow> int \<Rightarrow> bool \<Rightarrow> enqueue_option list
     \<Rightarrow> job_id option \<Rightarrow> bool \<Rightarrow> (string \<times> enqueue_option list \<times> bool) list \<Rightarrow> others \<Rightarrow> database
     \<Rightarrow> client_error + (job_id list \<times> database)" where
  "chain_loop c clock now queue priority pass common previous saved [] w d = Inr ([], d)"
| "chain_loop c clock now queue priority pass common previous saved ((job_class, kwargs, save) # stages) w d =
     (let options = [WaitforJob previous, Queue queue, Priority priority, PrioCeiling (cl_prio_ceiling c),
                AppVersion (stored_version (cl_app_version c))]
              @ (if pass then [SaveResult save, UseResultFrom (if saved then previous else None)] else [])
              @ common
      in case first_clash kwargs options of
           Some name \<Rightarrow> Inl (MultipleValues name)
         | None \<Rightarrow>
             (case enqueue_in_transaction clock now job_class (kwargs @ options) w d of
                (Inl e, d1) \<Rightarrow> Inl e
              | (Inr i, d1) \<Rightarrow>
                  bind_sum (chain_loop c clock now queue priority pass common (Some i) save stages w d1)
                    (\<lambda>(is, d2). Inr (i # is, d2))))"

definition create_chain ::
  "job_client \<Rightarrow> instant \<Rightarrow> instant \<Rightarrow> string \<Rightarrow> int \<Rightarrow> bool \<Rightarrow> enqueue_option list
     \<Rightarrow> (string \<times> enqueue_option list \<times> bool) list \<Rightarrow> others \<Rightarrow> database
     \<Rightarrow> (client_error + job_id list) \<times> database" where
  "create_chain c clock now queue priority pass common stages w d =
     (case chain_loop c clock now queue priority pass common None False stages w d of
        Inl e \<Rightarrow> (Inl e, d)
      | Inr (is, d') \<Rightarrow> (Inr is, d'))"

definition create_pipeline ::
  "job_client \<Rightarrow> instant \<Rightarrow> instant \<Rightarrow> (string \<times> enqueue_option list) list \<Rightarrow> string \<Rightarrow> int \<Rightarrow> others \<Rightarrow> database
     \<Rightarrow> (client_error + job_id list) \<times> database" where
  "create_pipeline c clock now stages queue priority w d =
     create_chain c clock now queue priority False [] (map (\<lambda>(k, kw). (k, kw, True)) stages) w d"

text \<open>\<open>SELECT nextval('jorb_id_seq')\<close> draws the group's id from the job sequence.\<close>

definition create_fan_out ::
  "job_client \<Rightarrow> instant \<Rightarrow> instant \<Rightarrow> string \<Rightarrow> (string \<times> json) list list \<Rightarrow> string \<Rightarrow> int \<Rightarrow> int option \<Rightarrow> database
     \<Rightarrow> (client_error + (job_id list \<times> int)) \<times> database" where
  "create_fan_out c clock now job_class items queue priority run_group d =
     (let (g, d1) = (case run_group of
                       Some g \<Rightarrow> (g, d)
                     | None \<Rightarrow> (next_job_id d, d\<lparr>next_job_id := next_job_id d + 1\<rparr>))
      in if items = [] then (Inr ([], g), d1)
         else case build_batch_rows c clock None [Queue queue, Priority priority, RunGroup (Some g)]
                     (map (\<lambda>kw. (job_class, kw, [])) items) of
                Inl e \<Rightarrow> (Inl e, d1)
              | Inr rows \<Rightarrow>
                  (case ENQUEUE_BATCH_SQL now rows d1 of
                     Inl e \<Rightarrow> (Inl (SqlRaised e), d1)
                   | Inr (is, d') \<Rightarrow> (Inr (is, g), d')))"

section \<open>The insert\<close>

lemma row_of_simps [simp]:
  "j_identity_key (row_of now r i) = er_identity_key r" "j_debounce_key (row_of now r i) = er_debounce_key r"
  "j_state (row_of now r i) = er_state r" "j_job_class (row_of now r i) = er_job_class r"
  "j_id (row_of now r i) = i" "j_run_count (row_of now r i) = 0" "j_kwargs (row_of now r i) = er_kwargs r"
  "j_run_after (row_of now r i) = er_run_after r" "j_debounce_deadline (row_of now r i) = er_debounce_deadline r"
  "j_waitfor_job (row_of now r i) = er_waitfor_job r" "j_deadline_key (row_of now r i) = er_deadline_key r"
  by (simp_all add: row_of_def)

lemma row_of_id [simp]: "(row_of now r i)\<lparr>j_id := i\<rparr> = row_of now r i"
  by (simp add: row_of_def default_jorb_def)

lemma ENQUEUE_SQL_Inr:
  "ENQUEUE_SQL now r d = Inr (j, d') \<Longrightarrow> j = row_of now r (next_job_id d) \<and> jobs d' = jobs d @ [j]
     \<and> next_job_id d' = next_job_id d + 1"
  by (auto simp: ENQUEUE_SQL_def insert_job_def Let_def row_of_def split: if_splits)

lemma ENQUEUE_SQL_Inl: "ENQUEUE_SQL now r d = Inl e \<Longrightarrow> e = UniqueViolation"
  by (auto simp: ENQUEUE_SQL_def insert_job_def Let_def split: if_splits)

lemma ENQUEUE_SQL_step:
  assumes "build_enqueue_row clock job_class os = Inr r" and "ENQUEUE_SQL now r d = Inr (j, d')"
  shows "platform_step d d'"
  using assms(2) unfolding ENQUEUE_SQL_def
proof (rule platform_step.enqueue)
  show "fresh_row j" using ENQUEUE_SQL_Inr [OF assms(2)] row_of_fresh [OF assms(1)] by simp
qed

lemma ENQUEUE_SQL_ok:
  assumes "build_enqueue_row clock job_class os = Inr r" and "ENQUEUE_SQL now r d = Inr (j, d')" and "jobs_ok d"
  shows "jobs_ok d'"
  using assms(2) unfolding ENQUEUE_SQL_def
  by (rule insert_job_ok [OF assms(3)])
    (use ENQUEUE_SQL_Inr [OF assms(2)] row_of_fresh [OF assms(1)] in \<open>auto simp: fresh_row_def job_wf_def PRE_CLAIM_STATES_def\<close>)

lemma identity_set: "eo_identity_key (set_option p x) = (case x of IdentityKey v \<Rightarrow> v | _ \<Rightarrow> eo_identity_key p)"
  by (cases x) auto

lemma identity_unset:
  "eo_identity_key p = None \<Longrightarrow> (\<And>v. IdentityKey v \<in> set os \<Longrightarrow> v = None)
     \<Longrightarrow> eo_identity_key (foldl set_option p os) = None"
proof (induction os arbitrary: p)
  case (Cons x os)
  have "eo_identity_key (set_option p x) = None"
    using Cons.prems by (auto simp: identity_set split: enqueue_option.split)
  with Cons show ?case by simp
qed simp

text \<open>An enqueue without an identity, when it succeeds, inserts a row.\<close>

lemma unidentified_insert:
  assumes "eo_identity_key (options_of os) = None"
    and "enqueue_in_transaction clock now job_class os w d = (Inr i, d')" and "jobs_ok d"
  shows "i = next_job_id d \<and> next_job_id d' = next_job_id d + 1 \<and> jobs_ok d' \<and> platform_step d d'
    \<and> (\<exists>j. jobs d' = jobs d @ [j] \<and> j_id j = i \<and> j_job_class j = job_class
         \<and> j_waitfor_job j = eo_waitfor_job (options_of os) \<and> j_waitfor_group j = eo_waitfor_group (options_of os)
         \<and> j_state j = (if waits (options_of os) then Waiting else Queued)
         \<and> j_kwargs j = (case eo_job_kwargs (options_of os) of None \<Rightarrow> eo_kwargs (options_of os) | Some kw \<Rightarrow> kw)
         \<and> j_uid j = eo_uid (options_of os))"
proof -
  obtain r j where built: "build_enqueue_row clock job_class os = Inr r" and ins: "ENQUEUE_SQL now r d = Inr (j, d')"
    and i: "i = j_id j"
    using assms(1,2) by (auto simp: enqueue_in_transaction_def enqueue_row_def split: if_splits sum.splits)
  have "j_waitfor_group (row_of now r (next_job_id d)) = er_waitfor_group r" "j_uid (row_of now r (next_job_id d)) = er_uid r"
    by (simp_all add: row_of_def)
  moreover have "er_uid r = eo_uid (options_of os)"
    using built by (auto simp: build_enqueue_row_def Let_def bind_sum_Inr_iff)
  ultimately show ?thesis
    using build_enqueue_row_Inr [OF built] ENQUEUE_SQL_Inr [OF ins] ENQUEUE_SQL_ok [OF built ins assms(3)]
      ENQUEUE_SQL_step [OF built ins] i by auto
qed

text \<open>An insert whose three keys are free is not refused.\<close>

lemma ENQUEUE_SQL_succeeds:
  assumes "jobs_ok d"
    and "\<forall>j \<in> set (jobs d). er_identity_key r \<noteq> None \<longrightarrow> j_identity_key j \<noteq> er_identity_key r"
    and "\<forall>j \<in> set (jobs d). deadline_idx (row_of now r 0) \<noteq> None \<longrightarrow> deadline_idx j \<noteq> deadline_idx (row_of now r 0)"
    and "\<forall>j \<in> set (jobs d). debounce_idx (row_of now r 0) \<noteq> None \<longrightarrow> debounce_idx j \<noteq> debounce_idx (row_of now r 0)"
  shows "\<exists>d'. ENQUEUE_SQL now r d = Inr (row_of now r (next_job_id d), d')"
proof -
  let ?j = "row_of now r (next_job_id d)"
  have same: "deadline_idx ?j = deadline_idx (row_of now r 0)" "debounce_idx ?j = debounce_idx (row_of now r 0)"
    by (simp_all add: deadline_idx_def debounce_idx_def row_of_def)
  have "next_job_id d \<notin> j_id ` set (jobs d)" using assms(1) by (auto simp: jobs_ok_def)
  moreover have "index_ok identity_idx (jobs d @ [?j])"
    using assms(1,2) by (auto simp: index_ok_append1 jobs_ok_def unique_ok_def identity_idx_def)
  moreover have "index_ok deadline_idx (jobs d @ [?j])"
    using assms(1,3) by (auto simp: index_ok_append1 jobs_ok_def unique_ok_def same)
  moreover have "index_ok debounce_idx (jobs d @ [?j])"
    using assms(1,4) by (auto simp: index_ok_append1 jobs_ok_def unique_ok_def same)
  moreover have "distinct (map j_id (jobs d))" using assms(1) by (rule jobs_ok_distinct)
  ultimately have "unique_ok (jobs d @ [?j])" by (simp add: unique_ok_def)
  then show ?thesis by (simp add: ENQUEUE_SQL_def insert_job_def Let_def)
qed

section \<open>Identity\<close>

lemma holder_None: "holder key d = None \<longleftrightarrow> (\<forall>j \<in> set (jobs d). j_identity_key j \<noteq> Some key)"
  by (auto simp: holder_def find_None_iff)

lemma find_append: "List.find p (xs @ ys) = (case List.find p xs of None \<Rightarrow> List.find p ys | Some x \<Rightarrow> Some x)"
  by (induction xs) auto

lemma holder_inserted:
  "holder key d = None \<Longrightarrow> jobs d' = jobs d @ [j] \<Longrightarrow> j_identity_key j = Some key \<Longrightarrow> holder key d' = Some j"
  by (simp add: holder_def find_append)

lemma identified_insert:
  assumes "jobs_ok d" and "build_enqueue_row clock job_class os = Inr r" and "er_identity_key r = Some key"
    and "holder key d = None"
  shows "\<exists>d'. ENQUEUE_SQL now r d = Inr (row_of now r (next_job_id d), d')"
proof (rule ENQUEUE_SQL_succeeds [OF assms(1)])
  note keys = check_keys_Inr(2) [OF build_enqueue_row_Inr(1) [OF assms(2)]]
  have "er_deadline_key r = None" "er_debounce_key r = None"
    using keys assms(3) build_enqueue_row_Inr(9-11) [OF assms(2)] by (auto split: if_splits)
  then show "\<forall>j \<in> set (jobs d). deadline_idx (row_of now r 0) \<noteq> None \<longrightarrow> deadline_idx j \<noteq> deadline_idx (row_of now r 0)"
    "\<forall>j \<in> set (jobs d). debounce_idx (row_of now r 0) \<noteq> None \<longrightarrow> debounce_idx j \<noteq> debounce_idx (row_of now r 0)"
    by (simp_all add: deadline_idx_def debounce_idx_def)
  show "\<forall>j \<in> set (jobs d). er_identity_key r \<noteq> None \<longrightarrow> j_identity_key j \<noteq> er_identity_key r"
    using assms(3,4) by (simp add: holder_None)
qed

lemma identity_loop_more:
  "0 < n \<Longrightarrow> identity_loop now r key w k n d =
     (let d1 = during w k d
      in case ENQUEUE_IDENTIFIED_SQL now r key d d1 of
           Inl e \<Rightarrow> (Inl (SqlRaised e), d1)
         | Inr (Some (i, held, created), d2) \<Rightarrow>
             if held \<noteq> er_job_class r then (Inl (IdentityNames i held), d2) else (Inr (i, created), d2)
         | Inr (None, d2) \<Rightarrow> identity_loop now r key w (Suc k) (n - 1) (between w k d2))"
  by (cases n) (simp_all only: identity_loop.simps diff_Suc_1 less_numeral_extra(3))

declare identity_loop.simps [simp del]

text \<open>One attempt: it inserts when nobody holds the key, and answers when its snapshot shows the holder.\<close>

lemma identity_attempt:
  assumes "jobs_ok (during w k d)" and "build_enqueue_row clock job_class os = Inr r" and "er_identity_key r = Some key"
    and "0 < n"
  shows "holder key (during w k d) = None \<Longrightarrow>
      \<exists>d'. identity_loop now r key w k n d = (Inr (next_job_id (during w k d), True), d')
        \<and> ENQUEUE_SQL now r (during w k d) = Inr (row_of now r (next_job_id (during w k d)), d')
        \<and> jobs_ok d' \<and> jobs d' = jobs (during w k d) @ [row_of now r (next_job_id (during w k d))]
        \<and> holder key d' = Some (row_of now r (next_job_id (during w k d)))"
    and "holder key (during w k d) \<noteq> None \<Longrightarrow> holder key d = Some h \<Longrightarrow>
      identity_loop now r key w k n d =
        (if j_job_class h = job_class then Inr (j_id h, False) else Inl (IdentityNames (j_id h) (j_job_class h)),
         during w k d)"
    and "holder key (during w k d) \<noteq> None \<Longrightarrow> holder key d = None \<Longrightarrow>
      identity_loop now r key w k n d = identity_loop now r key w (Suc k) (n - 1) (between w k (during w k d))"
proof -
  note step = identity_loop_more [OF assms(4), of now r key w k d, unfolded ENQUEUE_IDENTIFIED_SQL_def Let_def]
  have cls: "er_job_class r = job_class" by (rule build_enqueue_row_Inr(5) [OF assms(2)])
  show "\<exists>d'. identity_loop now r key w k n d = (Inr (next_job_id (during w k d), True), d')
        \<and> ENQUEUE_SQL now r (during w k d) = Inr (row_of now r (next_job_id (during w k d)), d')
        \<and> jobs_ok d' \<and> jobs d' = jobs (during w k d) @ [row_of now r (next_job_id (during w k d))]
        \<and> holder key d' = Some (row_of now r (next_job_id (during w k d)))" if none: "holder key (during w k d) = None"
  proof -
    obtain d' where ins: "ENQUEUE_SQL now r (during w k d) = Inr (row_of now r (next_job_id (during w k d)), d')"
      using identified_insert [OF assms(1,2,3) none] by blast
    have rows: "jobs d' = jobs (during w k d) @ [row_of now r (next_job_id (during w k d))]"
      using ENQUEUE_SQL_Inr [OF ins] by simp
    moreover have "holder key d' = Some (row_of now r (next_job_id (during w k d)))"
      by (rule holder_inserted [OF none rows]) (simp add: assms(3))
    moreover have "jobs_ok d'" by (rule ENQUEUE_SQL_ok [OF assms(2) ins assms(1)])
    ultimately show ?thesis using none ins by (simp add: step)
  qed
  show "holder key (during w k d) \<noteq> None \<Longrightarrow> holder key d = Some h \<Longrightarrow>
      identity_loop now r key w k n d =
        (if j_job_class h = job_class then Inr (j_id h, False) else Inl (IdentityNames (j_id h) (j_job_class h)),
         during w k d)"
    by (auto simp: step cls)
  show "holder key (during w k d) \<noteq> None \<Longrightarrow> holder key d = None \<Longrightarrow>
      identity_loop now r key w k n d = identity_loop now r key w (Suc k) (n - 1) (between w k (during w k d))"
    by (auto simp: step)
qed

text \<open>
  C12. An identity names one job. With no race, an identified enqueue hands back the job that
  holds the key, untouched, or refuses when that job is of another class; and when nobody
  holds it, it always creates the job, which holds the key from then on.
\<close>

theorem an_identity_names_one_job:
  assumes "jobs_ok d" and "build_enqueue_row clock job_class os = Inr r" and "er_identity_key r = Some key"
  shows "case holder key d of
      Some h \<Rightarrow> enqueue_identity now r key nobody d =
        (if j_job_class h = job_class then Inr (j_id h, False) else Inl (IdentityNames (j_id h) (j_job_class h)), d)
    | None \<Rightarrow> \<exists>d' j. enqueue_identity now r key nobody d = (Inr (j_id j, True), d') \<and> jobs_ok d'
        \<and> jobs d' = jobs d @ [j] \<and> holder key d' = Some j \<and> j_job_class j = job_class \<and> j_id j = next_job_id d"
proof -
  have ok: "jobs_ok (during nobody 0 d)" and same: "during nobody 0 d = d" using assms(1) by (simp_all add: nobody_def)
  have cls: "er_job_class r = job_class" by (rule build_enqueue_row_Inr(5) [OF assms(2)])
  have pos: "0 < SPECULATIVE_ATTEMPTS" by (simp add: SPECULATIVE_ATTEMPTS_def)
  note one = identity_attempt [where now = now, OF ok assms(2,3) pos, folded enqueue_identity_def, unfolded same]
  show ?thesis
  proof (cases "holder key d")
    case (Some h)
    with one(2) [of h] show ?thesis by simp
  next
    case None
    from one(1) [OF None] obtain d' where "enqueue_identity now r key nobody d = (Inr (next_job_id d, True), d')"
      "jobs_ok d'" "jobs d' = jobs d @ [row_of now r (next_job_id d)]"
      "holder key d' = Some (row_of now r (next_job_id d))" by blast
    with None show ?thesis by (auto simp: cls)
  qed
qed

text \<open>Two enqueues of one shipment.\<close>

definition ship_options :: "enqueue_option list" where
  "ship_options = [IdentityKey (Some ''order:1'')]"

lemma ship_row:
  "\<exists>r. build_enqueue_row 5 ''Ship'' ship_options = Inr r \<and> er_identity_key r = Some ''order:1''"
proof -
  have "isl (build_enqueue_row 5 ''Ship'' ship_options) = False" by code_simp
  then obtain r where r: "build_enqueue_row 5 ''Ship'' ship_options = Inr r"
    by (cases "build_enqueue_row 5 ''Ship'' ship_options") auto
  with build_enqueue_row_Inr(10) [OF r] show ?thesis by (simp add: options_of_def ship_options_def)
qed

lemma empty_jobs_ok: "jobs_ok empty_db"
  using empty_ok by (simp add: system_ok_def)

theorem an_identity_names_one_job_witness:
  "\<exists>r d1. enqueue_identity 5 r ''order:1'' nobody empty_db = (Inr (1, True), d1)
     \<and> enqueue_identity 6 r ''order:1'' nobody d1 = (Inr (1, False), d1)"
proof -
  obtain r where r: "build_enqueue_row 5 ''Ship'' ship_options = Inr r" "er_identity_key r = Some ''order:1''"
    using ship_row by blast
  have "holder ''order:1'' empty_db = None" by (simp add: holder_def empty_db_def)
  with an_identity_names_one_job [OF empty_jobs_ok r, of 5] obtain d1 j where
    first: "enqueue_identity 5 r ''order:1'' nobody empty_db = (Inr (j_id j, True), d1)"
    and d1: "jobs_ok d1" "holder ''order:1'' d1 = Some j" "j_job_class j = ''Ship''" "j_id j = next_job_id empty_db"
    by auto
  have "enqueue_identity 6 r ''order:1'' nobody d1 = (Inr (j_id j, False), d1)"
    using an_identity_names_one_job [OF d1(1) r, of 6] d1(2,3) by simp
  with first d1(4) show ?thesis by (auto simp: empty_db_def)
qed

text \<open>
  A race for an identity is decided, within two attempts. Whatever the other transactions
  commit meanwhile, as long as they keep the table sound and do not take a held key away, the
  call ends with a job of its class or the refusal of another class, never out of attempts;
  it inserted its row if it says so, and wrote nothing at all otherwise.
\<close>

theorem an_identity_race_is_decided:
  assumes "jobs_ok d" and "build_enqueue_row clock job_class os = Inr r" and "er_identity_key r = Some key"
    and "\<forall>k e. jobs_ok e \<longrightarrow> jobs_ok (during w k e) \<and> jobs_ok (between w k e)"
    and "\<forall>k e. holder key e \<noteq> None \<longrightarrow> holder key (during w k e) \<noteq> None \<and> holder key (between w k e) \<noteq> None"
  shows "\<exists>e \<in> {during w 0 d, during w 1 (between w 0 (during w 0 d))}. \<exists>i d'. holder key d' \<noteq> None \<and>
    (enqueue_identity now r key w d = (Inr (i, True), d') \<and> holder key e = None
        \<and> ENQUEUE_SQL now r e = Inr (row_of now r i, d')
     \<or> enqueue_identity now r key w d = (Inr (i, False), d') \<and> d' = e
     \<or> (\<exists>h. h \<noteq> job_class \<and> enqueue_identity now r key w d = (Inl (IdentityNames i h), d') \<and> d' = e))"
proof -
  let ?a = "during w 0 d" and ?m = "between w 0 (during w 0 d)" and ?b = "during w 1 (between w 0 (during w 0 d))"
  have ok: "jobs_ok ?a" "jobs_ok ?b" using assms(1,4) by simp_all
  have pos: "0 < SPECULATIVE_ATTEMPTS" "0 < SPECULATIVE_ATTEMPTS - 1" by (simp_all add: SPECULATIVE_ATTEMPTS_def)
  note one = identity_attempt [where now = now, OF ok(1) assms(2,3) pos(1), folded enqueue_identity_def]
  note two = identity_attempt [where now = now and k = 1, OF ok(2) assms(2,3) pos(2)]
  consider "holder key ?a = None" | h where "holder key ?a \<noteq> None" "holder key d = Some h"
    | "holder key ?a \<noteq> None" "holder key d = None" by (cases "holder key d") auto
  then show ?thesis
  proof cases
    case 1
    from one(1) [OF 1] 1 show ?thesis by auto
  next
    case (2 h)
    from one(2) [OF 2] 2(1) show ?thesis by (cases "j_job_class h = job_class") auto
  next
    case 3
    have again: "enqueue_identity now r key w d = identity_loop now r key w 1 (SPECULATIVE_ATTEMPTS - 1) ?m"
      using one(3) [OF 3] by simp
    have held: "holder key ?m \<noteq> None" "holder key ?b \<noteq> None" using 3(1) assms(5) by blast+
    from held(1) obtain h where h: "holder key ?m = Some h" by auto
    from two(2) [OF held(2) h] held(2) show ?thesis
      unfolding again by (cases "j_job_class h = job_class") auto
  qed
qed

theorem an_identity_race_is_decided_witness:
  "\<exists>r e i d'. enqueue_identity 5 r ''order:1'' nobody empty_db = (Inr (i, True), d') \<and> ENQUEUE_SQL 5 r e = Inr (row_of 5 r i, d')"
proof -
  obtain r where r: "build_enqueue_row 5 ''Ship'' ship_options = Inr r" "er_identity_key r = Some ''order:1''"
    using ship_row by blast
  have w: "\<forall>k e. jobs_ok e \<longrightarrow> jobs_ok (during nobody k e) \<and> jobs_ok (between nobody k e)"
    "\<forall>k e. holder ''order:1'' e \<noteq> None \<longrightarrow> holder ''order:1'' (during nobody k e) \<noteq> None
       \<and> holder ''order:1'' (between nobody k e) \<noteq> None"
    by (simp_all add: nobody_def)
  have "holder ''order:1'' empty_db = None" by (simp add: holder_def empty_db_def)
  with an_identity_race_is_decided [OF empty_jobs_ok r w, of 5] show ?thesis
    by (auto simp: nobody_def)
qed

section \<open>Debouncing a burst\<close>

lemma debounce_loop_more:
  "0 < n \<Longrightarrow> debounce_loop now r key fires w k n d =
     (let d1 = during w (2 * k) d
      in case DEBOUNCE_BOUNCE_SQL now key fires (er_kwargs r) (er_job_class r) d d1 of
           Inl e \<Rightarrow> (Inl (SqlRaised e), d1)
         | Inr (held, d2) \<Rightarrow>
             (case bounce_verdict (er_job_class r) held of
                Some (Inr i) \<Rightarrow> (Inr (i, False), d2)
              | Some (Inl e) \<Rightarrow> (Inl e, d2)
              | None \<Rightarrow>
                  (let d3 = during w (2 * k + 1) d2
                   in case ENQUEUE_DEBOUNCED_SQL now r key d3 of
                        Inl e \<Rightarrow> (Inl (SqlRaised e), d3)
                      | Inr (Some i, d4) \<Rightarrow> (Inr (i, True), d4)
                      | Inr (None, d4) \<Rightarrow> debounce_loop now r key fires w (Suc k) (n - 1) (between w k d4))))"
  by (cases n) (simp_all only: debounce_loop.simps diff_Suc_1 less_numeral_extra(3))

declare debounce_loop.simps [simp del]

text \<open>The index holds one open window per key.\<close>

lemma window_unique:
  assumes "jobs_ok d" and "j \<in> set (jobs d)" "window_open key j" and "k \<in> set (jobs d)" "window_open key k"
  shows "k = j"
proof -
  have ok: "index_ok debounce_idx (jobs d)" using assms(1) by (simp add: jobs_ok_def unique_ok_def)
  have idx: "debounce_idx j = Some key" "debounce_idx k = Some key"
    using assms(3,5) by (simp_all add: debounce_idx_def window_open_def)
  have "x = y" if "index_ok debounce_idx rows" "x \<in> set rows" "y \<in> set rows"
    "debounce_idx x = Some key" "debounce_idx y = Some key" for rows x y
    using that
  proof (induction rows)
    case (Cons z rows)
    then show ?case by (auto simp: index_ok_def split: option.splits)
  qed simp
  from this [OF ok assms(4,2) idx(2,1)] show ?thesis .
qed

lemma window_found:
  assumes "jobs_ok d" and "lookup_job d i = Some j" and "window_open key j"
  shows "List.find (window_open key) (jobs d) = Some j"
proof -
  have j: "j \<in> set (jobs d)" using lookup_job_SomeD [OF assms(2)] by simp
  then obtain k where k: "List.find (window_open key) (jobs d) = Some k"
    using assms(3) by (cases "List.find (window_open key) (jobs d)") (auto simp: find_None_iff)
  then have "k \<in> set (jobs d)" "window_open key k" by (auto simp: find_Some_iff)
  with window_unique [OF assms(1) j assms(3)] k show ?thesis by simp
qed

text \<open>A call that finds its window open moves the row and rewrites its arguments.\<close>

lemma debounce_bounces:
  assumes ok: "jobs_ok d" and row: "lookup_job d i = Some j" and "window_open key j"
    and "j_job_class j = er_job_class r"
  shows "debounce_loop now r key fires nobody 0 SPECULATIVE_ATTEMPTS d =
      (Inr (i, False), bounce.after key (er_job_class r) i now fires (er_kwargs r) d)"
    and "lookup_job (bounce.after key (er_job_class r) i now fires (er_kwargs r) d) i
      = Some (bounce_set now fires (er_kwargs r) j)"
    and "length (jobs (bounce.after key (er_job_class r) i now fires (er_kwargs r) d)) = length (jobs d)"
proof -
  have i: "j_id j = i" using lookup_job_SomeD [OF row] by simp
  have hit: "bounce_where key (er_job_class r) i j" using assms(3,4) i by (simp add: bounce_where_def)
  have "filter (bounce_where key (er_job_class r) i) (jobs d) = [j]"
    using row hit by (subst filter_id_rows [OF ok, of _ i]) (auto simp: bounce_where_def)
  then have "update_jobs (bounce_where key (er_job_class r) i) (bounce_set now fires (er_kwargs r)) d
      = Inr ([bounce_set now fires (er_kwargs r) j], bounce.after key (er_job_class r) i now fires (er_kwargs r) d)"
    using bounce.runs [OF ok] by simp
  then show "debounce_loop now r key fires nobody 0 SPECULATIVE_ATTEMPTS d =
      (Inr (i, False), bounce.after key (er_job_class r) i now fires (er_kwargs r) d)"
    by (simp add: debounce_loop_more SPECULATIVE_ATTEMPTS_def nobody_def DEBOUNCE_BOUNCE_SQL_def
        window_found [OF ok row assms(3)] i bounce_verdict_def)
  show "lookup_job (bounce.after key (er_job_class r) i now fires (er_kwargs r) d) i
      = Some (bounce_set now fires (er_kwargs r) j)"
    using hit by (simp add: bounce.after_lookup row)
  show "length (jobs (bounce.after key (er_job_class r) i now fires (er_kwargs r) d)) = length (jobs d)"
    by simp
qed

text \<open>A call that finds none opens it.\<close>

lemma debounce_opens:
  assumes ok: "jobs_ok d" and "\<forall>j \<in> set (jobs d). \<not> window_open key j"
    and built: "build_enqueue_row clock job_class os = Inr r" and "er_debounce_key r = Some key"
  shows "\<exists>d'. debounce_loop now r key fires nobody 0 SPECULATIVE_ATTEMPTS d = (Inr (next_job_id d, True), d')
    \<and> jobs_ok d' \<and> jobs d' = jobs d @ [row_of now r (next_job_id d)]
    \<and> lookup_job d' (next_job_id d) = Some (row_of now r (next_job_id d))"
proof -
  have none: "List.find (window_open key) (jobs d) = None" "\<not> list_ex (window_open key) (jobs d)"
    using assms(2) by (auto simp: find_None_iff list_ex_iff)
  note keys = check_keys_Inr(2) [OF build_enqueue_row_Inr(1) [OF built]]
  have bare: "er_deadline_key r = None" "er_identity_key r = None"
    using keys assms(4) build_enqueue_row_Inr(9-11) [OF built] by (auto split: if_splits)
  have 1: "\<forall>j \<in> set (jobs d). er_identity_key r \<noteq> None \<longrightarrow> j_identity_key j \<noteq> er_identity_key r"
    using bare by simp
  have 2: "\<forall>j \<in> set (jobs d). deadline_idx (row_of now r 0) \<noteq> None \<longrightarrow> deadline_idx j \<noteq> deadline_idx (row_of now r 0)"
    using bare by (simp add: deadline_idx_def)
  have 3: "\<forall>j \<in> set (jobs d). debounce_idx (row_of now r 0) \<noteq> None \<longrightarrow> debounce_idx j \<noteq> debounce_idx (row_of now r 0)"
    using assms(2,4) by (auto simp: debounce_idx_def window_open_def split: if_splits)
  obtain d' where ins: "ENQUEUE_SQL now r d = Inr (row_of now r (next_job_id d), d')"
    using ENQUEUE_SQL_succeeds [OF ok 1 2 3] by blast
  have rows: "jobs d' = jobs d @ [row_of now r (next_job_id d)]" using ENQUEUE_SQL_Inr [OF ins] by simp
  have ok': "jobs_ok d'" by (rule ENQUEUE_SQL_ok [OF built ins ok])
  then have "lookup_job d' (next_job_id d) = Some (row_of now r (next_job_id d))"
    using jobs_ok_distinct [OF ok'] by (simp add: lookup_job_def find_row_Some rows)
  with ok' rows ins none show ?thesis
    by (simp add: debounce_loop_more SPECULATIVE_ATTEMPTS_def nobody_def DEBOUNCE_BOUNCE_SQL_def
        bounce_verdict_def ENQUEUE_DEBOUNCED_SQL_def)
qed

end
