(* ===== verification/Bursts.thy ===== *)
theory Bursts
  imports Speculative
begin

text \<open>
  What the enqueue verbs of \<open>Speculative\<close> promise over several calls or several rows: a
  burst of debounced calls, a batch, a pipeline.
\<close>

section \<open>A burst of debounced calls\<close>

text \<open>A client that debounces one call after another: each with its clock, its \<open>now()\<close> and its kwargs.\<close>

fun run_burst ::
  "job_client \<Rightarrow> string \<Rightarrow> string \<Rightarrow> interval \<Rightarrow> interval option
     \<Rightarrow> (instant \<times> instant \<times> (string \<times> json) list) list \<Rightarrow> database
     \<Rightarrow> (client_error + (job_id \<times> bool)) list \<times> database" where
  "run_burst c job_class key period cap [] d = ([], d)"
| "run_burst c job_class key period cap ((clock, now, kw) # calls) d =
     (let (res, d1) = debounce c clock now job_class key period cap None JNull [JobKwargs (Some kw)] nobody d;
          (results, d2) = run_burst c job_class key period cap calls d1
      in (res # results, d2))"

definition fires_at :: "instant \<Rightarrow> interval \<Rightarrow> interval option \<Rightarrow> instant" where
  "fires_at clock period cap = (case cap of None \<Rightarrow> clock + period | Some s \<Rightarrow> min (clock + period) (clock + s))"

definition burst_options ::
  "job_client \<Rightarrow> string \<Rightarrow> instant \<Rightarrow> instant option \<Rightarrow> (string \<times> json) list \<Rightarrow> enqueue_option list" where
  "burst_options c key fires deadline kw =
     with_client c None JNull [JobKwargs (Some kw)]
     @ [RunAfter (Some fires), DebounceKey (Some key), DebounceDeadline deadline]"

text \<open>The calls a fleet accepts: a usable key, a usable version, a ceiling that admits the default priority.\<close>

definition client_ok :: "job_client \<Rightarrow> string \<Rightarrow> bool" where
  "client_ok c key \<longleftrightarrow> \<not> isl (validate_key ''debounce_key'' (Some key))
     \<and> \<not> isl (validate_app_version (stored_version (cl_app_version c))) \<and> 100 \<le> cl_prio_ceiling c"

lemma burst_builds:
  assumes "client_ok c key"
  shows "\<exists>r. build_enqueue_row clock job_class (burst_options c key fires deadline kw) = Inr r
    \<and> er_debounce_key r = Some key \<and> er_job_class r = job_class \<and> er_kwargs r = kw \<and> er_state r = Queued
    \<and> er_run_after r = fires \<and> er_debounce_deadline r = deadline"
proof -
  obtain v where v: "validate_app_version (stored_version (cl_app_version c)) = Inr v"
    using assms by (cases "validate_app_version (stored_version (cl_app_version c))") (auto simp: client_ok_def)
  have k: "strip key \<noteq> []" "\<not> MAX_KEY_LENGTH < length key"
    using assms by (auto simp: client_ok_def validate_key_def split: if_splits)
  have p: "options_of (burst_options c key fires deadline kw) = default_options\<lparr>eo_job_kwargs := Some kw,
      eo_prio_ceiling := cl_prio_ceiling c, eo_app_version := stored_version (cl_app_version c),
      eo_run_after := Some fires, eo_debounce_key := Some key, eo_debounce_deadline := deadline\<rparr>"
    by (simp add: options_of_def burst_options_def with_client_def client_version_def default_options_def)
  show ?thesis
    using assms
    by (simp add: build_enqueue_row_def Let_def p default_options_def check_keys_def check_debounce_def
        check_identity_def conflicting_keys_def waits_def given_def refuse_if_def check_values_def v k
        lift_rule_def validate_key_def validate_priority_def client_ok_def validate_tags_def
        ON_TIMEOUT_POLICIES_def check_admin_data_def merge_admin_data_def no_admin_data_def
        setdefault_def RETRY_STRATEGIES_def DEFAULT_RETRY_STRATEGY_def)
qed


text \<open>The row the burst has collapsed onto: still open, its cap fixed by the first call.\<close>

definition collapsed :: "string \<Rightarrow> string \<Rightarrow> job_id \<Rightarrow> instant option \<Rightarrow> database \<Rightarrow> jorb \<Rightarrow> bool" where
  "collapsed key job_class i deadline d j \<longleftrightarrow> jobs_ok d \<and> lookup_job d i = Some j \<and> window_open key j
     \<and> j_job_class j = job_class \<and> j_debounce_deadline j = deadline"

definition capped :: "instant \<Rightarrow> instant option \<Rightarrow> instant" where
  "capped fires deadline = (case deadline of None \<Rightarrow> fires | Some t \<Rightarrow> min fires t)"

lemma debounce_is_loop:
  assumes "client_ok c key" and "0 < period" and "\<forall>s. cap = Some s \<longrightarrow> 0 < s"
  shows "\<exists>r. build_enqueue_row clock job_class
        (burst_options c key (fires_at clock period cap) (map_option (\<lambda>s. clock + s) cap) kw) = Inr r
    \<and> er_debounce_key r = Some key \<and> er_job_class r = job_class \<and> er_kwargs r = kw \<and> er_state r = Queued
    \<and> er_run_after r = fires_at clock period cap \<and> er_debounce_deadline r = map_option (\<lambda>s. clock + s) cap
    \<and> debounce c clock now job_class key period cap None JNull [JobKwargs (Some kw)] nobody d
        = debounce_loop now r key (fires_at clock period cap) nobody 0 SPECULATIVE_ATTEMPTS d"
proof -
  from burst_builds [OF assms(1), of clock job_class "fires_at clock period cap" "map_option (\<lambda>s. clock + s) cap" kw]
  obtain r where r: "build_enqueue_row clock job_class
        (burst_options c key (fires_at clock period cap) (map_option (\<lambda>s. clock + s) cap) kw) = Inr r"
    "er_debounce_key r = Some key" "er_job_class r = job_class" "er_kwargs r = kw" "er_state r = Queued"
    "er_run_after r = fires_at clock period cap" "er_debounce_deadline r = map_option (\<lambda>s. clock + s) cap" by blast
  have "debounce c clock now job_class key period cap None JNull [JobKwargs (Some kw)] nobody d
      = debounce_loop now r key (fires_at clock period cap) nobody 0 SPECULATIVE_ATTEMPTS d"
    using assms(2,3) r(1)
    by (cases cap) (auto simp: debounce_def Let_def fires_at_def min_def burst_options_def first_clash_def with_client_def)
  with r show ?thesis by blast
qed

lemma next_call_bounces:
  assumes "client_ok c key" "0 < period" "\<forall>s. cap = Some s \<longrightarrow> 0 < s"
    and "collapsed key job_class i deadline d j"
  shows "\<exists>d' j'. debounce c clock now job_class key period cap None JNull [JobKwargs (Some kw)] nobody d
      = (Inr (i, False), d') \<and> collapsed key job_class i deadline d' j' \<and> length (jobs d') = length (jobs d)
    \<and> j_kwargs j' = kw \<and> j_run_after j' = capped (fires_at clock period cap) deadline"
proof -
  obtain r where r: "er_job_class r = job_class" "er_kwargs r = kw"
    and call: "debounce c clock now job_class key period cap None JNull [JobKwargs (Some kw)] nobody d
        = debounce_loop now r key (fires_at clock period cap) nobody 0 SPECULATIVE_ATTEMPTS d"
    using debounce_is_loop [OF assms(1-3), of clock job_class kw now d] by blast
  have held: "jobs_ok d" "lookup_job d i = Some j" "window_open key j" "j_job_class j = er_job_class r"
    using assms(4) by (simp_all add: collapsed_def r)
  note b = debounce_bounces [OF held, of now "fires_at clock period cap", unfolded r]
  let ?f = "bounce_set now (fires_at clock period cap) kw"
  have "collapsed key job_class i deadline (bounce.after key job_class i now (fires_at clock period cap) kw d) (?f j)"
    using assms(4) b(2) bounce.after_ok [OF held(1)]
    by (simp add: collapsed_def bounce_set_def window_open_def)
  moreover have "j_run_after (?f j) = capped (fires_at clock period cap) deadline" "j_kwargs (?f j) = kw"
    using assms(4) by (simp_all add: bounce_set_def capped_def collapsed_def)
  ultimately show ?thesis using b(1,3) call by auto
qed


lemma burst_bounces:
  assumes "client_ok c key" "0 < period" "\<forall>s. cap = Some s \<longrightarrow> 0 < s"
    and "collapsed key job_class i deadline d j"
  shows "\<exists>d' j'. run_burst c job_class key period cap calls d = (map (\<lambda>_. Inr (i, False)) calls, d')
    \<and> collapsed key job_class i deadline d' j' \<and> length (jobs d') = length (jobs d)
    \<and> (calls = [] \<longrightarrow> j' = j)
    \<and> (\<forall>clock now kw. calls \<noteq> [] \<longrightarrow> last calls = (clock, now, kw)
         \<longrightarrow> j_kwargs j' = kw \<and> j_run_after j' = capped (fires_at clock period cap) deadline)"
  using assms(4)
proof (induction calls arbitrary: d j)
  case (Cons call calls)
  obtain clock now kw where call: "call = (clock, now, kw)" by (metis prod_cases3)
  from next_call_bounces [OF assms(1-3) Cons.prems, of clock now kw]
  obtain d1 j1 where one: "debounce c clock now job_class key period cap None JNull [JobKwargs (Some kw)] nobody d
      = (Inr (i, False), d1)" "collapsed key job_class i deadline d1 j1" "length (jobs d1) = length (jobs d)"
    "j_kwargs j1 = kw" "j_run_after j1 = capped (fires_at clock period cap) deadline" by blast
  from Cons.IH [OF one(2)] obtain d' j' where rest:
    "run_burst c job_class key period cap calls d1 = (map (\<lambda>_. Inr (i, False)) calls, d')"
    "collapsed key job_class i deadline d' j'" "length (jobs d') = length (jobs d1)" "calls = [] \<longrightarrow> j' = j1"
    "\<forall>clock now kw. calls \<noteq> [] \<longrightarrow> last calls = (clock, now, kw)
         \<longrightarrow> j_kwargs j' = kw \<and> j_run_after j' = capped (fires_at clock period cap) deadline" by blast
  show ?case
    by (intro exI [of _ d'] exI [of _ j']) (use one rest in \<open>auto simp: call\<close>)
qed (auto simp: exI)

text \<open>
  C34. A burst of debounced calls becomes one job. With no window open for the key, the first
  call inserts a row and every later call of the burst returns that row's id and inserts
  nothing; the job left behind carries the arguments of the last call, and fires a period
  after the last call but never later than the cap counted from the first.
\<close>

theorem a_burst_collapses_onto_one_job:
  assumes "jobs_ok d" and "\<forall>j \<in> set (jobs d). \<not> window_open key j" and "client_ok c key"
    and "0 < period" and "\<forall>s. cap = Some s \<longrightarrow> 0 < s"
    and "calls = (first, now, kw) # later" and "last calls = (latest, now', kw')" and "first \<le> latest"
  shows "\<exists>d' j. run_burst c job_class key period cap calls d
      = (Inr (next_job_id d, True) # map (\<lambda>_. Inr (next_job_id d, False)) later, d')
    \<and> jobs_ok d' \<and> length (jobs d') = length (jobs d) + 1
    \<and> lookup_job d' (next_job_id d) = Some j \<and> j_state j = Queued \<and> j_job_class j = job_class \<and> j_kwargs j = kw'
    \<and> j_run_after j = (case cap of None \<Rightarrow> latest + period | Some s \<Rightarrow> min (latest + period) (first + s))"
proof -
  let ?i = "next_job_id d" and ?deadline = "map_option (\<lambda>s. first + s) cap"
  from debounce_is_loop [OF assms(3-5), of first job_class kw now d]
  obtain r where r: "build_enqueue_row first job_class
        (burst_options c key (fires_at first period cap) ?deadline kw) = Inr r"
    "er_debounce_key r = Some key" "er_job_class r = job_class" "er_kwargs r = kw" "er_state r = Queued"
    "er_run_after r = fires_at first period cap" "er_debounce_deadline r = ?deadline"
    "debounce c first now job_class key period cap None JNull [JobKwargs (Some kw)] nobody d
        = debounce_loop now r key (fires_at first period cap) nobody 0 SPECULATIVE_ATTEMPTS d" by blast
  from debounce_opens [OF assms(1,2) r(1,2), of now "fires_at first period cap"]
  obtain d1 where d1: "debounce c first now job_class key period cap None JNull [JobKwargs (Some kw)] nobody d
      = (Inr (?i, True), d1)" "jobs_ok d1" "jobs d1 = jobs d @ [row_of now r ?i]"
    "lookup_job d1 ?i = Some (row_of now r ?i)" using r(8) by auto
  let ?j = "row_of now r ?i"
  have held: "collapsed key job_class ?i ?deadline d1 ?j"
    using d1 r by (simp add: collapsed_def window_open_def)
  from burst_bounces [OF assms(3-5) held, of later]
  obtain d' j' where rest: "run_burst c job_class key period cap later d1 = (map (\<lambda>_. Inr (?i, False)) later, d')"
    "collapsed key job_class ?i ?deadline d' j'" "length (jobs d') = length (jobs d1)" "later = [] \<longrightarrow> j' = ?j"
    "\<forall>clock now kw. later \<noteq> [] \<longrightarrow> last later = (clock, now, kw)
         \<longrightarrow> j_kwargs j' = kw \<and> j_run_after j' = capped (fires_at clock period cap) ?deadline" by blast
  have final: "j_kwargs j' = kw' \<and> j_run_after j' = capped (fires_at latest period cap) ?deadline"
  proof (cases "later = []")
    case True
    with rest(4) r assms(6,7) show ?thesis by (auto simp: capped_def fires_at_def split: option.split)
  next
    case False
    with rest(5) assms(6,7) show ?thesis by simp
  qed
  have "capped (fires_at latest period cap) ?deadline
      = (case cap of None \<Rightarrow> latest + period | Some s \<Rightarrow> min (latest + period) (first + s))"
    using assms(8) by (auto simp: capped_def fires_at_def split: option.split)
  with final rest d1 assms(6) show ?thesis
    by (intro exI [of _ d'] exI [of _ j']) (auto simp: collapsed_def window_open_def)
qed


definition a_client :: job_client where
  "a_client = \<lparr>cl_prio_ceiling = 1000, cl_app_version = None\<rparr>"

theorem a_burst_collapses_onto_one_job_witness:
  "\<exists>d' j. run_burst a_client ''Reindex'' ''page:7'' 10 (Some 15)
       [(100, 100, []), (104, 104, [(''rev'', JInt 2)]), (108, 108, [(''rev'', JInt 3)])] empty_db
     = ([Inr (1, True), Inr (1, False), Inr (1, False)], d')
     \<and> lookup_job d' 1 = Some j \<and> j_kwargs j = [(''rev'', JInt 3)] \<and> j_run_after j = 115"
proof -
  let ?calls = "[(100, 100, []), (104, 104, [(''rev'', JInt 2)]), (108, 108, [(''rev'', JInt 3)])]
    :: (instant \<times> instant \<times> (string \<times> json) list) list"
  have "client_ok a_client ''page:7''" by code_simp
  moreover have "\<forall>j \<in> set (jobs empty_db). \<not> window_open ''page:7'' j" by (simp add: empty_db_def)
  ultimately show ?thesis
    using a_burst_collapses_onto_one_job [OF empty_jobs_ok, of "''page:7''" a_client 10 "Some 15" ?calls 100 100 "[]"
        "tl ?calls" 108 108 "[(''rev'', JInt 3)]" "''Reindex''"]
    by (auto simp: empty_db_def)
qed

section \<open>A batch\<close>

text \<open>The same rows through the client's verb, one call per item, in the caller's transaction.\<close>

fun enqueue_each ::
  "job_client \<Rightarrow> instant \<Rightarrow> instant \<Rightarrow> int option \<Rightarrow> enqueue_option list
     \<Rightarrow> (string \<times> (string \<times> json) list \<times> enqueue_option list) list \<Rightarrow> database \<Rightarrow> (job_id list \<times> database) option" where
  "enqueue_each c clock now ceil options [] d = Some ([], d)"
| "enqueue_each c clock now ceil options ((job_class, kwargs, per_job) # items) d =
     (case enqueue_in_transaction clock now job_class (batch_options c ceil options kwargs per_job) nobody d of
        (Inl e, d1) \<Rightarrow> None
      | (Inr i, d1) \<Rightarrow>
          (case enqueue_each c clock now ceil options items d1 of
             None \<Rightarrow> None
           | Some (is, d2) \<Rightarrow> Some (i # is, d2)))"

definition plain_options :: "enqueue_option list \<Rightarrow> bool" where
  "plain_options os \<longleftrightarrow> refuse_batch_options os = Inr ()"

lemma other_option [simp]:
  "\<not> is_identity_key x \<Longrightarrow> eo_identity_key (set_option p x) = eo_identity_key p"
  "\<not> is_debounce_key x \<Longrightarrow> eo_debounce_key (set_option p x) = eo_debounce_key p"
  by (cases x; simp)+

lemma no_key_option:
  "\<not> list_ex is_identity_key os \<Longrightarrow> eo_identity_key (foldl set_option p os) = eo_identity_key p"
  "\<not> list_ex is_debounce_key os \<Longrightarrow> eo_debounce_key (foldl set_option p os) = eo_debounce_key p"
  by (induction os arbitrary: p) auto

lemma batch_options_keyless:
  assumes "plain_options options" and "plain_options per_job"
  shows "eo_identity_key (options_of (batch_options c ceil options kwargs per_job)) = None"
    and "eo_debounce_key (options_of (batch_options c ceil options kwargs per_job)) = None"
  using assms
  by (simp_all add: plain_options_def refuse_batch_options_def bind_sum_Inr_iff options_of_def batch_options_def
      no_key_option default_options_def)


lemma keyless_enqueue:
  assumes "eo_identity_key (options_of os) = None" and "eo_debounce_key (options_of os) = None"
  shows "enqueue_in_transaction clock now job_class os w d =
     (case build_enqueue_row clock job_class os of
        Inl e \<Rightarrow> (Inl e, d)
      | Inr r \<Rightarrow> (case ENQUEUE_SQL now r d of
                   Inl e \<Rightarrow> (Inl (SqlRaised e), d)
                 | Inr (j, d') \<Rightarrow> (Inr (j_id j), d')))"
  by (simp add: enqueue_in_transaction_def enqueue_row_def assms split: sum.split)

lemma batch_rows_each:
  assumes "plain_options options" and "\<forall>(job_class, kwargs, per_job) \<in> set items. plain_options per_job"
  shows "enqueue_each c clock now ceil options items d = Some (is, d') \<longleftrightarrow>
    (\<exists>rows. build_batch_rows c clock ceil options items = Inr rows \<and> ENQUEUE_BATCH_SQL now rows d = Inr (is, d'))"
  using assms(2)
proof (induction items arbitrary: d "is")
  case (Cons item items)
  obtain job_class kwargs per_job where item: "item = (job_class, kwargs, per_job)" by (metis prod_cases3)
  with Cons.prems have plain: "plain_options per_job" by simp
  note key = keyless_enqueue [OF batch_options_keyless [OF assms(1) plain]]
  have IH: "enqueue_each c clock now ceil options items e = Some (js, d') \<longleftrightarrow>
    (\<exists>rows. build_batch_rows c clock ceil options items = Inr rows \<and> ENQUEUE_BATCH_SQL now rows e = Inr (js, d'))"
    for e js using Cons by simp
  show ?case
  proof (cases "build_enqueue_row clock job_class (batch_options c ceil options kwargs per_job)")
    case (Inl e)
    then show ?thesis by (simp add: item key bind_sum_Inr_iff)
  next
    case (Inr r)
    show ?thesis
    proof (cases "ENQUEUE_SQL now r d")
      case failed: (Inl e)
      with Inr show ?thesis by (auto simp: item key bind_sum_Inr_iff)
    next
      case ins: (Inr p)
      obtain j d1 where p: "p = (j, d1)" by (cases p)
      have "enqueue_each c clock now ceil options (item # items) d = Some (is, d') \<longleftrightarrow>
          (\<exists>js. is = j_id j # js \<and> enqueue_each c clock now ceil options items d1 = Some (js, d'))"
        by (auto simp: item key Inr ins p split: option.splits)
      also have "\<dots> \<longleftrightarrow> (\<exists>js rows. is = j_id j # js \<and> build_batch_rows c clock ceil options items = Inr rows
          \<and> ENQUEUE_BATCH_SQL now rows d1 = Inr (js, d'))"
        by (simp add: IH)
      also have "\<dots> \<longleftrightarrow> (\<exists>rows. build_batch_rows c clock ceil options (item # items) = Inr rows
          \<and> ENQUEUE_BATCH_SQL now rows d = Inr (is, d'))"
        using plain by (auto simp: item Inr ins p plain_options_def bind_sum_Inr_iff)
      finally show ?thesis .
    qed
  qed
qed auto




section \<open>A pipeline\<close>

fun is_kwarg :: "enqueue_option \<Rightarrow> bool" where
  "is_kwarg (Kwarg k v) = True"
| "is_kwarg _ = False"

lemma kwargs_only: "list_all is_kwarg os \<Longrightarrow> \<exists>kvs. foldl set_option p os = p\<lparr>eo_kwargs := kvs\<rparr>"
proof (induction os arbitrary: p)
  case (Cons x os)
  then obtain k v where x: "x = Kwarg k v" by (cases x) auto
  from Cons obtain kvs where "foldl set_option (set_option p x) os = (set_option p x)\<lparr>eo_kwargs := kvs\<rparr>" by fastforce
  with x show ?case by auto
next
  case Nil
  show ?case by (rule exI [of _ "eo_kwargs p"]) simp
qed

text \<open>One stage: its row waits for the stage before it, when there is one.\<close>

lemma pipeline_stage:
  assumes "list_all is_kwarg kw"
    and "enqueue_in_transaction clock now job_class
       (kw @ [WaitforJob previous, Queue queue, Priority priority, PrioCeiling n, AppVersion v]) nobody d = (Inr i, d')"
    and "\<forall>p. previous = Some p \<longrightarrow> p \<noteq> 0" and "jobs_ok d"
  shows "i = next_job_id d \<and> next_job_id d' = next_job_id d + 1 \<and> jobs_ok d'
    \<and> (\<exists>j. jobs d' = jobs d @ [j] \<and> j_id j = i \<and> j_job_class j = job_class \<and> j_queue j = queue \<and> j_waitfor_job j = previous
         \<and> j_state j = (if previous = None then Queued else Waiting))"
proof -
  let ?os = "kw @ [WaitforJob previous, Queue queue, Priority priority, PrioCeiling n, AppVersion v]"
  from kwargs_only [OF assms(1), of default_options] obtain kvs
    where "foldl set_option default_options kw = default_options\<lparr>eo_kwargs := kvs\<rparr>" by blast
  then have o: "options_of ?os = default_options\<lparr>eo_kwargs := kvs, eo_waitfor_job := previous, eo_queue := queue,
      eo_priority := priority, eo_prio_ceiling := n, eo_app_version := v\<rparr>"
    by (simp add: options_of_def)
  have "eo_identity_key (options_of ?os) = None" "eo_debounce_key (options_of ?os) = None"
    by (simp_all add: o default_options_def)
  note run = keyless_enqueue [OF this]
  obtain r j where built: "build_enqueue_row clock job_class ?os = Inr r" and ins: "ENQUEUE_SQL now r d = Inr (j, d')"
    and i: "i = j_id j" using assms(2) by (auto simp: run split: sum.splits)
  note b = build_enqueue_row_Inr [OF built] and f = ENQUEUE_SQL_Inr [OF ins]
  have "er_state r = (if previous = None then Queued else Waiting)"
    using b(7) assms(3) by (auto simp: o waits_def given_def default_options_def split: option.splits)
  moreover have "j_queue (row_of now r (next_job_id d)) = er_queue r" by (simp add: row_of_def)
  ultimately show ?thesis
    using b(5,15,17) f i ENQUEUE_SQL_ok [OF built ins assms(4)] by (auto simp: o default_options_def)
qed


fun chained :: "job_id option \<Rightarrow> jorb list \<Rightarrow> bool" where
  "chained previous [] = True"
| "chained previous (j # js) =
     (j_waitfor_job j = previous \<and> j_state j = (if previous = None then Queued else Waiting) \<and> chained (Some (j_id j)) js)"

lemma chain_rows:
  assumes "chain_loop c clock now queue priority False [] previous saved stages nobody d = Inr (is, d')"
    and "list_all (\<lambda>(k, kw, save). list_all is_kwarg kw) stages"
    and "\<forall>p. previous = Some p \<longrightarrow> p \<noteq> 0" and "0 < next_job_id d" and "jobs_ok d"
  shows "jobs_ok d' \<and> is = map (\<lambda>k. next_job_id d + int k) [0..<length stages]
    \<and> (\<exists>rows. jobs d' = jobs d @ rows \<and> map j_id rows = is \<and> map j_job_class rows = map fst stages
         \<and> (\<forall>j \<in> set rows. j_queue j = queue) \<and> chained previous rows)"
  using assms
proof (induction stages arbitrary: previous saved d "is")
  case (Cons stage stages)
  obtain k kw save where stage: "stage = (k, kw, save)" by (metis prod_cases3)
  from Cons.prems(1) obtain i d1 js where one: "enqueue_in_transaction clock now k
       (kw @ [WaitforJob previous, Queue queue, Priority priority, PrioCeiling (cl_prio_ceiling c),
          AppVersion (stored_version (cl_app_version c))]) nobody d = (Inr i, d1)"
    and rest: "chain_loop c clock now queue priority False [] (Some i) save stages nobody d1 = Inr (js, d')" "is = i # js"
    by (auto simp: stage Let_def bind_sum_Inr_iff split: sum.splits prod.splits option.splits)
  from Cons.prems(2) have only: "list_all is_kwarg kw" "list_all (\<lambda>(k, kw, save). list_all is_kwarg kw) stages"
    by (simp_all add: stage)
  note head = pipeline_stage [OF only(1) one Cons.prems(3,5)]
  from Cons.IH [OF rest(1) only(2)] head Cons.prems(4)
  have tail: "jobs_ok d'" "js = map (\<lambda>k. next_job_id d1 + int k) [0..<length stages]"
    "\<exists>rows. jobs d' = jobs d1 @ rows \<and> map j_id rows = js \<and> map j_job_class rows = map fst stages
         \<and> (\<forall>j \<in> set rows. j_queue j = queue) \<and> chained (Some i) rows" by auto
  have shift: "map (\<lambda>k. next_job_id d + int k) [0..<length (stage # stages)] = i # js"
    using head tail(2) by (simp add: upt_conv_Cons map_Suc_upt [symmetric] o_def algebra_simps del: upt_Suc)
  from head tail(3) obtain j rows where "jobs d' = jobs d @ (j # rows)" "j_id j = i" "j_job_class j = k" "j_queue j = queue"
    "j_waitfor_job j = previous" "j_state j = (if previous = None then Queued else Waiting)"
    "map j_id rows = js" "map j_job_class rows = map fst stages" "\<forall>j \<in> set rows. j_queue j = queue" "chained (Some i) rows"
    by auto
  then show ?case
    using tail(1) shift rest(2) by (intro conjI exI [of _ "j # rows"]) (auto simp: stage)
qed auto

text \<open>
  A pipeline is written whole or not at all, and in order. When it is accepted, one row
  per stage is appended, with the stages' classes, on the pipeline's queue and with
  consecutive ids; the first is queued and every other is waiting on exactly the stage
  before it. When any stage is refused, nothing of the pipeline stays.
\<close>

theorem a_pipeline_is_a_chain:
  assumes "jobs_ok d" and "0 < next_job_id d" and "\<forall>(k, kw) \<in> set stages. list_all is_kwarg kw"
  shows "case create_pipeline c clock now stages queue priority nobody d of
      (Inl e, d') \<Rightarrow> d' = d
    | (Inr ids, d') \<Rightarrow> jobs_ok d' \<and> ids = map (\<lambda>k. next_job_id d + int k) [0..<length stages]
        \<and> (\<exists>rows. jobs d' = jobs d @ rows \<and> map j_id rows = ids \<and> map j_job_class rows = map fst stages
             \<and> (\<forall>j \<in> set rows. j_queue j = queue) \<and> chained None rows)"
proof -
  let ?stages = "map (\<lambda>(k, kw). (k, kw, True)) stages"
  have plain: "list_all (\<lambda>(k, kw, save). list_all is_kwarg kw) ?stages" "map fst ?stages = map fst stages"
    using assms(3) by (auto simp: list_all_iff)
  show ?thesis
  proof (cases "chain_loop c clock now queue priority False [] None False ?stages nobody d")
    case (Inl e)
    then show ?thesis by (simp add: create_pipeline_def create_chain_def)
  next
    case (Inr p)
    obtain ids d' where p: "p = (ids, d')" by (cases p)
    have "None = Some q \<longrightarrow> q \<noteq> 0" for q :: job_id by simp
    with chain_rows [OF Inr [unfolded p] plain(1) _ assms(2,1)] show ?thesis
      unfolding plain(2) by (simp add: create_pipeline_def create_chain_def Inr p) metis
  qed
qed

theorem a_pipeline_is_a_chain_witness:
  "\<exists>d' rows. create_pipeline a_client 5 5 [(''Fetch'', [Kwarg ''url'' (JStr ''x'')]), (''Parse'', []), (''Store'', [])]
       ''default'' 100 nobody empty_db = (Inr [1, 2, 3], d')
     \<and> jobs d' = rows \<and> chained None rows \<and> map j_job_class rows = [''Fetch'', ''Parse'', ''Store'']"
proof -
  let ?stages = "[(''Fetch'', [Kwarg ''url'' (JStr ''x'')]), (''Parse'', []), (''Store'', [])] :: (string \<times> enqueue_option list) list"
  let ?run = "create_pipeline a_client 5 5 ?stages ''default'' 100 nobody empty_db"
  have "\<not> isl (fst ?run)" "projr (fst ?run) = [1, 2, 3]" by code_simp+
  then obtain d' where run: "?run = (Inr [1, 2, 3], d')" by (metis sum.collapse(2) prod.collapse)
  have "0 < next_job_id empty_db" "\<forall>(k, kw) \<in> set ?stages. list_all is_kwarg kw" by code_simp+
  from a_pipeline_is_a_chain [OF empty_jobs_ok this, where c = a_client and clock = 5 and now = 5 and queue = "''default''" and priority = 100] run
  show ?thesis by (auto simp: empty_db_def)
qed

end
