(* ===== verification/DagRun.thy ===== *)
theory DagRun
  imports DagGroups Bursts Retention "HOL-Library.AList"
begin

text \<open>
  Running a graph (\<open>pyjobby/dag.py\<close>, \<open>execute\<close>): a validated graph is written as jobs in one
  transaction. How a call reads a keyword argument (its name decides which parameter it is)
  is the argument \<open>arg\<close>; \<open>node.job_id\<close>, which the code sets on its own objects, is the
  dictionary of jobs it returns.
\<close>

section \<open>Tables\<close>

record dag_info = dag_row +
  dg_name :: "string option"
  dg_completed :: "instant option"
  dg_total_nodes :: nat

record dag_tables =
  dt_db :: database
  dt_dags :: "dag_info list"
  dt_edges :: "(job_id \<times> job_id) list"
  dt_next_dag :: int

section \<open>Writing the jobs\<close>

text \<open>The four local dictionaries of \<open>execute\<close>, in insertion order.\<close>

record run_state =
  rs_jobs :: "(nat \<times> job_id) list"
  rs_group_id :: "(nat \<times> job_id) list"
  rs_members :: "(nat \<times> job_id list) list"
  rs_edges :: "(job_id \<times> job_id) list"

datatype dag_failure =
    GraphRefused dag_error
  | NodeRefused client_error
  | StatementRefused sql_error

type_synonym read_arg = "string \<Rightarrow> json \<Rightarrow> enqueue_option"

definition group_key :: "(nat \<times> nat list) list \<Rightarrow> nat \<Rightarrow> nat option" where
  "group_key table = map_of (rev (concat (map (\<lambda>(i, group). map (\<lambda>m. (m, hd group)) group) table)))"

definition lookup_key :: "('k \<Rightarrow> 'v option) \<Rightarrow> ('k \<Rightarrow> nat) \<Rightarrow> 'k \<Rightarrow> dag_failure + 'v" where
  "lookup_key d name k = (case d k of None \<Rightarrow> Inl (GraphRefused (KeyError (name k))) | Some v \<Rightarrow> Inr v)"

definition wait_options :: "(nat \<Rightarrow> nat option) \<Rightarrow> run_state \<Rightarrow> nat list \<Rightarrow> dag_failure + enqueue_option list" where
  "wait_options key st deps =
     (case deps of
        [] \<Rightarrow> Inr []
      | [d] \<Rightarrow> bind_sum (lookup_key (map_of (rs_jobs st)) id d) (\<lambda>i. Inr [WaitforJob (Some i)])
      | d # _ \<Rightarrow> bind_sum (lookup_key key id d) (\<lambda>k.
                 bind_sum (lookup_key (map_of (rs_group_id st)) id k) (\<lambda>g. Inr [WaitforGroup (Some g)])))"

fun edges_to :: "(nat \<Rightarrow> job_id option) \<Rightarrow> job_id \<Rightarrow> nat list \<Rightarrow> dag_failure + (job_id \<times> job_id) list" where
  "edges_to node_to_job i [] = Inr []"
| "edges_to node_to_job i (d # ds) =
     bind_sum (lookup_key node_to_job id d) (\<lambda>j. bind_sum (edges_to node_to_job i ds) (\<lambda>es. Inr ((i, j) # es)))"

definition enter_group :: "(nat \<Rightarrow> nat option) \<Rightarrow> nat \<Rightarrow> job_id \<Rightarrow> run_state \<Rightarrow> run_state" where
  "enter_group key n i st =
     (case key n of
        None \<Rightarrow> st
      | Some k \<Rightarrow> st\<lparr>
          rs_group_id := (if map_of (rs_group_id st) k = None then rs_group_id st @ [(k, i)] else rs_group_id st),
          rs_members := AList.update k ((case map_of (rs_members st) k of None \<Rightarrow> [] | Some ms \<Rightarrow> ms) @ [i])
            (rs_members st)\<rparr>)"

text \<open>\<open>client.enqueue_in_transaction(conn, job_class, **kwargs, **job_options)\<close>\<close>

definition call_clash :: "enqueue_option list \<Rightarrow> enqueue_option list \<Rightarrow> string option" where
  "call_clash kwargs options =
     (case first_clash kwargs options of
        Some name \<Rightarrow> Some name
      | None \<Rightarrow> List.find (\<lambda>name. name \<in> {''conn'', ''job_class''}) (map option_name (kwargs @ options)))"

definition enqueue_node ::
  "read_arg \<Rightarrow> instant \<Rightarrow> instant \<Rightarrow> others \<Rightarrow> dag_node \<Rightarrow> enqueue_option list \<Rightarrow> database
     \<Rightarrow> dag_failure + (job_id \<times> database)" where
  "enqueue_node arg clock now w n waits_on d =
     (let kwargs = map (\<lambda>(k, v). arg k v) (dn_kwargs n);
          options = map (\<lambda>(k, v). arg k v) (dn_job_options n) @ waits_on
      in case call_clash kwargs options of
           Some name \<Rightarrow> Inl (NodeRefused (MultipleValues name))
         | None \<Rightarrow>
             (case enqueue_in_transaction clock now (dn_job_class n) (kwargs @ options) w d of
                (Inl e, d1) \<Rightarrow> Inl (NodeRefused e)
              | (Inr i, d1) \<Rightarrow> Inr (i, d1)))"

definition add_job ::
  "read_arg \<Rightarrow> (nat \<Rightarrow> nat option) \<Rightarrow> instant \<Rightarrow> instant \<Rightarrow> (nat \<Rightarrow> others) \<Rightarrow> dag_node
     \<Rightarrow> run_state \<Rightarrow> database \<Rightarrow> dag_failure + (run_state \<times> database)" where
  "add_job arg key clock now w n st d =
     bind_sum (wait_options key st (dn_depends_on n)) (\<lambda>waits_on.
     bind_sum (enqueue_node arg clock now (w (dn_id n)) n waits_on d) (\<lambda>(i, d1).
     let node_to_job = AList.update (dn_id n) i (rs_jobs st)
     in bind_sum (edges_to (map_of node_to_job) i (dn_depends_on n)) (\<lambda>es.
        Inr (enter_group key (dn_id n) i (st\<lparr>rs_jobs := node_to_job, rs_edges := rs_edges st @ es\<rparr>), d1))))"

fun add_jobs ::
  "read_arg \<Rightarrow> (nat \<Rightarrow> nat option) \<Rightarrow> instant \<Rightarrow> instant \<Rightarrow> (nat \<Rightarrow> others) \<Rightarrow> dag_node list
     \<Rightarrow> run_state \<Rightarrow> database \<Rightarrow> dag_failure + (run_state \<times> database)" where
  "add_jobs arg key clock now w [] st d = Inr (st, d)"
| "add_jobs arg key clock now w (n # ns) st d =
     bind_sum (add_job arg key clock now w n st d) (\<lambda>(st1, d1). add_jobs arg key clock now w ns st1 d1)"

section \<open>Wiring them\<close>

definition stamp :: "(jorb \<Rightarrow> bool) \<Rightarrow> (jorb \<Rightarrow> jorb) \<Rightarrow> database \<Rightarrow> dag_failure + database" where
  "stamp p f d = (case update_jobs p f d of Inl e \<Rightarrow> Inl (StatementRefused e) | Inr (rows, d') \<Rightarrow> Inr d')"

fun stamp_groups :: "(nat \<times> job_id) list \<Rightarrow> (nat \<times> job_id list) list \<Rightarrow> database \<Rightarrow> dag_failure + database" where
  "stamp_groups group_id [] d = Inr d"
| "stamp_groups group_id ((k, members) # rest) d =
     bind_sum (lookup_key (map_of group_id) id k) (\<lambda>g.
     bind_sum (stamp (listed_where members) (run_group_set g) d) (\<lambda>d'. stamp_groups group_id rest d'))"

definition insert_edges :: "(job_id \<times> job_id) list \<Rightarrow> (job_id \<times> job_id) list \<Rightarrow> dag_failure + (job_id \<times> job_id) list" where
  "insert_edges es old = (if distinct (old @ es) then Inr (old @ es) else Inl (StatementRefused UniqueViolation))"

definition no_run :: run_state where
  "no_run = \<lparr>rs_jobs = [], rs_group_id = [], rs_members = [], rs_edges = []\<rparr>"

definition nodes_of :: "dag_node list \<Rightarrow> nat list \<Rightarrow> dag_node list" where
  "nodes_of ns = List.map_filter (\<lambda>i. find_row dn_id i ns)"

text \<open>The transaction.\<close>

definition write_dag ::
  "read_arg \<Rightarrow> instant \<Rightarrow> instant \<Rightarrow> (nat \<Rightarrow> others) \<Rightarrow> string option \<Rightarrow> dag_node list \<Rightarrow> nat list list
     \<Rightarrow> (nat \<times> nat list) list \<Rightarrow> dag_tables \<Rightarrow> dag_failure + ((nat \<times> job_id) list \<times> dag_tables)" where
  "write_dag arg clock now w name ns levels table t =
     (let dag = dt_next_dag t;
          order = nodes_of ns (concat levels)
      in bind_sum (add_jobs arg (group_key table) clock now w order no_run (dt_db t)) (\<lambda>(st, d1).
         bind_sum (if rs_jobs st = [] then Inr d1
                   else stamp (listed_where (map snd (rs_jobs st))) (dag_id_set dag) d1) (\<lambda>d2.
         bind_sum (stamp_groups (rs_group_id st) (rs_members st) d2) (\<lambda>d3.
         bind_sum (insert_edges (rs_edges st) (dt_edges t)) (\<lambda>edges.
         Inr (rs_jobs st, t\<lparr>dt_db := d3, dt_edges := edges, dt_next_dag := dag + 1,
           dt_dags := dt_dags t @ [\<lparr>dg_id = dag, dg_created = now, dg_name = name, dg_completed = None,
             dg_total_nodes = length ns\<rparr>]\<rparr>))))))"

text \<open>
  \<open>execute\<close>: the id of the new graph and its jobs, or the exception; a refused transaction
  leaves the tables alone.
\<close>

definition execute_dag ::
  "read_arg \<Rightarrow> instant \<Rightarrow> instant \<Rightarrow> (nat \<Rightarrow> others) \<Rightarrow> dag_builder \<Rightarrow> dag_tables
     \<Rightarrow> ((dag_failure + (int \<times> (nat \<times> job_id) list)) \<times> dag_tables) option" where
  "execute_dag arg clock now w b t =
     (let ns = db_nodes b
      in Option.bind (validate_dag ns) (\<lambda>checked.
         case checked of
           Inl e \<Rightarrow> Some (Inl (GraphRefused e), t)
         | Inr _ \<Rightarrow>
             (case topological_sort ns of
                Inl e \<Rightarrow> Some (Inl (GraphRefused e), t)
              | Inr levels \<Rightarrow>
                  Option.bind (dependency_groups ns) (\<lambda>groups.
                  case groups of
                    Inl e \<Rightarrow> Some (Inl (GraphRefused e), t)
                  | Inr table \<Rightarrow>
                      (case write_dag arg clock now w (db_name b) ns levels table t of
                         Inl e \<Rightarrow> Some (Inl e, t)
                       | Inr (node_to_job, t') \<Rightarrow> Some (Inr (dt_next_dag t, node_to_job), t'))))))"

section \<open>One node\<close>

text \<open>
  What the model asks of \<open>arg\<close>: an argument keeps its name, and \<open>None\<close> given as the identity is
  no identity.
\<close>

definition reads_arguments :: "read_arg \<Rightarrow> bool" where
  "reads_arguments arg \<longleftrightarrow> (\<forall>k v. option_name (arg k v) = k) \<and> arg ''identity_key'' JNull = IdentityKey None"

text \<open>
  A builder's nodes, as \<open>add\<close> makes them, none of whose job arguments has the name of an
  option of the enqueue.
\<close>

definition plain_nodes :: "read_arg \<Rightarrow> dag_node list \<Rightarrow> bool" where
  "plain_nodes arg ns \<longleftrightarrow> (\<forall>n \<in> set ns. distinct (map fst (dn_job_options n))
     \<and> (\<forall>(k, v) \<in> set (dn_kwargs n). arg k v = Kwarg k v))"

lemma node_has_no_identity:
  assumes "reads_arguments arg" and "plain_nodes arg ns" and "n \<in> set ns" and "refuse_identity n = None"
    and "\<And>v. IdentityKey v \<notin> set waits_on"
  shows "eo_identity_key (options_of (map (\<lambda>(k, v). arg k v) (dn_kwargs n)
           @ map (\<lambda>(k, v). arg k v) (dn_job_options n) @ waits_on)) = None"
  unfolding options_of_def
proof (rule identity_unset)
  fix v
  assume "IdentityKey v \<in> set (map (\<lambda>(k, v). arg k v) (dn_kwargs n) @ map (\<lambda>(k, v). arg k v) (dn_job_options n) @ waits_on)"
  then consider k u where "(k, u) \<in> set (dn_kwargs n)" "arg k u = IdentityKey v"
    | k u where "(k, u) \<in> set (dn_job_options n)" "arg k u = IdentityKey v"
    using assms(5) by fastforce
  then show "v = None"
  proof cases
    case (1 k u)
    with assms(2,3) show ?thesis by (fastforce simp: plain_nodes_def)
  next
    case (2 k u)
    have "option_name (arg k u) = k" using assms(1) by (simp add: reads_arguments_def)
    with 2(2) have k: "k = ''identity_key''" by simp
    moreover have "map_of (dn_job_options n) k = Some u"
      using 2(1) assms(2,3) by (auto simp: plain_nodes_def intro: map_of_is_SomeI)
    ultimately have "u = JNull" using assms(4) by (auto simp: refuse_identity_def split: if_splits)
    with 2(2) k assms(1) show ?thesis by (simp add: reads_arguments_def)
  qed
qed (simp add: default_options_def)

lemma wait_options_of:
  "wait_options key st deps = Inr ws \<Longrightarrow>
     (case deps of [] \<Rightarrow> ws = []
      | [d] \<Rightarrow> (\<exists>i. map_of (rs_jobs st) d = Some i \<and> ws = [WaitforJob (Some i)])
      | d # _ \<Rightarrow> (\<exists>k g. key d = Some k \<and> map_of (rs_group_id st) k = Some g \<and> ws = [WaitforGroup (Some g)]))"
  by (auto simp: wait_options_def lookup_key_def bind_sum_Inr_iff split: list.splits option.splits)

text \<open>What the job of a node waits for, given the jobs and the groups there are.\<close>

definition waits_right ::
  "(nat \<Rightarrow> job_id option) \<Rightarrow> (nat \<Rightarrow> nat option) \<Rightarrow> (nat \<Rightarrow> job_id option) \<Rightarrow> dag_node \<Rightarrow> jorb \<Rightarrow> bool" where
  "waits_right node_to_job key gid n r \<longleftrightarrow>
     (case dn_depends_on n of [] \<Rightarrow> True
      | [d] \<Rightarrow> j_state r = Waiting \<and> (\<exists>i. node_to_job d = Some i \<and> j_waitfor_job r = Some i)
      | d # _ \<Rightarrow> j_state r = Waiting \<and> (\<exists>k g. key d = Some k \<and> gid k = Some g \<and> j_waitfor_group r = Some g))"

lemma enqueue_node_writes:
  assumes "reads_arguments arg" and "plain_nodes arg ns" and "n \<in> set ns" and "refuse_identity n = None"
    and "wait_options key st (dn_depends_on n) = Inr ws" and "jobs_ok d"
    and "enqueue_node arg clock now w n ws d = Inr (i, d')"
    and "\<And>k x. map_of (rs_jobs st) k = Some x \<Longrightarrow> x \<noteq> 0" and "\<And>k x. map_of (rs_group_id st) k = Some x \<Longrightarrow> x \<noteq> 0"
  shows "i = next_job_id d \<and> next_job_id d' = next_job_id d + 1 \<and> jobs_ok d' \<and> platform_step d d'
    \<and> (\<exists>j. jobs d' = jobs d @ [j] \<and> j_id j = i \<and> j_job_class j = dn_job_class n
         \<and> waits_right (map_of (rs_jobs st)) key (map_of (rs_group_id st)) n j)"
proof -
  let ?pre = "map (\<lambda>(k, v). arg k v) (dn_kwargs n) @ map (\<lambda>(k, v). arg k v) (dn_job_options n)"
  let ?p = "options_of ?pre"
  from assms(7) have run: "enqueue_in_transaction clock now (dn_job_class n) (?pre @ ws) w d = (Inr i, d')"
    by (auto simp: enqueue_node_def Let_def split: option.splits prod.splits sum.splits)
  note ws = wait_options_of [OF assms(5)]
  then have no: "IdentityKey v \<notin> set ws" for v
    by (auto split: list.splits)
  have "eo_identity_key (options_of (?pre @ ws)) = None"
    using node_has_no_identity [OF assms(1-4) no] by simp
  from unidentified_insert [OF this run assms(6)] obtain j where
    j: "jobs d' = jobs d @ [j]" "j_id j = i" "j_job_class j = dn_job_class n"
      "j_waitfor_job j = eo_waitfor_job (options_of (?pre @ ws))" "j_waitfor_group j = eo_waitfor_group (options_of (?pre @ ws))"
      "j_state j = (if waits (options_of (?pre @ ws)) then Waiting else Queued)"
    and rest: "i = next_job_id d" "next_job_id d' = next_job_id d + 1" "jobs_ok d'" "platform_step d d'" by blast
  have o: "options_of (?pre @ ws) = foldl set_option ?p ws" by (simp add: options_of_def)
  have "waits_right (map_of (rs_jobs st)) key (map_of (rs_group_id st)) n j"
    using ws j(4-6) assms(8,9) unfolding waits_right_def o
    by (auto simp: waits_def given_def split: list.splits)
  with j rest show ?thesis by blast
qed

section \<open>All of them\<close>

text \<open>The state of the run after the nodes \<open>done\<close>: its jobs, its groups and its edges.\<close>

definition jobs_right :: "database \<Rightarrow> dag_node list \<Rightarrow> run_state \<Rightarrow> database \<Rightarrow> bool" where
  "jobs_right d0 done st d \<longleftrightarrow> jobs_ok d \<and> platform_step\<^sup>*\<^sup>* d0 d
     \<and> next_job_id d = next_job_id d0 + int (length done)
     \<and> map fst (rs_jobs st) = map dn_id done
     \<and> map snd (rs_jobs st) = map (\<lambda>k. next_job_id d0 + int k) [0..<length done]"

definition rows_right :: "(nat \<Rightarrow> nat option) \<Rightarrow> database \<Rightarrow> dag_node list \<Rightarrow> run_state \<Rightarrow> database \<Rightarrow> bool" where
  "rows_right key d0 done st d \<longleftrightarrow> (\<exists>rows. jobs d = jobs d0 @ rows \<and> map j_id rows = map snd (rs_jobs st)
     \<and> list_all2 (\<lambda>n r. j_job_class r = dn_job_class n
          \<and> waits_right (map_of (rs_jobs st)) key (map_of (rs_group_id st)) n r) done rows)"

text \<open>The three dictionaries as maps; \<open>seen\<close> are the nodes so far.\<close>

definition grouped ::
  "(nat \<Rightarrow> nat option) \<Rightarrow> nat set \<Rightarrow> (nat \<Rightarrow> job_id option) \<Rightarrow> (nat \<Rightarrow> job_id option)
     \<Rightarrow> (nat \<Rightarrow> job_id list option) \<Rightarrow> bool" where
  "grouped key seen node_to_job group_id members \<longleftrightarrow>
     (\<forall>k g. group_id k = Some g \<longrightarrow> (\<exists>x. node_to_job x = Some g))
     \<and> (\<forall>x \<in> seen. \<forall>k. key x = Some k \<longrightarrow> group_id k \<noteq> None
          \<and> (\<exists>i ms. node_to_job x = Some i \<and> members k = Some ms \<and> i \<in> set ms))
     \<and> (\<forall>k ms. members k = Some ms \<longrightarrow> group_id k \<noteq> None
          \<and> (\<forall>i \<in> set ms. \<exists>x \<in> seen. key x = Some k \<and> node_to_job x = Some i))"

definition groups_right :: "(nat \<Rightarrow> nat option) \<Rightarrow> dag_node list \<Rightarrow> run_state \<Rightarrow> bool" where
  "groups_right key done st \<longleftrightarrow> distinct (map fst (rs_members st))
     \<and> grouped key (ids done) (map_of (rs_jobs st)) (map_of (rs_group_id st)) (map_of (rs_members st))"

definition edges_right :: "dag_node list \<Rightarrow> run_state \<Rightarrow> bool" where
  "edges_right done st \<longleftrightarrow> distinct (rs_edges st)
     \<and> set (rs_edges st) = {(i, j). \<exists>n \<in> set done. \<exists>x \<in> set (dn_depends_on n).
          map_of (rs_jobs st) (dn_id n) = Some i \<and> map_of (rs_jobs st) x = Some j}"

lemma update_fresh: "k \<notin> fst ` set al \<Longrightarrow> AList.update k v al = al @ [(k, v)]"
  by (induction al) auto

lemma edges_to_Inr:
  "edges_to f i ds = Inr es \<Longrightarrow> es = map (\<lambda>x. (i, the (f x))) ds \<and> (\<forall>x \<in> set ds. f x \<noteq> None)"
  by (induction ds arbitrary: es) (auto simp: bind_sum_Inr_iff lookup_key_def split: option.splits)

lemma edges_to_total: "\<forall>x \<in> set ds. f x \<noteq> None \<Longrightarrow> \<exists>es. edges_to f i ds = Inr es"
  by (induction ds) (auto simp: lookup_key_def)

lemma enter_group_simps [simp]:
  "rs_jobs (enter_group key n i st) = rs_jobs st" "rs_edges (enter_group key n i st) = rs_edges st"
  by (simp_all add: enter_group_def split: option.split)

lemma entered_group_id:
  "map_of (rs_group_id (enter_group key n i st)) =
     (case key n of None \<Rightarrow> map_of (rs_group_id st)
      | Some k \<Rightarrow> if map_of (rs_group_id st) k = None then (map_of (rs_group_id st))(k \<mapsto> i) else map_of (rs_group_id st))"
  by (auto simp: enter_group_def fun_eq_iff map_add_def split: option.split)

lemma entered_members:
  "map_of (rs_members (enter_group key n i st)) =
     (case key n of None \<Rightarrow> map_of (rs_members st)
      | Some k \<Rightarrow> (map_of (rs_members st))(k \<mapsto> (case map_of (rs_members st) k of None \<Rightarrow> [] | Some ms \<Rightarrow> ms) @ [i]))"
  by (auto simp: enter_group_def update_conv' split: option.split)

lemma entered_distinct:
  "distinct (map fst (rs_members st)) \<Longrightarrow> distinct (map fst (rs_members (enter_group key n i st)))"
  by (auto simp: enter_group_def distinct_update split: option.split)

lemma grouped_outside:
  assumes "grouped key seen J G M" and "key x = None" and "J x = None"
  shows "grouped key (insert x seen) (J(x \<mapsto> i)) G M"
proof -
  have "J y = Some j \<Longrightarrow> (J(x \<mapsto> i)) y = Some j" for y j using assms(3) by auto
  with assms(1,2) show ?thesis unfolding grouped_def by (smt (verit) insert_iff option.distinct(1))
qed

lemma grouped_member:
  assumes "grouped key seen J G M" and "key x = Some k" and "J x = None"
  shows "grouped key (insert x seen) (J(x \<mapsto> i)) (if G k = None then G(k \<mapsto> i) else G)
     (M(k \<mapsto> (case M k of None \<Rightarrow> [] | Some ms \<Rightarrow> ms) @ [i]))"
proof -
  let ?J = "J(x \<mapsto> i)" and ?G = "if G k = None then G(k \<mapsto> i) else G"
    and ?M = "M(k \<mapsto> (case M k of None \<Rightarrow> [] | Some ms \<Rightarrow> ms) @ [i])"
  have J: "?J y = Some j" if "J y = Some j" for y j using that assms(3) by auto
  have G: "?G y \<noteq> None" if "G y \<noteq> None \<or> y = k" for y using that by auto
  have M: "\<exists>ms'. ?M y = Some ms' \<and> set ms \<subseteq> set ms'" if "M y = Some ms" for y ms using that by auto
  have "\<exists>z. ?J z = Some g" if "?G y = Some g" for y g
  proof (cases "y = k \<and> G k = None")
    case True
    with that show ?thesis by auto
  next
    case False
    then have "G y = Some g" using that by (auto split: if_splits)
    with assms(1) J show ?thesis unfolding grouped_def by blast
  qed
  moreover have "?G y \<noteq> None \<and> (\<exists>j ms. ?J z = Some j \<and> ?M y = Some ms \<and> j \<in> set ms)"
    if "z \<in> insert x seen" "key z = Some y" for z y
  proof (cases "z = x")
    case True
    with that assms(2) show ?thesis by auto
  next
    case False
    with that assms(1) obtain j ms where "G y \<noteq> None" "J z = Some j" "M y = Some ms" "j \<in> set ms"
      unfolding grouped_def by blast
    with J G M show ?thesis by blast
  qed
  moreover have "?G y \<noteq> None \<and> (\<forall>j \<in> set ms. \<exists>z \<in> insert x seen. key z = Some y \<and> ?J z = Some j)"
    if "?M y = Some ms" for y ms
  proof (cases "y = k")
    case True
    have "\<exists>z \<in> seen. key z = Some k \<and> J z = Some j" if "j \<in> set (case M k of None \<Rightarrow> [] | Some ms \<Rightarrow> ms)" for j
    proof (cases "M k")
      case (Some ms')
      with that assms(1) show ?thesis unfolding grouped_def by auto
    qed (use that in simp)
    with True that assms(2) J show ?thesis by fastforce
  next
    case False
    then have "M y = Some ms" using that by simp
    with assms(1) have "G y \<noteq> None" "\<forall>j \<in> set ms. \<exists>z \<in> seen. key z = Some y \<and> J z = Some j"
      unfolding grouped_def by blast+
    with G J show ?thesis by blast
  qed
  ultimately show ?thesis unfolding grouped_def by blast
qed

lemma ids_snoc [simp]: "ids (ns @ [n]) = insert (dn_id n) (ids ns)"
  by (auto simp: ids_def)

lemma map_of_snoc: "k \<notin> fst ` set al \<Longrightarrow> map_of (al @ [(k, v)]) = (map_of al)(k \<mapsto> v)"
  by (auto simp: map_add_def fun_eq_iff map_of_eq_None_iff [symmetric] split: option.split)

lemma groups_right_step:
  assumes "groups_right key done st" and "dn_id n \<notin> fst ` set (rs_jobs st)"
  shows "groups_right key (done @ [n])
     (enter_group key (dn_id n) i (st\<lparr>rs_jobs := rs_jobs st @ [(dn_id n, i)], rs_edges := es\<rparr>))"
proof -
  have none: "map_of (rs_jobs st) (dn_id n) = None" using assms(2) by (simp add: map_of_eq_None_iff)
  from assms(1) have g: "distinct (map fst (rs_members st))"
    "grouped key (ids done) (map_of (rs_jobs st)) (map_of (rs_group_id st)) (map_of (rs_members st))"
    by (simp_all add: groups_right_def)
  let ?st = "enter_group key (dn_id n) i (st\<lparr>rs_jobs := rs_jobs st @ [(dn_id n, i)], rs_edges := es\<rparr>)"
  have J: "map_of (rs_jobs ?st) = (map_of (rs_jobs st))(dn_id n \<mapsto> i)"
    by (simp add: map_of_snoc [OF assms(2)] del: map_of_append)
  have "grouped key (insert (dn_id n) (ids done)) (map_of (rs_jobs ?st)) (map_of (rs_group_id ?st)) (map_of (rs_members ?st))"
  proof (cases "key (dn_id n)")
    case None
    with grouped_outside [OF g(2) None none] show ?thesis by (simp only: J entered_group_id entered_members) simp
  next
    case (Some k)
    with grouped_member [OF g(2) Some none, of i] show ?thesis
      by (cases "map_of (rs_group_id st) k = None")
        (auto simp: map_of_snoc [OF assms(2)] entered_group_id entered_members simp del: map_of_append)
  qed
  with g(1) show ?thesis by (simp add: groups_right_def entered_distinct)
qed

definition run_right :: "(nat \<Rightarrow> nat option) \<Rightarrow> database \<Rightarrow> dag_node list \<Rightarrow> run_state \<Rightarrow> database \<Rightarrow> bool" where
  "run_right key d0 done st d \<longleftrightarrow> jobs_right d0 done st d \<and> rows_right key d0 done st d
     \<and> groups_right key done st \<and> edges_right done st"

lemma jobs_known:
  assumes "jobs_right d0 done st d"
  shows "fst ` set (rs_jobs st) = ids done" and "map_of (rs_jobs st) x = Some i \<Longrightarrow> next_job_id d0 \<le> i \<and> i < next_job_id d"
    and "x \<in> ids done \<Longrightarrow> map_of (rs_jobs st) x \<noteq> None" and "inj_on (map_of (rs_jobs st)) (ids done)"
proof -
  from assms show ids: "fst ` set (rs_jobs st) = ids done"
    unfolding jobs_right_def ids_def by (metis set_map)
  show "next_job_id d0 \<le> i \<and> i < next_job_id d" if "map_of (rs_jobs st) x = Some i"
  proof -
    from that have "i \<in> set (map snd (rs_jobs st))" by (force dest: map_of_SomeD)
    with assms show ?thesis unfolding jobs_right_def by auto
  qed
  show "map_of (rs_jobs st) x \<noteq> None" if "x \<in> ids done"
    using that ids by (simp add: map_of_eq_None_iff)
  have "distinct (map snd (rs_jobs st))"
    using assms by (simp add: jobs_right_def distinct_map inj_on_def)
  then have inj: "inj_on snd (set (rs_jobs st))" by (simp add: distinct_map)
  show "inj_on (map_of (rs_jobs st)) (ids done)"
  proof (rule inj_onI)
    fix x y
    assume "x \<in> ids done" and same: "map_of (rs_jobs st) x = map_of (rs_jobs st) y"
    then obtain a where "map_of (rs_jobs st) x = Some a" by (metis ids map_of_eq_None_iff option.exhaust)
    moreover from this same have "map_of (rs_jobs st) y = Some a" by simp
    ultimately have "(x, a) \<in> set (rs_jobs st)" "(y, a) \<in> set (rs_jobs st)" by (simp_all add: map_of_SomeD)
    with inj_onD [OF inj, of "(x, a)" "(y, a)"] show "x = y" by simp
  qed
qed

lemma waits_right_later:
  assumes "waits_right J key G n r" and "\<And>x i. J x = Some i \<Longrightarrow> J' x = Some i" and "\<And>k g. G k = Some g \<Longrightarrow> G' k = Some g"
  shows "waits_right J' key G' n r"
  using assms(1) unfolding waits_right_def
  by (auto split: list.splits intro: assms(2,3))

lemma rows_right_step:
  assumes "rows_right key d0 done st d" and "jobs d' = jobs d @ [j]" and "j_id j = i"
    and "j_job_class j = dn_job_class n" and "waits_right (map_of (rs_jobs st)) key (map_of (rs_group_id st)) n j"
    and "dn_id n \<notin> fst ` set (rs_jobs st)"
  shows "rows_right key d0 (done @ [n])
     (enter_group key (dn_id n) i (st\<lparr>rs_jobs := rs_jobs st @ [(dn_id n, i)], rs_edges := es\<rparr>)) d'"
proof -
  let ?st = "enter_group key (dn_id n) i (st\<lparr>rs_jobs := rs_jobs st @ [(dn_id n, i)], rs_edges := es\<rparr>)"
  obtain rows where rows: "jobs d = jobs d0 @ rows" "map j_id rows = map snd (rs_jobs st)"
    "list_all2 (\<lambda>n r. j_job_class r = dn_job_class n
        \<and> waits_right (map_of (rs_jobs st)) key (map_of (rs_group_id st)) n r) done rows"
    using assms(1) unfolding rows_right_def by blast
  have later: "waits_right (map_of (rs_jobs ?st)) key (map_of (rs_group_id ?st)) m r"
    if "waits_right (map_of (rs_jobs st)) key (map_of (rs_group_id st)) m r" for m r
    using that
  proof (rule waits_right_later)
    show "map_of (rs_jobs ?st) x = Some j" if "map_of (rs_jobs st) x = Some j" for x j
      using that by (simp add: map_add_def)
    show "map_of (rs_group_id ?st) k = Some g" if "map_of (rs_group_id st) k = Some g" for k g
      using that by (auto simp: entered_group_id split: option.split)
  qed
  have "list_all2 (\<lambda>n r. j_job_class r = dn_job_class n
        \<and> waits_right (map_of (rs_jobs ?st)) key (map_of (rs_group_id ?st)) n r) (done @ [n]) (rows @ [j])"
    by (rule list_all2_appendI) (use rows(3) later assms(4,5) in \<open>auto elim: list_all2_mono\<close>)
  with rows assms(2,3) show ?thesis unfolding rows_right_def by (intro exI [of _ "rows @ [j]"]) simp
qed

lemma edges_right_step:
  assumes "edges_right done st" and "\<And>m. m \<in> set done \<Longrightarrow> set (dn_depends_on m) \<subseteq> ids done"
    and "fst ` set (rs_jobs st) = ids done" and "dn_id n \<notin> ids done"
    and "distinct (dn_depends_on n)" and "set (dn_depends_on n) \<subseteq> ids done"
    and "inj_on (map_of (rs_jobs st)) (ids done)" and "\<And>x. map_of (rs_jobs st) x \<noteq> Some i"
  shows "edges_right (done @ [n])
     (st\<lparr>rs_jobs := rs_jobs st @ [(dn_id n, i)],
         rs_edges := rs_edges st @ map (\<lambda>x. (i, the (map_of (rs_jobs st) x))) (dn_depends_on n)\<rparr>)"
proof -
  let ?J = "map_of (rs_jobs st)" and ?new = "map (\<lambda>x. (i, the (map_of (rs_jobs st) x))) (dn_depends_on n)"
  let ?J' = "?J(dn_id n \<mapsto> i)"
  have fresh: "dn_id n \<notin> fst ` set (rs_jobs st)" using assms(3,4) by simp
  have some: "\<exists>j. ?J x = Some j" if "x \<in> ids done" for x
    using that assms(3) by (metis map_of_eq_None_iff option.exhaust)
  have "inj_on (\<lambda>x. (i, the (?J x))) (set (dn_depends_on n))"
    using assms(6,7) some by (auto simp: inj_on_def) (metis option.sel subsetD)
  then have "distinct ?new" using assms(5) by (simp add: distinct_map)
  moreover have "set (rs_edges st) \<inter> set ?new = {}"
    using assms(1,8) by (auto simp: edges_right_def)
  moreover have "set ?new = {(a, b). a = i \<and> (\<exists>x \<in> set (dn_depends_on n). ?J x = Some b)}"
    using some assms(6) by (auto simp: image_iff) (metis option.sel subsetD)+
  moreover have "{(a, b). \<exists>m \<in> set (done @ [n]). \<exists>x \<in> set (dn_depends_on m). ?J' (dn_id m) = Some a \<and> ?J' x = Some b}
      = {(a, b). \<exists>m \<in> set done. \<exists>x \<in> set (dn_depends_on m). ?J (dn_id m) = Some a \<and> ?J x = Some b}
        \<union> {(a, b). a = i \<and> (\<exists>x \<in> set (dn_depends_on n). ?J x = Some b)}"
  proof -
    have "?J' (dn_id m) = ?J (dn_id m)" if "m \<in> set done" for m
      using that assms(4) by (metis fun_upd_other ids_def image_eqI)
    moreover have "?J' x = ?J x" if "m \<in> set done" "x \<in> set (dn_depends_on m)" for m x
      using that assms(2,4) by auto
    moreover have "?J' (dn_id n) = Some i" "\<And>x. x \<in> set (dn_depends_on n) \<Longrightarrow> ?J' x = ?J x" using assms(4,6) by auto
    ultimately show ?thesis by (simp add: set_eq_iff) blast
  qed
  ultimately show ?thesis
    using assms(1) by (simp add: edges_right_def map_of_snoc [OF fresh] del: map_of_append)
qed

definition stepwise :: "(nat \<Rightarrow> nat option) \<Rightarrow> nat set \<Rightarrow> dag_node \<Rightarrow> bool" where
  "stepwise key seen n \<longleftrightarrow> dn_id n \<notin> seen \<and> set (dn_depends_on n) \<subseteq> seen \<and> distinct (dn_depends_on n)
     \<and> (1 < length (dn_depends_on n) \<longrightarrow> key (hd (dn_depends_on n)) \<noteq> None)"

lemma add_job_step:
  assumes "reads_arguments arg" and "plain_nodes arg ns" and "n \<in> set ns" and "refuse_identity n = None"
    and run: "run_right key d0 done st d" and "0 < next_job_id d0"
    and "stepwise key (ids done) n" and closed_deps: "\<And>m. m \<in> set done \<Longrightarrow> set (dn_depends_on m) \<subseteq> ids done"
  shows "(\<exists>e. add_job arg key clock now w n st d = Inl (NodeRefused e))
    \<or> (\<exists>st' d'. add_job arg key clock now w n st d = Inr (st', d') \<and> run_right key d0 (done @ [n]) st' d')"
proof -
  have jobs: "jobs_right d0 done st d" and rows: "rows_right key d0 done st d" and grps: "groups_right key done st"
    and edges: "edges_right done st" using run by (simp_all add: run_right_def)
  note known = jobs_known [OF jobs]
  have n: "dn_id n \<notin> ids done" "set (dn_depends_on n) \<subseteq> ids done" "distinct (dn_depends_on n)"
    using assms(7) by (simp_all add: stepwise_def)
  have fresh: "dn_id n \<notin> fst ` set (rs_jobs st)" using n(1) known(1) by simp
  have keyed: "map_of (rs_group_id st) k \<noteq> None" if "x \<in> ids done" "key x = Some k" for x k
    using that grps unfolding groups_right_def grouped_def by blast
  have "\<exists>ws. wait_options key st (dn_depends_on n) = Inr ws"
  proof (cases "dn_depends_on n" rule: list.exhaust [case_names none some])
    case (some d ds)
    then have "d \<in> ids done" "ds \<noteq> [] \<longrightarrow> key d \<noteq> None" using n(2) assms(7) by (auto simp: stepwise_def)
    with known(3) keyed some show ?thesis
      by (cases ds) (fastforce simp: wait_options_def lookup_key_def split: option.split)+
  qed (simp add: wait_options_def)
  then obtain ws where ws: "wait_options key st (dn_depends_on n) = Inr ws" ..
  show ?thesis
  proof (cases "enqueue_node arg clock now (w (dn_id n)) n ws d")
    case (Inl e)
    then obtain c where "e = NodeRefused c"
      by (auto simp: enqueue_node_def Let_def split: option.splits prod.splits sum.splits)
    with Inl ws show ?thesis by (simp add: add_job_def)
  next
    case (Inr p)
    obtain i d' where p: "p = (i, d')" by (cases p)
    have ok: "jobs_ok d" using jobs by (simp add: jobs_right_def)
    have "x \<noteq> 0" if "map_of (rs_jobs st) k = Some x" for k x using known(2) [OF that] assms(6) by simp
    moreover from this have "x \<noteq> 0" if "map_of (rs_group_id st) k = Some x" for k x
      using that grps unfolding groups_right_def grouped_def by blast
    ultimately obtain j where j: "jobs d' = jobs d @ [j]" "j_id j = i" "j_job_class j = dn_job_class n"
        "waits_right (map_of (rs_jobs st)) key (map_of (rs_group_id st)) n j"
      and d': "i = next_job_id d" "next_job_id d' = next_job_id d + 1" "jobs_ok d'" "platform_step d d'"
      using enqueue_node_writes [OF assms(1-4) ws ok Inr [unfolded p]] by blast
    let ?J = "map_of (rs_jobs st @ [(dn_id n, i)])"
    let ?new = "map (\<lambda>x. (i, the (map_of (rs_jobs st) x))) (dn_depends_on n)"
    have J: "?J = (map_of (rs_jobs st))(dn_id n \<mapsto> i)" by (rule map_of_snoc [OF fresh])
    have deps: "?J x = map_of (rs_jobs st) x \<and> map_of (rs_jobs st) x \<noteq> None" if "x \<in> set (dn_depends_on n)" for x
      using that n(1,2) known(3) by (auto simp: J simp del: map_of_append)
    then obtain es where es: "edges_to ?J i (dn_depends_on n) = Inr es" using edges_to_total by metis
    with deps have "es = ?new" using edges_to_Inr [OF es] by simp
    with Inr p ws es have "add_job arg key clock now w n st d = Inr (enter_group key (dn_id n) i
        (st\<lparr>rs_jobs := rs_jobs st @ [(dn_id n, i)], rs_edges := rs_edges st @ ?new\<rparr>), d')"
      by (simp add: add_job_def update_fresh [OF fresh] Let_def del: map_of_append)
    moreover have "jobs_right d0 (done @ [n]) (enter_group key (dn_id n) i
        (st\<lparr>rs_jobs := rs_jobs st @ [(dn_id n, i)], rs_edges := rs_edges st @ ?new\<rparr>)) d'"
      using jobs d' by (auto simp: jobs_right_def intro: rtranclp.rtrancl_into_rtrancl)
    moreover have "inj_on (map_of (rs_jobs st)) (ids done)" by (rule known(4))
    moreover have "map_of (rs_jobs st) x \<noteq> Some i" for x using known(2) d'(1) by force
    ultimately show ?thesis
      using rows_right_step [OF rows j fresh] groups_right_step [OF grps fresh]
        edges_right_step [OF edges closed_deps known(1) n(1,3,2)]
      unfolding run_right_def by (force simp: edges_right_def)
  qed
qed

fun in_order :: "(nat \<Rightarrow> nat option) \<Rightarrow> nat set \<Rightarrow> dag_node list \<Rightarrow> bool" where
  "in_order key seen [] = True"
| "in_order key seen (n # ns) \<longleftrightarrow> stepwise key seen n \<and> in_order key (insert (dn_id n) seen) ns"

lemma add_jobs_run:
  assumes "reads_arguments arg" and "plain_nodes arg ns" and "set rest \<subseteq> set ns" and "\<forall>n \<in> set ns. refuse_identity n = None"
    and "run_right key d0 past st d" and "0 < next_job_id d0" and "in_order key (ids past) rest"
    and "\<forall>m \<in> set past. set (dn_depends_on m) \<subseteq> ids past"
  shows "(\<exists>e. add_jobs arg key clock now w rest st d = Inl (NodeRefused e))
    \<or> (\<exists>st' d'. add_jobs arg key clock now w rest st d = Inr (st', d') \<and> run_right key d0 (past @ rest) st' d')"
  using assms(3,5,7,8)
proof (induction rest arbitrary: past st d)
  case (Cons n rest)
  have one: "n \<in> set ns" "refuse_identity n = None" "stepwise key (ids past) n" "in_order key (ids (past @ [n])) rest"
    using Cons.prems(1,3) assms(4) by auto
  from add_job_step [OF assms(1,2) one(1,2) Cons.prems(2) assms(6) one(3)] Cons.prems(4)
  consider e where "add_job arg key clock now w n st d = Inl (NodeRefused e)"
    | st1 d1 where "add_job arg key clock now w n st d = Inr (st1, d1)" "run_right key d0 (past @ [n]) st1 d1" by blast
  then show ?case
  proof cases
    case (2 st1 d1)
    have "\<forall>m \<in> set (past @ [n]). set (dn_depends_on m) \<subseteq> ids (past @ [n])"
      using Cons.prems(4) one(3) by (auto simp: stepwise_def)
    with Cons.IH [OF _ 2(2) one(4)] 2(1) Cons.prems(1) show ?thesis by auto
  qed simp
qed simp

section \<open>The wiring\<close>

text \<open>What the group statements make of a row.\<close>

fun regroup :: "(nat \<Rightarrow> job_id option) \<Rightarrow> (nat \<times> job_id list) list \<Rightarrow> jorb \<Rightarrow> jorb" where
  "regroup gid [] j = j"
| "regroup gid ((k, members) # rest) j =
     regroup gid rest (if j_id j \<in> set members then run_group_set (the (gid k)) j else j)"

lemma run_group_set_simps [simp]:
  "j_id (run_group_set g j) = j_id j" "j_state (run_group_set g j) = j_state j" "j_job_class (run_group_set g j) = j_job_class j"
  "j_waitfor_job (run_group_set g j) = j_waitfor_job j" "j_waitfor_group (run_group_set g j) = j_waitfor_group j"
  "j_dag_id (run_group_set g j) = j_dag_id j" "j_run_group (run_group_set g j) = Some g"
  by (simp_all add: run_group_set_def)

lemma regroup_simps [simp]:
  "j_id (regroup gid ms j) = j_id j" "j_state (regroup gid ms j) = j_state j" "j_job_class (regroup gid ms j) = j_job_class j"
  "j_waitfor_job (regroup gid ms j) = j_waitfor_job j" "j_waitfor_group (regroup gid ms j) = j_waitfor_group j"
  "j_dag_id (regroup gid ms j) = j_dag_id j"
  by (induction gid ms j rule: regroup.induct) auto

lemma regroup_none [simp]: "map (regroup gid []) js = js"
  by (simp add: map_idI)

lemma regroup_other: "\<forall>(k, members) \<in> set ms. j_id j \<notin> set members \<Longrightarrow> regroup gid ms j = j"
  by (induction gid ms j rule: regroup.induct) auto

lemma regroup_member:
  assumes "distinct (map fst ms)" and "(k, members) \<in> set ms" and "j_id j \<in> set members"
    and "\<forall>(k', members') \<in> set ms. k' \<noteq> k \<longrightarrow> j_id j \<notin> set members'"
  shows "j_run_group (regroup gid ms j) = Some (the (gid k))"
  using assms
proof (induction gid ms j rule: regroup.induct)
  case (2 gid k' members' rest j)
  show ?case
  proof (cases "k' = k")
    case True
    with 2(2,3) have "(k, members) \<in> set rest \<Longrightarrow> False" by (force simp: image_iff)
    with 2(3) True have m: "members' = members" by auto
    have "\<forall>(k'', members'') \<in> set rest. j_id j \<notin> set members''"
      using 2(2,5) True by (force simp: image_iff)
    with True m 2(4) show ?thesis by (simp add: regroup_other)
  next
    case False
    with 2 show ?thesis by auto
  qed
qed simp

lemma stamp_groups_run:
  assumes "jobs_ok d" and "\<forall>(k, members) \<in> set ms. map_of gs k \<noteq> None"
  shows "\<exists>d'. stamp_groups gs ms d = Inr d' \<and> jobs_ok d' \<and> platform_step\<^sup>*\<^sup>* d d'
    \<and> jobs d' = map (regroup (map_of gs) ms) (jobs d) \<and> next_job_id d' = next_job_id d"
  using assms
proof (induction ms arbitrary: d)
  case (Cons m ms)
  obtain k members g where m: "m = (k, members)" "map_of gs k = Some g" using Cons.prems(2) by (cases m) auto
  let ?d = "group_members.after members g d"
  have run: "update_jobs (listed_where members) (run_group_set g) d
      = Inr (map (run_group_set g) (filter (listed_where members) (jobs d)), ?d)"
    by (rule group_members.runs [OF Cons.prems(1)])
  have ok: "jobs_ok ?d" by (rule group_members.after_ok [OF Cons.prems(1)])
  have step: "platform_step d ?d" using platform_step.group_members [OF run] .
  from Cons.IH [OF ok] Cons.prems(2) obtain d' where d': "stamp_groups gs ms ?d = Inr d'" "jobs_ok d'"
    "platform_step\<^sup>*\<^sup>* ?d d'" "jobs d' = map (regroup (map_of gs) ms) (jobs ?d)" "next_job_id d' = next_job_id ?d" by auto
  have "stamp_groups gs (m # ms) d = Inr d'" using m run d'(1) by (simp add: lookup_key_def stamp_def)
  moreover have "jobs d' = map (regroup (map_of gs) (m # ms)) (jobs d)"
    by (simp add: d'(4) m listed_where_def)
  ultimately show ?case using d'(2,3,5) step by (auto intro: converse_rtranclp_into_rtranclp)
qed auto

section \<open>The order and the groups\<close>

lemma nodes_of_simps [simp]: "nodes_of ns [] = []" "nodes_of ns (xs @ ys) = nodes_of ns xs @ nodes_of ns ys"
  by (simp_all add: nodes_of_def map_filter_append)

lemma nodes_of_Cons:
  assumes "graph_wf ns" and "i \<in> ids ns"
  obtains n where "n \<in> set ns" and "dn_id n = i" and "deps_of ns i = dn_depends_on n" and "nodes_of ns (i # is) = n # nodes_of ns is"
proof -
  from assms(2) obtain n where n: "n \<in> set ns" "dn_id n = i" by (auto simp: ids_def)
  have dist: "distinct (map dn_id ns)" using assms(1) by (simp add: graph_wf_def)
  have "find_row dn_id i ns = Some n" using n find_row_Some [OF dist] by simp
  then show ?thesis using that [OF n] deps_of_node [OF dist n(1)] n(2) by (simp add: nodes_of_def List.map_filter_simps)
qed

lemma nodes_of_ids: "graph_wf ns \<Longrightarrow> set is \<subseteq> ids ns \<Longrightarrow> map dn_id (nodes_of ns is) = is \<and> set (nodes_of ns is) \<subseteq> set ns"
proof (induction "is")
  case (Cons i "is")
  then obtain n where "n \<in> set ns" "dn_id n = i" "nodes_of ns (i # is) = n # nodes_of ns is"
    by (auto elim: nodes_of_Cons [OF Cons.prems(1), of i "is"])
  with Cons show ?case by simp
qed simp

lemma level_in_order:
  assumes "graph_wf ns" and "\<forall>n \<in> set ns. 1 < length (dn_depends_on n) \<longrightarrow> key (hd (dn_depends_on n)) \<noteq> None"
    and "\<forall>k \<in> set level. set (deps_of ns k) \<subseteq> seen" and "distinct level" and "set level \<subseteq> ids ns" and "set level \<inter> seen = {}"
    and "in_order key (seen \<union> set level) rest"
  shows "in_order key seen (nodes_of ns level @ rest)"
  using assms(3-)
proof (induction level arbitrary: seen)
  case (Cons i level)
  obtain n where n: "n \<in> set ns" "dn_id n = i" "deps_of ns i = dn_depends_on n" "nodes_of ns (i # level) = n # nodes_of ns level"
    using nodes_of_Cons [OF assms(1), of i] Cons.prems(3) by auto
  have "stepwise key seen n"
    using n assms(1,2) Cons.prems(1,4) by (auto simp: stepwise_def graph_wf_def list_all_iff)
  moreover have "in_order key (insert i seen) (nodes_of ns level @ rest)"
    using Cons.prems by (intro Cons.IH) auto
  ultimately show ?case using n by simp
qed simp

lemma levels_in_order:
  assumes "graph_wf ns" and "\<forall>n \<in> set ns. 1 < length (dn_depends_on n) \<longrightarrow> key (hd (dn_depends_on n)) \<noteq> None"
    and "ordered_levels ns later levels" and "distinct (concat levels)" and "set (concat levels) = later"
    and "seen \<union> later = ids ns" and "seen \<inter> later = {}"
  shows "in_order key seen (nodes_of ns (concat levels))"
  using assms(3-)
proof (induction levels arbitrary: seen later)
  case (Cons level levels)
  have "in_order key (seen \<union> set level) (nodes_of ns (concat levels))"
    by (rule Cons.IH [of "later - set level"]) (use Cons.prems in auto)
  moreover have "set (deps_of ns k) \<subseteq> seen" if "k \<in> set level" for k
    using that Cons.prems(1,4) graph_wf_deps [OF assms(1), of k] by auto
  moreover have "set level \<subseteq> ids ns" "set level \<inter> seen = {}" using Cons.prems(3,4,5) by auto
  ultimately show ?case
    using level_in_order [OF assms(1,2), of level seen] Cons.prems(2) by simp
qed simp

lemma group_key_of:
  assumes "\<And>i g j h. (i, g) \<in> set table \<Longrightarrow> (j, h) \<in> set table \<Longrightarrow> set g \<inter> set h \<noteq> {} \<Longrightarrow> g = h"
    and "(i, g) \<in> set table" and "m \<in> set g"
  shows "group_key table m = Some (hd g)"
proof -
  let ?pairs = "concat (map (\<lambda>(i, group). map (\<lambda>m. (m, hd group)) group) table)"
  have "(m, hd g) \<in> set ?pairs" using assms(2,3) by force
  then obtain v where v: "map_of (rev ?pairs) m = Some v"
    using weak_map_of_SomeI [of m "hd g" "rev ?pairs"] by (metis set_rev)
  then have "(m, v) \<in> set ?pairs" by (auto dest: map_of_SomeD)
  then obtain j h where "(j, h) \<in> set table" "m \<in> set h" "v = hd h" by auto
  moreover from this assms have "g = h" by blast
  ultimately show ?thesis using v by (simp add: group_key_def)
qed

lemma wait_table:
  assumes "graph_wf ns" and "dependency_groups ns = Some (Inr table)"
  shows "\<forall>n \<in> set ns. 1 < length (dn_depends_on n) \<longrightarrow>
      (\<exists>k. \<forall>x \<in> set (dn_depends_on n). group_key table x = Some k)"
proof (intro ballI impI)
  fix n
  assume n: "n \<in> set ns" "1 < length (dn_depends_on n)"
  then have fan: "n \<in> set (fan_in ns)" by (simp add: fan_in_def)
  then have some: "fan_in ns \<noteq> []" by auto
  let ?all = "concat (map dn_depends_on (fan_in ns))"
  from dependency_groups_eq [OF some graph_wf_missing [OF assms(1)]] assms(2)
  obtain rp where rp: "\<forall>n \<in> set (fan_in ns). \<forall>x \<in> set (dn_depends_on n). rp x = rp (hd (dn_depends_on n))"
    and table: "table = map (\<lambda>n. (dn_id n, in_dag_order ns (\<lambda>r. filter (\<lambda>d. rp d = r) ?all)
      (rp (hd (dn_depends_on n))))) (fan_in ns)" by auto
  have same: "g = h" if "(i, g) \<in> set table" "(j, h) \<in> set table" "set g \<inter> set h \<noteq> {}" for i g j h
    using that unfolding table by (auto simp: in_dag_order_def)
  let ?g = "in_dag_order ns (\<lambda>r. filter (\<lambda>d. rp d = r) ?all) (rp (hd (dn_depends_on n)))"
  have g: "(dn_id n, ?g) \<in> set table" using fan by (auto simp: table)
  have cover: "x \<in> set ?g" if "x \<in> set (dn_depends_on n)" for x
    using that n(1) fan rp assms(1) by (auto simp: in_dag_order_def graph_wf_def list_all_iff ids_def)
  show "\<exists>k. \<forall>x \<in> set (dn_depends_on n). group_key table x = Some k"
    by (intro exI [of _ "hd ?g"] ballI group_key_of [OF same g] cover)
qed

section \<open>The whole transaction\<close>

text \<open>A graph that passed \<open>validate\<close> has levels, and its groups are computed once more.\<close>

lemma validated_dag:
  assumes "graph_wf ns" and "validate_dag ns = Some (Inr u)"
  obtains levels table where "topological_sort ns = Inr levels" and "dependency_groups ns = Some (Inr table)"
    and "\<forall>n \<in> set ns. refuse_identity n = None" and "distinct (concat levels)" and "set (concat levels) = ids ns"
    and "ordered_levels ns (ids ns) levels"
proof -
  have id: "first_error refuse_identity ns = None"
    and cyc: "\<not> cycle_check ns (map dn_id ns) [] []"
    and groups: "\<exists>z. dependency_groups ns = Some z \<and> (case z of Inl e \<Rightarrow> Inl e | Inr _ \<Rightarrow> Inr ()) = Inr u"
    using assms(2) by (auto simp: validate_dag_def split: option.splits if_splits)
  then obtain z where "dependency_groups ns = Some z" "(case z of Inl e \<Rightarrow> Inl e | Inr _ \<Rightarrow> Inr ()) = Inr u" by blast
  then have table: "\<exists>table. dependency_groups ns = Some (Inr table)" by (cases z) auto
  have ids: "set (remdups (map dn_id ns)) = ids ns" by (simp add: ids_def)
  have "cycle_check ns (map dn_id ns) [] [] \<longleftrightarrow> \<not> acyclic (depends ns)"
    by (rule cycle_check_correct) (auto simp: explored_def ids_def)
  with cyc have "acyclic (depends ns)" by simp
  from topo_levels_progress [OF assms(1) this counts_initially [OF assms(1)]]
  obtain levels where levels: "topological_sort ns = Inr levels" by (auto simp: topological_sort_def)
  with topo_levels_sound [OF assms(1) counts_initially [OF assms(1)]] table id that show thesis
    unfolding topological_sort_def ids by (auto simp: first_error_None)
qed

lemma no_run_right: "jobs_ok d \<Longrightarrow> run_right key d [] no_run d"
  by (simp add: run_right_def jobs_right_def rows_right_def groups_right_def grouped_def edges_right_def no_run_def ids_def)

text \<open>
  The job of a node in a written graph: its class, what it waits for, and, behind a group,
  every dependency's job carrying that group.
\<close>

definition carried_out :: "(nat \<Rightarrow> job_id option) \<Rightarrow> jorb list \<Rightarrow> dag_node \<Rightarrow> bool" where
  "carried_out node_to_job rows n \<longleftrightarrow>
     (\<exists>r \<in> set rows. node_to_job (dn_id n) = Some (j_id r) \<and> j_job_class r = dn_job_class n
        \<and> (dn_depends_on n \<noteq> [] \<longrightarrow> j_state r = Waiting)
        \<and> (\<forall>x. dn_depends_on n = [x] \<longrightarrow> j_waitfor_job r = node_to_job x \<and> node_to_job x \<noteq> None)
        \<and> (1 < length (dn_depends_on n) \<longrightarrow>
             (\<exists>g. j_waitfor_group r = Some g
                \<and> (\<forall>x \<in> set (dn_depends_on n). \<exists>q \<in> set rows. node_to_job x = Some (j_id q) \<and> j_run_group q = Some g))))"

definition dependency_edges :: "(nat \<Rightarrow> job_id option) \<Rightarrow> dag_node list \<Rightarrow> (job_id \<times> job_id) set" where
  "dependency_edges node_to_job ns =
     {(i, j). \<exists>n \<in> set ns. \<exists>x \<in> set (dn_depends_on n). node_to_job (dn_id n) = Some i \<and> node_to_job x = Some j}"

lemma rows_wired:
  assumes "run_right key d0 past st d" and "0 < next_job_id d0"
    and "\<forall>n \<in> set past. set (dn_depends_on n) \<subseteq> ids past" and "distinct (map dn_id past)"
    and "\<forall>n \<in> set past. 1 < length (dn_depends_on n) \<longrightarrow> (\<exists>k. \<forall>x \<in> set (dn_depends_on n). key x = Some k)"
    and "jobs d = jobs d0 @ rows" and "map j_id rows = map snd (rs_jobs st)"
    and "list_all2 (\<lambda>n r. j_job_class r = dn_job_class n
          \<and> waits_right (map_of (rs_jobs st)) key (map_of (rs_group_id st)) n r) past rows" and "n \<in> set past"
  shows "carried_out (map_of (rs_jobs st))
     (map (\<lambda>j. regroup (map_of (rs_group_id st)) (rs_members st) (dag_id_set dag j)) rows) n"
proof -
  let ?J = "map_of (rs_jobs st)" and ?G = "map_of (rs_group_id st)"
  let ?f = "\<lambda>j. regroup ?G (rs_members st) (dag_id_set dag j)"
  have jobs: "jobs_right d0 past st d" and grps: "groups_right key past st"
    using assms(1) by (simp_all add: run_right_def)
  note known = jobs_known [OF jobs]
  have keep [simp]: "j_id (dag_id_set dag j) = j_id j" "j_state (dag_id_set dag j) = j_state j"
    "j_job_class (dag_id_set dag j) = j_job_class j" "j_waitfor_job (dag_id_set dag j) = j_waitfor_job j"
    "j_waitfor_group (dag_id_set dag j) = j_waitfor_group j" for j by (simp_all add: dag_id_set_def)
  have dist: "distinct (map fst (rs_jobs st))" and len: "length rows = length past" "length (rs_jobs st) = length past"
    using jobs assms(4) list_all2_lengthD [OF assms(8)] by (simp_all add: jobs_right_def) (metis length_map)
  obtain k where k: "k < length past" "past ! k = n" using assms(9) by (auto simp: in_set_conv_nth)
  let ?r = "rows ! k"
  have "rs_jobs st ! k = (dn_id n, j_id ?r)"
    using jobs assms(7) k len by (intro prod_eqI) (metis fst_conv jobs_right_def nth_map, metis nth_map snd_conv)
  then have "(dn_id n, j_id ?r) \<in> set (rs_jobs st)" using k(1) len(2) by (metis nth_mem)
  then have r: "?r \<in> set rows" "j_job_class ?r = dn_job_class n" "waits_right ?J key ?G n ?r" "?J (dn_id n) = Some (j_id ?r)"
    using list_all2_nthD [OF assms(8) k(1)] k len(1) dist by (auto intro: map_of_is_SomeI)
  have row_at: "\<exists>q \<in> set rows. j_id q = i" if "?J x = Some i" for x i
  proof -
    from that have "i \<in> set (map snd (rs_jobs st))" by (force dest: map_of_SomeD)
    then show ?thesis using assms(7) by (metis imageE set_map)
  qed
  have member: "\<exists>q \<in> set rows. ?J x = Some (j_id (?f q)) \<and> j_run_group (?f q) = ?G k'"
    if x: "x \<in> ids past" "key x = Some k'" for x k'
  proof -
    from x grps obtain i ms where i: "?J x = Some i" "map_of (rs_members st) k' = Some ms" "i \<in> set ms" "?G k' \<noteq> None"
      unfolding groups_right_def grouped_def by blast
    obtain q where q: "q \<in> set rows" "j_id q = i" using row_at [OF i(1)] by blast
    have d: "distinct (map fst (rs_members st))" using grps by (simp add: groups_right_def)
    have "i \<notin> set ms'" if other: "(k'', ms') \<in> set (rs_members st)" "k'' \<noteq> k'" for k'' ms'
    proof
      assume "i \<in> set ms'"
      moreover have "map_of (rs_members st) k'' = Some ms'" using other(1) d by simp
      ultimately obtain y where y: "y \<in> ids past" "key y = Some k''" "?J y = Some i"
        using grps unfolding groups_right_def grouped_def by blast
      with i(1) x(1) known(4) have "y = x" by (metis inj_onD)
      with y(2) x(2) other(2) show False by simp
    qed
    then have "j_run_group (?f q) = Some (the (?G k'))"
      using regroup_member [OF d, of k' ms "dag_id_set dag q" ?G] i(2,3) q(2) by (auto dest: map_of_SomeD)
    with i(1,4) q show ?thesis by auto
  qed
  have deps: "set (dn_depends_on n) \<subseteq> ids past" using assms(3,9) by blast
  have "1 < length (dn_depends_on n) \<Longrightarrow> \<exists>g. j_waitfor_group (?f ?r) = Some g
      \<and> (\<forall>x \<in> set (dn_depends_on n). \<exists>q \<in> set rows. ?J x = Some (j_id (?f q)) \<and> j_run_group (?f q) = Some g)"
  proof -
    assume many: "1 < length (dn_depends_on n)"
    with r(3) obtain k' g where g: "key (hd (dn_depends_on n)) = Some k'" "?G k' = Some g" "j_waitfor_group ?r = Some g"
      by (auto simp: waits_right_def split: list.splits)
    have "key x = Some k'" if "x \<in> set (dn_depends_on n)" for x
      using assms(5,9) many g(1) that by (metis hd_in_set length_0_conv less_numeral_extra(3) list.size(3) not_one_less_zero)
    with member deps g show ?thesis by (metis keep(5) regroup_simps(5) subsetD)
  qed
  then show ?thesis
    unfolding carried_out_def using r
    by (intro bexI [of _ "?f ?r"]) (auto simp: waits_right_def split: list.splits)
qed

lemma stamp_run:
  assumes "jobs_ok d"
  shows "\<exists>d'. (if js = [] then Inr d else stamp (listed_where (map snd js)) (dag_id_set dag) d) = Inr d'
    \<and> jobs_ok d' \<and> platform_step\<^sup>*\<^sup>* d d' \<and> next_job_id d' = next_job_id d
    \<and> jobs d' = map (\<lambda>j. if j_id j \<in> snd ` set js then dag_id_set dag j else j) (jobs d)"
proof (cases "js = []")
  case False
  let ?d = "dag_members.after (map snd js) dag d"
  note run = dag_members.runs [OF assms, of "map snd js" dag]
  have "platform_step d ?d" using platform_step.dag_members [OF run] .
  with False run dag_members.after_ok [OF assms] show ?thesis
    by (intro exI [of _ ?d]) (auto simp: stamp_def listed_where_def)
qed (use assms in simp)

lemma group_ids_known:
  "groups_right key past st \<Longrightarrow> \<forall>(k, members) \<in> set (rs_members st). map_of (rs_group_id st) k \<noteq> None"
  unfolding groups_right_def grouped_def by (auto split: prod.split)

text \<open>The statements touch the new rows and no others.\<close>

lemma rows_stamped:
  assumes "jobs_ok d0" and "jobs_right d0 past st d" and "groups_right key past st"
    and "jobs d = jobs d0 @ rows" and "map j_id rows = map snd (rs_jobs st)"
  shows "map (regroup gid (rs_members st)) (map (\<lambda>j. if j_id j \<in> snd ` set (rs_jobs st) then dag_id_set dag j else j) (jobs d))
    = jobs d0 @ map (\<lambda>j. regroup gid (rs_members st) (dag_id_set dag j)) rows"
proof -
  have ids: "snd ` set (rs_jobs st) = j_id ` set rows" using assms(5) by (metis set_map)
  have seconds: "snd ` set (rs_jobs st) \<subseteq> {next_job_id d0 ..}"
  proof -
    have "snd ` set (rs_jobs st) = set (map (\<lambda>k. next_job_id d0 + int k) [0..<length past])"
      using assms(2) unfolding jobs_right_def by (metis set_map)
    then show ?thesis by auto
  qed
  have old: "j_id j < next_job_id d0" if "j \<in> set (jobs d0)" for j using that assms(1) by (simp add: jobs_ok_def)
  have members: "\<forall>i \<in> set ms. next_job_id d0 \<le> i" if m: "(k, ms) \<in> set (rs_members st)" for k ms
  proof
    fix i
    assume "i \<in> set ms"
    moreover have "map_of (rs_members st) k = Some ms" using m assms(3) by (simp add: groups_right_def)
    ultimately obtain x where "map_of (rs_jobs st) x = Some i" using assms(3) unfolding groups_right_def grouped_def by blast
    with jobs_known(2) [OF assms(2)] show "next_job_id d0 \<le> i" by blast
  qed
  have "regroup gid (rs_members st) j = j" if "j \<in> set (jobs d0)" for j
    by (rule regroup_other) (use members old [OF that] in force)
  moreover have "j_id j \<notin> snd ` set (rs_jobs st)" if "j \<in> set (jobs d0)" for j
    using seconds old [OF that] by auto
  ultimately show ?thesis using ids by (auto simp: assms(4) map_idI)
qed

text \<open>The tables before: sound, with ids from 1 on, and no edge of a job there is not yet.\<close>

definition dag_tables_ok :: "dag_tables \<Rightarrow> bool" where
  "dag_tables_ok t \<longleftrightarrow> jobs_ok (dt_db t) \<and> 0 < next_job_id (dt_db t) \<and> distinct (dt_edges t)
     \<and> (\<forall>(i, j) \<in> set (dt_edges t). i < next_job_id (dt_db t))"

lemma write_dag_run:
  assumes "graph_wf ns" and "reads_arguments arg" and "plain_nodes arg ns" and "dag_tables_ok t"
    and "dependency_groups ns = Some (Inr table)" and "\<forall>n \<in> set ns. refuse_identity n = None"
    and "distinct (concat levels)" and "set (concat levels) = ids ns" and "ordered_levels ns (ids ns) levels"
  shows "(\<exists>e. write_dag arg clock now w name ns levels table t = Inl (NodeRefused e))
    \<or> (\<exists>node_to_job t' rows es. write_dag arg clock now w name ns levels table t = Inr (node_to_job, t')
         \<and> map fst node_to_job = concat levels \<and> map snd node_to_job = map j_id rows
         \<and> jobs (dt_db t') = jobs (dt_db t) @ rows \<and> platform_step\<^sup>*\<^sup>* (dt_db t) (dt_db t')
         \<and> (\<forall>r \<in> set rows. j_dag_id r = Some (dt_next_dag t))
         \<and> (\<forall>n \<in> set ns. carried_out (map_of node_to_job) rows n)
         \<and> dt_edges t' = dt_edges t @ es \<and> set es = dependency_edges (map_of node_to_job) ns
         \<and> dt_next_dag t' = dt_next_dag t + 1 \<and> map dg_id (dt_dags t') = map dg_id (dt_dags t) @ [dt_next_dag t])"
proof -
  let ?d0 = "dt_db t" and ?key = "group_key table" and ?order = "nodes_of ns (concat levels)"
  note tables = assms(4) [unfolded dag_tables_ok_def]
  note grp = wait_table [OF assms(1,5)]
  have keys: "\<forall>n \<in> set ns. 1 < length (dn_depends_on n) \<longrightarrow> ?key (hd (dn_depends_on n)) \<noteq> None"
    using grp by (metis hd_in_set length_0_conv not_less_zero option.distinct(1))
  have ord: "in_order ?key {} ?order"
    by (rule levels_in_order [OF assms(1) keys assms(9,7,8)]) auto
  have order: "map dn_id ?order = concat levels" "set ?order \<subseteq> set ns"
    using nodes_of_ids [OF assms(1), of "concat levels"] assms(8) by simp_all
  have same: "set ?order = set ns"
  proof
    show "set ns \<subseteq> set ?order"
    proof
      fix n
      assume n: "n \<in> set ns"
      then have "dn_id n \<in> dn_id ` set ?order" using order(1) assms(8) by (metis ids_def image_eqI set_map)
      then obtain m where m: "m \<in> set ?order" "dn_id m = dn_id n" by auto
      with order(2) n assms(1) have "m = n" by (auto simp: graph_wf_def distinct_map dest: inj_onD)
      with m show "n \<in> set ?order" by simp
    qed
  qed (rule order(2))
  have "ids ([] :: dag_node list) = {}" by (simp add: ids_def)
  with add_jobs_run [OF assms(2,3) order(2) assms(6) no_run_right, where d = ?d0 and key = ?key and clock = clock and now = now and w = w] tables ord
  consider e where "add_jobs arg ?key clock now w ?order no_run ?d0 = Inl (NodeRefused e)"
    | st d1 where "add_jobs arg ?key clock now w ?order no_run ?d0 = Inr (st, d1)" "run_right ?key ?d0 ?order st d1"
    by force
  then show ?thesis
  proof cases
    case (1 e)
    then show ?thesis by (simp add: write_dag_def Let_def)
  next
    case (2 st d1)
    have jobs: "jobs_right ?d0 ?order st d1" and grps: "groups_right ?key ?order st" and edges: "edges_right ?order st"
      using 2(2) by (simp_all add: run_right_def)
    note known = jobs_known [OF jobs]
    obtain rows where rows: "jobs d1 = jobs ?d0 @ rows" "map j_id rows = map snd (rs_jobs st)"
      "list_all2 (\<lambda>n r. j_job_class r = dn_job_class n
         \<and> waits_right (map_of (rs_jobs st)) ?key (map_of (rs_group_id st)) n r) ?order rows"
      using 2(2) unfolding run_right_def rows_right_def by blast
    have ok1: "jobs_ok d1" "platform_step\<^sup>*\<^sup>* ?d0 d1" using jobs by (simp_all add: jobs_right_def)
    obtain d2 where d2: "(if rs_jobs st = [] then Inr d1
          else stamp (listed_where (map snd (rs_jobs st))) (dag_id_set (dt_next_dag t)) d1) = Inr d2"
      "jobs_ok d2" "platform_step\<^sup>*\<^sup>* d1 d2"
      "jobs d2 = map (\<lambda>j. if j_id j \<in> snd ` set (rs_jobs st) then dag_id_set (dt_next_dag t) j else j) (jobs d1)"
      using stamp_run [OF ok1(1)] by blast
    note gid = group_ids_known [OF grps]
    obtain d3 where d3: "stamp_groups (rs_group_id st) (rs_members st) d2 = Inr d3" "platform_step\<^sup>*\<^sup>* d2 d3"
      "jobs d3 = map (regroup (map_of (rs_group_id st)) (rs_members st)) (jobs d2)"
      using stamp_groups_run [OF d2(2) gid] by blast
    let ?f = "\<lambda>j. regroup (map_of (rs_group_id st)) (rs_members st) (dag_id_set (dt_next_dag t) j)"
    have wired: "jobs d3 = jobs ?d0 @ map ?f rows"
      using rows_stamped [OF _ jobs grps rows(1,2)] tables d2(4) d3(3) by simp
    have new: "next_job_id ?d0 \<le> i" if "(i, j) \<in> set (rs_edges st)" for i j
      using that edges known(2) unfolding edges_right_def by blast
    have dist: "distinct (dt_edges t @ rs_edges st)"
      using tables edges new by (fastforce simp: edges_right_def)
    have "\<forall>n \<in> set ?order. set (dn_depends_on n) \<subseteq> ids ?order"
      using assms(1) by (simp add: same ids_def graph_wf_def list_all_iff)
    then have carried: "carried_out (map_of (rs_jobs st)) (map ?f rows) n" if "n \<in> set ns" for n
      using rows_wired [OF 2(2) _ _ _ _ rows, of n] tables order(1) assms(7) grp that by (simp add: same)
    have path: "platform_step\<^sup>*\<^sup>* ?d0 d3" using ok1(2) d2(3) d3(2) by (meson rtranclp_trans)
    have edge_set: "set (rs_edges st) = dependency_edges (map_of (rs_jobs st)) ns"
      using edges by (simp add: edges_right_def dependency_edges_def same)
    let ?t = "t\<lparr>dt_db := d3, dt_edges := dt_edges t @ rs_edges st, dt_next_dag := dt_next_dag t + 1,
      dt_dags := dt_dags t @ [\<lparr>dg_id = dt_next_dag t, dg_created = now, dg_name = name, dg_completed = None,
             dg_total_nodes = length ns\<rparr>]\<rparr>"
    have run: "write_dag arg clock now w name ns levels table t = Inr (rs_jobs st, ?t)"
      using 2(1) d2(1) d3(1) dist by (simp add: write_dag_def Let_def insert_edges_def)
    have firsts: "map fst (rs_jobs st) = concat levels" using jobs order(1) by (simp add: jobs_right_def)
    have stamped: "\<forall>r \<in> set (map ?f rows). j_dag_id r = Some (dt_next_dag t)" by (simp add: dag_id_set_def)
    have seconds: "map snd (rs_jobs st) = map j_id (map ?f rows)" using rows(2) by (simp add: dag_id_set_def o_def)
    show ?thesis
      by (intro disjI2 exI [of _ "rs_jobs st"] exI [of _ ?t] exI [of _ "map ?f rows"] exI [of _ "rs_edges st"])
        (use run firsts seconds wired path stamped carried edge_set in simp)
  qed
qed


definition no_graphs :: "database \<Rightarrow> dag_tables" where
  "no_graphs d = \<lparr>dt_db = d, dt_dags = [], dt_edges = [], dt_next_dag = 1\<rparr>"

definition queue_arg :: read_arg where
  "queue_arg k v =
     (if k = ''queue'' then (case v of JStr s \<Rightarrow> Queue s | _ \<Rightarrow> Queue ''default'')
      else if k = ''identity_key'' then (case v of JStr s \<Rightarrow> IdentityKey (Some s) | _ \<Rightarrow> IdentityKey None)
      else Kwarg k v)"

definition etl :: dag_builder where
  "etl = \<lparr>db_name = Some ''etl'', db_common_options = [], db_nodes = etl_dag\<rparr>"


section \<open>An identity among the job's arguments\<close>

text \<open>
  \<open>_refuse_identity\<close> looks for the key among a node's options only, but the call unpacks the job's
  arguments beside them: \<open>add('Charge', {'identity_key': key})\<close> passes the check, and the graph
  takes over the job that already holds the key.
\<close>

definition lone_node :: "string \<Rightarrow> string \<Rightarrow> dag_builder" where
  "lone_node job_class key = \<lparr>db_name = None, db_common_options = [], db_nodes =
     [\<lparr>dn_id = 0, dn_job_class = job_class, dn_kwargs = [(''identity_key'', JStr key)], dn_depends_on = [], dn_job_options = []\<rparr>]\<rparr>"

lemma lone_checks:
  "validate_dag (db_nodes (lone_node job_class key)) = Some (Inr ())"
  "topological_sort (db_nodes (lone_node job_class key)) = Inr [[0]]"
  "dependency_groups (db_nodes (lone_node job_class key)) = Some (Inr [])"
  by (simp_all add: lone_node_def validate_dag_def refuse_identity_def check_membership_def ids_def has_cycle_def deps_of_def
      dependency_groups_def fan_in_def topological_sort_def topo_levels.simps in_degrees_def Let_def)

theorem a_dag_takes_over_an_identified_job:
  assumes "jobs_ok (dt_db t)" and "distinct (dt_edges t)" and "holder key (dt_db t) = Some h" and "j_job_class h = job_class"
    and "arg ''identity_key'' (JStr key) = IdentityKey (Some key)"
    and "build_enqueue_row clock job_class [IdentityKey (Some key)] = Inr r"
  shows "\<exists>t'. execute_dag arg clock now (\<lambda>i. nobody) (lone_node job_class key) t = Some (Inr (dt_next_dag t, [(0, j_id h)]), t')
    \<and> jobs (dt_db t') = map (\<lambda>j. if j_id j = j_id h then j\<lparr>j_dag_id := Some (dt_next_dag t)\<rparr> else j) (jobs (dt_db t))"
proof -
  let ?n = "\<lparr>dn_id = 0, dn_job_class = job_class, dn_kwargs = [(''identity_key'', JStr key)], dn_depends_on = [], dn_job_options = []\<rparr>"
  let ?d = "dt_db t"
  have o: "eo_identity_key (options_of [IdentityKey (Some key)]) = Some key"
    "eo_debounce_key (options_of [IdentityKey (Some key)]) = None"
    by (simp_all add: options_of_def default_options_def)
  have "er_job_class r = job_class" using build_enqueue_row_Inr(5) [OF assms(6)] .
  then have "enqueue_identity now r key nobody ?d = (Inr (j_id h, False), ?d)"
    using assms(3,4) by (simp add: identity_loop.simps enqueue_identity_def SPECULATIVE_ATTEMPTS_def numeral_eq_Suc nobody_def ENQUEUE_IDENTIFIED_SQL_def)
  then have "enqueue_in_transaction clock now job_class [IdentityKey (Some key)] nobody ?d = (Inr (j_id h), ?d)"
    using assms(6) o by (simp add: enqueue_in_transaction_def enqueue_row_def)
  then have "enqueue_node arg clock now nobody ?n [] ?d = Inr (j_id h, ?d)"
    using assms(5) by (simp add: enqueue_node_def call_clash_def first_clash_def)
  then have added: "add_jobs arg (group_key []) clock now (\<lambda>i. nobody) [?n] no_run ?d
      = Inr (no_run\<lparr>rs_jobs := [(0, j_id h)]\<rparr>, ?d)"
    by (simp add: add_job_def wait_options_def no_run_def enter_group_def group_key_def Let_def)
  have nodes: "nodes_of (db_nodes (lone_node job_class key)) [0] = [?n]"
    by (simp add: nodes_of_def lone_node_def List.map_filter_simps)
  obtain t' where "write_dag arg clock now (\<lambda>i. nobody) None (db_nodes (lone_node job_class key)) [[0]] [] t
      = Inr ([(0, j_id h)], t')" "dt_db t' = dag_members.after [j_id h] (dt_next_dag t) ?d"
    using added assms(2)
    by (simp add: write_dag_def nodes no_run_def stamp_def dag_members.runs [OF assms(1)] insert_edges_def Let_def
        del: add_jobs.simps)
  then show ?thesis
    by (simp add: execute_dag_def lone_checks) (simp add: lone_node_def, auto simp: listed_where_def dag_id_set_def)
qed

definition shipped_db :: database where
  "shipped_db = seed_db [((default_jorb 0 1)\<lparr>j_job_class := ''Ship'', j_identity_key := Some ''order:7'', j_dag_id := Some 9\<rparr>, [Queued])]"

theorem a_dag_takes_over_an_identified_job_witness:
  "\<exists>t'. execute_dag queue_arg 5 5 (\<lambda>i. nobody) (lone_node ''Ship'' ''order:7'') (no_graphs shipped_db) = Some (Inr (1, [(0, 1)]), t')
     \<and> map j_dag_id (jobs shipped_db) = [Some 9] \<and> map j_dag_id (jobs (dt_db t')) = [Some 1]"
proof -
  have ok: "jobs_ok (dt_db (no_graphs shipped_db))"
    by (simp add: no_graphs_def shipped_db_def seed_simps TERMINAL_STATES_def)
  obtain h where h: "holder ''order:7'' (dt_db (no_graphs shipped_db)) = Some h" "j_job_class h = ''Ship''" "j_id h = 1"
    by (simp add: no_graphs_def shipped_db_def seed_db_def holder_def)
  have "isl (build_enqueue_row 5 ''Ship'' [IdentityKey (Some ''order:7'')]) = False" by code_simp
  then obtain r where r: "build_enqueue_row 5 ''Ship'' [IdentityKey (Some ''order:7'')] = Inr r"
    by (cases "build_enqueue_row 5 ''Ship'' [IdentityKey (Some ''order:7'')]") auto
  have "queue_arg ''identity_key'' (JStr ''order:7'') = IdentityKey (Some ''order:7'')" by (simp add: queue_arg_def)
  moreover have "distinct (dt_edges (no_graphs shipped_db))" by (simp add: no_graphs_def)
  ultimately show ?thesis
    using a_dag_takes_over_an_identified_job [where t = "no_graphs shipped_db" and arg = queue_arg and now = 5, OF ok _ h(1,2) _ r] h(3)
    by (auto simp: no_graphs_def shipped_db_def seed_db_def)
qed

end
