(* ===== verification/DagWatch.thy ===== *)
theory DagWatch
  imports DagRun
begin

text \<open>
  Watching a graph: the view \<open>jorb_dag_status\<close> (\<open>sql/schema/80_dags.sql\<close>), the trigger that keeps
  \<open>jorb_dag.completed\<close> (\<open>91_dag_complete.sql\<close>), and \<open>wait_for_dag\<close> of \<open>pyjobby/dag.py\<close>. What a
  look finds and the clock after it are arguments, a value for each turn of the loop.
\<close>

section \<open>Status\<close>

record dag_status =
  ds_total :: nat
  ds_finished :: nat
  ds_crashed :: nat
  ds_cancelled :: nat
  ds_pending :: nat

text \<open>The view \<open>jorb_dag_status\<close>: its counts over the jobs of one graph.\<close>

definition dag_members_of :: "int \<Rightarrow> database \<Rightarrow> jorb list" where
  "dag_members_of dag d = filter (\<lambda>j. j_dag_id j = Some dag) (jobs d)"

definition count_state :: "jorbstate list \<Rightarrow> jorb list \<Rightarrow> nat" where
  "count_state ss js = length (filter (\<lambda>j. j_state j \<in> set ss) js)"

definition jorb_dag_status :: "int \<Rightarrow> database \<Rightarrow> dag_status" where
  "jorb_dag_status dag d =
     (let js = dag_members_of dag d
      in \<lparr>ds_total = length js, ds_finished = count_state [Finished] js, ds_crashed = count_state [Crashed] js,
          ds_cancelled = count_state [Cancelled] js,
          ds_pending = count_state [Queued, Claimed, Running, Waiting] js\<rparr>)"

text \<open>\<open>None\<close> is the answer "DAG not found".\<close>

definition get_dag_status :: "int \<Rightarrow> dag_tables \<Rightarrow> dag_status option" where
  "get_dag_status dag t =
     (if dag \<in> dg_id ` set (dt_dags t) then Some (jorb_dag_status dag (dt_db t)) else None)"

text \<open>
  The trigger \<open>complete_jorb_dag\<close>, on the rows as the statement left them: \<open>WHEN\<close> it fires,
  and what it writes.
\<close>

definition dag_complete_when :: "jorb \<Rightarrow> jorb \<Rightarrow> bool" where
  "dag_complete_when old new \<longleftrightarrow> j_dag_id new \<noteq> None \<and> j_state old \<noteq> j_state new
     \<and> (j_state new \<in> set TERMINAL_STATES \<or> j_state old \<in> set TERMINAL_STATES)"

definition set_completed :: "instant \<Rightarrow> bool \<Rightarrow> dag_info \<Rightarrow> dag_info" where
  "set_completed now over g =
     (if over then (if dg_completed g = None then g\<lparr>dg_completed := Some now\<rparr> else g)
      else g\<lparr>dg_completed := None\<rparr>)"

definition complete_jorb_dag :: "instant \<Rightarrow> jorb \<Rightarrow> database \<Rightarrow> dag_info list \<Rightarrow> dag_info list" where
  "complete_jorb_dag now new d dags =
     (case j_dag_id new of
        None \<Rightarrow> dags
      | Some dag \<Rightarrow>
          (let pending = length (filter (\<lambda>j. j_state j \<notin> set TERMINAL_STATES) (dag_members_of dag d))
           in map (\<lambda>g. if dg_id g = dag then set_completed now (pending = 0) g else g) dags))"

text \<open>A statement on the jobs, with the trigger run for each row it changed.\<close>

definition after_statement :: "instant \<Rightarrow> database \<Rightarrow> database \<Rightarrow> dag_info list \<Rightarrow> dag_info list" where
  "after_statement now d d' dags =
     foldl (\<lambda>dags new. case lookup_job d (j_id new) of
                          None \<Rightarrow> dags
                        | Some old \<Rightarrow> if dag_complete_when old new then complete_jorb_dag now new d' dags else dags)
       dags (jobs d')"

section \<open>Waiting for a graph\<close>

datatype dag_outcome = DagFinished | DagFailed

datatype dag_wait_error = DagMissing | DagTimedOut

partial_function (option) wait_from ::
  "(nat \<Rightarrow> dag_status option) \<Rightarrow> (nat \<Rightarrow> instant) \<Rightarrow> instant \<Rightarrow> interval option \<Rightarrow> nat
     \<Rightarrow> (dag_wait_error + dag_outcome) option" where
  "wait_from status clock start timeout k =
     (case status k of
        None \<Rightarrow> Some (Inl DagMissing)
      | Some s \<Rightarrow>
          if ds_crashed s \<noteq> 0 \<or> ds_cancelled s \<noteq> 0 then Some (Inr DagFailed)
          else if ds_total s \<noteq> 0 \<and> ds_pending s = 0 then Some (Inr DagFinished)
          else (case timeout of
                  None \<Rightarrow> wait_from status clock start timeout (Suc k)
                | Some limit \<Rightarrow> if clock k - start > limit then Some (Inl DagTimedOut)
                               else wait_from status clock start timeout (Suc k)))"

declare wait_from.simps [code]

definition wait_for_dag ::
  "(nat \<Rightarrow> dag_tables) \<Rightarrow> (nat \<Rightarrow> instant) \<Rightarrow> instant \<Rightarrow> int \<Rightarrow> interval option
     \<Rightarrow> (dag_wait_error + dag_outcome) option" where
  "wait_for_dag looks clock start dag timeout =
     wait_from (\<lambda>k. get_dag_status dag (looks k)) clock start timeout 0"

section \<open>Completion\<close>

text \<open>
  \<open>completed\<close> is set on a graph that has jobs exactly when none of them is pending. The
  trigger keeps it so under every update that leaves a row its id and its graph, whatever the
  states it moves and however many rows it touches.
\<close>

definition completion_true :: "database \<Rightarrow> dag_info list \<Rightarrow> bool" where
  "completion_true d dags \<longleftrightarrow> (\<forall>g \<in> set dags. dag_members_of (dg_id g) d \<noteq> []
     \<longrightarrow> (dg_completed g \<noteq> None \<longleftrightarrow> (\<forall>j \<in> set (dag_members_of (dg_id g) d). j_state j \<in> set TERMINAL_STATES)))"

definition settled_dag :: "database \<Rightarrow> dag_info \<Rightarrow> bool" where
  "settled_dag d g \<longleftrightarrow> (dg_completed g \<noteq> None \<longleftrightarrow> (\<forall>j \<in> set (dag_members_of (dg_id g) d). j_state j \<in> set TERMINAL_STATES))"

lemma set_completed_simps [simp]:
  "dg_id (set_completed now over g) = dg_id g" "dg_completed (set_completed now over g) \<noteq> None \<longleftrightarrow> over"
  by (simp_all add: set_completed_def)

lemma complete_settles:
  assumes "g' \<in> set (complete_jorb_dag now new d dags)"
  shows "\<exists>g \<in> set dags. dg_id g' = dg_id g \<and> (j_dag_id new = Some (dg_id g) \<longrightarrow> settled_dag d g')
    \<and> (j_dag_id new \<noteq> Some (dg_id g) \<longrightarrow> g' = g)"
proof (cases "j_dag_id new")
  case (Some dag)
  let ?over = "length (filter (\<lambda>j. j_state j \<notin> set TERMINAL_STATES) (dag_members_of dag d)) = 0"
  obtain g where g: "g \<in> set dags" "g' = (if dg_id g = dag then set_completed now ?over g else g)"
    using assms Some by (auto simp: complete_jorb_dag_def Let_def)
  have "settled_dag d (set_completed now ?over g)" if "dg_id g = dag"
    unfolding settled_dag_def set_completed_simps that by (simp add: filter_empty_conv)
  with g Some show ?thesis by (intro bexI [of _ g]) auto
qed (use assms in \<open>auto simp: complete_jorb_dag_def\<close>)

text \<open>After the rows \<open>news\<close>: a graph is as it was, or it was settled; a touched one was settled.\<close>

lemma statement_settles:
  assumes "g' \<in> set (foldl (\<lambda>dags new. case lookup_job d (j_id new) of None \<Rightarrow> dags
       | Some old \<Rightarrow> if dag_complete_when old new then complete_jorb_dag now new d' dags else dags) dags news)"
  shows "\<exists>g \<in> set dags. dg_id g' = dg_id g \<and> (settled_dag d' g' \<or> g' = g
      \<and> (\<forall>new \<in> set news. \<forall>old. lookup_job d (j_id new) = Some old \<and> dag_complete_when old new \<longrightarrow> j_dag_id new \<noteq> Some (dg_id g)))"
  using assms
proof (induction news arbitrary: dags)
  case (Cons new news)
  let ?fire = "\<exists>old. lookup_job d (j_id new) = Some old \<and> dag_complete_when old new"
  let ?one = "case lookup_job d (j_id new) of None \<Rightarrow> dags
       | Some old \<Rightarrow> if dag_complete_when old new then complete_jorb_dag now new d' dags else dags"
  from Cons.IH [of ?one] Cons.prems obtain g1 where g1: "g1 \<in> set ?one" "dg_id g' = dg_id g1"
    "settled_dag d' g' \<or> g' = g1 \<and> (\<forall>new \<in> set news. \<forall>old. lookup_job d (j_id new) = Some old \<and> dag_complete_when old new
        \<longrightarrow> j_dag_id new \<noteq> Some (dg_id g1))" by auto
  show ?case
  proof (cases ?fire)
    case True
    then have "g1 \<in> set (complete_jorb_dag now new d' dags)" using g1(1) by auto
    from complete_settles [OF this] g1(2,3) show ?thesis by auto
  next
    case False
    then have "g1 \<in> set dags" using g1(1) by (auto split: option.splits if_splits)
    with g1(2,3) False show ?thesis by auto
  qed
qed auto

text \<open>
  C26. The completion time of a graph stays truthful: after any update of the job table that keeps
  ids and graphs, with the trigger run for each row it changed, a graph that has jobs is
  stamped exactly when all of them are in a terminal state, if that was so before; also when
  the last two members end in one statement, and when a finished member is retried.
\<close>

theorem dag_completion_stays_truthful:
  assumes "jobs_ok d" and "completion_true d dags" and "update_jobs p f d = Inr (rs, d')"
    and "\<forall>j. p j \<longrightarrow> j_id (f j) = j_id j \<and> j_dag_id (f j) = j_dag_id j"
  shows "completion_true d' (after_statement now d d' dags)"
  unfolding completion_true_def
proof (intro ballI impI)
  fix g'
  assume g': "g' \<in> set (after_statement now d d' dags)" and some: "dag_members_of (dg_id g') d' \<noteq> []"
  let ?u = "\<lambda>j. if p j then f j else j"
  have rows: "jobs d' = map ?u (jobs d)" using assms(3) by (auto simp: update_jobs_def Let_def split: if_splits)
  have keeps: "j_dag_id (?u j) = j_dag_id j" "j_id (?u j) = j_id j" for j using assms(4) by auto
  have members: "dag_members_of i d' = map ?u (dag_members_of i d)" for i
    by (simp add: dag_members_of_def rows filter_map o_def keeps)
  have dist: "distinct (map j_id (jobs d))" using assms(1) by (simp add: jobs_ok_def unique_ok_def)
  from statement_settles [OF g' [unfolded after_statement_def]]
  obtain g where g: "g \<in> set dags" "dg_id g' = dg_id g"
    "settled_dag d' g' \<or> g' = g \<and> (\<forall>new \<in> set (jobs d'). \<forall>old. lookup_job d (j_id new) = Some old \<and> dag_complete_when old new
        \<longrightarrow> j_dag_id new \<noteq> Some (dg_id g))" by blast
  show "dg_completed g' \<noteq> None \<longleftrightarrow> (\<forall>j \<in> set (dag_members_of (dg_id g') d'). j_state j \<in> set TERMINAL_STATES)"
  proof (cases "settled_dag d' g'")
    case False
    with g(3) have same: "g' = g" and quiet: "\<forall>new \<in> set (jobs d'). \<forall>old. lookup_job d (j_id new) = Some old
        \<and> dag_complete_when old new \<longrightarrow> j_dag_id new \<noteq> Some (dg_id g)" by auto
    have "j_state (?u j) \<in> set TERMINAL_STATES \<longleftrightarrow> j_state j \<in> set TERMINAL_STATES" if j: "j \<in> set (dag_members_of (dg_id g) d)" for j
    proof -
      have "j \<in> set (jobs d)" "j_dag_id j = Some (dg_id g)" using j by (simp_all add: dag_members_of_def)
      moreover from this have "?u j \<in> set (jobs d')" "lookup_job d (j_id (?u j)) = Some j"
        using find_row_job [OF dist] by (auto simp: rows lookup_job_def keeps)
      ultimately have "\<not> dag_complete_when j (?u j)" using quiet keeps(1) by metis
      then show ?thesis using \<open>j_dag_id j = Some (dg_id g)\<close> keeps(1) [of j] by (auto simp: dag_complete_when_def)
    qed
    moreover have "dg_completed g \<noteq> None \<longleftrightarrow> (\<forall>j \<in> set (dag_members_of (dg_id g) d). j_state j \<in> set TERMINAL_STATES)"
      using assms(2) g(1) some by (simp add: completion_true_def same members)
    ultimately show ?thesis unfolding same members set_map ball_simps by blast
  qed (simp add: settled_dag_def)
qed

section \<open>The wait\<close>

text \<open>What an answer says of the look and the clock of the turn it was given in.\<close>

fun answer_holds ::
  "(nat \<Rightarrow> dag_tables) \<Rightarrow> (nat \<Rightarrow> instant) \<Rightarrow> instant \<Rightarrow> int \<Rightarrow> interval option \<Rightarrow> dag_wait_error + dag_outcome \<Rightarrow> nat \<Rightarrow> bool" where
  "answer_holds looks clock start dag timeout (Inr DagFinished) k =
     (dag_members_of dag (dt_db (looks k)) \<noteq> [] \<and> (\<forall>j \<in> set (dag_members_of dag (dt_db (looks k))). j_state j = Finished))"
| "answer_holds looks clock start dag timeout (Inr DagFailed) k =
     (\<exists>j \<in> set (dag_members_of dag (dt_db (looks k))). j_state j \<in> {Crashed, Cancelled})"
| "answer_holds looks clock start dag timeout (Inl DagMissing) k = (dag \<notin> dg_id ` set (dt_dags (looks k)))"
| "answer_holds looks clock start dag timeout (Inl DagTimedOut) k =
     (\<exists>limit. timeout = Some limit \<and> limit < clock k - start)"

lemma count_state_zero: "count_state ss js = 0 \<longleftrightarrow> (\<forall>j \<in> set js. j_state j \<notin> set ss)"
  by (simp add: count_state_def filter_empty_conv)

text \<open>One turn: an answer that holds, or another turn.\<close>

lemma turn_answers:
  assumes "(case get_dag_status dag (looks k) of
        None \<Rightarrow> Some (Inl DagMissing)
      | Some s \<Rightarrow>
          if ds_crashed s \<noteq> 0 \<or> ds_cancelled s \<noteq> 0 then Some (Inr DagFailed)
          else if ds_total s \<noteq> 0 \<and> ds_pending s = 0 then Some (Inr DagFinished)
          else (case timeout of
                  None \<Rightarrow> again
                | Some limit \<Rightarrow> if clock k - start > limit then Some (Inl DagTimedOut) else again)) = Some r"
  shows "answer_holds looks clock start dag timeout r k \<or> again = Some r"
proof (cases "get_dag_status dag (looks k)")
  case None
  with assms show ?thesis by (auto simp: get_dag_status_def split: if_splits)
next
  case (Some s)
  then have s: "s = jorb_dag_status dag (dt_db (looks k))" by (simp add: get_dag_status_def split: if_splits)
  let ?js = "dag_members_of dag (dt_db (looks k))"
  have failed: "ds_crashed s \<noteq> 0 \<or> ds_cancelled s \<noteq> 0 \<longleftrightarrow> (\<exists>j \<in> set ?js. j_state j \<in> {Crashed, Cancelled})"
    unfolding s jorb_dag_status_def Let_def dag_status.simps count_state_zero by auto
  have over: "ds_total s \<noteq> 0 \<and> ds_pending s = 0 \<longleftrightarrow>
      ?js \<noteq> [] \<and> (\<forall>j \<in> set ?js. j_state j \<notin> {Queued, Claimed, Running, Waiting})"
    unfolding s jorb_dag_status_def Let_def dag_status.simps count_state_zero by auto
  have state: "q = Finished \<or> q \<in> {Crashed, Cancelled} \<or> q \<in> {Queued, Claimed, Running, Waiting}" for q
    by (cases q) auto
  let ?failed = "ds_crashed s \<noteq> 0 \<or> ds_cancelled s \<noteq> 0" and ?over = "ds_total s \<noteq> 0 \<and> ds_pending s = 0"
  have run: "(if ?failed then Some (Inr DagFailed) else if ?over then Some (Inr DagFinished)
      else (case timeout of None \<Rightarrow> again
            | Some limit \<Rightarrow> if clock k - start > limit then Some (Inl DagTimedOut) else again)) = Some r"
    using assms unfolding Some option.case .
  show ?thesis
  proof (cases "?failed")
    case True
    with run have "r = Inr DagFailed" by (simp only: if_True option.inject)
    moreover from True have "\<exists>j \<in> set ?js. j_state j \<in> {Crashed, Cancelled}" unfolding failed .
    ultimately show ?thesis by simp
  next
    case ok: False
    show ?thesis
    proof (cases "?over")
      case True
      then have "r = Inr DagFinished" using run unfolding if_not_P [OF ok] if_P [OF True] by simp
      moreover have "?js \<noteq> []" "\<forall>j \<in> set ?js. j_state j = Finished" using True ok unfolding failed over using state by blast+
      ultimately show ?thesis by simp
    next
      case False
      have "(case timeout of None \<Rightarrow> again
            | Some limit \<Rightarrow> if clock k - start > limit then Some (Inl DagTimedOut) else again) = Some r"
        using run unfolding if_not_P [OF ok] if_not_P [OF False] .
      then show ?thesis by (auto split: option.splits if_splits)
    qed
  qed
qed

lemma wait_from_answers:
  assumes "wait_from status clock start timeout k = Some r" and "status = (\<lambda>k. get_dag_status dag (looks k))"
  shows "\<exists>m \<ge> k. answer_holds looks clock start dag timeout r m"
  using assms
proof (induction rule: wait_from.raw_induct [rotated, consumes 1, case_names turn])
  case (turn self status clock start timeout k r)
  from turn_answers [where dag = dag and looks = looks and k = k and timeout = timeout and clock = clock and start = start
      and r = r and again = "self status clock start timeout (Suc k)"] turn(2,3)
  have "answer_holds looks clock start dag timeout r k \<or> self status clock start timeout (Suc k) = Some r" by simp
  then show ?case
  proof
    assume "self status clock start timeout (Suc k) = Some r"
    then show ?thesis using turn(1) [OF _ turn(3)] turn(3) by (metis Suc_leD)
  qed blast
qed

lemma wait_from_returns:
  assumes "k \<le> n" and "status n = None \<or> (\<exists>s. status n = Some s \<and> (ds_crashed s \<noteq> 0 \<or> ds_cancelled s \<noteq> 0 \<or> ds_total s \<noteq> 0 \<and> ds_pending s = 0))
      \<or> (\<exists>limit. timeout = Some limit \<and> limit < clock n - start)"
  shows "\<exists>r. wait_from status clock start timeout k = Some r"
  using assms(1)
proof (induction rule: inc_induct)
  case base
  from assms(2) show ?case by (subst wait_from.simps) (auto split: option.split)
next
  case (step m)
  then show ?case by (subst wait_from.simps) (auto split: option.split)
qed

text \<open>
  A wait for a graph tells the truth, and ends. \<open>True\<close> comes only from a look that found jobs
  and all of them finished, \<open>False\<close> only from one that found a crashed or cancelled job,
  \<open>LookupError\<close> only from one that did not find the graph, \<open>TimeoutError\<close> only after the time;
  and the wait comes back as soon as any of these can be said of some turn.
\<close>

theorem a_dag_wait_tells_the_truth:
  "(\<forall>r. wait_for_dag looks clock start dag timeout = Some r \<longrightarrow> (\<exists>k. answer_holds looks clock start dag timeout r k))
    \<and> ((\<exists>r k. answer_holds looks clock start dag timeout r k) \<longrightarrow> wait_for_dag looks clock start dag timeout \<noteq> None)"
proof (intro conjI allI impI)
  fix r
  assume "wait_for_dag looks clock start dag timeout = Some r"
  from wait_from_answers [OF this [unfolded wait_for_dag_def] refl]
  show "\<exists>k. answer_holds looks clock start dag timeout r k" by blast
next
  assume "\<exists>r k. answer_holds looks clock start dag timeout r k"
  then obtain r k where holds: "answer_holds looks clock start dag timeout r k" by blast
  let ?js = "dag_members_of dag (dt_db (looks k))" and ?s = "jorb_dag_status dag (dt_db (looks k))"
  have "dag \<notin> dg_id ` set (dt_dags (looks k)) \<or> (ds_crashed ?s \<noteq> 0 \<or> ds_cancelled ?s \<noteq> 0 \<or> ds_total ?s \<noteq> 0 \<and> ds_pending ?s = 0)
      \<or> (\<exists>limit. timeout = Some limit \<and> limit < clock k - start)"
    using holds
    by (cases "(looks, clock, start, dag, timeout, r, k)" rule: answer_holds.cases)
      (auto simp: jorb_dag_status_def Let_def count_state_zero)
  then have "\<exists>r. wait_for_dag looks clock start dag timeout = Some r"
    unfolding wait_for_dag_def by (intro wait_from_returns [of 0 k]) (auto simp: get_dag_status_def)
  then show "wait_for_dag looks clock start dag timeout \<noteq> None" by auto
qed

theorem a_dag_wait_tells_the_truth_witness:
  "\<exists>r. wait_for_dag (\<lambda>k. no_graphs empty_db) (\<lambda>k. 0) 0 1 None = Some r \<and> r = Inl DagMissing"
proof -
  let ?looks = "\<lambda>k :: nat. no_graphs empty_db" and ?clock = "\<lambda>k :: nat. 0 :: instant"
  have "answer_holds ?looks ?clock 0 1 None (Inl DagMissing) 0" by (simp add: no_graphs_def)
  then obtain r where r: "wait_for_dag ?looks ?clock 0 1 None = Some r"
    using a_dag_wait_tells_the_truth [of ?looks ?clock 0 1 None] by blast
  with a_dag_wait_tells_the_truth [of ?looks ?clock 0 1 None]
  obtain k where "answer_holds ?looks ?clock 0 1 None r k" by blast
  then have "r = Inl DagMissing"
    by (cases "(?looks, ?clock, 0 :: instant, 1 :: int, None :: interval option, r, k)" rule: answer_holds.cases)
      (auto simp: no_graphs_def dag_members_of_def empty_db_def)
  with r show ?thesis by blast
qed

text \<open>
  A graph without jobs, because none was added or because retention has removed them, has no
  outcome: without a timeout the wait for it does not end.
\<close>

lemma an_empty_dag_is_waited_for_in_vain:
  assumes "\<forall>k. dag \<in> dg_id ` set (dt_dags (looks k)) \<and> dag_members_of dag (dt_db (looks k)) = []"
  shows "wait_for_dag looks clock start dag None = None"
proof (rule ccontr)
  assume "wait_for_dag looks clock start dag None \<noteq> None"
  then obtain r where "wait_from (\<lambda>k. get_dag_status dag (looks k)) clock start None 0 = Some r"
    by (auto simp: wait_for_dag_def)
  from wait_from_answers [OF this refl] obtain k where "answer_holds looks clock start dag None r k" by blast
  then show False
    using assms by (cases "(looks, clock, start, dag, None :: interval option, r, k)" rule: answer_holds.cases) auto
qed

text \<open>Two members end in one statement, and the graph is stamped.\<close>

theorem dag_completion_stays_truthful_witness:
  "\<exists>d d' rs. update_jobs (cancel_where [1, 2]) (cancel_set 7) d = Inr (rs, d')
     \<and> map dg_completed (after_statement 7 d d' [\<lparr>dg_id = 1, dg_created = 0, dg_name = None, dg_completed = None, dg_total_nodes = 2\<rparr>])
       = [Some 7]"
proof -
  let ?row = "\<lambda>i. (default_jorb 0 i)\<lparr>j_dag_id := Some 1\<rparr>"
  let ?d = "seed_db [(?row 1, [Queued]), (?row 2, [Queued])]"
  let ?g = "\<lparr>dg_id = 1, dg_created = 0, dg_name = None, dg_completed = None, dg_total_nodes = 2\<rparr> :: dag_info"
  have ok: "jobs_ok ?d" by (simp add: seed_simps)
  note run = cancel.runs [OF ok, of "[1, 2]" 7]
  let ?d' = "cancel.after [1, 2] 7 ?d"
  have "completion_true ?d [?g]" by (simp add: completion_true_def dag_members_of_def seed_db_def TERMINAL_STATES_def)
  moreover have "\<forall>j. cancel_where [1, 2] j \<longrightarrow> j_id (cancel_set 7 j) = j_id j \<and> j_dag_id (cancel_set 7 j) = j_dag_id j"
    by (simp add: cancel_set_def)
  ultimately have "completion_true ?d' (after_statement 7 ?d ?d' [?g])"
    using dag_completion_stays_truthful [OF ok _ run] by blast
  moreover have "after_statement 7 ?d ?d' [?g] = [?g\<lparr>dg_completed := Some 7\<rparr>]"
    by (simp add: after_statement_def seed_db_def lookup_job_def cancel_where_def cancel_set_def LIVE_STATES_def
        dag_complete_when_def TERMINAL_STATES_def complete_jorb_dag_def dag_members_of_def set_completed_def)
  ultimately show ?thesis using run by (intro exI [of _ ?d] exI [of _ ?d']) auto
qed

end
