(* ===== verification/Cron.thy ===== *)
theory Cron
  imports Rules
begin

text \<open>
  The evaluation of cron expressions (\<open>pyjobby/cron.py\<close>): the one walk of an expression's fire
  times, the next one and the ones missed in a window. \<open>croniter\<close> and \<open>zoneinfo\<close> are
  parameters; what the walk relies on is \<open>cron_law\<close>.
\<close>

section \<open>The libraries\<close>

text \<open>A fire time: the instant, whether its wall-clock time is a replay (\<open>fold\<close>), \<open>isoformat()\<close>.\<close>

record tick =
  tk_at :: instant
  tk_fold :: bool
  tk_iso :: string

text \<open>
  \<open>croniter.is_valid\<close>, the zones \<open>ZoneInfo\<close> knows, and \<open>get_next\<close> of an iterator over an
  expression in a zone that stands at an instant.
\<close>

record cron_lib =
  cr_valid :: "string \<Rightarrow> bool"
  cr_zone :: "string \<Rightarrow> bool"
  cr_next :: "string \<Rightarrow> string \<Rightarrow> instant \<Rightarrow> tick"

datatype cron_error = UnknownTimezone string | MalformedCron string

definition resolve_timezone :: "cron_lib \<Rightarrow> string \<Rightarrow> cron_error + string" where
  "resolve_timezone lib name = (if cr_zone lib name then Inr name else Inl (UnknownTimezone name))"

definition validate_cron :: "cron_lib \<Rightarrow> string \<Rightarrow> cron_error + unit" where
  "validate_cron lib expr = (if cr_valid lib expr then Inr () else Inl (MalformedCron expr))"

section \<open>Which schedules name an hour\<close>

text \<open>\<open>str.split()\<close>\<close>

fun fields_from :: "string \<Rightarrow> string \<Rightarrow> string list" where
  "fields_from field [] = (if field = [] then [] else [field])"
| "fields_from field (c # cs) =
     (if py_space c then (if field = [] then [] else [field]) @ fields_from [] cs
      else fields_from (field @ [c]) cs)"

definition is_wall_clock_anchored :: "string \<Rightarrow> bool" where
  "is_wall_clock_anchored expr =
     (let fields = fields_from [] expr
      in if length fields < 5 then False else CHR ''*'' \<notin> set (fields ! 1))"

section \<open>The walk\<close>

text \<open>
  \<open>_fire_series\<close> is a generator: one turn of it, from where its iterator stands, skips the
  replays an anchored expression has already fired at. It may skip for ever.
\<close>

partial_function (option) next_fire :: "(instant \<Rightarrow> tick) \<Rightarrow> bool \<Rightarrow> instant \<Rightarrow> tick option" where
  "next_fire nxt anchored t =
     (let fire = nxt t
      in if tk_fold fire \<and> anchored then next_fire nxt anchored (tk_at fire) else Some fire)"

declare next_fire.simps [code]

definition next_cron_run :: "cron_lib \<Rightarrow> string \<Rightarrow> string \<Rightarrow> instant \<Rightarrow> (cron_error + tick) option" where
  "next_cron_run lib expr timezone t =
     (case bind_sum (resolve_timezone lib timezone) (\<lambda>tz. bind_sum (validate_cron lib expr) (\<lambda>_. Inr tz)) of
        Inl e \<Rightarrow> Some (Inl e)
      | Inr tz \<Rightarrow> map_option Inr (next_fire (cr_next lib expr tz) (is_wall_clock_anchored expr) t))"

section \<open>Missed runs\<close>

record missed_runs =
  mr_kept :: "tick list"
  mr_dropped :: nat
  mr_window :: "(tick \<times> tick) option"

text \<open>\<open>drop\<close>: the first dropped instant stays, the last one moves.\<close>

definition drop_fire :: "tick \<Rightarrow> missed_runs \<Rightarrow> missed_runs" where
  "drop_fire fire m = m\<lparr>
     mr_dropped := mr_dropped m + 1,
     mr_window := (case mr_window m of None \<Rightarrow> Some (fire, fire) | Some (oldest, _) \<Rightarrow> Some (oldest, fire))\<rparr>"

definition take_fire :: "int \<Rightarrow> tick \<Rightarrow> missed_runs \<Rightarrow> missed_runs" where
  "take_fire keep fire m =
     (if keep \<le> 0 then drop_fire fire m
      else
        let m' = (if int (length (mr_kept m)) = keep
                  then drop_fire (hd (mr_kept m)) (m\<lparr>mr_kept := tl (mr_kept m)\<rparr>) else m)
        in m'\<lparr>mr_kept := mr_kept m' @ [fire]\<rparr>)"

partial_function (option) missed_loop ::
  "(instant \<Rightarrow> tick) \<Rightarrow> bool \<Rightarrow> instant \<Rightarrow> int \<Rightarrow> instant \<Rightarrow> missed_runs \<Rightarrow> missed_runs option" where
  "missed_loop nxt anchored until keep t m =
     (case next_fire nxt anchored t of
        None \<Rightarrow> None
      | Some fire \<Rightarrow>
          if until < tk_at fire then Some m
          else missed_loop nxt anchored until keep (tk_at fire) (take_fire keep fire m))"

declare missed_loop.simps [code]

definition missed_cron_runs ::
  "cron_lib \<Rightarrow> string \<Rightarrow> string \<Rightarrow> instant \<Rightarrow> instant \<Rightarrow> int \<Rightarrow> (cron_error + missed_runs) option" where
  "missed_cron_runs lib expr timezone t until keep =
     (case bind_sum (resolve_timezone lib timezone) (\<lambda>tz. bind_sum (validate_cron lib expr) (\<lambda>_. Inr tz)) of
        Inl e \<Rightarrow> Some (Inl e)
      | Inr tz \<Rightarrow>
          map_option Inr (missed_loop (cr_next lib expr tz) (is_wall_clock_anchored expr) until keep t
            \<lparr>mr_kept = [], mr_dropped = 0, mr_window = None\<rparr>))"

section \<open>What the walk relies on\<close>

text \<open>
  \<open>get_next\<close> gives the earliest fire time after where the iterator stands, and a zone does
  not replay wall-clock times for ever.
\<close>

definition cron_law :: "(instant \<Rightarrow> tick) \<Rightarrow> bool" where
  "cron_law nxt \<longleftrightarrow> (\<forall>t. t < tk_at (nxt t))
     \<and> (\<forall>t u. t \<le> u \<and> u < tk_at (nxt t) \<longrightarrow> nxt u = nxt t)
     \<and> (\<forall>t. \<exists>u \<ge> t. \<not> tk_fold (nxt u))"

text \<open>Which instants an expression fires at, in a window: the reference the walk is measured by.\<close>

definition fires_at_instant :: "(instant \<Rightarrow> tick) \<Rightarrow> bool \<Rightarrow> instant \<Rightarrow> bool" where
  "fires_at_instant nxt anchored i \<longleftrightarrow> tk_at (nxt (i - 1)) = i \<and> \<not> (tk_fold (nxt (i - 1)) \<and> anchored)"

definition fires_between :: "(instant \<Rightarrow> tick) \<Rightarrow> bool \<Rightarrow> instant \<Rightarrow> instant \<Rightarrow> tick list" where
  "fires_between nxt anchored t until =
     map (\<lambda>i. nxt (i - 1)) (filter (fires_at_instant nxt anchored) [t + 1..until])"

lemma cron_lawD:
  assumes "cron_law nxt"
  shows "t < tk_at (nxt t)" and "t \<le> u \<Longrightarrow> u < tk_at (nxt t) \<Longrightarrow> nxt u = nxt t"
  using assms by (auto simp: cron_law_def)

lemma fires_between_step:
  assumes "cron_law nxt"
  shows "fires_between nxt anchored t until =
    (if until < tk_at (nxt t) then []
     else (if tk_fold (nxt t) \<and> anchored then [] else [nxt t]) @ fires_between nxt anchored (tk_at (nxt t)) until)"
proof -
  let ?a = "tk_at (nxt t)"
  have quiet: "filter (fires_at_instant nxt anchored) [t + 1..b] = []" if "b < ?a" for b
  proof -
    have "\<not> fires_at_instant nxt anchored i" if "t + 1 \<le> i" "i \<le> b" for i
      using that \<open>b < ?a\<close> cron_lawD(2) [OF assms, of t "i - 1"] by (auto simp: fires_at_instant_def)
    then show ?thesis by (simp add: filter_empty_conv)
  qed
  show ?thesis
  proof (cases "until < ?a")
    case True
    then show ?thesis using quiet by (simp add: fires_between_def)
  next
    case False
    have "t < ?a" by (rule cron_lawD(1) [OF assms])
    with False have "[t + 1..until] = [t + 1..?a - 1] @ ?a # [?a + 1..until]"
      using upto_split1 [of "t + 1" "?a" until] upto_rec1 [of ?a until] by simp
    moreover have "nxt (?a - 1) = nxt t" using \<open>t < ?a\<close> by (intro cron_lawD(2) [OF assms]) auto
    ultimately show ?thesis
      using False quiet [of "?a - 1"] by (auto simp: fires_between_def fires_at_instant_def)
  qed
qed

text \<open>Under the law every turn of the walk returns the first instant of the reference.\<close>

lemma next_fire_returns:
  assumes "cron_law nxt"
  shows "\<exists>f. next_fire nxt anchored t = Some f \<and> t < tk_at f
    \<and> (\<forall>until. fires_between nxt anchored t until =
          (if until < tk_at f then [] else f # fires_between nxt anchored (tk_at f) until))"
proof -
  obtain u where "t \<le> u" "\<not> tk_fold (nxt u)" using assms unfolding cron_law_def by blast
  then show ?thesis
  proof (induction "nat (u - t)" arbitrary: t rule: less_induct)
    case less
    let ?f = "nxt t"
    have "t < tk_at ?f" by (rule cron_lawD(1) [OF assms])
    show ?case
    proof (cases "tk_fold ?f \<and> anchored")
      case False
      then show ?thesis
        using \<open>t < tk_at ?f\<close> fires_between_step [OF assms, of anchored t]
        by (subst next_fire.simps) (auto simp: Let_def)
    next
      case True
      have "tk_at ?f \<le> u"
        using True less.prems cron_lawD(2) [OF assms, of t u] by force
      with less.hyps [of "tk_at ?f"] less.prems \<open>t < tk_at ?f\<close> obtain f where f:
        "next_fire nxt anchored (tk_at ?f) = Some f" "tk_at ?f < tk_at f"
        "\<forall>until. fires_between nxt anchored (tk_at ?f) until =
          (if until < tk_at f then [] else f # fires_between nxt anchored (tk_at f) until)" by auto
      moreover have "next_fire nxt anchored t = next_fire nxt anchored (tk_at ?f)"
        using True by (subst next_fire.simps) (simp add: Let_def)
      ultimately show ?thesis
        using True \<open>t < tk_at ?f\<close> fires_between_step [OF assms, of anchored t]
        by (intro exI [of _ f]) auto
    qed
  qed
qed


section \<open>The window is exact\<close>

lemma missed_loop_is_fold:
  assumes "cron_law nxt"
  shows "missed_loop nxt anchored until keep t m
    = Some (foldl (\<lambda>m f. take_fire keep f m) m (fires_between nxt anchored t until))"
proof (induction "nat (until - t)" arbitrary: t m rule: less_induct)
  case less
  obtain f where f: "next_fire nxt anchored t = Some f" "t < tk_at f"
    "fires_between nxt anchored t until =
          (if until < tk_at f then [] else f # fires_between nxt anchored (tk_at f) until)"
    using next_fire_returns [OF assms, of anchored t] by blast
  show ?case
  proof (cases "until < tk_at f")
    case True
    with f show ?thesis by (subst missed_loop.simps) simp
  next
    case False
    with f(2) less [of "tk_at f"] f show ?thesis by (subst missed_loop.simps) simp
  qed
qed

definition newest :: "int \<Rightarrow> tick list \<Rightarrow> missed_runs" where
  "newest keep fs =
     (let gone = length fs - nat keep
      in \<lparr>mr_kept = drop gone fs, mr_dropped = gone,
          mr_window = (if gone = 0 then None else Some (hd fs, fs ! (gone - 1)))\<rparr>)"

lemma newest_snoc: "newest keep (fs @ [f]) = take_fire keep f (newest keep fs)"
proof (cases "keep \<le> 0")
  case True
  then show ?thesis
    by (cases fs) (auto simp: newest_def take_fire_def drop_fire_def Let_def hd_append nth_append)
next
  case False
  show ?thesis
  proof (cases "length fs < nat keep")
    case True
    with False show ?thesis by (auto simp: newest_def take_fire_def Let_def)
  next
    case full: False
    let ?gone = "length fs - nat keep"
    have gone: "length (fs @ [f]) - nat keep = Suc ?gone" and at: "?gone < length fs"
      using full False by auto
    have "hd (drop ?gone fs) = fs ! ?gone" by (rule hd_drop_conv_nth [OF at])
    moreover have "tl (drop ?gone fs) = drop (Suc ?gone) fs" by (simp add: drop_Suc tl_drop)
    moreover have "int (length (drop ?gone fs)) = keep" using full False by simp
    moreover have "hd (fs @ [f]) = hd fs" using at by (cases fs) auto
    ultimately show ?thesis
      using False at gone
      by (auto simp: newest_def take_fire_def drop_fire_def Let_def nth_append hd_conv_nth)
  qed
qed

lemma newest_fold: "foldl (\<lambda>m f. take_fire keep f m) \<lparr>mr_kept = [], mr_dropped = 0, mr_window = None\<rparr> fs = newest keep fs"
proof (induction fs rule: rev_induct)
  case (snoc f fs)
  then show ?case by (simp add: newest_snoc)
qed (simp add: newest_def)

text \<open>
  C24. A missed window is enumerated exactly. For an expression croniter accepts, in a known
  zone, the walk ends and returns the newest \<open>keep\<close> of the instants the schedule fires at
  after the window's start and up to its end, in order, the exact number of the older ones,
  and the first and the last of these; the replays a wall-clock schedule has already fired
  at are in none of them.
\<close>

theorem missed_runs_are_exact:
  assumes "cr_zone lib tz" and "cr_valid lib expr" and "cron_law (cr_next lib expr tz)"
  shows "missed_cron_runs lib expr tz t until keep
    = Some (Inr (newest keep (fires_between (cr_next lib expr tz) (is_wall_clock_anchored expr) t until)))"
  using assms(1,2)
  by (simp add: missed_cron_runs_def resolve_timezone_def validate_cron_def missed_loop_is_fold [OF assms(3)]
      newest_fold)

text \<open>A library that fires every ten instants and takes the instant 20 for a replay.\<close>

definition steady :: "string \<Rightarrow> string \<Rightarrow> instant \<Rightarrow> tick" where
  "steady expr tz t = (let i = 10 * (t div 10 + 1) in \<lparr>tk_at = i, tk_fold = (i = 20), tk_iso = []\<rparr>)"

definition steady_lib :: cron_lib where
  "steady_lib = \<lparr>cr_valid = (\<lambda>e. length (fields_from [] e) \<ge> 5), cr_zone = (\<lambda>z. z = ''UTC''), cr_next = steady\<rparr>"

lemma steady_at [simp]: "tk_at (steady expr tz t) = 10 * (t div 10 + 1)" "tk_fold (steady expr tz t) \<longleftrightarrow> t div 10 = 1"
  by (simp_all add: steady_def Let_def)

lemma steady_law: "cron_law (steady expr tz)"
  unfolding cron_law_def
proof (intro conjI allI impI)
  fix t :: int
  have "t < 10 * (t div 10 + 1)" by presburger
  then show "t < tk_at (steady expr tz t)" by simp
  have "20 \<le> max t 20" by simp
  then have "max t 20 div 10 \<noteq> 1" by presburger
  then show "\<exists>u \<ge> t. \<not> tk_fold (steady expr tz u)" by (intro exI [of _ "max t 20"]) simp
next
  fix t u :: int
  assume tu: "t \<le> u \<and> u < tk_at (steady expr tz t)"
  have "10 * (t div 10) \<le> t" by presburger
  with tu have "0 \<le> u - 10 * (t div 10)" "u - 10 * (t div 10) < 10" by auto
  then have "u div 10 = t div 10" by (intro int_div_pos_eq [where r = "u - 10 * (t div 10)"]) simp_all
  then show "steady expr tz u = steady expr tz t" by (simp add: steady_def)
qed

theorem missed_runs_are_exact_witness:
  "\<exists>m. missed_cron_runs steady_lib ''0 1,2,3,4 * * *'' ''UTC'' 0 50 2 = Some (Inr m)
     \<and> map tk_at (mr_kept m) = [40, 50] \<and> mr_dropped m = 2
     \<and> map_option (\<lambda>(a, b). (tk_at a, tk_at b)) (mr_window m) = Some (10, 30)"
proof -
  let ?expr = "''0 1,2,3,4 * * *''"
  have "cr_zone steady_lib ''UTC''" "cr_valid steady_lib ?expr" "cron_law (cr_next steady_lib ?expr ''UTC'')"
    by (code_simp, code_simp, simp add: steady_lib_def steady_law)
  note run = missed_runs_are_exact [OF this, of 0 50 2]
  have "is_wall_clock_anchored ?expr" by code_simp
  moreover have "cr_next steady_lib ?expr ''UTC'' = steady [] []" by (simp add: steady_lib_def steady_def fun_eq_iff)
  moreover have "map tk_at (mr_kept (newest 2 (fires_between (steady [] []) True 0 50))) = [40, 50]
     \<and> mr_dropped (newest 2 (fires_between (steady [] []) True 0 50)) = 2
     \<and> map_option (\<lambda>(a, b). (tk_at a, tk_at b)) (mr_window (newest 2 (fires_between (steady [] []) True 0 50))) = Some (10, 30)"
    by code_simp
  ultimately show ?thesis using run by auto
qed

end
