(* ===== verification/Scheduler.thy ===== *)
theory Scheduler
  imports Speculative Cron
begin

text \<open>
  The recurring scheduler (\<open>pyjobby/scheduler.py\<close>): the brakes on a firing, the firing of one
  tick, the catch-up after an outage, and the transaction that fires a due schedule. The
  clocks, the dice of the jitter, croniter and the rows other schedulers hold are
  parameters. The execution log's wall-clock columns (\<open>actual_time\<close>, \<open>duration_ms\<close>) are not
  modelled: nothing here reads them.
\<close>

section \<open>Tables\<close>

record schedule =
  sc_id :: int
  sc_name :: string
  sc_job_class :: string
  sc_kwargs :: "(string \<times> json) list"
  sc_queue :: string
  sc_prio :: int
  sc_capability :: "string option"
  sc_cron_expr :: string
  sc_timezone :: string
  sc_enabled :: bool
  sc_max_concurrent_jobs :: int
  sc_jitter_seconds :: int
  sc_backfill_limit :: int
  sc_backpressure_threshold :: "int option"
  sc_circuit_breaker_threshold :: int
  sc_consecutive_failures :: int
  sc_next_run :: instant
  sc_last_run :: "instant option"
  sc_last_success :: "instant option"
  sc_last_failure :: "instant option"
  sc_run_count :: int
  sc_success_count :: int
  sc_failure_count :: int
  sc_skip_count :: int
  sc_updated :: instant

datatype execution_error =
    Unevaluatable cron_error
  | FiringRefused client_error
  | FiringRaised sql_error
  | NotBackfilled nat int tick tick

record execution_result =
  er_result :: string
  er_job_id :: "job_id option"
  er_skip_reason :: "string option"
  er_error_message :: "execution_error option"
  er_jitter_applied :: int
  er_queue_depth :: "int option"
  er_concurrent_jobs :: "int option"

definition execution_result_of :: "string \<Rightarrow> execution_result" where
  "execution_result_of r = \<lparr>er_result = r, er_job_id = None, er_skip_reason = None, er_error_message = None,
     er_jitter_applied = 0, er_queue_depth = None, er_concurrent_jobs = None\<rparr>"

definition skipped :: "string \<Rightarrow> execution_result" where
  "skipped reason = (execution_result_of ''skipped'')\<lparr>er_skip_reason := Some reason\<rparr>"

definition failed :: "execution_error \<Rightarrow> execution_result" where
  "failed e = (execution_result_of ''failure'')\<lparr>er_error_message := Some e\<rparr>"

record execution =
  ex_schedule_id :: int
  ex_scheduled_time :: instant
  ex_result :: execution_result

record metrics =
  mx_executions :: nat
  mx_successes :: nat
  mx_failures :: nat
  mx_skips :: nat

record scheduler_state =
  ss_db :: database
  ss_schedules :: "schedule list"
  ss_log :: "execution list"
  ss_metrics :: metrics

text \<open>What a firing meets: croniter, the process's clock, the fleet's ceiling, the dice.\<close>

record scheduler_env =
  se_cron :: cron_lib
  se_clock :: instant
  se_prio_ceiling :: int
  se_randint :: "int \<Rightarrow> int"
  se_iso :: "instant \<Rightarrow> string"

section \<open>Statements on a schedule\<close>

definition update_schedule :: "int \<Rightarrow> (schedule \<Rightarrow> schedule) \<Rightarrow> scheduler_state \<Rightarrow> scheduler_state" where
  "update_schedule i f st = st\<lparr>ss_schedules := map (\<lambda>s. if sc_id s = i then f s else s) (ss_schedules st)\<rparr>"

definition disable_set :: "instant \<Rightarrow> schedule \<Rightarrow> schedule" where
  "disable_set now s = s\<lparr>sc_enabled := False, sc_updated := now\<rparr>"

definition record_execution_success :: "instant \<Rightarrow> schedule \<Rightarrow> schedule" where
  "record_execution_success now s = s\<lparr>
     sc_run_count := sc_run_count s + 1,
     sc_success_count := sc_success_count s + 1,
     sc_consecutive_failures := 0,
     sc_last_run := Some now,
     sc_last_success := Some now,
     sc_updated := now\<rparr>"

definition record_execution_failure :: "instant \<Rightarrow> schedule \<Rightarrow> schedule" where
  "record_execution_failure now s = s\<lparr>
     sc_run_count := sc_run_count s + 1,
     sc_failure_count := sc_failure_count s + 1,
     sc_consecutive_failures := sc_consecutive_failures s + 1,
     sc_last_run := Some now,
     sc_last_failure := Some now,
     sc_updated := now\<rparr>"

definition record_execution_skip :: "instant \<Rightarrow> schedule \<Rightarrow> schedule" where
  "record_execution_skip now s = s\<lparr>sc_skip_count := sc_skip_count s + 1, sc_updated := now\<rparr>"

definition disable_unevaluatable :: "instant \<Rightarrow> schedule \<Rightarrow> schedule" where
  "disable_unevaluatable now s = (record_execution_failure now s)\<lparr>sc_enabled := False\<rparr>"

definition set_next_run :: "instant \<Rightarrow> instant \<Rightarrow> schedule \<Rightarrow> schedule" where
  "set_next_run now t s = s\<lparr>sc_next_run := t, sc_updated := now\<rparr>"

definition log_execution :: "schedule \<Rightarrow> instant \<Rightarrow> execution_result \<Rightarrow> scheduler_state \<Rightarrow> scheduler_state" where
  "log_execution s t r st = st\<lparr>ss_log := ss_log st
     @ [\<lparr>ex_schedule_id = sc_id s, ex_scheduled_time = t, ex_result = r\<rparr>]\<rparr>"

definition record_metrics :: "execution_result \<Rightarrow> scheduler_state \<Rightarrow> scheduler_state" where
  "record_metrics r st =
     (let m = ss_metrics st; m = m\<lparr>mx_executions := mx_executions m + 1\<rparr>
      in st\<lparr>ss_metrics :=
           (if er_result r = ''success'' then m\<lparr>mx_successes := mx_successes m + 1\<rparr>
            else if er_result r = ''failure'' then m\<lparr>mx_failures := mx_failures m + 1\<rparr>
            else if er_result r = ''skipped'' then m\<lparr>mx_skips := mx_skips m + 1\<rparr>
            else m)\<rparr>)"

section \<open>The brakes\<close>

definition CONCURRENCY_COUNT_SQL :: "int \<Rightarrow> database \<Rightarrow> int" where
  "CONCURRENCY_COUNT_SQL i d =
     int (length (filter (\<lambda>j. j_schedule_id j = Some i \<and> j_state j \<in> set LIVE_STATES) (jobs d)))"

definition BACKPRESSURE_COUNT_SQL :: "string \<Rightarrow> database \<Rightarrow> int" where
  "BACKPRESSURE_COUNT_SQL queue d =
     int (length (filter (\<lambda>j. j_queue j = queue \<and> j_state j = Queued) (jobs d)))
     + int (length (filter (\<lambda>j. j_state j \<in> set IN_FLIGHT_STATES \<and> j_queue j = queue) (jobs d)))"

definition check_concurrency :: "int \<Rightarrow> int \<Rightarrow> database \<Rightarrow> bool \<times> int" where
  "check_concurrency i max_concurrent d =
     (let n = CONCURRENCY_COUNT_SQL i d in (n < max_concurrent, n))"

definition check_backpressure :: "string \<Rightarrow> int option \<Rightarrow> database \<Rightarrow> bool \<times> int" where
  "check_backpressure queue threshold d =
     (case threshold of
        None \<Rightarrow> (True, 0)
      | Some t \<Rightarrow> (let depth = BACKPRESSURE_COUNT_SQL queue d in (depth < t, depth)))"

definition calculate_jitter :: "scheduler_env \<Rightarrow> int \<Rightarrow> int" where
  "calculate_jitter e n = (if n \<le> 0 then 0 else se_randint e n)"

definition check_circuit_breaker :: "instant \<Rightarrow> schedule \<Rightarrow> scheduler_state \<Rightarrow> bool \<times> scheduler_state" where
  "check_circuit_breaker now s st =
     (if sc_circuit_breaker_threshold s \<le> sc_consecutive_failures s
      then (False, update_schedule (sc_id s) (disable_set now) st)
      else (True, st))"

section \<open>One firing\<close>

definition scheduled_options :: "scheduler_env \<Rightarrow> schedule \<Rightarrow> tick \<Rightarrow> int \<Rightarrow> enqueue_option list" where
  "scheduled_options e s t jitter =
     [Queue (sc_queue s), Priority (sc_prio s),
      RunAfter (Some (if 0 < jitter then tk_at t + 1000000 * jitter else tk_at t)),
      Capability (sc_capability s),
      DeadlineKey (Some (''schedule:'' @ int_text (sc_id s) @ '':'' @ tk_iso t)),
      AdminData (Some no_admin_data), ScheduleId (Some (sc_id s)), JobKwargs (Some (sc_kwargs s)),
      PrioCeiling (se_prio_ceiling e)]"

text \<open>
  The insert runs in a savepoint, so a duplicate leaves the transaction usable. The
  descriptive entries of \<open>admin_data\<close> (the schedule's name and the tick) are read by nothing.
\<close>

definition create_scheduled_job ::
  "scheduler_env \<Rightarrow> instant \<Rightarrow> schedule \<Rightarrow> tick \<Rightarrow> int \<Rightarrow> database
     \<Rightarrow> (execution_error + job_id option) \<times> database" where
  "create_scheduled_job e now s t jitter d =
     (case build_enqueue_row (se_clock e) (sc_job_class s) (scheduled_options e s t jitter) of
        Inl x \<Rightarrow> (Inl (FiringRefused x), d)
      | Inr r \<Rightarrow>
          (case ENQUEUE_SQL now r d of
             Inl UniqueViolation \<Rightarrow> (Inr None, d)
           | Inl x \<Rightarrow> (Inl (FiringRaised x), d)
           | Inr (j, d') \<Rightarrow> (Inr (Some (j_id j)), d')))"

definition execute_schedule ::
  "scheduler_env \<Rightarrow> instant \<Rightarrow> schedule \<Rightarrow> tick \<Rightarrow> bool \<Rightarrow> scheduler_state
     \<Rightarrow> execution_result \<times> scheduler_state" where
  "execute_schedule e now s t allow_jitter st =
     (let update = (\<lambda>f st. update_schedule (sc_id s) (f now) st);
          (circuit_ok, st) = check_circuit_breaker now s st
      in if \<not> circuit_ok then (skipped ''circuit_breaker'', update record_execution_skip st)
         else let (concurrency_ok, n) = check_concurrency (sc_id s) (sc_max_concurrent_jobs s) (ss_db st)
         in if \<not> concurrency_ok
            then ((skipped ''max_concurrent'')\<lparr>er_concurrent_jobs := Some n\<rparr>, update record_execution_skip st)
         else let (backpressure_ok, depth) = check_backpressure (sc_queue s) (sc_backpressure_threshold s) (ss_db st)
         in if \<not> backpressure_ok
            then ((skipped ''backpressure'')\<lparr>er_queue_depth := Some depth\<rparr>, update record_execution_skip st)
         else let jitter = (if allow_jitter then calculate_jitter e (sc_jitter_seconds s) else 0)
         in (case create_scheduled_job e now s t jitter (ss_db st) of
               (Inr (Some i), d) \<Rightarrow>
                 ((execution_result_of ''success'')\<lparr>er_job_id := Some i, er_jitter_applied := jitter,
                    er_queue_depth := Some depth, er_concurrent_jobs := Some n\<rparr>,
                  update record_execution_success (st\<lparr>ss_db := d\<rparr>))
             | (Inr None, d) \<Rightarrow> (skipped ''duplicate'', update record_execution_skip (st\<lparr>ss_db := d\<rparr>))
             | (Inl (FiringRefused x), d) \<Rightarrow>
                 (failed (FiringRefused x),
                  update disable_unevaluatable (update record_execution_failure (st\<lparr>ss_db := d\<rparr>)))
             | (Inl x, d) \<Rightarrow> (failed x, update record_execution_failure (st\<lparr>ss_db := d\<rparr>))))"

section \<open>Catching up\<close>

fun fire_ticks :: "scheduler_env \<Rightarrow> instant \<Rightarrow> schedule \<Rightarrow> tick list \<Rightarrow> scheduler_state \<Rightarrow> scheduler_state" where
  "fire_ticks e now s [] st = st"
| "fire_ticks e now s (t # ts) st =
     (let (r, st) = execute_schedule e now s t False st
      in fire_ticks e now s ts (record_metrics r (log_execution s (tk_at t) r st)))"

text \<open>The one row that stands for the ticks that will not be fired.\<close>

definition record_dropped :: "instant \<Rightarrow> schedule \<Rightarrow> missed_runs \<Rightarrow> scheduler_state \<Rightarrow> scheduler_state" where
  "record_dropped now s m st =
     (case mr_window m of
        None \<Rightarrow> st
      | Some (oldest, newest_dropped) \<Rightarrow>
          (let r = (skipped ''backfill_limit'')\<lparr>er_error_message :=
                     Some (NotBackfilled (mr_dropped m) (sc_backfill_limit s) oldest newest_dropped)\<rparr>
           in record_metrics r (log_execution s (tk_at oldest) r
                (update_schedule (sc_id s) (record_execution_skip now) st))))"

definition backfill_missed_ticks ::
  "scheduler_env \<Rightarrow> instant \<Rightarrow> schedule \<Rightarrow> instant \<Rightarrow> scheduler_state
     \<Rightarrow> ((cron_error + unit) \<times> scheduler_state) option" where
  "backfill_missed_ticks e now s until st =
     (if sc_backfill_limit s \<le> 0 then Some (Inr (), st)
      else case missed_cron_runs (se_cron e) (sc_cron_expr s) (sc_timezone s) (sc_next_run s) until
                  (sc_backfill_limit s) of
             None \<Rightarrow> None
           | Some (Inl x) \<Rightarrow> Some (Inl x, st)
           | Some (Inr m) \<Rightarrow>
               Some (Inr (), record_dropped now s m (fire_ticks e now s (rev (mr_kept m)) st)))"

section \<open>The transaction of one schedule\<close>

text \<open>
  The body of \<open>run\<close>'s inner loop: \<open>now\<close> is the database's clock in its transaction, \<open>held\<close>
  whether another scheduler holds the row. An exception rolls the tables back; the
  process's own totals stay. A due tick is read from the table, so its text is the
  database's rendering of the instant.
\<close>

definition due :: "instant \<Rightarrow> schedule \<Rightarrow> bool" where
  "due now s \<longleftrightarrow> sc_enabled s \<and> sc_next_run s \<le> now"

definition due_tick :: "scheduler_env \<Rightarrow> schedule \<Rightarrow> tick" where
  "due_tick e s = \<lparr>tk_at = sc_next_run s, tk_fold = False, tk_iso = se_iso e (sc_next_run s)\<rparr>"

definition fire_due ::
  "scheduler_env \<Rightarrow> instant \<Rightarrow> schedule \<Rightarrow> tick \<Rightarrow> scheduler_state \<Rightarrow> scheduler_state option" where
  "fire_due e now s next_tick st =
     (let (r, st1) = execute_schedule e now s (due_tick e s) True st;
          st2 = record_metrics r (log_execution s (sc_next_run s) r st1)
      in case backfill_missed_ticks e now s now st2 of
           None \<Rightarrow> None
         | Some (Inl x, st3) \<Rightarrow> Some (st\<lparr>ss_metrics := ss_metrics st3\<rparr>)
         | Some (Inr _, st3) \<Rightarrow> Some (update_schedule (sc_id s) (set_next_run now (tk_at next_tick)) st3))"

definition run_schedule ::
  "scheduler_env \<Rightarrow> instant \<Rightarrow> bool \<Rightarrow> int \<Rightarrow> scheduler_state \<Rightarrow> scheduler_state option" where
  "run_schedule e now held i st =
     (if held then Some st
      else case List.find (\<lambda>s. sc_id s = i \<and> due now s) (ss_schedules st) of
             None \<Rightarrow> Some st
           | Some s \<Rightarrow>
               (case next_cron_run (se_cron e) (sc_cron_expr s) (sc_timezone s) (max now (sc_next_run s)) of
                  None \<Rightarrow> None
                | Some (Inl x) \<Rightarrow>
                    (let r = failed (Unevaluatable x)
                     in Some (record_metrics r (log_execution s (sc_next_run s) r
                          (update_schedule i (disable_unevaluatable now) st))))
                | Some (Inr next_tick) \<Rightarrow> fire_due e now s next_tick st))"

definition find_due_schedules :: "instant \<Rightarrow> scheduler_state \<Rightarrow> int list" where
  "find_due_schedules now st = map sc_id (sort_key sc_next_run (filter (due now) (ss_schedules st)))"

text \<open>One poll: \<open>now k\<close> and \<open>held k\<close> are what the k-th schedule's transaction meets.\<close>

fun run_each ::
  "scheduler_env \<Rightarrow> (nat \<Rightarrow> instant) \<Rightarrow> (nat \<Rightarrow> bool) \<Rightarrow> nat \<Rightarrow> int list \<Rightarrow> scheduler_state \<Rightarrow> scheduler_state option" where
  "run_each e now held k [] st = Some st"
| "run_each e now held k (i # is) st =
     Option.bind (run_schedule e (now k) (held k) i st) (run_each e now held (Suc k) is)"

definition poll ::
  "scheduler_env \<Rightarrow> instant \<Rightarrow> (nat \<Rightarrow> instant) \<Rightarrow> (nat \<Rightarrow> bool) \<Rightarrow> scheduler_state \<Rightarrow> scheduler_state option" where
  "poll e t now held st = run_each e now held 0 (find_due_schedules t st) st"


section \<open>What one firing does\<close>

text \<open>
  The effect of a firing on its schedule's row: the identity and the next run stay, the
  skips and successes move with the verdict, and nothing enables it.
\<close>

definition counted :: "(schedule \<Rightarrow> schedule) \<Rightarrow> execution_result \<Rightarrow> bool" where
  "counted g r \<longleftrightarrow> (\<forall>x. sc_id (g x) = sc_id x \<and> sc_next_run (g x) = sc_next_run x
     \<and> sc_skip_count (g x) = sc_skip_count x + (if er_result r = ''skipped'' then 1 else 0)
     \<and> sc_success_count (g x) = sc_success_count x + (if er_result r = ''success'' then 1 else 0)
     \<and> (sc_enabled (g x) \<longrightarrow> sc_enabled x))"

text \<open>Its effect on the job table: nothing, or one live job of the schedule, while it had room for one.\<close>

definition fired_into :: "schedule \<Rightarrow> execution_result \<Rightarrow> database \<Rightarrow> database \<Rightarrow> bool" where
  "fired_into s r d d' \<longleftrightarrow>
     (if er_result r = ''success''
      then CONCURRENCY_COUNT_SQL (sc_id s) d < sc_max_concurrent_jobs s \<and> platform_step d d'
        \<and> (\<exists>j. jobs d' = jobs d @ [j] \<and> er_job_id r = Some (j_id j) \<and> j_schedule_id j = Some (sc_id s)
              \<and> j_state j = Queued \<and> j_job_class j = sc_job_class s)
      else d' = d)"

lemma update_schedule_compose:
  assumes "\<And>x. sc_id (f x) = sc_id x"
  shows "update_schedule i g (update_schedule i f st) = update_schedule i (\<lambda>x. g (f x)) st"
  using assms by (simp add: update_schedule_def)

lemma scheduled_row:
  assumes "build_enqueue_row clock c (scheduled_options e s t jitter) = Inr r"
  shows "er_schedule_id r = Some (sc_id s) \<and> er_state r = Queued \<and> er_job_class r = c"
  using assms
  by (auto simp: build_enqueue_row_def Let_def bind_sum_Inr_iff scheduled_options_def options_of_def
      default_options_def waits_def given_def)

lemma row_of_schedule [simp]: "j_schedule_id (row_of now r i) = er_schedule_id r"
  by (simp add: row_of_def)

lemma create_scheduled_job_cases:
  "create_scheduled_job e now s t jitter d = (res, d') \<Longrightarrow>
    (case res of
       Inr (Some i) \<Rightarrow> platform_step d d' \<and> (\<exists>j. jobs d' = jobs d @ [j] \<and> i = j_id j \<and> j_schedule_id j = Some (sc_id s)
          \<and> j_state j = Queued \<and> j_job_class j = sc_job_class s)
     | _ \<Rightarrow> d' = d)"
  using ENQUEUE_SQL_step ENQUEUE_SQL_Inr scheduled_row
  by (fastforce simp: create_scheduled_job_def split: sum.splits sql_error.splits)

text \<open>How a verdict counts: the statements a firing runs on its row, by the result it returns.\<close>

lemma counted_verdicts:
  "er_result r = ''skipped'' \<Longrightarrow> counted (record_execution_skip now) r"
  "er_result r = ''skipped'' \<Longrightarrow> counted (\<lambda>x. record_execution_skip now (disable_set now x)) r"
  "er_result r = ''success'' \<Longrightarrow> counted (record_execution_success now) r"
  "er_result r = ''failure'' \<Longrightarrow> counted (record_execution_failure now) r"
  "er_result r = ''failure'' \<Longrightarrow> counted (\<lambda>x. disable_unevaluatable now (record_execution_failure now x)) r"
  by (auto simp: counted_def record_execution_skip_def disable_set_def record_execution_success_def
      record_execution_failure_def disable_unevaluatable_def)

lemma verdict_results [simp]:
  "er_result (skipped reason) = ''skipped''" "er_result (failed x) = ''failure''"
  "er_result (execution_result_of v) = v"
  by (simp_all add: skipped_def failed_def execution_result_of_def)

lemma statement_ids [simp]:
  "sc_id (record_execution_skip now x) = sc_id x" "sc_id (disable_set now x) = sc_id x"
  "sc_id (record_execution_success now x) = sc_id x" "sc_id (record_execution_failure now x) = sc_id x"
  "sc_id (disable_unevaluatable now x) = sc_id x" "sc_id (set_next_run now t x) = sc_id x"
  by (simp_all add: record_execution_skip_def disable_set_def record_execution_success_def
      record_execution_failure_def disable_unevaluatable_def set_next_run_def)

text \<open>The outcomes of \<open>execute_schedule\<close>, one per return of the source.\<close>

definition braked :: "schedule \<Rightarrow> scheduler_state \<Rightarrow> bool" where
  "braked s st \<longleftrightarrow> sc_circuit_breaker_threshold s \<le> sc_consecutive_failures s
     \<or> \<not> CONCURRENCY_COUNT_SQL (sc_id s) (ss_db st) < sc_max_concurrent_jobs s
     \<or> \<not> fst (check_backpressure (sc_queue s) (sc_backpressure_threshold s) (ss_db st))"

lemma execute_schedule_braked:
  assumes "execute_schedule e now s t aj st = (r, st')" and "braked s st"
  shows "er_result r = ''skipped'' \<and> er_error_message r = None
    \<and> (st' = update_schedule (sc_id s) (record_execution_skip now) st
       \<or> st' = update_schedule (sc_id s) (\<lambda>x. record_execution_skip now (disable_set now x)) st)"
proof -
  note run = assms(1) [unfolded execute_schedule_def check_circuit_breaker_def check_concurrency_def Let_def case_prod_beta]
  show ?thesis
  proof (cases "sc_circuit_breaker_threshold s \<le> sc_consecutive_failures s")
    case True
    from run [unfolded if_P [OF True] prod.sel] show ?thesis
      by (auto simp: skipped_def execution_result_of_def update_schedule_compose)
  next
    case False
    from run [unfolded if_not_P [OF False] prod.sel] assms(2) False show ?thesis
      by (auto simp: braked_def skipped_def execution_result_of_def split: if_splits)
  qed
qed

lemma execute_schedule_fired:
  assumes "execute_schedule e now s t aj st = (r, st')" and "\<not> braked s st"
    and "create_scheduled_job e now s t (if aj then calculate_jitter e (sc_jitter_seconds s) else 0) (ss_db st) = (res, d)"
  shows "case res of
      Inr (Some i) \<Rightarrow> er_result r = ''success'' \<and> er_job_id r = Some i \<and> er_error_message r = None
        \<and> st' = update_schedule (sc_id s) (record_execution_success now) (st\<lparr>ss_db := d\<rparr>)
    | Inr None \<Rightarrow> r = skipped ''duplicate'' \<and> st' = update_schedule (sc_id s) (record_execution_skip now) (st\<lparr>ss_db := d\<rparr>)
    | Inl x \<Rightarrow> r = failed x \<and> st' = update_schedule (sc_id s)
        (\<lambda>y. (case x of FiringRefused z \<Rightarrow> disable_unevaluatable now | _ \<Rightarrow> (\<lambda>y. y)) (record_execution_failure now y))
        (st\<lparr>ss_db := d\<rparr>)"
proof -
  have go: "\<not> sc_circuit_breaker_threshold s \<le> sc_consecutive_failures s"
    "CONCURRENCY_COUNT_SQL (sc_id s) (ss_db st) < sc_max_concurrent_jobs s"
    "fst (check_backpressure (sc_queue s) (sc_backpressure_threshold s) (ss_db st))"
    using assms(2) by (simp_all add: braked_def)
  note run = assms(1) [unfolded execute_schedule_def check_circuit_breaker_def check_concurrency_def Let_def
      case_prod_beta if_not_P [OF go(1)] prod.sel assms(3)]
  show ?thesis
  proof (cases res)
    case (Inl x)
    with run go(2,3) show ?thesis by (cases x) (auto simp: update_schedule_compose)
  next
    case (Inr opt)
    with run go(2,3) show ?thesis by (cases opt) (auto simp: execution_result_of_def)
  qed
qed

lemma execute_schedule_effect:
  assumes "execute_schedule e now s t aj st = (r, st')"
  shows "\<exists>g d'. st' = update_schedule (sc_id s) g (st\<lparr>ss_db := d'\<rparr>) \<and> counted g r \<and> fired_into s r (ss_db st) d'"
    (is "\<exists>g d'. ?ok g d'")
proof -
  have keep: "\<exists>g d'. ?ok g d'"
    if "st' = update_schedule (sc_id s) g st" "counted g r" "er_result r \<noteq> ''success''" for g
    using that by (intro exI [of _ g] exI [of _ "ss_db st"]) (simp add: fired_into_def)
  show ?thesis
  proof (cases "braked s st")
    case True
    from execute_schedule_braked [OF assms this] show ?thesis
      using keep [OF _ counted_verdicts(1)] keep [OF _ counted_verdicts(2)] by auto
  next
    case False
    obtain res d' where job: "create_scheduled_job e now s t
        (if aj then calculate_jitter e (sc_jitter_seconds s) else 0) (ss_db st) = (res, d')" by force
    note made = create_scheduled_job_cases [OF job] and out = execute_schedule_fired [OF assms False job]
    show ?thesis
    proof (cases res)
      case (Inl x)
      with made out have "r = failed x" "st' = update_schedule (sc_id s)
        (\<lambda>y. (case x of FiringRefused z \<Rightarrow> disable_unevaluatable now | _ \<Rightarrow> (\<lambda>y. y)) (record_execution_failure now y)) st"
        by simp_all
      then show ?thesis
        using keep [OF _ counted_verdicts(4)] keep [OF _ counted_verdicts(5)] by (cases x) auto
    next
      case (Inr opt)
      show ?thesis
      proof (cases opt)
        case None
        with made out Inr have "r = skipped ''duplicate''" "st' = update_schedule (sc_id s) (record_execution_skip now) st"
          by simp_all
        then show ?thesis using keep [OF _ counted_verdicts(1)] by simp
      next
        case (Some i)
        with made out Inr False counted_verdicts(3) show ?thesis
          by (intro exI [of _ "record_execution_success now"] exI [of _ d']) (auto simp: fired_into_def braked_def)
      qed
    qed
  qed
qed

section \<open>What a transaction does\<close>

text \<open>A run of firings of one schedule: what they log, count and insert.\<close>

definition verdicts :: "string \<Rightarrow> execution list \<Rightarrow> execution list" where
  "verdicts v rows = filter (\<lambda>l. er_result (ex_result l) = v) rows"

definition tallied :: "execution list \<Rightarrow> schedule \<Rightarrow> schedule \<Rightarrow> bool" where
  "tallied rows x y \<longleftrightarrow> sc_id y = sc_id x \<and> sc_next_run y = sc_next_run x \<and> (sc_enabled y \<longrightarrow> sc_enabled x)
     \<and> sc_skip_count y = sc_skip_count x + int (length (verdicts ''skipped'' rows))
     \<and> sc_success_count y = sc_success_count x + int (length (verdicts ''success'' rows))"

definition schedules_moved :: "int \<Rightarrow> execution list \<Rightarrow> schedule list \<Rightarrow> schedule list \<Rightarrow> bool" where
  "schedules_moved i rows xs ys \<longleftrightarrow> list_all2 (\<lambda>x y. if sc_id x = i then tallied rows x y else y = x) xs ys"

definition jobs_made :: "schedule \<Rightarrow> execution list \<Rightarrow> database \<Rightarrow> database \<Rightarrow> bool" where
  "jobs_made s rows d d' \<longleftrightarrow> platform_step\<^sup>*\<^sup>* d d'
     \<and> (\<exists>js. jobs d' = jobs d @ js \<and> (\<forall>j \<in> set js. j_schedule_id j = Some (sc_id s))
         \<and> map (\<lambda>j. Some (j_id j)) js = map (\<lambda>l. er_job_id (ex_result l)) (verdicts ''success'' rows))
     \<and> CONCURRENCY_COUNT_SQL (sc_id s) d' \<le> max (CONCURRENCY_COUNT_SQL (sc_id s) d) (sc_max_concurrent_jobs s)"

definition ran :: "schedule \<Rightarrow> scheduler_state \<Rightarrow> execution list \<Rightarrow> scheduler_state \<Rightarrow> bool" where
  "ran s st rows st' \<longleftrightarrow>
     ss_log st' = ss_log st @ rows \<and> (\<forall>x \<in> set rows. ex_schedule_id x = sc_id s)
     \<and> mx_executions (ss_metrics st') = mx_executions (ss_metrics st) + length rows
     \<and> schedules_moved (sc_id s) rows (ss_schedules st) (ss_schedules st')
     \<and> jobs_made s rows (ss_db st) (ss_db st')"

lemma verdicts_simps [simp]:
  "verdicts v [] = []" "verdicts v (xs @ ys) = verdicts v xs @ verdicts v ys"
  "verdicts v (x # xs) = (if er_result (ex_result x) = v then x # verdicts v xs else verdicts v xs)"
  by (simp_all add: verdicts_def)

lemma tallied_append: "tallied rows x y \<Longrightarrow> tallied rows' y z \<Longrightarrow> tallied (rows @ rows') x z"
  by (auto simp: tallied_def)

lemma schedules_moved_append:
  assumes "schedules_moved i rows xs ys" and "schedules_moved i rows' ys zs"
  shows "schedules_moved i (rows @ rows') xs zs"
proof -
  have "if sc_id x = i then tallied (rows @ rows') x z else z = x"
    if "if sc_id x = i then tallied rows x y else y = x" "if sc_id y = i then tallied rows' y z else z = y" for x y z
  proof (cases "sc_id x = i")
    case True
    with that have "tallied rows x y" by simp
    moreover from this True have "sc_id y = i" by (simp add: tallied_def)
    ultimately show ?thesis using that(2) True tallied_append by simp
  qed (use that in auto)
  with assms show ?thesis
    unfolding schedules_moved_def by (rule list_all2_trans [rotated])
qed

lemma jobs_made_append: "jobs_made s rows d e \<Longrightarrow> jobs_made s rows' e f \<Longrightarrow> jobs_made s (rows @ rows') d f"
  unfolding jobs_made_def by (elim conjE exE, intro conjI rtranclp_trans [of _ d e f]) auto

lemma ran_nothing: "ran s st [] st"
  by (auto simp: ran_def schedules_moved_def tallied_def jobs_made_def list_all2_same)

lemma ran_append: "ran s st rows st1 \<Longrightarrow> ran s st1 rows' st2 \<Longrightarrow> ran s st (rows @ rows') st2"
  unfolding ran_def using schedules_moved_append jobs_made_append by (elim conjE) (intro conjI, auto)

text \<open>One firing, logged and counted.\<close>

lemma record_metrics_simps [simp]:
  "mx_executions (ss_metrics (record_metrics r st)) = Suc (mx_executions (ss_metrics st))"
  "ss_log (record_metrics r st) = ss_log st" "ss_schedules (record_metrics r st) = ss_schedules st"
  "ss_db (record_metrics r st) = ss_db st"
  by (simp_all add: record_metrics_def Let_def)

lemma log_execution_simps [simp]:
  "ss_metrics (log_execution s t r st) = ss_metrics st" "ss_schedules (log_execution s t r st) = ss_schedules st"
  "ss_db (log_execution s t r st) = ss_db st"
  "ss_log (log_execution s t r st) = ss_log st @ [\<lparr>ex_schedule_id = sc_id s, ex_scheduled_time = t, ex_result = r\<rparr>]"
  by (simp_all add: log_execution_def)

lemma update_schedule_simps [simp]:
  "ss_metrics (update_schedule i f st) = ss_metrics st" "ss_db (update_schedule i f st) = ss_db st"
  "ss_log (update_schedule i f st) = ss_log st"
  by (simp_all add: update_schedule_def)

lemma counted_moves:
  assumes "counted g r" and "ex_result l = r"
  shows "schedules_moved i [l] (ss_schedules st) (ss_schedules (update_schedule i g st))"
  using assms
  by (auto simp: schedules_moved_def update_schedule_def list_all2_conv_all_nth counted_def tallied_def)

lemma fired_makes:
  assumes "fired_into s r d d'" and "ex_result l = r"
  shows "jobs_made s [l] d d'"
  using assms
  by (auto simp: fired_into_def jobs_made_def CONCURRENCY_COUNT_SQL_def split: if_splits)

lemma ran_firing:
  assumes "execute_schedule e now s t aj st = (r, st')"
  shows "ran s st [\<lparr>ex_schedule_id = sc_id s, ex_scheduled_time = u, ex_result = r\<rparr>] (record_metrics r (log_execution s u r st'))"
proof -
  obtain g d' where eff: "st' = update_schedule (sc_id s) g (st\<lparr>ss_db := d'\<rparr>)" "counted g r" "fired_into s r (ss_db st) d'"
    using execute_schedule_effect [OF assms] by blast
  show ?thesis
    unfolding ran_def eff(1)
    using counted_moves [OF eff(2), of _ _ "st\<lparr>ss_db := d'\<rparr>"] fired_makes [OF eff(3)] by simp
qed


lemma ran_fire_ticks: "\<exists>rows. ran s st rows (fire_ticks e now s ts st) \<and> map ex_scheduled_time rows = map tk_at ts"
proof (induction ts arbitrary: st)
  case Nil
  show ?case using ran_nothing by auto
next
  case (Cons t ts)
  obtain r st1 where one: "execute_schedule e now s t False st = (r, st1)" by force
  from Cons.IH [of "record_metrics r (log_execution s (tk_at t) r st1)"] obtain rows where
    "ran s (record_metrics r (log_execution s (tk_at t) r st1)) rows
       (fire_ticks e now s ts (record_metrics r (log_execution s (tk_at t) r st1)))"
    "map ex_scheduled_time rows = map tk_at ts" by blast
  from ran_append [OF ran_firing [OF one] this(1)] this(2) show ?case
    by (intro exI [of _ "\<lparr>ex_schedule_id = sc_id s, ex_scheduled_time = tk_at t, ex_result = r\<rparr> # rows"]) (simp add: one)
qed

definition summary_times :: "missed_runs \<Rightarrow> instant list" where
  "summary_times m = (case mr_window m of None \<Rightarrow> [] | Some (oldest, _) \<Rightarrow> [tk_at oldest])"

lemma ran_record_dropped:
  "\<exists>rows. ran s st rows (record_dropped now s m st) \<and> map ex_scheduled_time rows = summary_times m
     \<and> verdicts ''success'' rows = []"
proof (cases "mr_window m")
  case None
  then show ?thesis using ran_nothing by (auto simp: record_dropped_def summary_times_def)
next
  case (Some w)
  obtain a b where w: "w = (a, b)" by (cases w)
  let ?r = "(skipped ''backfill_limit'')\<lparr>er_error_message := Some (NotBackfilled (mr_dropped m) (sc_backfill_limit s) a b)\<rparr>"
  let ?l = "\<lparr>ex_schedule_id = sc_id s, ex_scheduled_time = tk_at a, ex_result = ?r\<rparr>"
  have "counted (record_execution_skip now) ?r" by (rule counted_verdicts(1)) (simp add: skipped_def)
  from counted_moves [OF this, of ?l] have "ran s st [?l] (record_dropped now s m st)"
    by (simp add: ran_def record_dropped_def Let_def Some w jobs_made_def skipped_def execution_result_of_def)
  then show ?thesis by (intro exI [of _ "[?l]"]) (simp add: summary_times_def Some w skipped_def execution_result_of_def)
qed

text \<open>The due tick and the catch-up, whatever the walk of the expression returned.\<close>

lemma fire_due_cases:
  assumes "fire_due e now s next_tick st = Some st'"
  obtains (rolled_back) x y where "st' = st\<lparr>ss_metrics := x\<rparr>"
      "missed_cron_runs (se_cron e) (sc_cron_expr s) (sc_timezone s) (sc_next_run s) now (sc_backfill_limit s) = Some (Inl y)"
  | (fired) rows st1 m where "ran s st rows st1" "st' = update_schedule (sc_id s) (set_next_run now (tk_at next_tick)) st1"
      "map ex_scheduled_time rows = sc_next_run s # map tk_at (rev (mr_kept m)) @ summary_times m"
      "length (verdicts ''success'' rows) \<le> 1 + length (mr_kept m)"
      "sc_backfill_limit s \<le> 0 \<Longrightarrow> m = \<lparr>mr_kept = [], mr_dropped = 0, mr_window = None\<rparr>"
      "0 < sc_backfill_limit s \<Longrightarrow> missed_cron_runs (se_cron e) (sc_cron_expr s) (sc_timezone s) (sc_next_run s) now
         (sc_backfill_limit s) = Some (Inr m)"
proof -
  obtain r st0 where one: "execute_schedule e now s (due_tick e s) True st = (r, st0)" by force
  let ?l = "\<lparr>ex_schedule_id = sc_id s, ex_scheduled_time = sc_next_run s, ex_result = r\<rparr>"
  let ?st1 = "record_metrics r (log_execution s (sc_next_run s) r st0)"
  have first: "ran s st [?l] ?st1" by (rule ran_firing [OF one])
  show thesis
  proof (cases "sc_backfill_limit s \<le> 0")
    case True
    with assms one have "st' = update_schedule (sc_id s) (set_next_run now (tk_at next_tick)) ?st1"
      by (simp add: fire_due_def backfill_missed_ticks_def)
    from fired [OF first this, of "\<lparr>mr_kept = [], mr_dropped = 0, mr_window = None\<rparr>"] True
    show thesis by (simp add: summary_times_def)
  next
    case False
    show thesis
    proof (cases "missed_cron_runs (se_cron e) (sc_cron_expr s) (sc_timezone s) (sc_next_run s) now (sc_backfill_limit s)")
      case None
      with assms one False show thesis by (simp add: fire_due_def backfill_missed_ticks_def)
    next
      case (Some v)
      show thesis
      proof (cases v)
        case (Inl x)
        with assms one False Some have "st' = st\<lparr>ss_metrics := ss_metrics ?st1\<rparr>"
          by (simp add: fire_due_def backfill_missed_ticks_def)
        then show thesis using rolled_back Some Inl by simp
      next
        case (Inr m)
        obtain rows where ticks: "ran s ?st1 rows (fire_ticks e now s (rev (mr_kept m)) ?st1)"
          "map ex_scheduled_time rows = map tk_at (rev (mr_kept m))"
          using ran_fire_ticks [of s ?st1 e now "rev (mr_kept m)"] by blast
        let ?st2 = "fire_ticks e now s (rev (mr_kept m)) ?st1"
        obtain rows' where dropped: "ran s ?st2 rows' (record_dropped now s m ?st2)"
          "map ex_scheduled_time rows' = summary_times m" "verdicts ''success'' rows' = []" using ran_record_dropped [of s ?st2 now m] by blast
        from ran_append [OF ran_append [OF first ticks(1)] dropped(1)]
        have "ran s st (([?l] @ rows) @ rows') (record_dropped now s m ?st2)" .
        moreover have "st' = update_schedule (sc_id s) (set_next_run now (tk_at next_tick)) (record_dropped now s m ?st2)"
          using assms one False Some Inr by (simp add: fire_due_def backfill_missed_ticks_def)
        moreover have "length (verdicts ''success'' rows) \<le> length (mr_kept m)"
          using arg_cong [OF ticks(2), of length] by (simp add: verdicts_def) (metis length_filter_le)
        ultimately show thesis
          using fired [of "([?l] @ rows) @ rows'"] ticks(2) dropped(2,3) False Some Inr by simp
      qed
    qed
  qed
qed


section \<open>Properties\<close>

text \<open>What the transaction of a due schedule computes, under croniter's contract.\<close>

lemma run_due:
  assumes "List.find (\<lambda>x. sc_id x = i \<and> due now x) (ss_schedules st) = Some s"
    and "cr_zone (se_cron e) (sc_timezone s)" and "cr_valid (se_cron e) (sc_cron_expr s)"
    and "cron_law (cr_next (se_cron e) (sc_cron_expr s) (sc_timezone s))"
  shows "\<exists>rows st1. \<exists>f :: tick. run_schedule e now False i st = Some (update_schedule i (set_next_run now (tk_at f)) st1)
    \<and> ran s st rows st1 \<and> now < tk_at f \<and> length (verdicts ''success'' rows) \<le> 1 + nat (sc_backfill_limit s)
    \<and> fires_between (cr_next (se_cron e) (sc_cron_expr s) (sc_timezone s)) (is_wall_clock_anchored (sc_cron_expr s))
          now (tk_at f - 1) = []
    \<and> map ex_scheduled_time rows = sc_next_run s #
        (let fs = fires_between (cr_next (se_cron e) (sc_cron_expr s) (sc_timezone s))
                    (is_wall_clock_anchored (sc_cron_expr s)) (sc_next_run s) now;
             m = newest (sc_backfill_limit s) fs
         in if sc_backfill_limit s \<le> 0 then [] else rev (map tk_at (mr_kept m)) @ summary_times m)"
proof -
  let ?nxt = "cr_next (se_cron e) (sc_cron_expr s) (sc_timezone s)" and ?a = "is_wall_clock_anchored (sc_cron_expr s)"
  have s: "sc_id s = i" "due now s" using assms(1) by (auto simp: find_Some_iff)
  then have at: "max now (sc_next_run s) = now" by (simp add: due_def)
  obtain f where f: "next_fire ?nxt ?a now = Some f" "now < tk_at f"
    "\<forall>until. fires_between ?nxt ?a now until =
          (if until < tk_at f then [] else f # fires_between ?nxt ?a (tk_at f) until)"
    using next_fire_returns [OF assms(4)] by blast
  have run: "run_schedule e now False i st = fire_due e now s f st"
    using assms(1-3) f(1) at
    by (simp add: run_schedule_def next_cron_run_def resolve_timezone_def validate_cron_def)
  have missed: "missed_cron_runs (se_cron e) (sc_cron_expr s) (sc_timezone s) (sc_next_run s) now (sc_backfill_limit s)
      = Some (Inr (newest (sc_backfill_limit s) (fires_between ?nxt ?a (sc_next_run s) now)))"
    using assms(2,3)
    by (simp add: missed_cron_runs_def resolve_timezone_def validate_cron_def missed_loop_is_fold [OF assms(4)]
        newest_fold)
  have "\<exists>st'. fire_due e now s f st = Some st'"
    unfolding fire_due_def backfill_missed_ticks_def missed by (auto simp: Let_def split: prod.split)
  then obtain st' where st': "fire_due e now s f st = Some st'" by blast
  then obtain rows st1 m where main: "ran s st rows st1" "st' = update_schedule i (set_next_run now (tk_at f)) st1"
      "map ex_scheduled_time rows = sc_next_run s # map tk_at (rev (mr_kept m)) @ summary_times m"
      "length (verdicts ''success'' rows) \<le> 1 + length (mr_kept m)"
      "sc_backfill_limit s \<le> 0 \<Longrightarrow> m = \<lparr>mr_kept = [], mr_dropped = 0, mr_window = None\<rparr>"
      "0 < sc_backfill_limit s \<Longrightarrow> m = newest (sc_backfill_limit s) (fires_between ?nxt ?a (sc_next_run s) now)"
  proof (cases rule: fire_due_cases)
    case (fired rows st1 m)
    with s(1) missed that show thesis by simp
  qed (use missed in simp)
  have quiet: "fires_between ?nxt ?a now (tk_at f - 1) = []" using f(3) by simp
  have "map ex_scheduled_time rows = sc_next_run s #
        (let m = newest (sc_backfill_limit s) (fires_between ?nxt ?a (sc_next_run s) now)
         in if sc_backfill_limit s \<le> 0 then [] else rev (map tk_at (mr_kept m)) @ summary_times m)"
    using main(3,5,6) by (cases "sc_backfill_limit s \<le> 0") (simp_all add: Let_def rev_map summary_times_def)
  moreover have "length (verdicts ''success'' rows) \<le> 1 + nat (sc_backfill_limit s)"
    using main(4-6) by (cases "sc_backfill_limit s \<le> 0") (auto simp: newest_def Let_def)
  ultimately show ?thesis using run st' main(1,2) f(2) quiet
    by (intro exI [of _ rows] exI [of _ st1] exI [of _ f]) (simp add: Let_def)
qed

lemma moved_find:
  assumes "schedules_moved i rows xs ys" and "find_row sc_id i xs = Some x"
  shows "\<exists>y. find_row sc_id i ys = Some y \<and> tallied rows x y"
  using assms unfolding schedules_moved_def
  by (induction xs ys rule: list_all2_induct) (auto simp: tallied_def split: if_splits)

lemma find_update_schedule:
  assumes "\<And>x. sc_id (f x) = sc_id x"
  shows "find_row sc_id i (ss_schedules (update_schedule i f st)) = map_option f (find_row sc_id i (ss_schedules st))"
proof -
  have "find_row sc_id i (map (\<lambda>s. if sc_id s = i then f s else s) rows) = map_option f (find_row sc_id i rows)" for rows
    by (induction rows) (auto simp: assms)
  then show ?thesis by (simp add: update_schedule_def)
qed



text \<open>
  A recovery is bounded, however long the outage. Taking a due schedule inserts at most
  one job for the due tick and one for each tick of its \<open>backfill_limit\<close>, all of them its own,
  and never raises the number of its unfinished jobs above \<open>max_concurrent_jobs\<close>; everything it
  does to the job table is steps of the platform.
\<close>

theorem a_recovery_is_bounded:
  assumes "List.find (\<lambda>x. sc_id x = i \<and> due now x) (ss_schedules st) = Some s"
    and "cr_zone (se_cron e) (sc_timezone s)" and "cr_valid (se_cron e) (sc_cron_expr s)"
    and "cron_law (cr_next (se_cron e) (sc_cron_expr s) (sc_timezone s))"
  shows "\<exists>st' js. run_schedule e now False i st = Some st' \<and> jobs (ss_db st') = jobs (ss_db st) @ js
    \<and> length js \<le> 1 + nat (sc_backfill_limit s) \<and> (\<forall>j \<in> set js. j_schedule_id j = Some i)
    \<and> CONCURRENCY_COUNT_SQL i (ss_db st') \<le> max (CONCURRENCY_COUNT_SQL i (ss_db st)) (sc_max_concurrent_jobs s)
    \<and> platform_step\<^sup>*\<^sup>* (ss_db st) (ss_db st')"
proof -
  have s: "sc_id s = i" using assms(1) by (auto simp: find_Some_iff)
  from run_due [OF assms] obtain rows st1 and f :: tick where
    run: "run_schedule e now False i st = Some (update_schedule i (set_next_run now (tk_at f)) st1)"
    "ran s st rows st1" "length (verdicts ''success'' rows) \<le> 1 + nat (sc_backfill_limit s)"
    by (elim exE conjE) (rule that)
  from run(2) obtain js where js: "jobs (ss_db st1) = jobs (ss_db st) @ js" "\<forall>j \<in> set js. j_schedule_id j = Some i"
    "map (\<lambda>j. Some (j_id j)) js = map (\<lambda>l. er_job_id (ex_result l)) (verdicts ''success'' rows)"
    unfolding ran_def jobs_made_def s by blast
  have "length js \<le> 1 + nat (sc_backfill_limit s)" using run(3) arg_cong [OF js(3), of length] by simp
  with run js(1,2) show ?thesis
    by (intro exI [of _ "update_schedule i (set_next_run now (tk_at f)) st1"] exI [of _ js])
      (simp add: ran_def jobs_made_def s)
qed

lemma next_cron_run_refuses:
  "\<not> (cr_zone lib tz \<and> cr_valid lib expr) \<Longrightarrow> \<exists>x. next_cron_run lib expr tz t = Some (Inl x)"
  by (cases "cr_zone lib tz") (simp_all add: next_cron_run_def resolve_timezone_def validate_cron_def)

lemma updated_row:
  assumes "x \<in> set (ss_schedules (update_schedule i f st))" and "sc_id x = i"
    and "\<And>y. sc_id (f y) = sc_id y"
  shows "\<exists>y. x = f y"
  using assms by (auto simp: update_schedule_def split: if_splits)

text \<open>
  C23. A tick is fired once. After a scheduler has taken a schedule, at any clock up to the one
  it was taken at, no scheduler finds anything left to do on it: a second one that saw it
  due, and waited for the row, fires nothing.
\<close>

theorem a_tick_is_fired_once:
  assumes "run_schedule e now False i st = Some st'"
    and "\<forall>s \<in> set (ss_schedules st). cron_law (cr_next (se_cron e) (sc_cron_expr s) (sc_timezone s))"
    and "now' \<le> now"
  shows "run_schedule e' now' held i st' = Some st'"
proof -
  let ?q = "\<lambda>t x. sc_id x = i \<and> due t x"
  have "\<forall>x \<in> set (ss_schedules st'). sc_id x = i \<longrightarrow> \<not> due now' x"
  proof (cases "List.find (?q now) (ss_schedules st)")
    case None
    with assms(1) have "st' = st" by (simp add: run_schedule_def)
    with None assms(3) show ?thesis by (fastforce simp: find_None_iff due_def)
  next
    case (Some s)
    show ?thesis
    proof (cases "cr_zone (se_cron e) (sc_timezone s) \<and> cr_valid (se_cron e) (sc_cron_expr s)")
      case True
      have "s \<in> set (ss_schedules st)" using Some by (auto simp: find_Some_iff)
      with assms(2) have "cron_law (cr_next (se_cron e) (sc_cron_expr s) (sc_timezone s))" by blast
      from run_due [OF Some _ _ this] True obtain st1 and f :: tick where
        "run_schedule e now False i st = Some (update_schedule i (set_next_run now (tk_at f)) st1)" "now < tk_at f"
        by blast
      then have "st' = update_schedule i (set_next_run now (tk_at f)) st1" "now < tk_at f" using assms(1) by simp_all
      with assms(3) show ?thesis using updated_row [of _ i "set_next_run now (tk_at f)" st1]
        by (fastforce simp: set_next_run_def due_def)
    next
      case False
      then obtain x where "next_cron_run (se_cron e) (sc_cron_expr s) (sc_timezone s) (max now (sc_next_run s)) = Some (Inl x)"
        using next_cron_run_refuses by blast
      with Some assms(1) have "ss_schedules st' = ss_schedules (update_schedule i (disable_unevaluatable now) st)"
        by (auto simp: run_schedule_def Let_def)
      then show ?thesis using updated_row [of _ i "disable_unevaluatable now" st]
        by (fastforce simp: disable_unevaluatable_def due_def)
    qed
  qed
  then have "List.find (?q now') (ss_schedules st') = None" by (auto simp: find_None_iff)
  then show ?thesis by (simp add: run_schedule_def)
qed


text \<open>The counters an operator checks the log by.\<close>

definition logged :: "int \<Rightarrow> string \<Rightarrow> execution list \<Rightarrow> int" where
  "logged i v rows = int (length (verdicts v (filter (\<lambda>l. ex_schedule_id l = i) rows)))"

definition reconciled :: "scheduler_state \<Rightarrow> bool" where
  "reconciled st \<longleftrightarrow> (\<forall>s \<in> set (ss_schedules st).
     sc_skip_count s = logged (sc_id s) ''skipped'' (ss_log st)
     \<and> sc_success_count s = logged (sc_id s) ''success'' (ss_log st))"

lemma logged_simps [simp]:
  "logged i v (xs @ ys) = logged i v xs + logged i v ys"
  "\<forall>l \<in> set rows. ex_schedule_id l = i \<Longrightarrow> logged i v rows = int (length (verdicts v rows))"
  by (auto simp: logged_def filter_id_conv filter_empty_conv cong: filter_cong)

lemma list_all2_witness: "list_all2 P xs ys \<Longrightarrow> y \<in> set ys \<Longrightarrow> \<exists>x \<in> set xs. P x y"
  by (induction xs ys rule: list_all2_induct) auto

lemma ran_reconciled:
  assumes "ran s st rows st'" and "reconciled st"
  shows "reconciled st'"
  unfolding reconciled_def
proof
  fix y
  assume "y \<in> set (ss_schedules st')"
  moreover have "schedules_moved (sc_id s) rows (ss_schedules st) (ss_schedules st')"
    using assms(1) by (simp add: ran_def)
  ultimately have "\<exists>x \<in> set (ss_schedules st). if sc_id x = sc_id s then tallied rows x y else y = x"
    unfolding schedules_moved_def by (intro list_all2_witness)
  then obtain x where x: "x \<in> set (ss_schedules st)" "if sc_id x = sc_id s then tallied rows x y else y = x" ..
  have rows: "\<forall>l \<in> set rows. ex_schedule_id l = sc_id s" "ss_log st' = ss_log st @ rows" using assms(1) by (auto simp: ran_def)
  have other: "logged i v rows = 0" if "i \<noteq> sc_id s" for i v
    using that rows(1) by (auto simp: logged_def filter_empty_conv)
  show "sc_skip_count y = logged (sc_id y) ''skipped'' (ss_log st') \<and> sc_success_count y = logged (sc_id y) ''success'' (ss_log st')"
    using assms(2) x rows other by (cases "sc_id x = sc_id s") (auto simp: reconciled_def tallied_def)
qed


lemma set_next_run_reconciled: "reconciled st \<Longrightarrow> reconciled (update_schedule i (set_next_run now t) st)"
  by (auto simp: reconciled_def update_schedule_def set_next_run_def)

lemma unevaluatable_reconciled:
  assumes "reconciled st" and "er_result r = ''failure''"
  shows "reconciled (record_metrics r (log_execution s t r (update_schedule i (disable_unevaluatable now) st)))"
  using assms
  by (auto simp: reconciled_def logged_def update_schedule_def disable_unevaluatable_def record_execution_failure_def)

lemma run_schedule_reconciled:
  assumes "run_schedule e now held i st = Some st'" and "reconciled st"
  shows "reconciled st'"
proof (cases "held \<or> List.find (\<lambda>s. sc_id s = i \<and> due now s) (ss_schedules st) = None")
  case True
  with assms show ?thesis by (auto simp: run_schedule_def split: if_splits)
next
  case False
  then obtain s where s: "List.find (\<lambda>s. sc_id s = i \<and> due now s) (ss_schedules st) = Some s" by blast
  show ?thesis
  proof (cases "next_cron_run (se_cron e) (sc_cron_expr s) (sc_timezone s) (max now (sc_next_run s))")
    case None
    with False s assms(1) show ?thesis by (simp add: run_schedule_def)
  next
    case (Some v)
    show ?thesis
    proof (cases v)
      case (Inl x)
      with Some False s assms show ?thesis
        by (auto simp: run_schedule_def Let_def intro!: unevaluatable_reconciled)
    next
      case (Inr t)
      with Some False s assms(1) have "fire_due e now s t st = Some st'" by (simp add: run_schedule_def)
      then show ?thesis
      proof (cases rule: fire_due_cases)
        case (rolled_back x y)
        with assms(2) show ?thesis by (simp add: reconciled_def)
      next
        case (fired rows st1 m)
        with ran_reconciled [OF fired(1) assms(2)] set_next_run_reconciled show ?thesis by simp
      qed
    qed
  qed
qed

text \<open>
  C37. The counters reconcile with the log. Through any poll, whatever its schedules do, each
  schedule's skip counter is the number of skipped rows of its execution log and its success
  counter the number of successful ones; a firing that is rolled back moves neither.
\<close>

theorem counters_reconcile_with_the_log:
  assumes "poll e t now held st = Some st'" and "reconciled st"
  shows "reconciled st'"
proof -
  have "reconciled st2" if "run_each e now held k is st1 = Some st2" "reconciled st1" for k "is" st1 st2
    using that
  proof (induction "is" arbitrary: k st1)
    case (Cons i "is")
    then show ?case by (auto simp: bind_eq_Some_conv dest: run_schedule_reconciled)
  qed simp
  with assms show ?thesis by (simp add: poll_def)
qed

text \<open>
  A refused firing is counted twice. When the row builder refuses a firing (a priority
  above the fleet's ceiling, say), the schedule is disabled, and one failed execution is
  reported, but the run and failure counters of its row both move by two.
\<close>

theorem a_refused_firing_is_counted_twice:
  assumes "execute_schedule e now s t aj st = (r, st')" and "er_error_message r = Some (FiringRefused x)"
    and "find_row sc_id (sc_id s) (ss_schedules st) = Some row"
  shows "\<exists>row'. find_row sc_id (sc_id s) (ss_schedules st') = Some row' \<and> \<not> sc_enabled row'
    \<and> sc_failure_count row' = sc_failure_count row + 2 \<and> sc_run_count row' = sc_run_count row + 2
    \<and> sc_consecutive_failures row' = sc_consecutive_failures row + 2"
proof -
  obtain res d where job: "create_scheduled_job e now s t
      (if aj then calculate_jitter e (sc_jitter_seconds s) else 0) (ss_db st) = (res, d)" by force
  have go: "\<not> braked s st" using execute_schedule_braked [OF assms(1)] assms(2) by auto
  note out = execute_schedule_fired [OF assms(1) go job]
  have "res = Inl (FiringRefused x)"
    using out assms(2) by (auto simp: failed_def skipped_def execution_result_of_def split: sum.splits option.splits)
  with out have "st' = update_schedule (sc_id s) (\<lambda>y. disable_unevaluatable now (record_execution_failure now y))
      (st\<lparr>ss_db := d\<rparr>)" by simp
  with assms(3) show ?thesis
    by (simp add: find_update_schedule) (simp add: disable_unevaluatable_def record_execution_failure_def)
qed


section \<open>An outage of five ticks\<close>

text \<open>A schedule of two catch-up ticks, due at 30, taken at 65 by the library of \<open>Cron\<close>.\<close>

definition nightly :: schedule where
  "nightly = \<lparr>sc_id = 4, sc_name = ''nightly'', sc_job_class = ''Report'', sc_kwargs = [], sc_queue = ''default'',
     sc_prio = 100, sc_capability = None, sc_cron_expr = ''0 1 * * *'', sc_timezone = ''UTC'', sc_enabled = True,
     sc_max_concurrent_jobs = 9, sc_jitter_seconds = 0, sc_backfill_limit = 2, sc_backpressure_threshold = Some 1000,
     sc_circuit_breaker_threshold = 5, sc_consecutive_failures = 0, sc_next_run = 30, sc_last_run = None,
     sc_last_success = None, sc_last_failure = None, sc_run_count = 0, sc_success_count = 0, sc_failure_count = 0,
     sc_skip_count = 0, sc_updated = 0\<rparr>"

definition after_outage :: scheduler_state where
  "after_outage = \<lparr>ss_db = empty_db, ss_schedules = [nightly], ss_log = [],
     ss_metrics = \<lparr>mx_executions = 0, mx_successes = 0, mx_failures = 0, mx_skips = 0\<rparr>\<rparr>"

definition a_scheduler :: scheduler_env where
  "a_scheduler = \<lparr>se_cron = steady_lib, se_clock = 65, se_prio_ceiling = 1000, se_randint = (\<lambda>n. 0), se_iso = (\<lambda>t. [])\<rparr>"

lemma nightly_due:
  "List.find (\<lambda>x. sc_id x = 4 \<and> due 65 x) (ss_schedules after_outage) = Some nightly"
  "cr_zone (se_cron a_scheduler) (sc_timezone nightly)"
  "cr_valid (se_cron a_scheduler) (sc_cron_expr nightly)"
  "distinct (map sc_id (ss_schedules after_outage))"
  by code_simp+

lemma nightly_law: "cron_law (cr_next (se_cron a_scheduler) (sc_cron_expr nightly) (sc_timezone nightly))"
  by (simp add: a_scheduler_def steady_lib_def steady_law)


theorem a_recovery_is_bounded_witness:
  "\<exists>st'. run_schedule a_scheduler 65 False 4 after_outage = Some st' \<and> length (jobs (ss_db st')) \<le> 3"
  using a_recovery_is_bounded [OF nightly_due(1-3) nightly_law] by (auto simp: after_outage_def nightly_def empty_db_def)

theorem a_tick_is_fired_once_witness:
  "\<exists>st'. run_schedule a_scheduler 65 False 4 after_outage = Some st' \<and> run_schedule a_scheduler 64 False 4 st' = Some st'"
proof -
  obtain st' where run: "run_schedule a_scheduler 65 False 4 after_outage = Some st'"
    using run_due [OF nightly_due(1-3) nightly_law] by blast
  have "\<forall>s \<in> set (ss_schedules after_outage). cron_law (cr_next (se_cron a_scheduler) (sc_cron_expr s) (sc_timezone s))"
    using nightly_law by (simp add: after_outage_def)
  from a_tick_is_fired_once [OF run this, of 64] run show ?thesis by simp
qed

theorem counters_reconcile_with_the_log_witness:
  "\<exists>st'. poll a_scheduler 65 (\<lambda>k. 65) (\<lambda>k. False) after_outage = Some st' \<and> reconciled st'"
proof -
  have "find_due_schedules 65 after_outage = [4]" by code_simp
  then obtain st' where run: "poll a_scheduler 65 (\<lambda>k. 65) (\<lambda>k. False) after_outage = Some st'"
    using run_due [OF nightly_due(1-3) nightly_law] by (auto simp: poll_def)
  have "reconciled after_outage" by (simp add: reconciled_def after_outage_def nightly_def logged_def)
  from counters_reconcile_with_the_log [OF run this] run show ?thesis by blast
qed

theorem a_refused_firing_is_counted_twice_witness:
  "\<exists>st' row. snd (execute_schedule (a_scheduler\<lparr>se_prio_ceiling := 50\<rparr>) 65 nightly (due_tick a_scheduler nightly) True after_outage) = st'
     \<and> find_row sc_id 4 (ss_schedules st') = Some row \<and> sc_failure_count row = 2 \<and> \<not> sc_enabled row"
proof -
  let ?e = "a_scheduler\<lparr>se_prio_ceiling := 50\<rparr>" and ?t = "due_tick a_scheduler nightly"
  obtain r st' where run: "execute_schedule ?e 65 nightly ?t True after_outage = (r, st')" by force
  have "er_error_message (fst (execute_schedule ?e 65 nightly ?t True after_outage))
      = Some (FiringRefused (Refused (PriorityAboveCeiling 100 50)))" by code_simp
  then have "er_error_message r = Some (FiringRefused (Refused (PriorityAboveCeiling 100 50)))" using run by simp
  from a_refused_firing_is_counted_twice [OF run this, of nightly] run show ?thesis
    by (auto simp: after_outage_def nightly_def)
qed

end
