(* ===== verification/Admin.thy ===== *)
theory Admin
  imports Retention Claim Scheduler
begin

text \<open>
  The operator's verbs of \<open>pyjobby/admin_api.py\<close>, and the two deletes of \<open>pyjobby/client.py\<close>:
  deleting jobs, the control row of a queue, and the administration of recurring schedules.
  Authentication, transport and rendering are not part of it; the database's clock, the
  identity a new schedule gets and croniter are arguments.
\<close>

section \<open>Deleting jobs\<close>

text \<open>\<open>DELETE FROM jorb WHERE ...\<close>, with the cascades of the foreign keys, and its row count.\<close>

definition delete_where :: "(jorb \<Rightarrow> bool) \<Rightarrow> database \<Rightarrow> nat \<times> database" where
  "delete_where p d =
     (let is = map j_id (filter p (jobs d)) in (length is, DELETE_EXPIRED_JOBS_SQL is d))"

datatype admin_error =
    NoFilter
  | RuleRefused rule_error
  | JobClassTooLong
  | JobClassMalformed string
  | CronRefused cron_error
  | DuplicateName string
  | NoValidFields
  | ScheduleNotFound int

text \<open>
  A filter is left out when its value is falsy: no queue or the empty name, no states, no
  days or zero of them. The labels of the states are the enum's (the cast refuses others).
\<close>

definition queue_filter :: "string option \<Rightarrow> (jorb \<Rightarrow> bool) list" where
  "queue_filter queue = (case queue of None \<Rightarrow> [] | Some q \<Rightarrow> if q = [] then [] else [\<lambda>j. j_queue j = q])"

definition state_filter :: "jorbstate list option \<Rightarrow> (jorb \<Rightarrow> bool) list" where
  "state_filter states = (case states of None \<Rightarrow> [] | Some ss \<Rightarrow> [\<lambda>j. j_state j \<in> set ss])"

definition DAY :: interval where
  "DAY = 24 * 60 * 60 * 1000000"

definition age_filter :: "instant \<Rightarrow> int option \<Rightarrow> (jorb \<Rightarrow> bool) list" where
  "age_filter now days =
     (case days of None \<Rightarrow> [] | Some n \<Rightarrow> if n = 0 then [] else [\<lambda>j. j_updated j < now - n * DAY])"

definition delete_jobs ::
  "instant \<Rightarrow> string option \<Rightarrow> jorbstate list option \<Rightarrow> int option \<Rightarrow> database
     \<Rightarrow> (admin_error + nat) \<times> database" where
  "delete_jobs now queue states days d =
     (let clauses = queue_filter queue @ state_filter states @ age_filter now days
      in if clauses = [] then (Inl NoFilter, d)
         else case delete_where (\<lambda>j. list_all (\<lambda>c. c j) clauses) d of (n, d') \<Rightarrow> (Inr n, d'))"

definition CLEAR_QUEUE_STATES :: "jorbstate list" where
  "CLEAR_QUEUE_STATES = [Queued, Waiting]"

definition clear_queue ::
  "instant \<Rightarrow> string \<Rightarrow> jorbstate list \<Rightarrow> int option \<Rightarrow> database \<Rightarrow> (admin_error + nat) \<times> database" where
  "clear_queue now queue states days d = delete_jobs now (Some queue) (Some states) days d"

definition delete_job :: "job_id \<Rightarrow> database \<Rightarrow> bool \<times> database" where
  "delete_job i d = (case delete_where (\<lambda>j. j_id j = i) d of (n, d') \<Rightarrow> (n = 1, d'))"

text \<open>\<open>JobClient.purge_queue\<close> and \<open>JobClient.delete_job\<close>\<close>

definition purge_queue :: "string \<Rightarrow> jorbstate list option \<Rightarrow> database \<Rightarrow> nat \<times> database" where
  "purge_queue queue states d =
     (let ss = (case states of None \<Rightarrow> [Queued, Waiting] | Some ss \<Rightarrow> ss)
      in delete_where (\<lambda>j. j_queue j = queue \<and> j_state j \<in> set ss) d)"

definition client_delete_job :: "job_id \<Rightarrow> database \<Rightarrow> bool \<times> database" where
  "client_delete_job i d = (case delete_where (\<lambda>j. j_id j = i) d of (n, d') \<Rightarrow> (n \<noteq> 0, d'))"

section \<open>The control row of a queue\<close>

text \<open>An argument that may be left out: \<open>UNSET\<close>, or a value (\<open>None\<close> clears a limit).\<close>

datatype 'a setting = Unset | Set 'a

fun or_keep :: "'a setting \<Rightarrow> 'a \<Rightarrow> 'a" where
  "or_keep Unset x = x"
| "or_keep (Set y) x = y"

definition coalesce :: "'a option \<Rightarrow> 'a \<Rightarrow> 'a" where
  "coalesce y x = (case y of None \<Rightarrow> x | Some z \<Rightarrow> z)"

definition set_queue_control ::
  "string \<Rightarrow> bool option \<Rightarrow> int option setting \<Rightarrow> int option setting \<Rightarrow> interval option \<Rightarrow> bool option
     \<Rightarrow> database \<Rightarrow> database" where
  "set_queue_control name is_paused mc rl period lanes d =
     (case queue_control d name of
        None \<Rightarrow> d\<lparr>queues := queues d @
          [\<lparr>q_name = name, q_paused = coalesce is_paused False, q_max_concurrency = or_keep mc None,
            q_rate_limit = or_keep rl None, q_rate_period = coalesce period 60000000,
            q_partition_limits = coalesce lanes False\<rparr>]\<rparr>
      | Some _ \<Rightarrow> d\<lparr>queues := map (\<lambda>q. if q_name q = name then q\<lparr>
            q_paused := coalesce is_paused (q_paused q), q_max_concurrency := or_keep mc (q_max_concurrency q),
            q_rate_limit := or_keep rl (q_rate_limit q), q_rate_period := coalesce period (q_rate_period q),
            q_partition_limits := coalesce lanes (q_partition_limits q)\<rparr> else q) (queues d)\<rparr>)"

definition pause_queue :: "string \<Rightarrow> database \<Rightarrow> database" where
  "pause_queue name d = set_queue_control name (Some True) Unset Unset None None d"

definition resume_queue :: "string \<Rightarrow> database \<Rightarrow> database" where
  "resume_queue name d = set_queue_control name (Some False) Unset Unset None None d"

section \<open>Deletes, proved\<close>

lemma delete_where_lookup:
  assumes "jobs_ok d" "delete_where p d = (n, d')"
  shows "lookup_job d' i = (case lookup_job d i of None \<Rightarrow> None
      | Some j \<Rightarrow> if p j then None else Some (forget_source (map j_id (filter p (jobs d))) j))"
    and "jobs_ok d'" and "n = length (filter p (jobs d))"
proof -
  have d': "d' = DELETE_EXPIRED_JOBS_SQL (map j_id (filter p (jobs d))) d"
    using assms(2) by (simp add: delete_where_def Let_def)
  have "i \<in> j_id ` {j \<in> set (jobs d). p j} \<longleftrightarrow> p j" if "lookup_job d i = Some j" for j
    using that assms(1) jobs_ok_distinct [OF assms(1)] lookup_job_SomeD [OF that]
    by (auto simp: distinct_map inj_on_def)
  then show "lookup_job d' i = (case lookup_job d i of None \<Rightarrow> None
      | Some j \<Rightarrow> if p j then None else Some (forget_source (map j_id (filter p (jobs d))) j))"
    by (auto simp: d' delete_lookup [OF assms(1)] split: option.split)
  show "jobs_ok d'" by (simp add: d' delete_ok [OF assms(1)])
  show "n = length (filter p (jobs d))" using assms(2) by (simp add: delete_where_def Let_def)
qed

text \<open>
  Clearing a named queue removes exactly its jobs. Without an age, the operator's verb
  does what the client's does: every job of that queue in the given states is gone with its
  children, the count is their number, and every other job is there as it was, but for a
  fork's reference to a source that was deleted.
\<close>

theorem clearing_a_queue_is_purging_it:
  assumes "jobs_ok d" and "queue \<noteq> []"
  shows "\<exists>n d'. clear_queue now queue states None d = (Inr n, d') \<and> purge_queue queue (Some states) d = (n, d')
    \<and> jobs_ok d' \<and> n = length (filter (\<lambda>j. j_queue j = queue \<and> j_state j \<in> set states) (jobs d))
    \<and> (\<forall>i. lookup_job d' i = (case lookup_job d i of None \<Rightarrow> None
          | Some j \<Rightarrow> if j_queue j = queue \<and> j_state j \<in> set states then None
              else Some (forget_source
                (map j_id (filter (\<lambda>j. j_queue j = queue \<and> j_state j \<in> set states) (jobs d))) j)))"
proof -
  obtain n d' where run: "purge_queue queue (Some states) d = (n, d')" by fastforce
  then have del: "delete_where (\<lambda>j. j_queue j = queue \<and> j_state j \<in> set states) d = (n, d')"
    by (simp add: purge_queue_def)
  then have "clear_queue now queue states None d = (Inr n, d')"
    using assms(2) by (simp add: clear_queue_def delete_jobs_def queue_filter_def state_filter_def age_filter_def)
  then show ?thesis using run delete_where_lookup [OF assms(1) del] by (intro exI [of _ n] exI [of _ d']) simp
qed

text \<open>
  Clearing the queue with the empty name clears every queue. The empty name is falsy, so
  the verb drops the filter: every job of the database in the given states is deleted,
  whatever queue it is on, where the client's verb deletes none of them.
\<close>

theorem clearing_the_unnamed_queue_clears_them_all:
  assumes "jobs_ok d" and "\<And>j. j \<in> set (jobs d) \<Longrightarrow> j_queue j \<noteq> []"
  shows "\<exists>n d'. clear_queue now [] states None d = (Inr n, d')
    \<and> n = length (filter (\<lambda>j. j_state j \<in> set states) (jobs d))
    \<and> (\<forall>i j. lookup_job d i = Some j \<longrightarrow> j_state j \<in> set states \<longrightarrow> lookup_job d' i = None)
    \<and> fst (purge_queue [] (Some states) d) = 0"
proof -
  obtain n d' where del: "delete_where (\<lambda>j. j_state j \<in> set states) d = (n, d')" by fastforce
  then have "clear_queue now [] states None d = (Inr n, d')"
    by (simp add: clear_queue_def delete_jobs_def queue_filter_def state_filter_def age_filter_def)
  moreover have "filter (\<lambda>j. j_queue j = [] \<and> j_state j \<in> set states) (jobs d) = []"
    using assms(2) by (auto simp: filter_empty_conv)
  then have "fst (purge_queue [] (Some states) d) = 0"
    by (simp add: purge_queue_def delete_where_def Let_def)
  ultimately show ?thesis
    using delete_where_lookup [OF assms(1) del] by (intro exI [of _ n] exI [of _ d']) simp
qed

section \<open>Pause and resume, proved\<close>

lemma queue_control_set:
  "queue_control (set_queue_control name p mc rl period lanes d) q =
     (if q \<noteq> name then queue_control d q
      else Some (case queue_control d name of
        None \<Rightarrow> \<lparr>q_name = name, q_paused = coalesce p False, q_max_concurrency = or_keep mc None,
            q_rate_limit = or_keep rl None, q_rate_period = coalesce period 60000000,
            q_partition_limits = coalesce lanes False\<rparr>
      | Some r \<Rightarrow> r\<lparr>q_paused := coalesce p (q_paused r), q_max_concurrency := or_keep mc (q_max_concurrency r),
            q_rate_limit := or_keep rl (q_rate_limit r), q_rate_period := coalesce period (q_rate_period r),
            q_partition_limits := coalesce lanes (q_partition_limits r)\<rparr>))"
  by (auto simp: set_queue_control_def queue_control_def find_row_append find_row_map split: option.splits
      dest: find_row_SomeD)

lemma set_queue_control_jobs [simp]: "jobs (set_queue_control name p mc rl period lanes d) = jobs d"
  by (simp add: set_queue_control_def split: option.split)

lemma jobs_ok_queues: "jobs_ok (d\<lparr>queues := qs\<rparr>) = jobs_ok d"
  by (simp add: jobs_ok_def trail_ok_def state_trail_def)

lemma set_queue_control_ok [simp]: "jobs_ok (set_queue_control name p mc rl period lanes d) = jobs_ok d"
  by (simp add: set_queue_control_def jobs_ok_queues split: option.split)

text \<open>What a claim takes, of the rows of the database it runs on.\<close>

definition takes :: "claimer \<Rightarrow> instant \<Rightarrow> job_id set \<Rightarrow> bool \<Rightarrow> database \<Rightarrow> jorb list" where
  "takes w now locked held d = (case claim_jorb w now locked held d of Inl _ \<Rightarrow> [] | Inr (ks, _) \<Rightarrow> ks)"

lemma takes_eq:
  assumes "jobs_ok d"
  shows "takes w now locked held d =
    (if queue_open d (c_queue w) now held
     then (case pick (candidates w now locked (blocked_lanes d (c_queue w) now) (jobs d)) of
             None \<Rightarrow> [] | Some j \<Rightarrow> [claim_set w now j]) else [])"
  by (simp add: takes_def claim_jorb_eq claim_from_eq [OF assms] Let_def)

text \<open>
  Pausing is complete and resuming undoes it. While a queue is paused no claim on it
  admits anything, whoever makes it, and claims on every other queue admit what they
  admitted before; after it is resumed, every claim on any queue admits exactly what it
  admitted before the pause, its limits included, if the queue was not paused already.
\<close>

theorem resuming_undoes_a_pause:
  assumes ok: "jobs_ok d" and "\<not> paused (queue_control d name)"
  shows "takes w now locked held (pause_queue name d) = (if c_queue w = name then [] else takes w now locked held d)
    \<and> takes w now locked held (resume_queue name (pause_queue name d)) = takes w now locked held d"
proof -
  have other: "queue_open (set_queue_control name p Unset Unset None None e) q now held = queue_open e q now held"
    "blocked_lanes (set_queue_control name p Unset Unset None None e) q now = blocked_lanes e q now"
    if "q \<noteq> name" for p e q
    using that by (simp_all add: queue_open_def blocked_lanes_def queue_control_set Let_def)
  have closed_now: "\<not> queue_open (pause_queue name d) name now held"
    by (simp add: pause_queue_def queue_open_def queue_control_set coalesce_def paused_def Let_def split: option.split)
  let ?resumed = "resume_queue name (pause_queue name d)"
  have limits: "\<not> paused (queue_control ?resumed name)" "concurrency_cap (queue_control ?resumed name) = concurrency_cap (queue_control d name)"
    "rate_cap (queue_control ?resumed name) = rate_cap (queue_control d name)"
    "partitioned (queue_control ?resumed name) = partitioned (queue_control d name)"
    "queue_control d name \<noteq> None \<Longrightarrow> queue_control ?resumed name = queue_control d name"
    using assms(2)
    by (auto simp: pause_queue_def resume_queue_def queue_control_set coalesce_def paused_def limited_def partitioned_def
        concurrency_cap_def rate_cap_def split: option.split)
  have jobs: "jobs ?resumed = jobs d" by (simp add: pause_queue_def resume_queue_def)
  have none: "concurrency_cap None = None" "rate_cap None = None" "\<not> paused None"
    by (simp_all add: concurrency_cap_def rate_cap_def paused_def)
  have "queue_open ?resumed name now held = queue_open d name now held"
    "blocked_lanes ?resumed name now = blocked_lanes d name now"
    using limits none
    by (cases "queue_control d name"; simp add: queue_open_def blocked_lanes_def Let_def limited_def partitioned_def jobs)
      (cases "queue_control d name"; use limits none in \<open>auto simp: blocked_lanes_def Let_def limited_def partitioned_def jobs\<close>)
  note same = this
  show ?thesis
  proof (cases "c_queue w = name")
    case True
    then show ?thesis using closed_now same
      by (simp add: takes_eq ok pause_queue_def resume_queue_def)
  next
    case False
    then show ?thesis by (simp add: takes_eq ok pause_queue_def resume_queue_def other)
  qed
qed

section \<open>Job classes\<close>

definition MAX_JOB_CLASS_LENGTH :: nat where
  "MAX_JOB_CLASS_LENGTH = 255"

text \<open>
  \<open>_JOB_CLASS_RE\<close>: an identifier, then one or more of a dot and an identifier, then \<open>$\<close>, which
  in Python matches at the end and before a newline at the end.
\<close>

definition ident_start :: "char \<Rightarrow> bool" where
  "ident_start c \<longleftrightarrow> (let n = of_char c :: nat in 65 \<le> n \<and> n \<le> 90 \<or> 97 \<le> n \<and> n \<le> 122 \<or> n = 95)"

definition ident_char :: "char \<Rightarrow> bool" where
  "ident_char c \<longleftrightarrow> ident_start c \<or> (let n = of_char c :: nat in 48 \<le> n \<and> n \<le> 57)"

definition newline :: char where
  "newline = CHR 0x0A"

definition match_ident :: "string \<Rightarrow> string option" where
  "match_ident s =
     (case s of [] \<Rightarrow> None | c # cs \<Rightarrow> if ident_start c then Some (dropWhile ident_char cs) else None)"

lemma match_ident_shorter: "match_ident s = Some r \<Longrightarrow> length r < length s"
  by (auto simp: match_ident_def less_Suc_eq_le length_dropWhile_le split: list.splits if_splits)

function match_class :: "nat \<Rightarrow> string \<Rightarrow> bool" where
  "match_class n s =
     (case match_ident s of
        None \<Rightarrow> False
      | Some r \<Rightarrow>
          if r = [] \<or> r = [newline] then 1 \<le> n
          else hd r = CHR ''.'' \<and> match_class (Suc n) (tl r))"
  by auto
termination
  by (relation "measure (\<lambda>(n, s). length s)") (auto dest!: match_ident_shorter)

declare match_class.simps [simp del]

definition validate_job_class :: "string \<Rightarrow> admin_error + string" where
  "validate_job_class s =
     (if MAX_JOB_CLASS_LENGTH < length s then Inl JobClassTooLong
      else if \<not> match_class 0 s then Inl (JobClassMalformed s)
      else Inr s)"

text \<open>The names the pattern stands for.\<close>

definition py_name :: "string \<Rightarrow> bool" where
  "py_name w \<longleftrightarrow> (\<exists>c cs. w = c # cs \<and> ident_start c \<and> list_all ident_char cs)"

fun dotted :: "string list \<Rightarrow> string" where
  "dotted [] = []"
| "dotted [w] = w"
| "dotted (w # v # ws) = w @ CHR ''.'' # dotted (v # ws)"

lemma match_ident_Some:
  "match_ident s = Some r \<longleftrightarrow> (\<exists>w. py_name w \<and> s = w @ r \<and> (r = [] \<or> \<not> ident_char (hd r)))"
proof
  assume "match_ident s = Some r"
  then obtain c cs where s: "s = c # cs" "ident_start c" "r = dropWhile ident_char cs"
    by (auto simp: match_ident_def split: list.splits if_splits)
  moreover have "py_name (c # takeWhile ident_char cs)"
    using s(2) by (auto simp: py_name_def list_all_iff dest: set_takeWhileD)
  ultimately show "\<exists>w. py_name w \<and> s = w @ r \<and> (r = [] \<or> \<not> ident_char (hd r))"
    using hd_dropWhile [of ident_char cs] by (intro exI [of _ "c # takeWhile ident_char cs"]) auto
next
  assume "\<exists>w. py_name w \<and> s = w @ r \<and> (r = [] \<or> \<not> ident_char (hd r))"
  then obtain c cs where "s = c # cs @ r" "ident_start c" "list_all ident_char cs" "r = [] \<or> \<not> ident_char (hd r)"
    by (auto simp: py_name_def)
  moreover from this have "dropWhile ident_char (cs @ r) = r"
    by (cases r) (auto simp: list_all_iff dropWhile_append2)
  ultimately show "match_ident s = Some r" by (simp add: match_ident_def)
qed

lemma separators [simp]: "\<not> ident_char newline" "\<not> ident_char (CHR ''.'')" "newline \<noteq> CHR ''.''" "CHR ''.'' \<noteq> newline"
  by (simp_all add: ident_char_def ident_start_def newline_def)

lemma match_class_iff:
  "match_class n s \<longleftrightarrow>
     (\<exists>ws tail. ws \<noteq> [] \<and> 2 \<le> n + length ws \<and> list_all py_name ws \<and> (tail = [] \<or> tail = [newline])
        \<and> s = dotted ws @ tail)"
proof (induction n s rule: match_class.induct)
  case (1 n s)
  show ?case
  proof
    assume "match_class n s"
    then obtain r where r: "match_ident s = Some r"
      "if r = [] \<or> r = [newline] then 1 \<le> n else hd r = CHR ''.'' \<and> match_class (Suc n) (tl r)"
      by (subst (asm) match_class.simps) (auto split: option.splits)
    from r(1) obtain w where w: "py_name w" "s = w @ r" by (auto simp: match_ident_Some)
    show "\<exists>ws tail. ws \<noteq> [] \<and> 2 \<le> n + length ws \<and> list_all py_name ws \<and> (tail = [] \<or> tail = [newline])
        \<and> s = dotted ws @ tail"
    proof (cases "r = [] \<or> r = [newline]")
      case True
      with r(2) w show ?thesis by (intro exI [of _ "[w]"] exI [of _ r]) auto
    next
      case False
      with r 1 obtain ws tail where ws: "ws \<noteq> []" "2 \<le> Suc n + length ws" "list_all py_name ws"
        "tail = [] \<or> tail = [newline]" "tl r = dotted ws @ tail" by auto
      moreover have "r = CHR ''.'' # tl r" using False r(2) by (cases r) auto
      ultimately show ?thesis
        using w by (intro exI [of _ "w # ws"] exI [of _ tail]) (cases ws; auto)
    qed
  next
    assume "\<exists>ws tail. ws \<noteq> [] \<and> 2 \<le> n + length ws \<and> list_all py_name ws \<and> (tail = [] \<or> tail = [newline])
        \<and> s = dotted ws @ tail"
    then obtain w ws tail where ws: "2 \<le> n + length (w # ws)" "list_all py_name (w # ws)"
      "tail = [] \<or> tail = [newline]" "s = dotted (w # ws) @ tail" by (metis neq_Nil_conv)
    show "match_class n s"
    proof (cases ws)
      case Nil
      with ws have "match_ident s = Some tail" by (auto simp: match_ident_Some)
      with ws Nil show ?thesis by (subst match_class.simps) auto
    next
      case (Cons v vs)
      let ?r = "CHR ''.'' # dotted ws @ tail"
      have r: "match_ident s = Some ?r" using ws Cons by (auto simp: match_ident_Some)
      moreover have "match_class (Suc n) (tl ?r)"
        using 1 [OF r] ws Cons by (auto intro!: exI [of _ ws] exI [of _ tail])
      ultimately show ?thesis by (subst match_class.simps) auto
    qed
  qed
qed

text \<open>
  \<open>validate_job_class\<close> accepts exactly the dotted import paths: at most 255 characters, two
  or more ASCII identifiers joined by single dots -- and, as the pattern's \<open>$\<close> also matches
  there, any such path followed by one newline.
\<close>

theorem job_classes_are_dotted_paths:
  "validate_job_class s = Inr s' \<longleftrightarrow>
     s' = s \<and> length s \<le> 255
     \<and> (\<exists>ws tail. 2 \<le> length ws \<and> list_all py_name ws \<and> (tail = [] \<or> tail = [newline]) \<and> s = dotted ws @ tail)"
  by (auto simp: validate_job_class_def match_class_iff MAX_JOB_CLASS_LENGTH_def)

section \<open>Schedules\<close>

text \<open>The arguments of \<open>create_schedule\<close>; a description and a creator are only stored.\<close>

record schedule_request =
  rq_name :: string
  rq_job_class :: string
  rq_cron_expr :: string
  rq_queue :: string
  rq_kwargs :: "(string \<times> json) list"
  rq_priority :: int
  rq_capability :: "string option"
  rq_timezone :: string
  rq_enabled :: bool
  rq_max_concurrent_jobs :: int
  rq_jitter_seconds :: int
  rq_backfill_limit :: int
  rq_backpressure_threshold :: "int option"
  rq_circuit_breaker_threshold :: int

definition schedule_request_of :: "string \<Rightarrow> string \<Rightarrow> string \<Rightarrow> schedule_request" where
  "schedule_request_of name job_class cron_expr =
     \<lparr>rq_name = name, rq_job_class = job_class, rq_cron_expr = cron_expr, rq_queue = ''default'', rq_kwargs = [],
      rq_priority = 100, rq_capability = None, rq_timezone = ''UTC'', rq_enabled = True,
      rq_max_concurrent_jobs = 1, rq_jitter_seconds = 0, rq_backfill_limit = 0,
      rq_backpressure_threshold = Some 1000, rq_circuit_breaker_threshold = 5\<rparr>"

text \<open>\<open>INSERT INTO jorb_schedule ... RETURNING\<close>: the rest of the row is the table's defaults.\<close>

definition new_schedule :: "int \<Rightarrow> instant \<Rightarrow> schedule_request \<Rightarrow> instant \<Rightarrow> schedule" where
  "new_schedule i now rq next_run =
     \<lparr>sc_id = i, sc_name = rq_name rq, sc_job_class = rq_job_class rq, sc_kwargs = rq_kwargs rq,
      sc_queue = rq_queue rq, sc_prio = rq_priority rq, sc_capability = rq_capability rq,
      sc_cron_expr = rq_cron_expr rq, sc_timezone = rq_timezone rq, sc_enabled = rq_enabled rq,
      sc_max_concurrent_jobs = rq_max_concurrent_jobs rq, sc_jitter_seconds = rq_jitter_seconds rq,
      sc_backfill_limit = rq_backfill_limit rq, sc_backpressure_threshold = rq_backpressure_threshold rq,
      sc_circuit_breaker_threshold = rq_circuit_breaker_threshold rq, sc_consecutive_failures = 0,
      sc_next_run = next_run, sc_last_run = None, sc_last_success = None, sc_last_failure = None,
      sc_run_count = 0, sc_success_count = 0, sc_failure_count = 0, sc_skip_count = 0, sc_updated = now\<rparr>"

definition insert_schedule ::
  "int \<Rightarrow> instant \<Rightarrow> schedule_request \<Rightarrow> instant \<Rightarrow> scheduler_state
     \<Rightarrow> (admin_error + schedule) \<times> scheduler_state" where
  "insert_schedule i now rq next_run st =
     (if rq_name rq \<in> sc_name ` set (ss_schedules st) then (Inl (DuplicateName (rq_name rq)), st)
      else let s = new_schedule i now rq next_run in (Inr s, st\<lparr>ss_schedules := ss_schedules st @ [s]\<rparr>))"

text \<open>\<open>ScheduleManager.create_schedule\<close>, and \<open>AdminAPI.create_schedule\<close> with its two checks before it.\<close>

definition manager_create_schedule ::
  "cron_lib \<Rightarrow> int \<Rightarrow> instant \<Rightarrow> schedule_request \<Rightarrow> scheduler_state
     \<Rightarrow> ((admin_error + schedule) \<times> scheduler_state) option" where
  "manager_create_schedule lib i now rq st =
     (case next_cron_run lib (rq_cron_expr rq) (rq_timezone rq) now of
        None \<Rightarrow> None
      | Some (Inl e) \<Rightarrow> Some (Inl (CronRefused e), st)
      | Some (Inr f) \<Rightarrow> Some (insert_schedule i now rq (tk_at f) st))"

definition create_schedule ::
  "cron_lib \<Rightarrow> int \<Rightarrow> int \<Rightarrow> instant \<Rightarrow> schedule_request \<Rightarrow> scheduler_state
     \<Rightarrow> ((admin_error + schedule) \<times> scheduler_state) option" where
  "create_schedule lib prio_ceiling i now rq st =
     (case validate_priority (rq_priority rq) prio_ceiling of
        Inl e \<Rightarrow> Some (Inl (RuleRefused e), st)
      | Inr _ \<Rightarrow>
          (case validate_job_class (rq_job_class rq) of
             Inl e \<Rightarrow> Some (Inl e, st)
           | Inr _ \<Rightarrow> manager_create_schedule lib i now rq st))"

text \<open>The keyword arguments of \<open>update_schedule\<close>, each at most once.\<close>

datatype schedule_update =
    UName string
  | UDescription "string option"
  | UJobClass string
  | UKwargs "(string \<times> json) list"
  | UQueue string
  | UPriority int
  | UPrio int
  | UCapability "string option"
  | UCronExpr string
  | UTimezone string
  | UEnabled bool
  | UMaxConcurrentJobs int
  | UJitterSeconds int
  | UBackfillLimit int
  | UBackpressureThreshold "int option"
  | UCircuitBreakerThreshold int
  | UConsecutiveFailures int
  | UOther string

fun priority_of :: "schedule_update \<Rightarrow> int option" where
  "priority_of (UPriority p) = Some p"
| "priority_of _ = None"

fun prio_of :: "schedule_update \<Rightarrow> int option" where
  "prio_of (UPrio p) = Some p"
| "prio_of _ = None"

fun job_class_of :: "schedule_update \<Rightarrow> string option" where
  "job_class_of (UJobClass c) = Some c"
| "job_class_of _ = None"

fun cron_expr_of :: "schedule_update \<Rightarrow> string option" where
  "cron_expr_of (UCronExpr e) = Some e"
| "cron_expr_of _ = None"

fun timezone_of :: "schedule_update \<Rightarrow> string option" where
  "timezone_of (UTimezone z) = Some z"
| "timezone_of _ = None"

fun name_of :: "schedule_update \<Rightarrow> string option" where
  "name_of (UName n) = Some n"
| "name_of _ = None"

definition given_in :: "(schedule_update \<Rightarrow> 'a option) \<Rightarrow> schedule_update list \<Rightarrow> 'a option" where
  "given_in g us = (case List.map_filter g us of [] \<Rightarrow> None | x # _ \<Rightarrow> Some x)"

text \<open>\<open>updates["prio"] = updates.pop("priority")\<close>, then the allow-list.\<close>

definition allowed_updates :: "schedule_update list \<Rightarrow> schedule_update list" where
  "allowed_updates us =
     (let us' = (case given_in priority_of us of
                   None \<Rightarrow> us
                 | Some p \<Rightarrow> filter (\<lambda>u. priority_of u = None \<and> prio_of u = None) us @ [UPrio p])
      in filter (\<lambda>u. case u of UOther _ \<Rightarrow> False | _ \<Rightarrow> True) us')"

fun apply_update :: "schedule_update \<Rightarrow> schedule \<Rightarrow> schedule" where
  "apply_update (UName n) s = s\<lparr>sc_name := n\<rparr>"
| "apply_update (UJobClass c) s = s\<lparr>sc_job_class := c\<rparr>"
| "apply_update (UKwargs kw) s = s\<lparr>sc_kwargs := kw\<rparr>"
| "apply_update (UQueue q) s = s\<lparr>sc_queue := q\<rparr>"
| "apply_update (UPrio p) s = s\<lparr>sc_prio := p\<rparr>"
| "apply_update (UCapability c) s = s\<lparr>sc_capability := c\<rparr>"
| "apply_update (UCronExpr e) s = s\<lparr>sc_cron_expr := e\<rparr>"
| "apply_update (UTimezone z) s = s\<lparr>sc_timezone := z\<rparr>"
| "apply_update (UEnabled b) s = s\<lparr>sc_enabled := b\<rparr>"
| "apply_update (UMaxConcurrentJobs n) s = s\<lparr>sc_max_concurrent_jobs := n\<rparr>"
| "apply_update (UJitterSeconds n) s = s\<lparr>sc_jitter_seconds := n\<rparr>"
| "apply_update (UBackfillLimit n) s = s\<lparr>sc_backfill_limit := n\<rparr>"
| "apply_update (UBackpressureThreshold t) s = s\<lparr>sc_backpressure_threshold := t\<rparr>"
| "apply_update (UCircuitBreakerThreshold n) s = s\<lparr>sc_circuit_breaker_threshold := n\<rparr>"
| "apply_update (UConsecutiveFailures n) s = s\<lparr>sc_consecutive_failures := n\<rparr>"
| "apply_update _ s = s"

definition reschedules :: "schedule_update list \<Rightarrow> bool" where
  "reschedules us \<longleftrightarrow> given_in cron_expr_of us \<noteq> None \<or> given_in timezone_of us \<noteq> None"

text \<open>The next run an update writes: recomputed when the expression or the zone is among it.\<close>

definition next_run_for ::
  "cron_lib \<Rightarrow> instant \<Rightarrow> schedule_update list \<Rightarrow> int \<Rightarrow> scheduler_state \<Rightarrow> (admin_error + instant option) option" where
  "next_run_for lib now us i st =
     (if \<not> reschedules us then Some (Inr None)
      else case find_row sc_id i (ss_schedules st) of
             None \<Rightarrow> Some (Inl (ScheduleNotFound i))
           | Some s \<Rightarrow>
               (case next_cron_run lib (coalesce (given_in cron_expr_of us) (sc_cron_expr s))
                       (coalesce (given_in timezone_of us) (sc_timezone s)) now of
                  None \<Rightarrow> None
                | Some (Inl e) \<Rightarrow> Some (Inl (CronRefused e))
                | Some (Inr f) \<Rightarrow> Some (Inr (Some (tk_at f)))))"

definition write_schedule ::
  "int \<Rightarrow> instant \<Rightarrow> schedule_update list \<Rightarrow> instant option \<Rightarrow> scheduler_state
     \<Rightarrow> (admin_error + schedule) \<times> scheduler_state" where
  "write_schedule i now us next_run st =
     (case find_row sc_id i (ss_schedules st) of
        None \<Rightarrow> (Inl (ScheduleNotFound i), st)
      | Some s \<Rightarrow>
          (let s' = (fold apply_update us s)\<lparr>sc_next_run := coalesce next_run (sc_next_run s), sc_updated := now\<rparr>
           in if list_ex (\<lambda>x. sc_id x \<noteq> i \<and> sc_name x = sc_name s') (ss_schedules st)
              then (Inl (DuplicateName (sc_name s')), st)
              else (Inr s', update_schedule i (\<lambda>_. s') st)))"

definition check_update_prio :: "int \<Rightarrow> schedule_update list \<Rightarrow> admin_error + unit" where
  "check_update_prio prio_ceiling us =
     (case given_in prio_of us of
        None \<Rightarrow> Inr ()
      | Some p \<Rightarrow> (case validate_priority p prio_ceiling of Inl e \<Rightarrow> Inl (RuleRefused e) | Inr _ \<Rightarrow> Inr ()))"

definition check_update_class :: "schedule_update list \<Rightarrow> admin_error + unit" where
  "check_update_class us =
     (case given_in job_class_of us of
        None \<Rightarrow> Inr ()
      | Some c \<Rightarrow> bind_sum (validate_job_class c) (\<lambda>_. Inr ()))"

definition update_schedule_fields ::
  "cron_lib \<Rightarrow> int \<Rightarrow> instant \<Rightarrow> int \<Rightarrow> schedule_update list \<Rightarrow> scheduler_state
     \<Rightarrow> ((admin_error + schedule) \<times> scheduler_state) option" where
  "update_schedule_fields lib prio_ceiling now i updates st =
     (let us = allowed_updates updates in
      if us = [] then Some (Inl NoValidFields, st)
      else case bind_sum (check_update_prio prio_ceiling us) (\<lambda>_. check_update_class us) of
        Inl e \<Rightarrow> Some (Inl e, st)
      | Inr _ \<Rightarrow>
      (case next_run_for lib now us i st of
         None \<Rightarrow> None
       | Some (Inl e) \<Rightarrow> Some (Inl e, st)
       | Some (Inr next_run) \<Rightarrow> Some (write_schedule i now us next_run st)))"

definition enable_schedule ::
  "cron_lib \<Rightarrow> int \<Rightarrow> instant \<Rightarrow> int \<Rightarrow> scheduler_state \<Rightarrow> ((admin_error + schedule) \<times> scheduler_state) option" where
  "enable_schedule lib prio_ceiling now i st =
     update_schedule_fields lib prio_ceiling now i [UEnabled True, UConsecutiveFailures 0] st"

definition disable_schedule ::
  "cron_lib \<Rightarrow> int \<Rightarrow> instant \<Rightarrow> int \<Rightarrow> scheduler_state \<Rightarrow> ((admin_error + schedule) \<times> scheduler_state) option" where
  "disable_schedule lib prio_ceiling now i st = update_schedule_fields lib prio_ceiling now i [UEnabled False] st"

text \<open>The log rows of a schedule go with it; its jobs keep the id of the schedule that made them.\<close>

definition delete_schedule :: "int \<Rightarrow> scheduler_state \<Rightarrow> (admin_error + unit) \<times> scheduler_state" where
  "delete_schedule i st =
     (if i \<notin> sc_id ` set (ss_schedules st) then (Inl (ScheduleNotFound i), st)
      else (Inr (), st\<lparr>ss_schedules := filter (\<lambda>s. sc_id s \<noteq> i) (ss_schedules st),
                       ss_log := filter (\<lambda>l. ex_schedule_id l \<noteq> i) (ss_log st)\<rparr>))"

section \<open>Schedules, proved\<close>

text \<open>\<open>next_cron_run\<close> answers, and with the first fire after its instant when it accepts.\<close>

lemma next_cron_run_law:
  assumes "cron_law (cr_next lib tz' zone')" "tz' = expr" "zone' = tz"
  shows "\<exists>r. next_cron_run lib expr tz now = Some r
    \<and> (\<forall>f. r = Inr f \<longrightarrow> now < tk_at f
          \<and> fires_between (cr_next lib expr tz) (is_wall_clock_anchored expr) now (tk_at f - 1) = [])
    \<and> ((\<exists>f. r = Inr f) \<longleftrightarrow> cr_zone lib tz \<and> cr_valid lib expr)"
proof -
  obtain f where f: "next_fire (cr_next lib expr tz) (is_wall_clock_anchored expr) now = Some f" "now < tk_at f"
    "fires_between (cr_next lib expr tz) (is_wall_clock_anchored expr) now (tk_at f - 1) = []"
    using next_fire_returns [of "cr_next lib expr tz" "is_wall_clock_anchored expr" now] assms by auto
  then show ?thesis by (simp add: next_cron_run_def resolve_timezone_def validate_cron_def)
qed

text \<open>
  A new schedule waits for its first tick. Creating a schedule always answers; it is
  accepted exactly when its priority is within the ceiling, its job class is a dotted path,
  its zone and expression can be evaluated and its name is free. An accepted one is added
  with all counters at zero and the first fire time after the database's clock, so it is
  not due yet and no tick lies between; a refused one changes nothing.
\<close>

theorem a_new_schedule_waits_for_its_first_tick:
  assumes law: "cron_law (cr_next lib (rq_cron_expr rq) (rq_timezone rq))"
  shows "\<exists>r st'. create_schedule lib prio_ceiling i now rq st = Some (r, st')
    \<and> ((\<exists>s. r = Inr s) \<longleftrightarrow> rq_priority rq \<le> prio_ceiling \<and> validate_job_class (rq_job_class rq) = Inr (rq_job_class rq)
          \<and> cr_zone lib (rq_timezone rq) \<and> cr_valid lib (rq_cron_expr rq) \<and> rq_name rq \<notin> sc_name ` set (ss_schedules st))
    \<and> (\<forall>s. r = Inr s \<longrightarrow> ss_schedules st' = ss_schedules st @ [s] \<and> ss_db st' = ss_db st \<and> sc_id s = i
          \<and> \<not> due now s \<and> now < sc_next_run s
          \<and> fires_between (cr_next lib (rq_cron_expr rq) (rq_timezone rq)) (is_wall_clock_anchored (rq_cron_expr rq))
              now (sc_next_run s - 1) = []
          \<and> sc_run_count s = 0 \<and> sc_success_count s = 0 \<and> sc_failure_count s = 0 \<and> sc_consecutive_failures s = 0)
    \<and> (\<forall>e. r = Inl e \<longrightarrow> st' = st)"
proof -
  have accepted: "(\<exists>c. validate_job_class s = Inr c) \<longleftrightarrow> validate_job_class s = Inr s" for s
    by (auto simp: validate_job_class_def split: if_splits)
  obtain r where r: "next_cron_run lib (rq_cron_expr rq) (rq_timezone rq) now = Some r"
    "\<forall>f. r = Inr f \<longrightarrow> now < tk_at f
      \<and> fires_between (cr_next lib (rq_cron_expr rq) (rq_timezone rq)) (is_wall_clock_anchored (rq_cron_expr rq)) now (tk_at f - 1) = []"
    "(\<exists>f. r = Inr f) \<longleftrightarrow> cr_zone lib (rq_timezone rq) \<and> cr_valid lib (rq_cron_expr rq)"
    using next_cron_run_law [OF law refl refl, of now] by blast
  show ?thesis
    using r accepted [of "rq_job_class rq"]
    by (cases "rq_priority rq \<le> prio_ceiling"; cases "validate_job_class (rq_job_class rq)"; cases r)
      (auto simp: create_schedule_def manager_create_schedule_def validate_priority_def insert_schedule_def
        new_schedule_def due_def Let_def)
qed

lemma apply_update_keeps:
  "sc_id (fold apply_update us s) = sc_id s" "sc_run_count (fold apply_update us s) = sc_run_count s"
  "sc_success_count (fold apply_update us s) = sc_success_count s"
  "sc_failure_count (fold apply_update us s) = sc_failure_count s"
  "sc_skip_count (fold apply_update us s) = sc_skip_count s" "sc_last_run (fold apply_update us s) = sc_last_run s"
proof -
  have "sc_id (apply_update u s) = sc_id s" "sc_run_count (apply_update u s) = sc_run_count s"
    "sc_success_count (apply_update u s) = sc_success_count s" "sc_failure_count (apply_update u s) = sc_failure_count s"
    "sc_skip_count (apply_update u s) = sc_skip_count s" "sc_last_run (apply_update u s) = sc_last_run s" for u s
    by (cases u; simp)+
  then show "sc_id (fold apply_update us s) = sc_id s" "sc_run_count (fold apply_update us s) = sc_run_count s"
    "sc_success_count (fold apply_update us s) = sc_success_count s"
    "sc_failure_count (fold apply_update us s) = sc_failure_count s"
    "sc_skip_count (fold apply_update us s) = sc_skip_count s" "sc_last_run (fold apply_update us s) = sc_last_run s"
    by (induction us arbitrary: s) auto
qed

lemma next_run_for_law:
  assumes "\<And>expr tz. cron_law (cr_next lib expr tz)" "find_row sc_id i (ss_schedules st) = Some s"
  shows "\<exists>r. next_run_for lib now us i st = Some r
    \<and> (\<forall>n. r = Inr n \<longrightarrow>
        (if reschedules us
         then let expr = coalesce (given_in cron_expr_of us) (sc_cron_expr s);
                  tz = coalesce (given_in timezone_of us) (sc_timezone s)
              in \<exists>t. n = Some t \<and> now < t
                   \<and> fires_between (cr_next lib expr tz) (is_wall_clock_anchored expr) now (t - 1) = []
         else n = None))"
proof -
  let ?expr = "coalesce (given_in cron_expr_of us) (sc_cron_expr s)"
  let ?tz = "coalesce (given_in timezone_of us) (sc_timezone s)"
  obtain r where "next_cron_run lib ?expr ?tz now = Some r"
    "\<forall>f. r = Inr f \<longrightarrow> now < tk_at f
      \<and> fires_between (cr_next lib ?expr ?tz) (is_wall_clock_anchored ?expr) now (tk_at f - 1) = []"
    using next_cron_run_law [OF assms(1) refl refl, of ?expr ?tz now] by blast
  then show ?thesis by (cases r) (simp_all add: next_run_for_def assms(2) Let_def)
qed

lemma update_schedule_cases:
  assumes "next_run_for lib now (allowed_updates updates) i st = Some r"
  shows "(\<exists>e. update_schedule_fields lib prio_ceiling now i updates st = Some (Inl e, st))
    \<or> (\<exists>n. r = Inr n \<and> update_schedule_fields lib prio_ceiling now i updates st
          = Some (write_schedule i now (allowed_updates updates) n st))"
proof -
  let ?us = "allowed_updates updates"
  show ?thesis
    using assms
    by (cases "bind_sum (check_update_prio prio_ceiling ?us) (\<lambda>_. check_update_class ?us)"; cases r)
      (simp_all add: update_schedule_fields_def Let_def)
qed

lemma find_row_write:
  assumes "find_row sc_id i (ss_schedules st) = Some s" "sc_id s' = i"
  shows "find_row sc_id k (ss_schedules (update_schedule i (\<lambda>_. s') st)) =
    (if k = i then Some s' else find_row sc_id k (ss_schedules st))"
proof -
  have "find_row sc_id k (map (\<lambda>x. if sc_id x = i then s' else x) rows) =
      (if k = i then map_option (\<lambda>_. s') (find_row sc_id i rows) else find_row sc_id k rows)" for rows
    using assms(2) by (induction rows) auto
  with assms(1) show ?thesis by (simp add: update_schedule_def)
qed

text \<open>
  An update keeps the clockwork. Updating an existing schedule always answers. A refused
  update changes nothing. An accepted one changes that row only and keeps its identity, its
  counters and its last run; if the expression or the zone is among the fields, the next run
  is the first fire time of the new pair after the database's clock, and otherwise it stays --
  so a schedule enabled again after its next run has passed is due at once.
\<close>

theorem an_update_keeps_the_clockwork:
  fixes updates
  defines "us \<equiv> allowed_updates updates"
  assumes law: "\<And>expr tz. cron_law (cr_next lib expr tz)" and s: "find_row sc_id i (ss_schedules st) = Some s"
  shows "\<exists>r st'. update_schedule_fields lib prio_ceiling now i updates st = Some (r, st')
    \<and> (\<forall>e. r = Inl e \<longrightarrow> st' = st)
    \<and> (\<forall>s'. r = Inr s' \<longrightarrow> find_row sc_id i (ss_schedules st') = Some s'
          \<and> (\<forall>k. k \<noteq> i \<longrightarrow> find_row sc_id k (ss_schedules st') = find_row sc_id k (ss_schedules st))
          \<and> ss_db st' = ss_db st \<and> ss_log st' = ss_log st
          \<and> sc_id s' = i \<and> sc_run_count s' = sc_run_count s \<and> sc_success_count s' = sc_success_count s
          \<and> sc_failure_count s' = sc_failure_count s \<and> sc_skip_count s' = sc_skip_count s \<and> sc_last_run s' = sc_last_run s
          \<and> (if reschedules us
             then let expr = coalesce (given_in cron_expr_of us) (sc_cron_expr s);
                      tz = coalesce (given_in timezone_of us) (sc_timezone s)
                  in now < sc_next_run s'
                     \<and> fires_between (cr_next lib expr tz) (is_wall_clock_anchored expr) now (sc_next_run s' - 1) = []
             else sc_next_run s' = sc_next_run s))"
proof -
  have i: "sc_id s = i" using s by (auto dest: find_row_SomeD)
  obtain r where ahead: "next_run_for lib now us i st = Some r"
    "\<forall>n. r = Inr n \<longrightarrow>
        (if reschedules us
         then let expr = coalesce (given_in cron_expr_of us) (sc_cron_expr s);
                  tz = coalesce (given_in timezone_of us) (sc_timezone s)
              in \<exists>t. n = Some t \<and> now < t
                   \<and> fires_between (cr_next lib expr tz) (is_wall_clock_anchored expr) now (t - 1) = []
         else n = None)"
    using next_run_for_law [OF law s, of now us] by blast
  consider e where "update_schedule_fields lib prio_ceiling now i updates st = Some (Inl e, st)"
    | n where "r = Inr n" "update_schedule_fields lib prio_ceiling now i updates st = Some (write_schedule i now us n st)"
    using update_schedule_cases [OF ahead(1) [unfolded us_def]] unfolding us_def by blast
  then show ?thesis
  proof cases
    case (1 e)
    then show ?thesis by simp
  next
    case run: (2 n)
    let ?s = "(fold apply_update us s)\<lparr>sc_next_run := coalesce n (sc_next_run s), sc_updated := now\<rparr>"
    have w: "write_schedule i now us n st = (Inl (DuplicateName (sc_name ?s)), st)
      \<or> write_schedule i now us n st = (Inr ?s, update_schedule i (\<lambda>_. ?s) st)"
      by (simp add: write_schedule_def s Let_def)
    have "find_row sc_id k (ss_schedules (update_schedule i (\<lambda>_. ?s) st))
        = (if k = i then Some ?s else find_row sc_id k (ss_schedules st))" for k
      by (rule find_row_write [OF s]) (simp add: apply_update_keeps i)
    with w show ?thesis
      unfolding run(2) using ahead(2) run(1)
      by (cases "reschedules us") (auto simp: apply_update_keeps i coalesce_def Let_def update_schedule_def)
  qed
qed

section \<open>Witnesses\<close>

definition claimer_at :: "string \<Rightarrow> claimer" where
  "claimer_at queue = \<lparr>c_queue = queue, c_capabilities = [], c_max_prio = 1000, c_app_version = None,
     c_worker_pid = 1, c_worker_host = ''h'', c_worker_id = Some 1\<rparr>"

definition two_queues :: database where
  "two_queues = seed_db [((default_jorb 0 1)\<lparr>j_queue := ''mail''\<rparr>, [Queued]), (default_jorb 0 2, [Queued])]"

lemma two_queues_ok: "jobs_ok two_queues"
  by (simp add: two_queues_def seed_simps)

lemma two_queues_jobs: "jobs two_queues = [(default_jorb 0 1)\<lparr>j_queue := ''mail''\<rparr>, default_jorb 0 2]"
  by (simp add: two_queues_def seed_db_def empty_db_def)

theorem clearing_a_queue_is_purging_it_witness:
  "\<exists>n d'. clear_queue 10 ''mail'' CLEAR_QUEUE_STATES None two_queues = (Inr n, d') \<and> n = 1
     \<and> lookup_job d' 1 = None \<and> lookup_job d' 2 \<noteq> None"
  using clearing_a_queue_is_purging_it [OF two_queues_ok, of "''mail''" 10 CLEAR_QUEUE_STATES]
  by (auto simp: two_queues_jobs lookup_job_def CLEAR_QUEUE_STATES_def)

theorem clearing_the_unnamed_queue_clears_them_all_witness:
  "\<exists>n d'. clear_queue 10 [] CLEAR_QUEUE_STATES None two_queues = (Inr n, d') \<and> n = 2
     \<and> lookup_job d' 1 = None \<and> lookup_job d' 2 = None"
proof -
  have "lookup_job two_queues 1 = Some ((default_jorb 0 1)\<lparr>j_queue := ''mail''\<rparr>)"
    "lookup_job two_queues 2 = Some (default_jorb 0 2)"
    by (simp_all add: lookup_job_def two_queues_jobs)
  moreover have "length (filter (\<lambda>j. j_state j \<in> set CLEAR_QUEUE_STATES) (jobs two_queues)) = 2"
    by (simp add: two_queues_jobs CLEAR_QUEUE_STATES_def)
  moreover have "\<And>j. j \<in> set (jobs two_queues) \<Longrightarrow> j_queue j \<noteq> []"
    by (auto simp: two_queues_jobs)
  note clearing_the_unnamed_queue_clears_them_all [OF two_queues_ok this, of 10 CLEAR_QUEUE_STATES]
  ultimately show ?thesis by (auto simp: CLEAR_QUEUE_STATES_def)
qed

theorem resuming_undoes_a_pause_witness:
  "takes (claimer_at ''mail'') 10 {} True (pause_queue ''mail'' two_queues) = []
   \<and> length (takes (claimer_at ''mail'') 10 {} True (resume_queue ''mail'' (pause_queue ''mail'' two_queues))) = 1"
proof -
  have none: "queue_control two_queues q = None" for q
    by (simp add: queue_control_def two_queues_def seed_db_def empty_db_def)
  have "queue_open two_queues ''mail'' 10 True" "blocked_lanes two_queues ''mail'' 10 = []"
    by (simp_all add: queue_open_def blocked_lanes_def none paused_def limited_def partitioned_def
        concurrency_cap_def rate_cap_def)
  then have "length (takes (claimer_at ''mail'') 10 {} True two_queues) = 1"
    by (simp add: takes_eq two_queues_ok two_queues_jobs candidates_def eligible_def claimer_at_def pick_def)
  then show ?thesis
    using resuming_undoes_a_pause [OF two_queues_ok, of "''mail''" "claimer_at ''mail''" 10 "{}" True]
    by (simp add: none paused_def claimer_at_def)
qed

definition hourly :: schedule_request where
  "hourly = schedule_request_of ''hourly'' ''app.Job'' ''0 * * * *''"

theorem a_new_schedule_waits_for_its_first_tick_witness:
  "\<exists>s st'. create_schedule steady_lib 1000 7 25 hourly (after_outage\<lparr>ss_schedules := []\<rparr>) = Some (Inr s, st')
     \<and> \<not> due 25 s \<and> sc_id s = 7"
proof -
  have ok: "rq_priority hourly \<le> 1000" "validate_job_class (rq_job_class hourly) = Inr (rq_job_class hourly)"
    "cr_zone steady_lib (rq_timezone hourly)" "cr_valid steady_lib (rq_cron_expr hourly)"
    by code_simp+
  have "cron_law (cr_next steady_lib (rq_cron_expr hourly) (rq_timezone hourly))"
    by (simp add: steady_lib_def steady_law)
  from a_new_schedule_waits_for_its_first_tick [OF this, of 1000 7 25 "after_outage\<lparr>ss_schedules := []\<rparr>"] ok
  show ?thesis by auto
qed

theorem an_update_keeps_the_clockwork_witness:
  "\<exists>s st'. enable_schedule steady_lib 1000 25 (sc_id nightly) after_outage = Some (Inr s, st')
     \<and> sc_next_run s = sc_next_run nightly"
proof -
  have us: "\<not> reschedules (allowed_updates [UEnabled True, UConsecutiveFailures 0])" by code_simp
  have s: "find_row sc_id (sc_id nightly) (ss_schedules after_outage) = Some nightly"
    by (simp add: after_outage_def)
  have "map_option (\<lambda>(r, _). isl r)
      (update_schedule_fields steady_lib 1000 25 (sc_id nightly) [UEnabled True, UConsecutiveFailures 0] after_outage) = Some False"
    by code_simp
  then obtain x st' where run: "update_schedule_fields steady_lib 1000 25 (sc_id nightly)
      [UEnabled True, UConsecutiveFailures 0] after_outage = Some (Inr x, st')"
    by (auto simp: isl_def) (metis sum.exhaust)
  have "cron_law (cr_next steady_lib expr tz)" for expr tz
    by (simp add: steady_lib_def steady_law)
  from an_update_keeps_the_clockwork [OF this s, of 1000 25 "[UEnabled True, UConsecutiveFailures 0]"] us
  have "sc_next_run x = sc_next_run nightly" by (simp add: run)
  then show ?thesis by (simp add: enable_schedule_def run)
qed

end
