(* ===== verification/Waits.thy ===== *)
theory Waits
  imports Dxe Verbs
begin

text \<open>
  Waiting from outside (\<open>pyjobby/client.py\<close>): the one poll loop behind every \<open>wait_*\<close> call, the
  checks it runs, \<open>cancel_and_wait\<close>, and the two readers of a durable stream. What a look at
  the database finds, and the event loop's clock after it, are arguments, a value for each
  turn of the loop: a notification only decides how soon the next turn comes.
\<close>

section \<open>The poll loop\<close>

datatype wait_error =
    NoSuchJob job_id
  | JobFailed job_id "string option"
  | JobWasCancelled job_id
  | EndedWithout job_id jorbstate
  | EmptyGroup int
  | GroupCannotFinish int "job_id list"
  | TimedOut

datatype 'a look = Decided 'a | Refused wait_error | Undecided

definition LISTEN_POLL_INTERVAL :: interval where
  "LISTEN_POLL_INTERVAL = 2000000"

definition PURE_POLL_INTERVAL :: interval where
  "PURE_POLL_INTERVAL = 500000"

text \<open>The longest a turn sleeps: \<open>_wait_beat\<close> with what is left of the deadline.\<close>

definition wait_beat :: "bool \<Rightarrow> interval option \<Rightarrow> interval" where
  "wait_beat listening budget =
     (let interval = (if listening then LISTEN_POLL_INTERVAL else PURE_POLL_INTERVAL)
      in case budget of None \<Rightarrow> interval | Some b \<Rightarrow> min interval b)"

partial_function (option) poll_from ::
  "(nat \<Rightarrow> 'a look) \<Rightarrow> (nat \<Rightarrow> instant) \<Rightarrow> instant option \<Rightarrow> nat \<Rightarrow> (wait_error + 'a) option" where
  "poll_from check clock deadline k =
     (case check k of
        Decided v \<Rightarrow> Some (Inr v)
      | Refused e \<Rightarrow> Some (Inl e)
      | Undecided \<Rightarrow>
          (case deadline of
             None \<Rightarrow> poll_from check clock deadline (Suc k)
           | Some t \<Rightarrow> if t - clock k \<le> 0 then Some (Inl TimedOut)
                       else poll_from check clock deadline (Suc k)))"

declare poll_from.simps [code]

definition poll_until ::
  "(nat \<Rightarrow> 'a look) \<Rightarrow> (nat \<Rightarrow> instant) \<Rightarrow> instant \<Rightarrow> interval option \<Rightarrow> (wait_error + 'a) option" where
  "poll_until check clock start timeout =
     poll_from check clock (case timeout of None \<Rightarrow> None | Some t \<Rightarrow> Some (start + t)) 0"

section \<open>The checks\<close>

definition check_result :: "job_id \<Rightarrow> database \<Rightarrow> json option look" where
  "check_result i d =
     (case lookup_job d i of
        None \<Rightarrow> Refused (NoSuchJob i)
      | Some j \<Rightarrow>
          (case j_state j of
             Finished \<Rightarrow> Decided (j_result j)
           | Crashed \<Rightarrow> Refused (JobFailed i (j_error_message j))
           | Cancelled \<Rightarrow> Refused (JobWasCancelled i)
           | _ \<Rightarrow> Undecided))"

definition event_value :: "database \<Rightarrow> job_id \<Rightarrow> string \<Rightarrow> json option" where
  "event_value d i key = map_option e_value (find_row (\<lambda>e. (e_job_id e, e_key e)) (i, key) (events d))"

definition check_get_event :: "job_id \<Rightarrow> string \<Rightarrow> database \<Rightarrow> json look" where
  "check_get_event i key d =
     (case event_value d i key of
        Some v \<Rightarrow> Decided v
      | None \<Rightarrow>
          (case lookup_job d i of
             None \<Rightarrow> Refused (NoSuchJob i)
           | Some j \<Rightarrow>
               if j_state j \<in> set TERMINAL_STATES then Refused (EndedWithout i (j_state j)) else Undecided))"

definition check_wait_for_event :: "job_id \<Rightarrow> string \<Rightarrow> (json \<Rightarrow> bool) option \<Rightarrow> database \<Rightarrow> json look" where
  "check_wait_for_event i key accept d =
     (let value = event_value d i key;
          accepted = (case value of None \<Rightarrow> False
                      | Some v \<Rightarrow> (case accept of None \<Rightarrow> True | Some f \<Rightarrow> f v))
      in if accepted then Decided (the value)
         else case lookup_job d i of
                Some j \<Rightarrow>
                  if j_state j \<in> set TERMINAL_STATES then Refused (EndedWithout i (j_state j)) else Undecided
              | None \<Rightarrow> Refused (NoSuchJob i))"

definition check_group :: "int \<Rightarrow> database \<Rightarrow> nat look" where
  "check_group g d =
     (let members = filter (\<lambda>j. j_run_group j = Some g) (jobs d);
          done = filter (\<lambda>j. j_state j = Finished) members;
          failed = filter (\<lambda>j. j_state j = Crashed \<or> j_state j = Cancelled) members
      in if members = [] then Refused (EmptyGroup g)
         else if failed \<noteq> [] then Refused (GroupCannotFinish g (sort (map j_id failed)))
         else if length done = length members then Decided (length members)
         else Undecided)"

definition wait_for_result ::
  "(nat \<Rightarrow> database) \<Rightarrow> (nat \<Rightarrow> instant) \<Rightarrow> instant \<Rightarrow> job_id \<Rightarrow> interval option \<Rightarrow> (wait_error + json option) option" where
  "wait_for_result looks clock start i timeout = poll_until (\<lambda>k. check_result i (looks k)) clock start timeout"

definition get_event ::
  "(nat \<Rightarrow> database) \<Rightarrow> (nat \<Rightarrow> instant) \<Rightarrow> instant \<Rightarrow> job_id \<Rightarrow> string \<Rightarrow> interval option \<Rightarrow> (wait_error + json) option" where
  "get_event looks clock start i key timeout = poll_until (\<lambda>k. check_get_event i key (looks k)) clock start timeout"

definition wait_for_event ::
  "(nat \<Rightarrow> database) \<Rightarrow> (nat \<Rightarrow> instant) \<Rightarrow> instant \<Rightarrow> job_id \<Rightarrow> string \<Rightarrow> (json \<Rightarrow> bool) option
     \<Rightarrow> interval option \<Rightarrow> (wait_error + json) option" where
  "wait_for_event looks clock start i key accept timeout =
     poll_until (\<lambda>k. check_wait_for_event i key accept (looks k)) clock start timeout"

definition wait_for_group ::
  "(nat \<Rightarrow> database) \<Rightarrow> (nat \<Rightarrow> instant) \<Rightarrow> instant \<Rightarrow> int \<Rightarrow> interval option \<Rightarrow> (wait_error + nat) option" where
  "wait_for_group looks clock start g timeout = poll_until (\<lambda>k. check_group g (looks k)) clock start timeout"

definition get_job_result :: "database \<Rightarrow> job_id \<Rightarrow> json option" where
  "get_job_result d i =
     (case lookup_job d i of
        None \<Rightarrow> None
      | Some j \<Rightarrow> if j_state j \<noteq> Finished then None else j_result j)"

section \<open>Cancel and wait\<close>

definition CANCEL_WAIT_TIMEOUT :: interval where
  "CANCEL_WAIT_TIMEOUT = 30000000"

text \<open>
  The cancel, then a wait whose every outcome is suppressed, then a last look. \<open>None\<close> is a
  wait that does not end; a state is \<open>None\<close> when there was nothing to cancel or no row is left.
\<close>

definition cancel_and_wait ::
  "instant \<Rightarrow> database \<Rightarrow> (nat \<Rightarrow> database) \<Rightarrow> (nat \<Rightarrow> instant) \<Rightarrow> instant \<Rightarrow> database \<Rightarrow> job_id \<Rightarrow> interval option
     \<Rightarrow> (sql_error + jorbstate option) option" where
  "cancel_and_wait now d looks clock start last_look i timeout =
     (case cancel_job now d i of
        Inl e \<Rightarrow> Some (Inl e)
      | Inr (None, _) \<Rightarrow> Some (Inr None)
      | Inr (Some WasCancelled, _) \<Rightarrow> Some (Inr (Some Cancelled))
      | Inr (Some CancelRequested, _) \<Rightarrow>
          (case wait_for_result looks clock start i
                  (Some (case timeout of None \<Rightarrow> CANCEL_WAIT_TIMEOUT | Some t \<Rightarrow> t)) of
             None \<Rightarrow> None
           | Some _ \<Rightarrow> Some (Inr (map_option j_state (lookup_job last_look i)))))"

section \<open>Reading a stream\<close>

definition STREAM_READ_BATCH :: nat where
  "STREAM_READ_BATCH = 1000"

definition READ_STREAM_SQL :: "database \<Rightarrow> job_id \<Rightarrow> string \<Rightarrow> int \<Rightarrow> nat \<Rightarrow> stream_row list" where
  "READ_STREAM_SQL d i key offset n =
     take n (sort_key st_seq (filter (\<lambda>r. offset \<le> st_seq r) (stream_rows d i key)))"

text \<open>One fetched page: what it yields, the next position, and whether the end marker was in it.\<close>

fun consume :: "stream_row list \<Rightarrow> int \<Rightarrow> json list \<times> int \<times> bool" where
  "consume [] next_seq = ([], next_seq, False)"
| "consume (r # rs) next_seq =
     (if st_closed r then ([], next_seq, True)
      else (case consume rs (st_seq r + 1) of (vs, n, b) \<Rightarrow> (st_value r # vs, n, b)))"

datatype stream_end = StreamOver | StreamOfNoJob

text \<open>
  A turn fetches a page in one look and, if it has to, the job's state in a later one. The
  result is everything yielded and how the generator ended.
\<close>

partial_function (option) read_loop ::
  "(nat \<Rightarrow> database) \<Rightarrow> (nat \<Rightarrow> database) \<Rightarrow> job_id \<Rightarrow> string \<Rightarrow> nat \<Rightarrow> nat \<Rightarrow> int \<Rightarrow> bool \<Rightarrow> json list
     \<Rightarrow> (json list \<times> stream_end) option" where
  "read_loop pages states i key n k next_seq final acc =
     (let rows = READ_STREAM_SQL (pages k) i key next_seq n;
          (vs, next', closed) = consume rows next_seq;
          acc' = acc @ vs
      in if closed then Some (acc', StreamOver)
         else if length rows = n then read_loop pages states i key n (Suc k) next' final acc'
         else if final then Some (acc', StreamOver)
         else case lookup_job (states k) i of
                None \<Rightarrow> Some (acc', StreamOfNoJob)
              | Some j \<Rightarrow>
                  read_loop pages states i key n (Suc k) next' (j_state j \<in> set TERMINAL_STATES) acc')"

declare read_loop.simps [code]

definition read_stream ::
  "(nat \<Rightarrow> database) \<Rightarrow> (nat \<Rightarrow> database) \<Rightarrow> job_id \<Rightarrow> string \<Rightarrow> int \<Rightarrow> (json list \<times> stream_end) option" where
  "read_stream pages states i key offset = read_loop pages states i key STREAM_READ_BATCH 0 offset False []"

fun until_closed :: "stream_row list \<Rightarrow> json list \<times> bool" where
  "until_closed [] = ([], False)"
| "until_closed (r # rs) =
     (if st_closed r then ([], True) else (case until_closed rs of (vs, b) \<Rightarrow> (st_value r # vs, b)))"

definition get_stream :: "database \<Rightarrow> job_id \<Rightarrow> string \<Rightarrow> json list \<times> bool" where
  "get_stream d i key = until_closed (sort_key st_seq (stream_rows d i key))"

section \<open>What the loop returns\<close>

text \<open>The loop ends at turn \<open>n\<close>: every turn before found nothing and had time left.\<close>

definition went_on :: "(nat \<Rightarrow> 'a look) \<Rightarrow> (nat \<Rightarrow> instant) \<Rightarrow> instant option \<Rightarrow> nat \<Rightarrow> bool" where
  "went_on check clock deadline m \<longleftrightarrow> check m = Undecided \<and> (\<forall>t. deadline = Some t \<longrightarrow> clock m < t)"

definition ended_with :: "(nat \<Rightarrow> 'a look) \<Rightarrow> (nat \<Rightarrow> instant) \<Rightarrow> instant option \<Rightarrow> nat \<Rightarrow> wait_error + 'a \<Rightarrow> bool" where
  "ended_with check clock deadline n r \<longleftrightarrow>
     (case check n of
        Decided v \<Rightarrow> r = Inr v
      | Refused e \<Rightarrow> r = Inl e
      | Undecided \<Rightarrow> r = Inl TimedOut \<and> (\<exists>t. deadline = Some t \<and> t \<le> clock n))"

lemma poll_from_step:
  "poll_from check clock deadline k =
     (if went_on check clock deadline k then poll_from check clock deadline (Suc k)
      else case check k of
             Decided v \<Rightarrow> Some (Inr v)
           | Refused e \<Rightarrow> Some (Inl e)
           | Undecided \<Rightarrow> Some (Inl TimedOut))"
  by (subst poll_from.simps) (auto simp: went_on_def split: look.split option.split)

lemma poll_from_ends:
  assumes "poll_from check clock deadline k = Some r"
  shows "\<exists>n \<ge> k. ended_with check clock deadline n r \<and> (\<forall>m. k \<le> m \<and> m < n \<longrightarrow> went_on check clock deadline m)"
  using assms
proof (induction rule: poll_from.raw_induct [rotated, consumes 1, case_names turn])
  case (turn self check clock deadline k r)
  show ?case
  proof (cases "went_on check clock deadline k")
    case True
    with turn(2) have "self check clock deadline (Suc k) = Some r"
      by (auto simp: went_on_def split: option.splits if_splits)
    from turn(1) [OF this] obtain n where n: "Suc k \<le> n" "ended_with check clock deadline n r"
      "\<And>m. Suc k \<le> m \<Longrightarrow> m < n \<Longrightarrow> went_on check clock deadline m" by blast
    have "went_on check clock deadline m" if "k \<le> m" "m < n" for m
      using that n(3) [of m] True by (cases "m = k") auto
    with n show ?thesis by (intro exI [of _ n]) auto
  next
    case False
    with turn(2) have "ended_with check clock deadline k r"
      by (auto simp: went_on_def ended_with_def split: look.splits option.splits if_splits)
    then show ?thesis by (intro exI [of _ k]) auto
  qed
qed

lemma poll_from_reaches:
  assumes "k \<le> n" "\<not> went_on check clock deadline n"
  shows "\<exists>r. poll_from check clock deadline k = Some r"
  using assms(1)
proof (induction "n - k" arbitrary: k)
  case 0
  with assms(2) show ?case by (subst poll_from_step) (auto split: look.split)
next
  case (Suc l)
  then have "\<exists>r. poll_from check clock deadline (Suc k) = Some r" by (intro Suc(1)) auto
  then show ?case by (subst poll_from_step) (auto split: look.split)
qed

definition deadline_of :: "instant \<Rightarrow> interval option \<Rightarrow> instant option" where
  "deadline_of start timeout = (case timeout of None \<Rightarrow> None | Some t \<Rightarrow> Some (start + t))"

lemma poll_until_ends:
  assumes "poll_until check clock start timeout = Some r"
  obtains n where "ended_with check clock (deadline_of start timeout) n r"
    "\<And>m. m < n \<Longrightarrow> went_on check clock (deadline_of start timeout) m"
  using poll_from_ends [OF assms [unfolded poll_until_def]] unfolding deadline_of_def by blast

lemma poll_until_reaches:
  assumes "\<not> went_on check clock (deadline_of start timeout) n"
  shows "\<exists>r. poll_until check clock start timeout = Some r"
  using poll_from_reaches [OF _ assms, of 0] by (simp add: poll_until_def deadline_of_def)

definition live_at :: "database \<Rightarrow> job_id \<Rightarrow> bool" where
  "live_at d i \<longleftrightarrow> (\<exists>j. lookup_job d i = Some j \<and> j_state j \<in> set LIVE_STATES)"

lemma check_result_cases:
  "check_result i d = Undecided \<longleftrightarrow> live_at d i"
  "check_result i d = Decided v \<longleftrightarrow> (\<exists>j. lookup_job d i = Some j \<and> j_state j = Finished \<and> v = j_result j)"
  "check_result i d = Refused e \<longleftrightarrow>
     lookup_job d i = None \<and> e = NoSuchJob i
     \<or> (\<exists>j. lookup_job d i = Some j \<and> (j_state j = Crashed \<and> e = JobFailed i (j_error_message j)
            \<or> j_state j = Cancelled \<and> e = JobWasCancelled i))"
  by (auto simp: check_result_def live_at_def split: option.splits jorbstate.splits)

text \<open>
  C38. A wait for a result tells the truth. It ends with a value only at a look that found the
  job finished, and the value is the result stored there; it raises that the job failed, was
  cancelled or does not exist only at a look that found it so, with the message stored
  there; it times out only at or after its deadline. At every look before, the job was live
  and the deadline had not passed: the first answer there was is the one that is given.
\<close>

theorem a_wait_tells_the_truth:
  assumes "wait_for_result looks clock start i timeout = Some r"
  shows "\<exists>n. (\<forall>m < n. live_at (looks m) i \<and> (\<forall>t. timeout = Some t \<longrightarrow> clock m < start + t))
    \<and> (case r of
         Inr v \<Rightarrow> \<exists>j. lookup_job (looks n) i = Some j \<and> j_state j = Finished \<and> v = j_result j
       | Inl e \<Rightarrow>
           e = NoSuchJob i \<and> lookup_job (looks n) i = None
           \<or> (\<exists>j. lookup_job (looks n) i = Some j \<and> j_state j = Crashed \<and> e = JobFailed i (j_error_message j))
           \<or> (\<exists>j. lookup_job (looks n) i = Some j \<and> j_state j = Cancelled \<and> e = JobWasCancelled i)
           \<or> e = TimedOut \<and> live_at (looks n) i \<and> (\<exists>t. timeout = Some t \<and> start + t \<le> clock n))"
proof -
  from assms [unfolded wait_for_result_def] obtain n where
    n: "ended_with (\<lambda>k. check_result i (looks k)) clock (deadline_of start timeout) n r"
    "\<And>m. m < n \<Longrightarrow> went_on (\<lambda>k. check_result i (looks k)) clock (deadline_of start timeout) m"
    by (rule poll_until_ends) blast
  have "\<forall>m < n. live_at (looks m) i \<and> (\<forall>t. timeout = Some t \<longrightarrow> clock m < start + t)"
    using n(2) by (auto simp: went_on_def check_result_cases deadline_of_def)
  moreover have "case r of
         Inr v \<Rightarrow> \<exists>j. lookup_job (looks n) i = Some j \<and> j_state j = Finished \<and> v = j_result j
       | Inl e \<Rightarrow>
           e = NoSuchJob i \<and> lookup_job (looks n) i = None
           \<or> (\<exists>j. lookup_job (looks n) i = Some j \<and> j_state j = Crashed \<and> e = JobFailed i (j_error_message j))
           \<or> (\<exists>j. lookup_job (looks n) i = Some j \<and> j_state j = Cancelled \<and> e = JobWasCancelled i)
           \<or> e = TimedOut \<and> live_at (looks n) i \<and> (\<exists>t. timeout = Some t \<and> start + t \<le> clock n)"
    using n(1)
    by (cases "check_result i (looks n)")
      (auto simp: ended_with_def check_result_cases deadline_of_def split: option.splits)
  ultimately show ?thesis by blast
qed

section \<open>When it returns\<close>

text \<open>
  The times of the looks: the clock is read after a look and within \<open>slack\<close> of it, and while
  time is left the next look comes after it, and no later than the beat and the slack.
\<close>

definition beats ::
  "bool \<Rightarrow> interval \<Rightarrow> (nat \<Rightarrow> instant) \<Rightarrow> (nat \<Rightarrow> instant) \<Rightarrow> instant option \<Rightarrow> bool" where
  "beats listening slack seen clock deadline \<longleftrightarrow>
     (\<forall>k. seen k \<le> clock k \<and> clock k \<le> seen k + slack
        \<and> ((\<forall>t. deadline = Some t \<longrightarrow> clock k < t) \<longrightarrow>
             clock k < seen (Suc k)
             \<and> seen (Suc k) \<le> clock k + wait_beat listening (map_option (\<lambda>t. t - clock k) deadline) + slack))"

lemma wait_beat_le: "wait_beat listening b \<le> wait_beat listening None"
  by (simp add: wait_beat_def split: option.split)

lemma poll_until_in_time:
  assumes beats: "beats listening slack seen clock (deadline_of start timeout)"
    and settled: "\<And>k. T \<le> seen k \<Longrightarrow> check k \<noteq> Undecided"
    and patient: "\<And>t. timeout = Some t \<Longrightarrow> T + slack \<le> start + t"
  shows "\<exists>n r. poll_until check clock start timeout = Some r
    \<and> (case r of Inr v \<Rightarrow> check n = Decided v | Inl e \<Rightarrow> check n = Refused e)
    \<and> seen n \<le> max (seen 0) (T + wait_beat listening None + 2 * slack)"
proof -
  let ?dl = "deadline_of start timeout"
  have clock: "seen k \<le> clock k" "clock k \<le> seen k + slack" for k using beats by (simp_all add: beats_def)
  have going: "\<forall>t. ?dl = Some t \<longrightarrow> clock k < t" if "seen k < T" for k
    using that clock(2) [of k] patient by (auto simp: deadline_of_def split: option.splits)
  have step: "seen k < seen (Suc k)" "seen (Suc k) \<le> T + wait_beat listening None + 2 * slack" if "seen k < T" for k
  proof -
    from beats going [OF that] have "clock k < seen (Suc k)"
      "seen (Suc k) \<le> clock k + wait_beat listening (map_option (\<lambda>t. t - clock k) ?dl) + slack"
      by (simp_all add: beats_def)
    with clock [of k] wait_beat_le [of listening "map_option (\<lambda>t. t - clock k) ?dl"] that
    show "seen k < seen (Suc k)" "seen (Suc k) \<le> T + wait_beat listening None + 2 * slack" by auto
  qed
  have "\<exists>k. T \<le> seen k"
  proof (rule ccontr)
    assume "\<not> (\<exists>k. T \<le> seen k)"
    then have up: "seen k < seen (Suc k)" for k using step(1) by (meson not_le)
    have "seen 0 + int k \<le> seen k" for k
    proof (induction k)
      case (Suc k)
      with up [of k] show ?case by simp
    qed simp
    then have "T \<le> seen (nat (T - seen 0))" by (smt (verit) nat_0_le int_nat_eq)
    with \<open>\<not> (\<exists>k. T \<le> seen k)\<close> show False by blast
  qed
  then obtain k where "\<not> went_on check clock ?dl k" using settled by (auto simp: went_on_def)
  from poll_until_reaches [OF this] obtain r where r: "poll_until check clock start timeout = Some r" by blast
  then obtain n where n: "ended_with check clock ?dl n r" "\<And>m. m < n \<Longrightarrow> went_on check clock ?dl m"
    by (rule poll_until_ends) blast
  have "check n \<noteq> Undecided"
  proof
    assume un: "check n = Undecided"
    then have "seen n < T" using settled [of n] by force
    with n(1) un going [of n] show False by (auto simp: ended_with_def)
  qed
  with n(1) have "case r of Inr v \<Rightarrow> check n = Decided v | Inl e \<Rightarrow> check n = Refused e"
    by (auto simp: ended_with_def split: look.splits sum.splits)
  moreover have "seen n \<le> max (seen 0) (T + wait_beat listening None + 2 * slack)"
  proof (cases n)
    case (Suc m)
    with n(2) [of m] settled [of m] have "seen m < T" by (force simp: went_on_def)
    from step(2) [OF this] Suc show ?thesis by simp
  qed simp
  ultimately show ?thesis using r by blast
qed

text \<open>An answer is what one look found.\<close>

definition answered :: "(database \<Rightarrow> 'a look) \<Rightarrow> database \<Rightarrow> wait_error + 'a \<Rightarrow> bool" where
  "answered check d r \<longleftrightarrow> (case r of Inr v \<Rightarrow> check d = Decided v | Inl e \<Rightarrow> check d = Refused e)"

definition over :: "database \<Rightarrow> job_id \<Rightarrow> bool" where
  "over d i \<longleftrightarrow> \<not> live_at d i"

lemma over_decides:
  assumes "over d i"
  shows "check_result i d \<noteq> Undecided" "check_get_event i key d \<noteq> Undecided" "check_wait_for_event i key accept d \<noteq> Undecided"
proof -
  have "lookup_job d i = Some j \<Longrightarrow> j_state j \<in> set TERMINAL_STATES" for j
    using assms by (cases "j_state j") (auto simp: over_def live_at_def)
  then show "check_result i d \<noteq> Undecided" "check_get_event i key d \<noteq> Undecided" "check_wait_for_event i key accept d \<noteq> Undecided"
    using assms by (auto simp: check_result_cases over_def check_get_event_def check_wait_for_event_def Let_def split: option.splits)
qed

text \<open>
  C21. No wait misses the end of its job. If from some instant on the job is terminal or gone,
  then a wait for its result, or for an event of it to exist or to be accepted, returns what
  a look found -- it does not time out when its deadline leaves room for that instant -- and
  that look comes at most one poll interval and the time of two looks after it: half a
  second without a listener and two seconds with one, even if every notification is lost.
\<close>

theorem no_wait_misses_the_end:
  assumes beats: "beats listening slack seen clock (deadline_of start timeout)"
    and looks: "\<And>k. looks k = world (seen k)"
    and ended: "\<And>t. T \<le> t \<Longrightarrow> over (world t) i"
    and patient: "\<And>t. timeout = Some t \<Longrightarrow> T + slack \<le> start + t"
  shows "(\<exists>n r. wait_for_result looks clock start i timeout = Some r \<and> answered (check_result i) (looks n) r
      \<and> seen n \<le> max (seen 0) (T + wait_beat listening None + 2 * slack))
    \<and> (\<exists>n r. get_event looks clock start i key timeout = Some r \<and> answered (check_get_event i key) (looks n) r
      \<and> seen n \<le> max (seen 0) (T + wait_beat listening None + 2 * slack))
    \<and> (\<exists>n r. wait_for_event looks clock start i key accept timeout = Some r
      \<and> answered (check_wait_for_event i key accept) (looks n) r
      \<and> seen n \<le> max (seen 0) (T + wait_beat listening None + 2 * slack))"
  unfolding wait_for_result_def get_event_def wait_for_event_def answered_def
proof (intro conjI)
  show "\<exists>n r. poll_until (\<lambda>k. check_result i (looks k)) clock start timeout = Some r
      \<and> (case r of Inl e \<Rightarrow> check_result i (looks n) = Refused e | Inr v \<Rightarrow> check_result i (looks n) = Decided v)
      \<and> seen n \<le> max (seen 0) (T + wait_beat listening None + 2 * slack)"
    by (rule poll_until_in_time [OF beats _ patient]) (simp add: over_decides looks ended)
  show "\<exists>n r. poll_until (\<lambda>k. check_get_event i key (looks k)) clock start timeout = Some r
      \<and> (case r of Inl e \<Rightarrow> check_get_event i key (looks n) = Refused e | Inr v \<Rightarrow> check_get_event i key (looks n) = Decided v)
      \<and> seen n \<le> max (seen 0) (T + wait_beat listening None + 2 * slack)"
    by (rule poll_until_in_time [OF beats _ patient]) (simp add: over_decides looks ended)
  show "\<exists>n r. poll_until (\<lambda>k. check_wait_for_event i key accept (looks k)) clock start timeout = Some r
      \<and> (case r of Inl e \<Rightarrow> check_wait_for_event i key accept (looks n) = Refused e
          | Inr v \<Rightarrow> check_wait_for_event i key accept (looks n) = Decided v)
      \<and> seen n \<le> max (seen 0) (T + wait_beat listening None + 2 * slack)"
    by (rule poll_until_in_time [OF beats _ patient]) (simp add: over_decides looks ended)
qed

text \<open>
  Cancelling and waiting always comes back. With a clock that passes every instant, the
  call returns, never with an exception of the wait: a state it returns without waiting is
  the state the cancel wrote, nothing to cancel is \<open>None\<close>, and after a wait it is the state
  the last look found, whatever the wait ended with.
\<close>

theorem cancel_and_wait_comes_back:
  assumes ok: "jobs_ok d" and clock: "\<And>t. \<exists>k. t \<le> clock k"
  shows "\<exists>s. cancel_and_wait now d looks clock start last_look i timeout = Some (Inr s)
    \<and> (case lookup_job d i of
         None \<Rightarrow> s = None
       | Some j \<Rightarrow>
           if j_state j \<in> set PRE_CLAIM_STATES then s = Some Cancelled
           else if j_state j \<in> set IN_FLIGHT_STATES then s = map_option j_state (lookup_job last_look i)
           else s = None)"
proof -
  obtain r d' where run: "cancel_job now d i = Inr (r, d')" and "case lookup_job d i of None \<Rightarrow> r = None \<and> d' = d
      | Some j \<Rightarrow> if j_state j \<in> {Queued, Waiting} then r = Some WasCancelled
            \<and> lookup_job d' i = Some (j\<lparr>j_state := Cancelled, j_finished := Some now, j_updated := now\<rparr>)
          else if j_state j \<in> {Claimed, Running} then r = Some CancelRequested
            \<and> lookup_job d' i = Some (j\<lparr>j_cancel_requested := True, j_updated := now\<rparr>)
          else r = None \<and> d' = d"
    using cancel_stages [OF ok, of now i] by blast
  then have r: "case lookup_job d i of None \<Rightarrow> r = None
      | Some j \<Rightarrow> if j_state j \<in> {Queued, Waiting} then r = Some WasCancelled
          else if j_state j \<in> {Claimed, Running} then r = Some CancelRequested else r = None"
    by (auto split: option.splits if_splits)
  let ?t = "case timeout of None \<Rightarrow> CANCEL_WAIT_TIMEOUT | Some t \<Rightarrow> t"
  obtain k where "start + ?t \<le> clock k" using clock by blast
  then have "\<not> went_on (\<lambda>k. check_result i (looks k)) clock (deadline_of start (Some ?t)) k"
    by (auto simp: went_on_def deadline_of_def)
  then obtain x where "wait_for_result looks clock start i (Some ?t) = Some x"
    unfolding wait_for_result_def using poll_until_reaches by blast
  with run r show ?thesis
    by (cases "lookup_job d i") (auto simp: cancel_and_wait_def split: if_splits)
qed

section \<open>Streams are read as they were written\<close>

text \<open>A dense stream is its open rows and, if it was closed, the marker after them.\<close>

definition open_values :: "stream_row list \<Rightarrow> json list" where
  "open_values rows = map st_value (takeWhile (\<lambda>r. \<not> st_closed r) rows)"

lemma dense_nth: "dense rows \<Longrightarrow> k < length rows \<Longrightarrow> st_seq (rows ! k) = int k"
  by (auto simp: dense_def dest!: arg_cong [of _ _ "\<lambda>xs. xs ! k"])

lemma dense_take: "dense rows \<Longrightarrow> dense (take m rows)"
proof -
  assume d: "dense rows"
  then have "map st_seq (take m rows) = map int [0..<length (take m rows)]"
    by (simp add: dense_def take_map [symmetric]) (simp add: take_map min_def)
  moreover have "list_all (\<lambda>r. \<not> st_closed r) (butlast (take m rows))"
  proof (cases "m < length rows")
    case True
    then have "butlast (take m rows) = take (m - 1) (butlast rows)" by (simp add: butlast_take take_butlast)
    with d show ?thesis by (auto simp: dense_def list_all_iff dest: in_set_takeD)
  qed (use d in \<open>simp add: dense_def\<close>)
  ultimately show ?thesis by (simp add: dense_def)
qed

lemma dense_page:
  assumes "dense rows"
  shows "sort_key st_seq (filter (\<lambda>r. int next_seq \<le> st_seq r) rows) = drop next_seq rows"
proof -
  have seqs: "map st_seq rows = map int [0..<length rows]" using assms by (simp add: dense_def)
  have "filter (\<lambda>r. int next_seq \<le> st_seq r) rows = drop next_seq rows"
    using seqs
  proof (induction rows rule: rev_induct)
    case (snoc r rows)
    then have "st_seq r = int (length rows)" "map st_seq rows = map int [0..<length rows]" by simp_all
    with snoc.IH show ?case by auto
  qed simp
  moreover have "sorted (map st_seq (drop next_seq rows))"
    using seqs by (simp add: drop_map [symmetric]) (simp add: drop_map sorted_map sorted_wrt_upt)
  ultimately show ?thesis by (simp add: sort_key_id_if_sorted)
qed

lemma until_closed_eq: "until_closed rows = (open_values rows, list_ex st_closed rows)"
  by (induction rows) (auto simp: open_values_def)

lemma consume_eq:
  "consume rows n = (open_values rows,
     case rev (takeWhile (\<lambda>r. \<not> st_closed r) rows) of [] \<Rightarrow> n | r # _ \<Rightarrow> st_seq r + 1, list_ex st_closed rows)"
proof (induction rows arbitrary: n)
  case (Cons r rows)
  then show ?case
    by (cases "rev (takeWhile (\<lambda>r. \<not> st_closed r) rows)") (auto simp: open_values_def)
qed (simp add: open_values_def)

lemma get_stream_dense: "dense (stream_rows d i key) \<Longrightarrow> get_stream d i key
    = (open_values (stream_rows d i key), list_ex st_closed (stream_rows d i key))"
  using dense_page [of "stream_rows d i key" 0]
  by (simp add: get_stream_def until_closed_eq sort_key_id_if_sorted dense_def sorted_map sorted_wrt_upt)

text \<open>One page of a dense stream, from a position that is not past its marker.\<close>

lemma open_values_append: "list_all (\<lambda>r. \<not> st_closed r) xs \<Longrightarrow> open_values (xs @ ys) = map st_value xs @ open_values ys"
  by (simp add: open_values_def list_all_iff takeWhile_append2)

lemma open_rows: "\<not> list_ex st_closed rows \<Longrightarrow> open_values rows = map st_value rows"
  using open_values_append [of rows "[]"] by (simp add: open_values_def list_ex_iff list_all_iff)

lemma dense_open_before:
  assumes "dense F" "k < length (open_values F)"
  shows "\<not> st_closed (F ! k)"
proof -
  have "k < length (takeWhile (\<lambda>r. \<not> st_closed r) F)" using assms(2) by (simp add: open_values_def)
  then show ?thesis using nth_mem set_takeWhileD takeWhile_nth by metis
qed

lemma dense_closed_at:
  assumes "dense F" "k < length F" "st_closed (F ! k)"
  shows "k = length (open_values F)" "Suc k = length F"
proof -
  show last: "Suc k = length F"
  proof (rule ccontr)
    assume "Suc k \<noteq> length F"
    with assms(2) have "F ! k \<in> set (butlast F)" by (metis Suc_lessI in_set_conv_nth length_butlast less_diff_conv nth_butlast add.commute plus_1_eq_Suc)
    with assms(1,3) show False by (auto simp: dense_def list_all_iff)
  qed
  have "\<not> st_closed (F ! l)" if "l < k" for l
  proof -
    have "F ! l \<in> set (butlast F)" using that last by (auto simp: in_set_conv_nth nth_butlast intro!: exI [of _ l])
    with assms(1) show ?thesis by (auto simp: dense_def list_all_iff)
  qed
  then have "takeWhile (\<lambda>r. \<not> st_closed r) F = take k F"
    using assms(2,3) by (intro takeWhile_eq_take_P_nth) auto
  then show "k = length (open_values F)" using assms(2) by (simp add: open_values_def)
qed

lemma dense_page_facts:
  assumes F: "dense F" and p: "p \<le> length (open_values F)" and rows: "rows = take n (drop p (take q F))"
  shows "list_ex st_closed rows \<Longrightarrow> open_values rows = drop p (open_values F)"
    and "\<not> list_ex st_closed rows \<Longrightarrow> open_values rows = take (length rows) (drop p (open_values F))
      \<and> p + length rows \<le> length (open_values F) \<and> fst (snd (consume rows (int p))) = int (p + length rows)"
proof -
  have le: "length (open_values F) \<le> length F"
    by (simp add: open_values_def length_takeWhile_le)
  have nth: "rows ! k = F ! (p + k)" "p + k < length F" if "k < length rows" for k
    using that p le by (auto simp: rows)
  have val: "open_values F ! k = st_value (F ! k)" if "k < length (open_values F)" for k
    using that by (simp add: open_values_def takeWhile_nth)
  show "open_values rows = drop p (open_values F)" if c: "list_ex st_closed rows"
  proof -
    from c obtain k where k: "k < length rows" "st_closed (rows ! k)" by (auto simp: list_ex_iff in_set_conv_nth)
    with nth [OF k(1)] dense_closed_at [OF F, of "p + k"] have at: "p + k = length (open_values F)" by simp
    have "takeWhile (\<lambda>r. \<not> st_closed r) rows = take k rows"
      using k at nth dense_open_before [OF F] by (intro takeWhile_eq_take_P_nth) auto
    then have "open_values rows = map st_value (take k rows)" by (simp add: open_values_def)
    also have "\<dots> = drop p (open_values F)"
      using k(1) at nth val by (intro nth_equalityI) auto
    finally show ?thesis .
  qed
  show "open_values rows = take (length rows) (drop p (open_values F))
      \<and> p + length rows \<le> length (open_values F) \<and> fst (snd (consume rows (int p))) = int (p + length rows)"
    if c: "\<not> list_ex st_closed rows"
  proof -
    have all_open: "\<not> st_closed (rows ! k)" if "k < length rows" for k
      using c that by (auto simp: list_ex_iff)
    have len: "p + length rows \<le> length (open_values F)"
    proof (rule ccontr)
      assume "\<not> p + length rows \<le> length (open_values F)"
      then have k: "length (open_values F) - p < length rows" using p by simp
      have "st_closed (F ! length (open_values F))"
        using nth [OF k] p nth_length_takeWhile [of "\<lambda>r. \<not> st_closed r" F] by (simp add: open_values_def)
      with all_open [OF k] nth [OF k] p show False by simp
    qed
    have "open_values rows = take (length rows) (drop p (open_values F))"
      using len nth val by (intro nth_equalityI) (auto simp: open_rows [OF c])
    moreover have "takeWhile (\<lambda>r. \<not> st_closed r) rows = rows"
      using c by (auto simp: takeWhile_eq_all_conv list_ex_iff)
    then have "fst (snd (consume rows (int p))) = int (p + length rows)"
    proof (cases rows rule: rev_cases)
      case (snoc rs r)
      then have "r = F ! (p + length rs)" "p + length rs < length F" using nth [of "length rs"] by simp_all
      with snoc \<open>takeWhile _ rows = rows\<close> show ?thesis by (simp add: consume_eq dense_nth [OF F])
    qed (simp add: consume_eq)
    ultimately show ?thesis using len by simp
  qed
qed

text \<open>
  What a reader meets while a stream grows into \<open>F\<close>: every page look finds a beginning of it,
  no shorter than the look before; the job is there at every state look; nothing is appended
  after a look found the job terminal; and at last the stream is complete, and closed or its
  job over.
\<close>

definition grows_into ::
  "(nat \<Rightarrow> database) \<Rightarrow> (nat \<Rightarrow> database) \<Rightarrow> job_id \<Rightarrow> string \<Rightarrow> stream_row list \<Rightarrow> bool" where
  "grows_into pages states i key F \<longleftrightarrow>
     (\<exists>q. (\<forall>k. stream_rows (pages k) i key = take (q k) F \<and> q k \<le> q (Suc k) \<and> lookup_job (states k) i \<noteq> None)
        \<and> (\<forall>k j. lookup_job (states k) i = Some j \<and> j_state j \<in> set TERMINAL_STATES \<longrightarrow> length F \<le> q (Suc k))
        \<and> (\<exists>K. \<forall>k \<ge> K. length F \<le> q k \<and> (list_ex st_closed F \<or> over (states k) i)))"

lemma read_loop_reads:
  assumes F: "dense F" and n: "0 < n"
    and page: "\<And>k. stream_rows (pages k) i key = take (q k) F" and mono: "\<And>k. q k \<le> q (Suc k)"
    and there: "\<And>k. lookup_job (states k) i \<noteq> None"
    and quiet: "\<And>k j. lookup_job (states k) i = Some j \<Longrightarrow> j_state j \<in> set TERMINAL_STATES \<Longrightarrow> length F \<le> q (Suc k)"
    and K: "\<And>k. K \<le> k \<Longrightarrow> length F \<le> q k \<and> (list_ex st_closed F \<or> over (states k) i)"
    and p: "p \<le> length (open_values F)" and final: "final \<Longrightarrow> length F \<le> q k"
  shows "read_loop pages states i key n k (int p) final acc = Some (acc @ drop p (open_values F), StreamOver)"
  using p final
proof (induction "(K - k) + (length (open_values F) - p) + (if final then 0 else 1 :: nat)" arbitrary: k p final acc rule: less_induct)
  case less
  let ?V = "open_values F"
  define rows where "rows = take n (drop p (take (q k) F))"
  have sql: "READ_STREAM_SQL (pages k) i key (int p) n = rows"
    using dense_page [OF dense_take [OF F], of p "q k"] by (simp add: READ_STREAM_SQL_def page rows_def)
  obtain vs next' closed where c: "consume rows (int p) = (vs, next', closed)" by (metis surj_pair)
  then have vs: "vs = open_values rows" "closed = list_ex st_closed rows" by (simp_all add: consume_eq)
  note facts = dense_page_facts [OF F less.prems(1) rows_def]
  note step = read_loop.simps [of pages states i key n k "int p" final acc, unfolded sql c Let_def prod.case]
  show ?case
  proof (cases closed)
    case True
    then show ?thesis using step facts(1) vs by simp
  next
    case False
    with facts(2) vs c have open_page: "vs = take (length rows) (drop p ?V)" "p + length rows \<le> length ?V"
      "next' = int (p + length rows)" by auto
    then have split: "drop p ?V = vs @ drop (p + length rows) ?V"
      by (metis append_take_drop_id drop_drop add.commute)
    have onward: "read_loop pages states i key n (Suc k) next' final' (acc @ vs) = Some (acc @ drop p ?V, StreamOver)"
      if "(K - Suc k) + (length ?V - (p + length rows)) + (if final' then 0 else 1 :: nat)
          < (K - k) + (length ?V - p) + (if final then 0 else 1)"
        and "final' \<Longrightarrow> length F \<le> q (Suc k)" for final'
      using less.hyps [OF that(1) open_page(2) that(2), of "acc @ vs"] open_page(3) split by simp
    have to_end: "drop p (take (q k) F) = rows" if "length rows \<noteq> n"
      using that by (simp add: rows_def min_def split: if_splits)
    have whole: "length F \<le> q k \<Longrightarrow> length rows \<noteq> n \<Longrightarrow> drop p F = rows" using to_end by simp
    have done_open: "vs = drop p ?V" "\<not> list_ex st_closed F" if "drop p F = rows"
    proof -
      have "p \<le> length F" using less.prems(1) by (simp add: open_values_def) (meson length_takeWhile_le order_trans)
      moreover have "length ?V \<le> length F" by (simp add: open_values_def length_takeWhile_le)
      ultimately have "length rows = length F - p" "length ?V = length F"
        using that open_page(2) by auto
      then show "vs = drop p ?V" using open_page(1) by simp
      show "\<not> list_ex st_closed F"
        using \<open>length ?V = length F\<close> dense_open_before [OF F] by (auto simp: list_ex_iff in_set_conv_nth)
    qed
    show ?thesis
    proof (cases "length rows = n")
      case True
      have "read_loop pages states i key n (Suc k) next' final (acc @ vs) = Some (acc @ drop p ?V, StreamOver)"
        using True n open_page(2) less.prems(2) mono [of k] by (intro onward) (auto intro: order_trans)
      with True False show ?thesis using step by simp
    next
      case short: False
      show ?thesis
      proof (cases final)
        case True
        with short False done_open(1) [OF whole [OF less.prems(2) short]] show ?thesis using step by simp
      next
        case notfinal: False
        from there [of k] obtain j where j: "lookup_job (states k) i = Some j" by auto
        let ?t = "j_state j \<in> set TERMINAL_STATES"
        have late: ?t if "K \<le> k"
        proof -
          have "\<not> list_ex st_closed F" using K [OF that] whole short done_open(2) by blast
          with K [OF that] have "over (states k) i" by blast
          with j show ?t by (cases "j_state j") (auto simp: over_def live_at_def)
        qed
        have "read_loop pages states i key n (Suc k) next' ?t (acc @ vs) = Some (acc @ drop p ?V, StreamOver)"
          using late quiet [OF j] notfinal open_page(2) by (intro onward) (cases "K \<le> k"; auto)+
        with short notfinal False j show ?thesis using step by simp
      qed
    qed
  qed
qed

section \<open>The round trip\<close>

text \<open>A job's writes to a stream, in order, and the close that may follow (\<open>stream_close\<close> writes a null).\<close>

definition append_all :: "job_id \<Rightarrow> string \<Rightarrow> int \<Rightarrow> json list \<Rightarrow> database \<Rightarrow> database" where
  "append_all i key epoch vs d = fold (\<lambda>v d. snd (stream_append i key v False epoch d)) vs d"

definition write_stream :: "job_id \<Rightarrow> string \<Rightarrow> int \<Rightarrow> json list \<Rightarrow> bool \<Rightarrow> database \<Rightarrow> database" where
  "write_stream i key epoch vs shut d =
     (let d' = append_all i key epoch vs d in if shut then snd (stream_append i key JNull True epoch d') else d')"

lemma owns_append [simp]: "owns (snd (stream_append i key v c epoch d)) j e = owns d j e"
  by (simp add: stream_append_def Let_def owns_def lookup_job_def)

lemma append_all_rows:
  assumes "\<And>k l. dense (stream_rows d k l)" "owns d i epoch" "\<not> list_ex st_closed (stream_rows d i key)"
  shows "map st_value (stream_rows (append_all i key epoch vs d) i key) = map st_value (stream_rows d i key) @ vs
    \<and> \<not> list_ex st_closed (stream_rows (append_all i key epoch vs d) i key)
    \<and> (\<forall>k l. dense (stream_rows (append_all i key epoch vs d) k l)) \<and> owns (append_all i key epoch vs d) i epoch"
  using assms
proof (induction vs arbitrary: d)
  case (Cons v vs)
  let ?d = "snd (stream_append i key v False epoch d)"
  have "stream_rows ?d i key = stream_rows d i key @ [\<lparr>st_job_id = i, st_key = key,
      st_seq = int (length (stream_rows d i key)), st_value = v, st_closed = False, st_run_epoch = epoch\<rparr>]"
    using Cons.prems by (simp add: stream_rows_append)
  moreover have "dense (stream_rows ?d k l)" for k l by (rule stream_append_dense) (rule Cons.prems(1))
  ultimately show ?case using Cons.IH [of ?d] Cons.prems(2,3) by (simp add: append_all_def)
qed (simp add: append_all_def)

lemma write_stream_rows:
  assumes dense: "\<And>k l. dense (stream_rows d k l)" and "owns d i epoch" "stream_rows d i key = []"
  shows "dense (stream_rows (write_stream i key epoch vs shut d) i key)
    \<and> open_values (stream_rows (write_stream i key epoch vs shut d) i key) = vs
    \<and> list_ex st_closed (stream_rows (write_stream i key epoch vs shut d) i key) = shut"
proof -
  let ?d = "append_all i key epoch vs d"
  have all: "map st_value (stream_rows ?d i key) = vs" "\<not> list_ex st_closed (stream_rows ?d i key)"
    "\<And>k l. dense (stream_rows ?d k l)" "owns ?d i epoch"
    using append_all_rows [OF dense, of i epoch key vs] assms(2,3) by simp_all
  show ?thesis
  proof (cases shut)
    case True
    have "stream_rows (snd (stream_append i key JNull True epoch ?d)) i key = stream_rows ?d i key
        @ [\<lparr>st_job_id = i, st_key = key, st_seq = int (length (stream_rows ?d i key)), st_value = JNull,
            st_closed = True, st_run_epoch = epoch\<rparr>]"
      using all by (simp add: stream_rows_append [OF all(3)])
    moreover have "dense (stream_rows (snd (stream_append i key JNull True epoch ?d)) i key)"
      by (rule stream_append_dense) (rule all(3))
    moreover have "list_all (\<lambda>r. \<not> st_closed r) (stream_rows ?d i key)"
      using all(2) by (auto simp: list_ex_iff list_all_iff)
    ultimately show ?thesis
      using all(1) by (simp add: write_stream_def True Let_def open_values_append) (simp add: open_values_def)
  next
    case False
    with all show ?thesis by (simp add: write_stream_def open_rows)
  qed
qed

text \<open>
  C20. A stream is read as it was written. Let the owner of a job append values to a stream it
  has not used, and close it or not. A snapshot afterwards is those values in order and
  whether the stream was closed. And a live reader that starts anywhere from the first
  position to the last, reading pages while the stream grows into that one, whatever each
  look finds of it, returns: it yields exactly the values from its start on, each once and
  in order, up to the close or the end of the job.
\<close>

theorem a_stream_is_read_as_written:
  assumes "\<And>k l. dense (stream_rows d k l)" and "owns d i epoch" and "stream_rows d i key = []"
    and "offset \<le> length vs"
    and reader: "grows_into pages states i key (stream_rows (write_stream i key epoch vs shut d) i key)"
  shows "get_stream (write_stream i key epoch vs shut d) i key = (vs, shut)
    \<and> read_stream pages states i key (int offset) = Some (drop offset vs, StreamOver)"
proof -
  let ?F = "stream_rows (write_stream i key epoch vs shut d) i key"
  have F: "dense ?F" "open_values ?F = vs" "list_ex st_closed ?F = shut"
    using write_stream_rows [OF assms(1-3)] by blast+
  from reader obtain q K where
    q: "\<And>k. stream_rows (pages k) i key = take (q k) ?F" "\<And>k. q k \<le> q (Suc k)" "\<And>k. lookup_job (states k) i \<noteq> None"
      "\<And>k j. lookup_job (states k) i = Some j \<Longrightarrow> j_state j \<in> set TERMINAL_STATES \<Longrightarrow> length ?F \<le> q (Suc k)"
    and K: "\<And>k. K \<le> k \<Longrightarrow> length ?F \<le> q k \<and> (list_ex st_closed ?F \<or> over (states k) i)"
    unfolding grows_into_def by blast
  have "read_loop pages states i key STREAM_READ_BATCH 0 (int offset) False [] = Some ([] @ drop offset (open_values ?F), StreamOver)"
    using assms(4) by (intro read_loop_reads [where F = ?F and q = q and K = K, OF F(1) _ q K]) (simp_all add: F(2) STREAM_READ_BATCH_def)
  then show ?thesis using get_stream_dense [OF F(1)] F by (simp add: read_stream_def)
qed

section \<open>Witnesses\<close>

definition running_db :: database where
  "running_db = seed_db [((default_jorb 0 7)\<lparr>j_state := Running, j_run_count := 1, j_run_epoch := 1\<rparr>, [Queued, Claimed, Running])]"

definition finished_db :: database where
  "finished_db = seed_db [((default_jorb 0 7)\<lparr>j_state := Finished, j_result := Some (JInt 3)\<rparr>, [Queued, Claimed, Running, Finished])]"

lemma running_db_simps [simp]:
  "lookup_job running_db 7 = Some ((default_jorb 0 7)\<lparr>j_state := Running, j_run_count := 1, j_run_epoch := 1\<rparr>)"
  "lookup_job finished_db 7 = Some ((default_jorb 0 7)\<lparr>j_state := Finished, j_result := Some (JInt 3)\<rparr>)"
  by (simp_all add: running_db_def finished_db_def lookup_job_def seed_db_def empty_db_def)

lemma running_db_ok: "jobs_ok running_db"
  by (simp add: running_db_def seed_simps)

lemma running_live: "live_at running_db 7"
  unfolding live_at_def by simp

lemma finished_over: "over finished_db 7"
  unfolding over_def live_at_def by simp

text \<open>A job that runs until the instant 5, waited for by a client that looks once a second.\<close>

definition world :: "instant \<Rightarrow> database" where
  "world t = (if t < 5 then running_db else finished_db)"

definition second :: "nat \<Rightarrow> instant" where
  "second k = 500000 * int k"

lemma second_0 [simp]: "second 0 = 0"
  by (simp add: second_def)

lemma second_wait:
  "\<exists>n r. wait_for_result (\<lambda>k. world (second k)) second 0 7 None = Some r
     \<and> answered (check_result 7) (world (second n)) r \<and> second n \<le> 500005"
proof -
  have beats: "beats False 0 second second (deadline_of 0 None)"
    by (simp add: beats_def second_def deadline_of_def wait_beat_def PURE_POLL_INTERVAL_def)
  have "\<And>t. 5 \<le> t \<Longrightarrow> over (world t) 7" by (simp add: world_def finished_over)
  from poll_until_in_time [OF beats, of 5 "\<lambda>k. check_result 7 (world (second k))"] this show ?thesis
    by (auto simp: wait_for_result_def answered_def over_decides wait_beat_def PURE_POLL_INTERVAL_def)
qed

theorem a_wait_tells_the_truth_witness:
  "wait_for_result (\<lambda>k. world (second k)) second 0 7 None = Some (Inr (Some (JInt 3)))"
proof -
  obtain r where r: "wait_for_result (\<lambda>k. world (second k)) second 0 7 None = Some r" using second_wait by blast
  have "lookup_job (world t) 7 = Some j \<Longrightarrow> j_state j = Finished \<Longrightarrow> j_result j = Some (JInt 3)"
    "lookup_job (world t) 7 \<noteq> None" "lookup_job (world t) 7 = Some j \<Longrightarrow> j_state j \<noteq> Crashed \<and> j_state j \<noteq> Cancelled" for t j
    by (auto simp: world_def split: if_splits)
  moreover from a_wait_tells_the_truth [OF r] obtain n where "case r of
         Inr v \<Rightarrow> \<exists>j. lookup_job (world (second n)) 7 = Some j \<and> j_state j = Finished \<and> v = j_result j
       | Inl e \<Rightarrow>
           e = NoSuchJob 7 \<and> lookup_job (world (second n)) 7 = None
           \<or> (\<exists>j. lookup_job (world (second n)) 7 = Some j \<and> j_state j = Crashed \<and> e = JobFailed 7 (j_error_message j))
           \<or> (\<exists>j. lookup_job (world (second n)) 7 = Some j \<and> j_state j = Cancelled \<and> e = JobWasCancelled 7)
           \<or> e = TimedOut \<and> live_at (world (second n)) 7 \<and> (\<exists>t. None = Some t \<and> 0 + t \<le> second n)" by blast
  ultimately have "r = Inr (Some (JInt 3))" by (cases r) (auto, metis option.distinct(1))
  with r show ?thesis by simp
qed

theorem no_wait_misses_the_end_witness:
  "\<exists>n r. wait_for_result (\<lambda>k. world (second k)) second 0 7 None = Some r
     \<and> answered (check_result 7) (world (second n)) r \<and> second n \<le> 500005"
proof -
  have beats: "beats False 0 second second (deadline_of 0 None)"
    by (simp add: beats_def second_def deadline_of_def wait_beat_def PURE_POLL_INTERVAL_def)
  have "\<And>t. 5 \<le> t \<Longrightarrow> over (world t) 7" by (simp add: world_def finished_over)
  from no_wait_misses_the_end [where looks = "\<lambda>k. world (second k)" and world = world and T = 5, OF beats refl this]
  have "\<exists>n r. wait_for_result (\<lambda>k. world (second k)) second 0 7 None = Some r
     \<and> answered (check_result 7) (world (second n)) r \<and> second n \<le> max (second 0) (5 + wait_beat False None + 2 * 0)" by blast
  then show ?thesis by (simp add: wait_beat_def PURE_POLL_INTERVAL_def)
qed

theorem cancel_and_wait_comes_back_witness:
  "cancel_and_wait 9 running_db (\<lambda>_. running_db) (\<lambda>k. int k) 0 finished_db 7 (Some 4) = Some (Inr (Some Finished))"
proof -
  have "\<exists>k. t \<le> int k" for t by (intro exI [of _ "nat t"]) simp
  from cancel_and_wait_comes_back [OF running_db_ok this, of 9 "\<lambda>_. running_db" 0 finished_db 7 "Some 4"]
  show ?thesis by auto
qed

theorem a_stream_is_read_as_written_witness:
  "let d = write_stream 7 ''rows'' 1 [JInt 1, JInt 2, JInt 3] True running_db
   in read_stream (\<lambda>_. d) (\<lambda>_. running_db) 7 ''rows'' 1 = Some ([JInt 2, JInt 3], StreamOver)"
proof -
  let ?d = "write_stream 7 ''rows'' 1 [JInt 1, JInt 2, JInt 3] True running_db"
  let ?F = "stream_rows ?d 7 ''rows''"
  have none: "stream_rows running_db k l = []" for k l
    by (simp add: stream_rows_def running_db_def seed_db_def empty_db_def)
  have dense: "dense (stream_rows running_db k l)" for k l by (simp add: none dense_def)
  have own: "owns running_db 7 1" by (simp add: owns_def)
  have "list_ex st_closed ?F" using write_stream_rows [OF dense own none] by blast
  then have "grows_into (\<lambda>_. ?d) (\<lambda>_. running_db) 7 ''rows'' ?F"
    unfolding grows_into_def by (intro exI [of _ "\<lambda>_. length ?F"]) simp
  from a_stream_is_read_as_written [OF dense own none _ this, of 1] show ?thesis by (simp add: Let_def)
qed

end
