(* ===== verification/Notify.thy ===== *)
theory Notify
  imports System Waits
begin

text \<open>
  Notifications (\<open>sql/schema/90_notify.sql\<close>): the one trigger function with its gate and its
  payloads, the six triggers that call it, and the client's half of it, the registration of
  demand and the dispatch to waiters (\<open>client.py\<close>). A notification is sent at the commit of the
  statement whose trigger sends it.
\<close>

section \<open>The trigger function\<close>

datatype channel = JorbEnqueued | JorbDone | JorbCancel | JorbEvent | JorbStream | ScheduleExecuted

datatype demand = RowLocal | Ungated | IdleWorker | JobAwaited

datatype topic = QueueTopic string | JobTopic job_id | ScheduleTopic int

text \<open>\<open>NEW\<close>, of the table the trigger is on; a log row with the columns that are read of it.\<close>

datatype new_row =
    JobRow jorb
  | EventRow event_row
  | StreamRow stream_row
  | LogRow int string string "job_id option"

datatype payload =
    QueuePayload string
  | IdPayload job_id
  | DonePayload job_id jorbstate
  | KeyPayload job_id string
  | ExecutedPayload int string string "job_id option"

text \<open>A column \<open>NEW\<close> does not have is an error, \<open>None\<close>.\<close>

fun topic_of :: "channel \<Rightarrow> new_row \<Rightarrow> topic option" where
  "topic_of JorbEnqueued (JobRow j) = Some (QueueTopic (j_queue j))"
| "topic_of JorbDone (JobRow j) = Some (JobTopic (j_id j))"
| "topic_of JorbCancel (JobRow j) = Some (JobTopic (j_id j))"
| "topic_of JorbEvent (EventRow e) = Some (JobTopic (e_job_id e))"
| "topic_of JorbStream (StreamRow r) = Some (JobTopic (st_job_id r))"
| "topic_of ScheduleExecuted (LogRow i _ _ _) = Some (ScheduleTopic i)"
| "topic_of _ _ = None"

fun wanted :: "demand \<Rightarrow> topic \<Rightarrow> 'w worker_row_scheme list \<Rightarrow> database \<Rightarrow> bool" where
  "wanted RowLocal _ _ _ = True"
| "wanted Ungated _ _ _ = True"
| "wanted IdleWorker t ws _ = list_ex (\<lambda>w. QueueTopic (w_queue w) = t \<and> w_idle w \<and> w_shutdown_at w = None) ws"
| "wanted JobAwaited t _ d = list_ex (\<lambda>j. JobTopic (j_id j) = t \<and> j_awaited j) (jobs d)"

fun payload_of :: "channel \<Rightarrow> new_row \<Rightarrow> payload option" where
  "payload_of JorbEnqueued (JobRow j) = Some (QueuePayload (j_queue j))"
| "payload_of JorbCancel (JobRow j) = Some (IdPayload (j_id j))"
| "payload_of JorbDone (JobRow j) = Some (DonePayload (j_id j) (j_state j))"
| "payload_of JorbEvent (EventRow e) = Some (KeyPayload (e_job_id e) (e_key e))"
| "payload_of JorbStream (StreamRow r) = Some (KeyPayload (st_job_id r) (st_key r))"
| "payload_of ScheduleExecuted (LogRow i name result job) = Some (ExecutedPayload i name result job)"
| "payload_of _ _ = None"

text \<open>\<open>None\<close> is the error, \<open>Some []\<close> a gate that is shut.\<close>

definition jorb_notify ::
  "channel \<Rightarrow> demand \<Rightarrow> new_row \<Rightarrow> 'w worker_row_scheme list \<Rightarrow> database \<Rightarrow> (channel \<times> payload) list option" where
  "jorb_notify channel demand new ws d =
     Option.bind (topic_of channel new) (\<lambda>topic.
       if \<not> wanted demand topic ws d then Some []
       else map_option (\<lambda>payload. [(channel, payload)]) (payload_of channel new))"

section \<open>The triggers\<close>

text \<open>
  \<open>AFTER UPDATE OF c\<close> fires when the statement's \<open>SET\<close> list names \<open>c\<close>, whatever it wrote there;
  \<open>None\<close> for \<open>OLD\<close> is an insert. \<open>jorb_enqueued_notify\<close> is deferred: its tables are those at commit.
\<close>

definition jorb_enqueued_notify ::
  "bool \<Rightarrow> jorb option \<Rightarrow> jorb \<Rightarrow> 'w worker_row_scheme list \<Rightarrow> database \<Rightarrow> (channel \<times> payload) list option" where
  "jorb_enqueued_notify sets_state old new ws d =
     (if (old = None \<or> sets_state) \<and> j_state new = Queued
      then jorb_notify JorbEnqueued IdleWorker (JobRow new) ws d else Some [])"

definition jorb_done_notify ::
  "bool \<Rightarrow> jorb option \<Rightarrow> jorb \<Rightarrow> 'w worker_row_scheme list \<Rightarrow> database \<Rightarrow> (channel \<times> payload) list option" where
  "jorb_done_notify sets_state old new ws d =
     (if old \<noteq> None \<and> sets_state \<and> (j_state new = Finished \<or> j_state new = Crashed \<or> j_state new = Cancelled)
         \<and> j_awaited new
      then jorb_notify JorbDone RowLocal (JobRow new) ws d else Some [])"

definition jorb_cancel_notify ::
  "bool \<Rightarrow> jorb option \<Rightarrow> jorb \<Rightarrow> 'w worker_row_scheme list \<Rightarrow> database \<Rightarrow> (channel \<times> payload) list option" where
  "jorb_cancel_notify sets_cancel old new ws d =
     (if old \<noteq> None \<and> sets_cancel \<and> j_cancel_requested new \<and> j_state new = Running
      then jorb_notify JorbCancel RowLocal (JobRow new) ws d else Some [])"

definition jorb_event_notify :: "event_row \<Rightarrow> 'w worker_row_scheme list \<Rightarrow> database \<Rightarrow> (channel \<times> payload) list option" where
  "jorb_event_notify new ws d = jorb_notify JorbEvent JobAwaited (EventRow new) ws d"

definition jorb_stream_notify ::
  "stream_row option \<Rightarrow> stream_row \<Rightarrow> 'w worker_row_scheme list \<Rightarrow> database \<Rightarrow> (channel \<times> payload) list option" where
  "jorb_stream_notify old new ws d =
     (if old = None then jorb_notify JorbStream JobAwaited (StreamRow new) ws d else Some [])"

definition schedule_executed_notify ::
  "int \<Rightarrow> string \<Rightarrow> string \<Rightarrow> job_id option \<Rightarrow> 'w worker_row_scheme list \<Rightarrow> database \<Rightarrow> (channel \<times> payload) list option" where
  "schedule_executed_notify i name result job ws d =
     jorb_notify ScheduleExecuted Ungated (LogRow i name result job) ws d"

lemma trigger_notices:
  "jorb_enqueued_notify b old new ws d =
     Some (if (old = None \<or> b) \<and> j_state new = Queued
               \<and> list_ex (\<lambda>w. w_queue w = j_queue new \<and> w_idle w \<and> w_shutdown_at w = None) ws
           then [(JorbEnqueued, QueuePayload (j_queue new))] else [])"
  "jorb_done_notify b old new ws d =
     Some (if old \<noteq> None \<and> b \<and> j_state new \<in> set TERMINAL_STATES \<and> j_awaited new
           then [(JorbDone, DonePayload (j_id new) (j_state new))] else [])"
  "jorb_cancel_notify b old new ws d =
     Some (if old \<noteq> None \<and> b \<and> j_cancel_requested new \<and> j_state new = Running
           then [(JorbCancel, IdPayload (j_id new))] else [])"
  by (auto simp: jorb_enqueued_notify_def jorb_done_notify_def jorb_cancel_notify_def jorb_notify_def)

text \<open>
  What a commit sends on the three channels of the job table, from the rows it changed: every
  statement of the platform that changes a state names it in its \<open>SET\<close> list.
\<close>

definition row_notices ::
  "(jorb option \<Rightarrow> jorb \<Rightarrow> 'w worker_row_scheme list \<Rightarrow> database \<Rightarrow> (channel \<times> payload) list option)
     \<Rightarrow> 'w worker_row_scheme list \<Rightarrow> database \<Rightarrow> database \<Rightarrow> (channel \<times> payload) list" where
  "row_notices trigger ws d d' =
     concat (map (\<lambda>k. case trigger (lookup_job d (j_id k)) k ws d' of None \<Rightarrow> [] | Some ns \<Rightarrow> ns) (jobs d'))"

definition state_changed :: "jorb option \<Rightarrow> jorb \<Rightarrow> bool" where
  "state_changed old new \<longleftrightarrow> (case old of None \<Rightarrow> False | Some j \<Rightarrow> j_state j \<noteq> j_state new)"

definition done_notices :: "'w worker_row_scheme list \<Rightarrow> database \<Rightarrow> database \<Rightarrow> (channel \<times> payload) list" where
  "done_notices = row_notices (\<lambda>old new. jorb_done_notify (state_changed old new) old new)"

definition enqueued_notices :: "'w worker_row_scheme list \<Rightarrow> database \<Rightarrow> database \<Rightarrow> (channel \<times> payload) list" where
  "enqueued_notices = row_notices (\<lambda>old new. jorb_enqueued_notify (state_changed old new) old new)"

lemma set_done_notices:
  "n \<in> set (done_notices ws d d') \<longleftrightarrow>
     (\<exists>k \<in> set (jobs d'). n = (JorbDone, DonePayload (j_id k) (j_state k)) \<and> j_state k \<in> set TERMINAL_STATES \<and> j_awaited k
        \<and> state_changed (lookup_job d (j_id k)) k)"
  by (auto simp: done_notices_def row_notices_def trigger_notices state_changed_def split: option.splits)

lemma set_enqueued_notices:
  "n \<in> set (enqueued_notices ws d d') \<longleftrightarrow>
     (\<exists>k \<in> set (jobs d'). n = (JorbEnqueued, QueuePayload (j_queue k)) \<and> j_state k = Queued
        \<and> (lookup_job d (j_id k) = None \<or> state_changed (lookup_job d (j_id k)) k)
        \<and> (\<exists>w \<in> set ws. w_queue w = j_queue k \<and> w_idle w \<and> w_shutdown_at w = None))"
  by (auto simp: enqueued_notices_def row_notices_def trigger_notices list_ex_iff split: option.splits)

section \<open>The client's half\<close>

text \<open>\<open>waiters\<close>: the events parked under a key. An event is a number, set when it is in \<open>woken\<close>.\<close>

record 'k parking =
  waiters :: "'k \<Rightarrow> nat list option"
  woken :: "nat set"
  next_waiter :: nat

definition parked_at :: "'k parking \<Rightarrow> 'k \<Rightarrow> nat list" where
  "parked_at p k = (case waiters p k of None \<Rightarrow> [] | Some ws \<Rightarrow> ws)"

text \<open>\<open>_register_demand\<close>: the latch first, then the event the wait parks on.\<close>

definition register_demand ::
  "bool \<Rightarrow> bool \<Rightarrow> 'k \<Rightarrow> job_id \<Rightarrow> 'k parking \<Rightarrow> database \<Rightarrow> sql_error + (nat option \<times> 'k parking \<times> database)" where
  "register_demand listening register key i p d =
     (if \<not> (register \<and> listening) then Inr (None, p, d)
      else bind_sum (REGISTER_DEMAND_SQL i d) (\<lambda>(rs, d').
        let slot = next_waiter p
        in Inr (Some slot, p\<lparr>waiters := (waiters p)(key \<mapsto> parked_at p key @ [slot]), next_waiter := slot + 1\<rparr>, d')))"

definition release_demand :: "'k \<Rightarrow> nat option \<Rightarrow> 'k parking \<Rightarrow> 'k parking" where
  "release_demand key slot p =
     (case slot of
        None \<Rightarrow> p
      | Some n \<Rightarrow>
          (case waiters p key of
             None \<Rightarrow> p
           | Some entries \<Rightarrow>
               let entries' = remove1 n entries
               in p\<lparr>waiters := (waiters p)(key := if entries' = [] then None else Some entries')\<rparr>))"

text \<open>A notification that names no key of this kind is suppressed.\<close>

definition dispatch :: "(payload \<Rightarrow> 'k option) \<Rightarrow> payload \<Rightarrow> 'k parking \<Rightarrow> 'k parking" where
  "dispatch key_of payload p =
     (case key_of payload of None \<Rightarrow> p | Some k \<Rightarrow> p\<lparr>woken := woken p \<union> set (parked_at p k)\<rparr>)"

fun done_key :: "payload \<Rightarrow> job_id option" where
  "done_key (DonePayload i _) = Some i"
| "done_key _ = None"

fun event_key :: "payload \<Rightarrow> (job_id \<times> string) option" where
  "event_key (KeyPayload i k) = Some (i, k)"
| "event_key _ = None"

definition on_jorb_done :: "payload \<Rightarrow> job_id parking \<Rightarrow> job_id parking" where
  "on_jorb_done = dispatch done_key"

definition on_jorb_event :: "payload \<Rightarrow> (job_id \<times> string) parking \<Rightarrow> (job_id \<times> string) parking" where
  "on_jorb_event = dispatch event_key"

definition on_jorb_stream :: "payload \<Rightarrow> (job_id \<times> string) parking \<Rightarrow> (job_id \<times> string) parking" where
  "on_jorb_stream = dispatch event_key"

section \<open>The latch\<close>

definition awaited_in :: "database \<Rightarrow> job_id \<Rightarrow> bool" where
  "awaited_in d i \<longleftrightarrow> (\<forall>j. lookup_job d i = Some j \<longrightarrow> j_awaited j) \<and> i < next_job_id d"

lemma registered:
  assumes "jobs_ok d" "lookup_job d i = Some j" "register_demand True True key i p d = Inr (w, p', d')"
  shows "awaited_in d' i" "jobs_ok d'" "platform_step d d'" "w = Some (next_waiter p)"
    "next_waiter p \<in> set (parked_at p' key)" "woken p' = woken p"
proof -
  from assms(3) have run: "REGISTER_DEMAND_SQL i d = Inr (map demand_set (filter (demand_where i) (jobs d)), demand.after i d)"
    "d' = demand.after i d" and w: "w = Some (next_waiter p)"
    "p' = p\<lparr>waiters := (waiters p)(key \<mapsto> parked_at p key @ [next_waiter p]), next_waiter := next_waiter p + 1\<rparr>"
    by (auto simp: register_demand_def REGISTER_DEMAND_SQL_def demand.runs [OF assms(1)] Let_def)
  have "i < next_job_id d" using assms(1,2) by (auto simp: jobs_ok_def dest: lookup_job_SomeD)
  moreover have "j_id j = i" using assms(2) by (auto dest: lookup_job_SomeD)
  ultimately show "awaited_in d' i"
    using assms(2) by (auto simp: awaited_in_def run(2) demand.after_lookup demand_where_def demand_set_def)
  show "jobs_ok d'" unfolding run(2) by (rule demand.after_ok [OF assms(1)])
  show "platform_step d d'" using run by (blast intro: platform_step.demand)
  show "w = Some (next_waiter p)" "next_waiter p \<in> set (parked_at p' key)" "woken p' = woken p"
    by (simp_all add: w parked_at_def)
qed

lemma latch_kept:
  assumes "platform_step d d'" "system_ok d" "awaited_in d i"
  shows "awaited_in d' i"
  using platform_step_sound [OF assms(1,2)] assms(3)
  unfolding awaited_in_def sound_step_def moves_forward_def by (meson order_less_le_trans)


text \<open>Along a run: the tables stay sound, the latch stays set, a row that is there was there.\<close>

definition runs_on :: "(nat \<Rightarrow> database) \<Rightarrow> nat \<Rightarrow> bool" where
  "runs_on path N \<longleftrightarrow> (\<forall>n < N. platform_step (path n) (path (Suc n)))"

lemma run_keeps:
  assumes "runs_on path N" "system_ok (path 0)" "awaited_in (path 0) i" "n \<le> N"
  shows "system_ok (path n) \<and> awaited_in (path n) i"
  using assms(4)
proof (induction n)
  case (Suc n)
  then have "platform_step (path n) (path (Suc n))" "system_ok (path n)" "awaited_in (path n) i"
    using assms(1) by (simp_all add: runs_on_def)
  then show ?case using latch_kept platform_step_sound by (auto simp: sound_step_def)
qed (use assms in simp)

lemma row_was_there:
  assumes run: "runs_on path N" "system_ok (path 0)" "awaited_in (path 0) i"
    and "lookup_job (path N) i \<noteq> None" "n \<le> N"
  shows "lookup_job (path n) i \<noteq> None"
  using assms(5,4)
proof (induction n rule: inc_induct)
  case (step n)
  have "sound_step (path n) (path (Suc n))" "i < next_job_id (path n)"
    using run_keeps [OF run, of n] step run(1) platform_step_sound by (auto simp: runs_on_def awaited_in_def)
  with step show ?case by (auto simp: sound_step_def moves_forward_def)
qed

lemma last_live:
  assumes "P (m :: nat)" "\<not> P N" "m \<le> N"
  obtains n where "m \<le> n" "n < N" "P n" "\<not> P (Suc n)"
proof -
  have "\<exists>n. m \<le> n \<and> n < N \<and> P n \<and> \<not> P (Suc n)"
    using assms(3,1,2)
  proof (induction m rule: inc_induct)
    case (step m)
    then show ?case by (cases "P (Suc m)") (auto dest: Suc_leD)
  qed simp
  with that show ?thesis by blast
qed

text \<open>
  C16. No wakeup of a wait for a result is lost. A client with a listener registers its demand
  for a job and then looks. If a look finds the job live, then whatever the platform does
  until the job's row is found terminal, one of its commits after that look sends
  \<open>jorb_done\<close> for the job with a terminal state, and the notification wakes the client's wait.
\<close>

theorem no_result_wakeup_is_lost:
  assumes start: "reachable d" "lookup_job d i = Some j"
    and registers: "register_demand True True i i p d = Inr (w, p', path 0)"
    and run: "runs_on path N"
    and looks: "m \<le> N" "live_at (path m) i"
    and ended: "lookup_job (path N) i = Some k" "j_state k \<in> set TERMINAL_STATES"
  shows "\<exists>n s. m \<le> n \<and> n < N \<and> s \<in> set TERMINAL_STATES
    \<and> (JorbDone, DonePayload i s) \<in> set (done_notices (ws n) (path n) (path (Suc n)))
    \<and> (\<exists>e. w = Some e \<and> e \<in> woken (on_jorb_done (DonePayload i s) p'))"
proof -
  have ok: "system_ok d" "jobs_ok d" using start(1) reachable_ok by (auto simp: system_ok_def)
  note reg = registered [OF ok(2) start(2) registers]
  have ok0: "system_ok (path 0)" using platform_step_sound [OF reg(3) ok(1)] by (simp add: sound_step_def)
  have "\<not> live_at (path N) i" using ended by (auto simp: live_at_def)
  from looks(2) this looks(1)
  obtain n where n: "m \<le> n" "n < N" "live_at (path n) i" "\<not> live_at (path (Suc n)) i"
    by (rule last_live [where P = "\<lambda>n. live_at (path n) i"])
  have "lookup_job (path (Suc n)) i \<noteq> None"
    using row_was_there [OF run ok0 reg(1)] ended(1) n(2) by simp
  then obtain l where l: "lookup_job (path (Suc n)) i = Some l" by blast
  have "awaited_in (path (Suc n)) i" using run_keeps [OF run ok0 reg(1), of "Suc n"] n(2) by simp
  with l have "j_awaited l" by (simp add: awaited_in_def)
  moreover have terminal: "j_state l \<in> set TERMINAL_STATES"
    using n(4) l by (cases "j_state l") (auto simp: live_at_def)
  moreover have "state_changed (lookup_job (path n) i) l"
    using n(3) terminal by (auto simp: live_at_def state_changed_def)
  ultimately have "(JorbDone, DonePayload i (j_state l)) \<in> set (done_notices (ws n) (path n) (path (Suc n)))"
    using lookup_job_SomeD [OF l] by (auto simp: set_done_notices intro!: bexI [of _ l])
  with n(1,2) terminal reg(4-5) show ?thesis by (auto simp: on_jorb_done_def dispatch_def)
qed

section \<open>Cancellation\<close>

text \<open>
  C18. A cancel of an in-flight job reaches the attempt that holds it. Where the job is running
  the statement that requests the cancel notifies \<open>jorb_cancel\<close> with its id; where it is
  claimed, the request waits in the row, and the attempt's own \<open>run\<close> statement brings it back.
  It is brought back by no other attempt.
\<close>

theorem a_cancellation_is_delivered:
  assumes ok: "jobs_ok d" and job: "lookup_job d i = Some j" "j_state j \<in> set IN_FLIGHT_STATES"
    and cancel: "cancel_job now d i = Inr (c, d')"
  shows "c = Some CancelRequested \<and> (\<exists>k. lookup_job d' i = Some k \<and> j_cancel_requested k \<and> j_run_epoch k = j_run_epoch j
    \<and> (if j_state j = Running
       then jorb_cancel_notify True (Some j) k ws d' = Some [(JorbCancel, IdPayload i)]
       else jorb_cancel_notify True (Some j) k ws d' = Some []
         \<and> (\<exists>r e. stmt_run later i (j_run_epoch j) timeout d' = Inr ([r], e) \<and> j_cancel_requested r)
         \<and> (\<forall>epoch. epoch \<noteq> j_run_epoch j \<longrightarrow> stmt_run later i epoch timeout d' = Inr ([], d'))))"
proof -
  let ?k = "j\<lparr>j_cancel_requested := True, j_updated := now\<rparr>"
  have id: "j_id j = i" using job(1) by (auto dest: lookup_job_SomeD)
  obtain r e where "cancel_job now d i = Inr (r, e)" "r = Some CancelRequested" "lookup_job e i = Some ?k"
    using cancel_stages [OF ok, of now i] job by (auto split: if_splits)
  with cancel have c: "c = Some CancelRequested" and k: "lookup_job d' i = Some ?k" by simp_all
  from cancel obtain rs f where st: "stmt_cancel now [i] d = Inr (rs, f)"
    by (auto simp: cancel_job_def bind_sum_Inr_iff)
  with cancel have "d' = f" by (cases rs) (simp_all add: cancel_job_def)
  with st have ok': "jobs_ok d'" using cancel.keeps_ok [OF ok] by (simp add: stmt_cancel_def)
  have "\<exists>r e. stmt_run later i (j_run_epoch j) timeout d' = Inr ([r], e) \<and> j_cancel_requested r" if "j_state j = Claimed"
    using run.live(1) [OF ok' k, of "j_run_epoch j" later timeout] that id
    by (simp add: stmt_run_def fenced_def run_set_def)
  moreover have "stmt_run later i epoch timeout d' = Inr ([], d')" if "epoch \<noteq> j_run_epoch j" for epoch
    using run.superseded [OF ok', of i epoch later timeout] k that by (simp add: stmt_run_def)
  ultimately show ?thesis using c k job(2) id by (auto simp: trigger_notices)
qed

section \<open>Compaction keeps the latch\<close>

text \<open>
  A compaction leaves every job row as it is, the demand latch included: a wait that was
  registered before it is notified of what the job publishes after it.
\<close>

lemma compaction_keeps_the_latch:
  assumes "awaited_in d i"
  shows "awaited_in (snd (compact_write i epoch d)) i"
  using assms by (auto simp: awaited_in_def compact_write_def compact_steps_def lookup_job_def)


section \<open>Witnesses\<close>

text \<open>A job is waited on while it is queued, and then cancelled.\<close>

definition queued_db :: database where
  "queued_db = seed_db [(default_jorb 0 1, [Queued])]"

definition awaited_path :: "nat \<Rightarrow> database" where
  "awaited_path n =
     (let watched = demand.after 1 queued_db in if n = 0 then watched else cancel.after [1] 9 watched)"

lemma queued_db_facts:
  "jobs_ok queued_db" "lookup_job queued_db 1 = Some (default_jorb 0 1)"
  by (simp_all add: queued_db_def seed_simps)

lemma awaited_path_rows:
  "lookup_job (awaited_path 0) 1 = Some ((default_jorb 0 1)\<lparr>j_awaited := True\<rparr>)"
  "lookup_job (awaited_path (Suc 0)) 1 = Some (cancel_set 9 ((default_jorb 0 1)\<lparr>j_awaited := True\<rparr>))"
  by (simp_all add: awaited_path_def demand.after_lookup cancel.after_lookup queued_db_facts demand_where_def
      demand_set_def cancel_where_def LIVE_STATES_def)

theorem no_result_wakeup_is_lost_witness:
  "\<exists>s \<in> set TERMINAL_STATES. (JorbDone, DonePayload 1 s)
     \<in> set (done_notices ([] :: worker_row list) (awaited_path 0) (awaited_path (Suc 0)))"
proof -
  let ?p = "\<lparr>waiters = \<lambda>_. None, woken = {}, next_waiter = 0\<rparr> :: job_id parking"
  obtain w p' where reg: "register_demand True True 1 1 ?p queued_db = Inr (w, p', awaited_path 0)"
    by (simp add: register_demand_def REGISTER_DEMAND_SQL_def demand.runs [OF queued_db_facts(1)] Let_def awaited_path_def)
  have ok: "jobs_ok (demand.after 1 queued_db)" by (rule demand.after_ok [OF queued_db_facts(1)])
  have "stmt_cancel 9 [1] (awaited_path 0)
      = Inr ([cancel_set 9 ((default_jorb 0 1)\<lparr>j_awaited := True\<rparr>)], awaited_path (Suc 0))"
    using ok by (simp add: stmt_cancel_def awaited_path_def cancel.runs)
      (simp add: queued_db_def seed_db_def cancel_where_def demand_where_def demand_set_def LIVE_STATES_def)
  then have "platform_step (awaited_path 0) (awaited_path (Suc 0))"
    by (intro platform_step.cancel [where i = 1 and now = 9]) (auto simp: cancel_job_def)
  then have run: "runs_on awaited_path 1" by (simp add: runs_on_def)
  have reach: "reachable queued_db" using first_enqueue_reachable by (simp add: queued_db_def)
  have live: "live_at (awaited_path 0) 1" by (simp add: live_at_def awaited_path_rows)
  have over: "j_state (cancel_set 9 ((default_jorb 0 1)\<lparr>j_awaited := True\<rparr>)) \<in> set TERMINAL_STATES"
    by (simp add: cancel_set_def)
  from no_result_wakeup_is_lost [OF reach queued_db_facts(2) reg run _ live awaited_path_rows(2) [folded One_nat_def] over,
      of "\<lambda>_. []"]
  show ?thesis by auto
qed

theorem a_cancellation_is_delivered_witness:
  "\<exists>d d' r e. cancel_job 7 d 1 = Inr (Some CancelRequested, d')
     \<and> stmt_run 8 1 1 None d' = Inr ([r], e) \<and> j_cancel_requested r"
proof -
  obtain d j where d: "reachable d" "lookup_job d 1 = Some j" "j_state j = Claimed" "j_run_epoch j = 1"
    using first_claim_reachable by blast
  have ok: "jobs_ok d" using reachable_ok [OF d(1)] by (simp add: system_ok_def)
  obtain c d' where cancel: "cancel_job 7 d 1 = Inr (c, d')" using cancel_stages [OF ok, of 7 1] by blast
  have flying: "j_state j \<in> set IN_FLIGHT_STATES" using d(3) by simp
  show ?thesis
    using cancel d(3,4) a_cancellation_is_delivered [OF ok d(2) flying cancel, of "[] :: worker_row list" 8 None] by auto
qed

end
