(* ===== verification/Explain.thy ===== *)
theory Explain
  imports Claim Monitor
begin

text \<open>
  Why a job is not running: \<open>explain_job\<close> and \<open>unclaimable_jobs\<close> of \<open>pyjobby/admin_api.py\<close>.
  An answer is its reason code and the facts it reports; the sentence rendered from them is
  not modelled, nor are the columns of the row that the answer only copies. The worker
  registry and the database's clock are arguments. Listed strings are in code point order,
  where the server has its collation's.
\<close>

section \<open>The fleet\<close>

text \<open>\<open>jorb_worker\<close> with what a worker publishes about the jobs it will claim.\<close>

record fleet_worker = worker_row +
  w_capabilities :: "string list"
  w_max_prio :: int
  w_app_version :: "string option"
  w_pid :: int
  w_host :: string

definition live_worker :: "instant \<Rightarrow> interval \<Rightarrow> fleet_worker \<Rightarrow> bool" where
  "live_worker now grace w \<longleftrightarrow> w_shutdown_at w = None \<and> now - grace < w_last_seen w"

definition fleet_on :: "instant \<Rightarrow> interval \<Rightarrow> string \<Rightarrow> fleet_worker list \<Rightarrow> fleet_worker list" where
  "fleet_on now grace queue ws = filter (\<lambda>w. w_queue w = queue \<and> live_worker now grace w) ws"

definition at_prio :: "int \<Rightarrow> fleet_worker \<Rightarrow> bool" where
  "at_prio prio w \<longleftrightarrow> prio \<le> w_max_prio w"

definition capable :: "string option \<Rightarrow> fleet_worker \<Rightarrow> bool" where
  "capable c w \<longleftrightarrow> (case c of None \<Rightarrow> True | Some k \<Rightarrow> k \<in> set (w_capabilities w))"

definition versioned :: "string option \<Rightarrow> fleet_worker \<Rightarrow> bool" where
  "versioned v w \<longleftrightarrow> v = None \<or> w_app_version w = v"

definition max_ceiling :: "fleet_worker list \<Rightarrow> int" where
  "max_ceiling fleet = (case map w_max_prio fleet of [] \<Rightarrow> 0 | p # ps \<Rightarrow> fold max ps p)"

section \<open>Reasons\<close>

definition EXPLAIN_REASONS :: "string list" where
  "EXPLAIN_REASONS =
     [''finished'', ''crashed'', ''cancelled'', ''claimed'', ''running'',
      ''waiting_on_job'', ''waiting_on_group'', ''waiting_unblocked'',
      ''deferred'', ''above_worker_ceiling'', ''capability_unmet'', ''app_version_unmet'',
      ''no_live_workers'', ''queue_paused'', ''queue_at_max_concurrency'', ''rate_limited'',
      ''claimable'']"

definition UNCLAIMABLE_REASONS :: "string list" where
  "UNCLAIMABLE_REASONS = [''above_worker_ceiling'', ''capability_unmet'', ''app_version_unmet'']"

definition EXPLAIN_AHEAD_LIMIT :: nat where
  "EXPLAIN_AHEAD_LIMIT = 1000"

definition EXPLAIN_GROUP_LIMIT :: nat where
  "EXPLAIN_GROUP_LIMIT = 1000"

definition EXPLAIN_CAPABILITY_LIMIT :: nat where
  "EXPLAIN_CAPABILITY_LIMIT = 50"

text \<open>The \<open>details\<close> of each answer, in the order its dictionary has them.\<close>

datatype details =
    TerminalDetails instant int int "string option"
  | InflightDetails "int option" "string option" "int option" "bool option" "interval option"
      "instant option" "instant option" "instant option" "interval option" interval
  | JobWait job_id "jorbstate option" "string option" interval
  | GroupWait int nat bool interval
  | NoWait interval
  | DeferredDetails instant interval "(string \<times> instant option) option"
  | PausedDetails string
  | NoLiveWorkers string interval
  | AboveCeiling int int nat
  | CapabilityUnmet string nat "string list"
  | VersionUnmet string nat "string list"
  | AtConcurrency string int int bool "string option"
  | RateLimited string int interval int bool "string option"
  | ClaimableDetails string nat nat bool bool bool "string option"

section \<open>One job\<close>

definition explain_terminal :: "jorb \<Rightarrow> string \<times> details" where
  "explain_terminal j =
     (let ended = (case j_finished j of Some t \<Rightarrow> t | None \<Rightarrow> j_updated j);
          message = (if j_state j = Crashed then j_error_message j else None)
      in (state_label (j_state j), TerminalDetails ended (j_run_count j) (j_error_count j) message))"

definition explain_inflight ::
  "instant \<Rightarrow> interval \<Rightarrow> fleet_worker list \<Rightarrow> jorb \<Rightarrow> string \<times> details" where
  "explain_inflight now grace ws j =
     (let worker = Option.bind (j_claimed_by j) (\<lambda>i. find_row w_id i ws)
      in (state_label (j_state j),
          InflightDetails (j_claimed_by j) (j_worker_host j) (j_worker_pid j)
            (map_option (live_worker now grace) worker) (map_option (\<lambda>w. now - w_last_seen w) worker)
            (j_claimed_at j) (j_started j) (j_timeout_at j)
            (map_option (\<lambda>t. t - now) (j_timeout_at j)) (now - j_updated j)))"

definition explain_waiting :: "instant \<Rightarrow> database \<Rightarrow> jorb \<Rightarrow> string \<times> details" where
  "explain_waiting now d j =
     (let waiting = now - j_updated j in
      case j_waitfor_job j of
        Some b \<Rightarrow>
          (let blocker = lookup_job d b
           in (''waiting_on_job'',
               JobWait b (map_option j_state blocker) (map_option j_job_class blocker) waiting))
      | None \<Rightarrow>
          (case j_waitfor_group j of
             Some g \<Rightarrow>
               (let unfinished = length (take EXPLAIN_GROUP_LIMIT
                      (filter (\<lambda>m. j_run_group m = Some g \<and> j_state m \<noteq> Finished) (jobs d)))
                in (''waiting_on_group'', GroupWait g unfinished (EXPLAIN_GROUP_LIMIT \<le> unfinished) waiting))
           | None \<Rightarrow> (''waiting_unblocked'', NoWait waiting)))"

text \<open>
  The counts of \<open>claim_jorb\<close>, over the queue or, when its limits are counted by lane, over
  the job's own lane.
\<close>

definition in_scope :: "bool \<Rightarrow> string option \<Rightarrow> jorb list \<Rightarrow> jorb list" where
  "in_scope by_lane k rows = filter (\<lambda>j. \<not> by_lane \<or> j_partition_key j = k) rows"

definition inflight_count :: "database \<Rightarrow> string \<Rightarrow> bool \<Rightarrow> string option \<Rightarrow> int" where
  "inflight_count d queue by_lane k = int (length (in_scope by_lane k (in_flight (jobs d) queue)))"

definition admissions_count :: "database \<Rightarrow> string \<Rightarrow> instant \<Rightarrow> bool \<Rightarrow> string option \<Rightarrow> int" where
  "admissions_count d queue since by_lane k = int (length (in_scope by_lane k (admitted (jobs d) queue since)))"

definition jobs_ahead :: "database \<Rightarrow> instant \<Rightarrow> jorb \<Rightarrow> nat" where
  "jobs_ahead d now j =
     length (take EXPLAIN_AHEAD_LIMIT
       (filter (\<lambda>x. j_queue x = j_queue j \<and> j_state x = Queued \<and> j_run_after x \<le> now
                  \<and> (j_prio x, j_run_after x) < (j_prio j, j_run_after j)) (jobs d)))"

definition advertised_capabilities :: "fleet_worker list \<Rightarrow> string list" where
  "advertised_capabilities fleet =
     py_sorted (take EXPLAIN_CAPABILITY_LIMIT (concat (map w_capabilities fleet)))"

definition advertised_versions :: "fleet_worker list \<Rightarrow> string list" where
  "advertised_versions fleet =
     py_sorted (take EXPLAIN_CAPABILITY_LIMIT (List.map_filter w_app_version fleet))"

definition explain_queued ::
  "instant \<Rightarrow> interval \<Rightarrow> fleet_worker list \<Rightarrow> database \<Rightarrow> jorb \<Rightarrow> string \<times> details" where
  "explain_queued now grace ws d j =
     (let queue = j_queue j in
      if now < j_run_after j
      then (''deferred'', DeferredDetails (j_run_after j) (j_run_after j - now)
              (case j_debounce_key j of
                 None \<Rightarrow> None
               | Some k \<Rightarrow> if k \<noteq> [] \<and> j_run_count j = 0 then Some (k, j_debounce_deadline j) else None))
      else
      let control = queue_control d queue;
          max_concurrency = concurrency_cap control;
          rate_limit = rate_cap control;
          rate_period = (case control of None \<Rightarrow> 60000000 | Some q \<Rightarrow> q_rate_period q);
          by_lane = (case control of None \<Rightarrow> False | Some q \<Rightarrow> q_partition_limits q);
          k = j_partition_key j
      in
      if paused control then (''queue_paused'', PausedDetails queue)
      else
      let fleet = fleet_on now grace queue ws; live = length fleet in
      if live = 0 then (''no_live_workers'', NoLiveWorkers queue grace)
      else if filter (at_prio (j_prio j)) fleet = []
      then (''above_worker_ceiling'', AboveCeiling (j_prio j) (max_ceiling fleet) live)
      else if j_capability j \<noteq> None \<and> filter (capable (j_capability j)) fleet = []
      then (''capability_unmet'',
            CapabilityUnmet (the (j_capability j)) live (advertised_capabilities fleet))
      else if j_app_version j \<noteq> None \<and> filter (versioned (j_app_version j)) fleet = []
      then (''app_version_unmet'',
            VersionUnmet (the (j_app_version j)) live (advertised_versions fleet))
      else if (case max_concurrency of None \<Rightarrow> False | Some c \<Rightarrow> c \<le> inflight_count d queue by_lane k)
      then (''queue_at_max_concurrency'',
            AtConcurrency queue (the max_concurrency) (inflight_count d queue by_lane k) by_lane k)
      else if (case rate_limit of None \<Rightarrow> False
               | Some r \<Rightarrow> r \<le> admissions_count d queue (now - rate_period) by_lane k)
      then (''rate_limited'',
            RateLimited queue (the rate_limit) rate_period
              (admissions_count d queue (now - rate_period) by_lane k) by_lane k)
      else
      let ahead = jobs_ahead d now j in
      (''claimable'',
       ClaimableDetails queue live ahead (EXPLAIN_AHEAD_LIMIT \<le> ahead)
         (max_concurrency \<noteq> None \<or> rate_limit \<noteq> None) by_lane k))"

definition explain_job ::
  "instant \<Rightarrow> interval \<Rightarrow> fleet_worker list \<Rightarrow> database \<Rightarrow> job_id \<Rightarrow> (string \<times> details) option" where
  "explain_job now grace ws d i =
     map_option (\<lambda>j.
       if j_state j \<in> set TERMINAL_STATES then explain_terminal j
       else if j_state j \<in> set IN_FLIGHT_STATES then explain_inflight now grace ws j
       else if j_state j = Waiting then explain_waiting now d j
       else explain_queued now grace ws d j) (lookup_job d i)"

section \<open>The whole fleet\<close>

text \<open>
  \<open>UNCLAIMABLE_JOBS_SQL\<close>: what the live workers of a queue accept between them, and the
  due jobs that no part of it accepts, each under the first cause it trips.
\<close>

definition all_capabilities :: "fleet_worker list \<Rightarrow> string list" where
  "all_capabilities fleet = py_sorted (concat (map w_capabilities fleet))"

definition all_versions :: "fleet_worker list \<Rightarrow> string list" where
  "all_versions fleet = py_sorted (List.map_filter w_app_version fleet)"

definition unmet :: "string option \<Rightarrow> string list \<Rightarrow> bool" where
  "unmet want offered \<longleftrightarrow> (case want of None \<Rightarrow> False | Some x \<Rightarrow> x \<notin> set offered)"

definition cause :: "fleet_worker list \<Rightarrow> jorb \<Rightarrow> string option" where
  "cause fleet j =
     (if max_ceiling fleet < j_prio j then Some ''above_worker_ceiling''
      else if unmet (j_capability j) (all_capabilities fleet) then Some ''capability_unmet''
      else if unmet (j_app_version j) (all_versions fleet) then Some ''app_version_unmet''
      else None)"

definition blocked_by ::
  "instant \<Rightarrow> nat \<Rightarrow> fleet_worker list \<Rightarrow> string \<Rightarrow> string \<Rightarrow> jorb list \<Rightarrow> jorb list" where
  "blocked_by now scan_limit fleet queue reason rows =
     take scan_limit (sort_key (\<lambda>j. (j_prio j, j_run_after j))
       (filter (\<lambda>j. j_queue j = queue \<and> j_state j = Queued \<and> j_run_after j \<le> now
                  \<and> cause fleet j = Some reason) rows))"

record unclaimable =
  u_queue :: string
  u_reason :: string
  u_count :: nat
  u_count_capped :: bool
  u_live_workers :: nat
  u_sample_job_ids :: "job_id list"
  u_prio_range :: "int \<times> int"
  u_missing :: "string list"
  u_offered :: "string list"
  u_max_ceiling :: int

definition unclaimable_group ::
  "nat \<Rightarrow> nat \<Rightarrow> fleet_worker list \<Rightarrow> string \<Rightarrow> string \<Rightarrow> jorb list \<Rightarrow> unclaimable" where
  "unclaimable_group scan_limit sample_limit fleet queue reason rows =
     (let prios = sort (map j_prio rows) in
      \<lparr>u_queue = queue, u_reason = reason, u_count = length rows,
       u_count_capped = (scan_limit \<le> length rows), u_live_workers = length fleet,
       u_sample_job_ids = take sample_limit (map j_id (sort_key (\<lambda>j. (j_prio j, j_id j)) rows)),
       u_prio_range = (hd prios, last prios),
       u_missing = (if reason = ''capability_unmet'' then py_sorted (List.map_filter j_capability rows)
                    else if reason = ''app_version_unmet'' then py_sorted (List.map_filter j_app_version rows)
                    else []),
       u_offered = (if reason = ''capability_unmet'' then all_capabilities fleet
                    else if reason = ''app_version_unmet'' then all_versions fleet else []),
       u_max_ceiling = max_ceiling fleet\<rparr>)"

definition unclaimable_jobs ::
  "instant \<Rightarrow> interval \<Rightarrow> nat \<Rightarrow> nat \<Rightarrow> fleet_worker list \<Rightarrow> database \<Rightarrow> unclaimable list" where
  "unclaimable_jobs now grace scan_limit sample_limit ws d =
     concat (map (\<lambda>queue.
       let fleet = fleet_on now grace queue ws
       in List.map_filter (\<lambda>reason.
            case blocked_by now scan_limit fleet queue reason (jobs d) of
              [] \<Rightarrow> None
            | j # js \<Rightarrow> Some (unclaimable_group scan_limit sample_limit fleet queue reason (j # js)))
            UNCLAIMABLE_REASONS)
       (py_sorted (map w_queue (filter (live_worker now grace) ws))))"

section \<open>The answer and the claim\<close>

text \<open>What a registered worker passes to \<open>claim_jorb\<close>.\<close>

definition claimer_of :: "fleet_worker \<Rightarrow> claimer" where
  "claimer_of w = \<lparr>c_queue = w_queue w, c_capabilities = w_capabilities w, c_max_prio = w_max_prio w,
     c_app_version = w_app_version w, c_worker_pid = w_pid w, c_worker_host = w_host w, c_worker_id = Some (w_id w)\<rparr>"

lemma claimer_of_simps [simp]:
  "c_queue (claimer_of w) = w_queue w" "c_capabilities (claimer_of w) = w_capabilities w"
  "c_max_prio (claimer_of w) = w_max_prio w" "c_app_version (claimer_of w) = w_app_version w"
  by (simp_all add: claimer_of_def)

text \<open>A lane limit of zero is not enforced on an idle lane, so the limits are positive.\<close>

definition positive_limits :: "queue_row option \<Rightarrow> bool" where
  "positive_limits q \<longleftrightarrow> (\<forall>c. concurrency_cap q = Some c \<longrightarrow> 1 \<le> c) \<and> (\<forall>r. rate_cap q = Some r \<longrightarrow> 1 \<le> r)"

definition below_cap :: "int option \<Rightarrow> int \<Rightarrow> bool" where
  "below_cap cap n \<longleftrightarrow> (case cap of None \<Rightarrow> True | Some c \<Rightarrow> n < c)"

definition by_lane :: "queue_row option \<Rightarrow> bool" where
  "by_lane q = (case q of None \<Rightarrow> False | Some r \<Rightarrow> q_partition_limits r)"

definition rate_period :: "queue_row option \<Rightarrow> interval" where
  "rate_period q = (case q of None \<Rightarrow> 60000000 | Some r \<Rightarrow> q_rate_period r)"

definition room :: "database \<Rightarrow> string \<Rightarrow> string option \<Rightarrow> instant \<Rightarrow> bool" where
  "room d queue k now \<longleftrightarrow>
     (let q = queue_control d queue in
        below_cap (concurrency_cap q) (inflight_count d queue (by_lane q) k)
      \<and> below_cap (rate_cap q) (admissions_count d queue (now - rate_period q) (by_lane q) k))"

lemma explain_queued_claimable:
  "fst (explain_queued now grace ws d j) = ''claimable'' \<longleftrightarrow>
     j_run_after j \<le> now
     \<and> \<not> paused (queue_control d (j_queue j))
     \<and> list_ex (at_prio (j_prio j)) (fleet_on now grace (j_queue j) ws)
     \<and> list_ex (capable (j_capability j)) (fleet_on now grace (j_queue j) ws)
     \<and> list_ex (versioned (j_app_version j)) (fleet_on now grace (j_queue j) ws)
     \<and> room d (j_queue j) (j_partition_key j) now"
proof -
  let ?fleet = "fleet_on now grace (j_queue j) ws"
  have some: "filter p ?fleet = [] \<longleftrightarrow> \<not> list_ex p ?fleet" for p
    by (auto simp: filter_empty_conv list_ex_iff)
  have "capable None = (\<lambda>_. True)" "versioned None = (\<lambda>_. True)"
    by (simp_all add: fun_eq_iff capable_def versioned_def)
  then have none: "?fleet = [] \<Longrightarrow> \<not> list_ex p ?fleet"
    "?fleet \<noteq> [] \<Longrightarrow> list_ex (capable None) ?fleet" "?fleet \<noteq> [] \<Longrightarrow> list_ex (versioned None) ?fleet" for p
    by (auto simp: list_ex_iff) (metis list.set_intros(1) neq_Nil_conv)+
  show ?thesis
    by (cases "?fleet = []"; cases "j_capability j"; cases "j_app_version j")
      (auto simp: explain_queued_def Let_def some none room_def below_cap_def by_lane_def rate_period_def not_less not_le
        split: option.splits)
qed

lemma unsaturated:
  assumes "1 \<le> c"
  shows "k \<in> set (saturated_lanes (Some c) rows) \<longleftrightarrow> c \<le> int (length (lane k rows))"
proof (cases "k \<in> j_partition_key ` set rows")
  case True
  then show ?thesis by (simp add: saturated_lanes_iff)
next
  case False
  with assms show ?thesis by (simp add: saturated_lanes_iff lane_Nil)
qed

lemma in_scope_eq: "in_scope b k rows = (if b then lane k rows else rows)"
  by (simp add: in_scope_def lane_def)

text \<open>The limits as the answer reads them are the limits as the claim applies them.\<close>

lemma limits_agree:
  assumes pos: "positive_limits (queue_control d queue)"
  shows "queue_open d queue now True \<and> k \<notin> set (blocked_lanes d queue now) \<longleftrightarrow>
    \<not> paused (queue_control d queue) \<and> room d queue k now"
proof (cases "queue_control d queue")
  case None
  then show ?thesis
    by (simp add: queue_open_def blocked_lanes_def paused_def limited_def partitioned_def room_def
        concurrency_cap_def rate_cap_def below_cap_def)
next
  case (Some r)
  have blocked: "(k \<in> set (saturated_lanes cap rows)) \<longleftrightarrow> \<not> below_cap cap (int (length (lane k rows)))"
    if "\<forall>c. cap = Some c \<longrightarrow> 1 \<le> c" for cap rows
    using that by (cases cap) (auto simp: below_cap_def unsaturated simp del: set_remdups, simp add: saturated_lanes_def)
  have cap: "at_cap cap rows \<longleftrightarrow> \<not> below_cap cap (int (length rows))" for cap rows
    by (auto simp: at_cap_def below_cap_def split: option.splits)
  have unlimited: "\<not> limited (Some r) \<Longrightarrow> below_cap (concurrency_cap (Some r)) n \<and> below_cap (rate_cap (Some r)) m" for n m
    by (simp add: limited_def below_cap_def)
  show ?thesis
    using pos unlimited
    by (auto simp: queue_open_def blocked_lanes_def Let_def Some positive_limits_def blocked cap partitioned_def room_def
        by_lane_def rate_period_def inflight_count_def admissions_count_def in_scope_eq)
qed

lemma explain_queued_iff:
  assumes "positive_limits (queue_control d (j_queue j))"
  shows "fst (explain_queued now grace ws d j) = ''claimable'' \<longleftrightarrow>
     j_run_after j \<le> now
     \<and> list_ex (at_prio (j_prio j)) (fleet_on now grace (j_queue j) ws)
     \<and> list_ex (capable (j_capability j)) (fleet_on now grace (j_queue j) ws)
     \<and> list_ex (versioned (j_app_version j)) (fleet_on now grace (j_queue j) ws)
     \<and> queue_open d (j_queue j) now True
     \<and> j_partition_key j \<notin> set (blocked_lanes d (j_queue j) now)"
  using limits_agree [OF assms, where k = "j_partition_key j" and now = now]
  by (auto simp: explain_queued_claimable)

lemma label_not_claimable [simp]: "state_label s \<noteq> ''claimable''"
  by (cases s) (simp_all add: state_label.simps)

lemma waiting_not_claimable [simp]: "fst (explain_waiting now d j) \<noteq> ''claimable''"
  by (simp add: explain_waiting_def Let_def split: option.splits)

text \<open>Only a queued job is answered \<open>claimable\<close>.\<close>

lemma explain_claimable:
  assumes "explain_job now grace ws d i = Some (r, dt)"
  obtains j where "lookup_job d i = Some j" "j \<in> set (jobs d)" "j_id j = i"
    "j_state j = Queued \<Longrightarrow> (r, dt) = explain_queued now grace ws d j"
    "r = ''claimable'' \<Longrightarrow> j_state j = Queued"
proof -
  from assms obtain j where j: "lookup_job d i = Some j"
    and e: "(r, dt) = (if j_state j \<in> set TERMINAL_STATES then explain_terminal j
       else if j_state j \<in> set IN_FLIGHT_STATES then explain_inflight now grace ws j
       else if j_state j = Waiting then explain_waiting now d j
       else explain_queued now grace ws d j)"
    by (auto simp: explain_job_def)
  have "j_state j = Queued" if "r = ''claimable''"
    using arg_cong [OF e, of fst] that by (cases "j_state j")
      (simp_all add: explain_terminal_def explain_inflight_def Let_def label_not_claimable [symmetric]
        waiting_not_claimable [symmetric])
  with that [OF j] lookup_job_SomeD [OF j] e show thesis by auto
qed

lemma eligible_fleet:
  "eligible (claimer_of w) now j \<longleftrightarrow>
     j_queue j = w_queue w \<and> capable (j_capability j) w \<and> versioned (j_app_version j) w
     \<and> at_prio (j_prio j) w \<and> j_run_after j \<le> now \<and> j_state j = Queued"
  by (auto simp: eligible_def capable_def versioned_def at_prio_def split: option.splits)


lemma explain_queued_ahead:
  assumes "explain_queued now grace ws d j = (''claimable'', ClaimableDetails queue live n capped serialised lanes k)"
  shows "n = jobs_ahead d now j \<and> queue = j_queue j"
  using assms by (auto simp: explain_queued_def Let_def split: if_splits option.splits)

text \<open>
  C32. A claimable job is in reach. When the answer is \<open>claimable\<close>, a claim by any one live
  worker of the queue that accepts the job's priority, its capability and its version admits
  a job that comes no later in the queue's order; and when the answer says that nothing is
  ahead of it, the job admitted is of exactly its priority and due time.
\<close>

theorem a_claimable_job_is_in_reach:
  assumes ok: "jobs_ok d" and pos: "positive_limits (queue_control d queue)"
    and answer: "explain_job now grace ws d i
      = Some (''claimable'', ClaimableDetails queue live n capped serialised lanes k)"
    and w: "w \<in> set ws" "w_queue w = queue"
    and accepts: "\<And>j. lookup_job d i = Some j \<Longrightarrow>
      at_prio (j_prio j) w \<and> capable (j_capability j) w \<and> versioned (j_app_version j) w"
  shows "\<exists>j x d'. lookup_job d i = Some j \<and> claim_jorb (claimer_of w) now {} True d = Inr ([x], d')
    \<and> (j_prio x, j_run_after x) \<le> (j_prio j, j_run_after j)
    \<and> (n = 0 \<longrightarrow> (j_prio x, j_run_after x) = (j_prio j, j_run_after j))"
proof -
  from answer obtain j where j: "lookup_job d i = Some j" "j \<in> set (jobs d)" "j_state j = Queued"
    and e: "explain_queued now grace ws d j = (''claimable'', ClaimableDetails queue live n capped serialised lanes k)"
    by (rule explain_claimable) simp
  from explain_queued_ahead [OF e] have n: "n = jobs_ahead d now j" and q: "queue = j_queue j" by auto
  have *: "j_run_after j \<le> now" "queue_open d queue now True" "j_partition_key j \<notin> set (blocked_lanes d queue now)"
    using explain_queued_iff [OF pos [unfolded q], of now grace ws] by (simp_all add: e flip: q)
  let ?cs = "candidates (claimer_of w) now {} (blocked_lanes d queue now) (jobs d)"
  have el: "eligible (claimer_of w) now j" using accepts [OF j(1)] w(2) q j(3) *(1) by (simp add: eligible_fleet)
  then have "j \<in> set ?cs" using j(2) *(3) by (simp add: candidates_def)
  moreover from this obtain x where x: "pick ?cs = Some x" by (metis empty_iff empty_set not_None_eq pick_None)
  ultimately have le: "x \<in> set ?cs" "(j_prio x, j_run_after x) \<le> (j_prio j, j_run_after j)"
    using pick_Some [OF x] by auto
  have "(j_prio x, j_run_after x) = (j_prio j, j_run_after j)" if "n = 0"
  proof (rule ccontr)
    assume "(j_prio x, j_run_after x) \<noteq> (j_prio j, j_run_after j)"
    with le have "(j_prio x, j_run_after x) < (j_prio j, j_run_after j)" by (simp add: order_less_le)
    with le(1) w(2) q have "jobs_ahead d now j \<noteq> 0"
      by (auto simp: jobs_ahead_def EXPLAIN_AHEAD_LIMIT_def filter_empty_conv candidates_def eligible_fleet)
    with that n show False by simp
  qed
  moreover have "claim_jorb (claimer_of w) now {} True d
      = Inr ([claim_set (claimer_of w) now x], claim.after (Some (j_id x)) (claimer_of w) now d)"
    using *(2) w(2) x by (simp add: claim_jorb_eq claim_from_eq [OF ok] Let_def)
  ultimately show ?thesis using j(1) le(2) by (auto simp: claim_set_def)
qed

section \<open>The sweep and the answer\<close>

lemma max_ceiling_less: "fleet \<noteq> [] \<Longrightarrow> max_ceiling fleet < p \<longleftrightarrow> (\<forall>w \<in> set fleet. w_max_prio w < p)"
proof (cases fleet)
  case (Cons w fleet')
  then have "max_ceiling fleet = Max (set (w_max_prio w # map w_max_prio fleet'))"
    unfolding Max.set_eq_fold by (simp add: max_ceiling_def)
  with Cons show ?thesis by simp
qed simp

lemma unmet_iff:
  "unmet c (all_capabilities fleet) \<longleftrightarrow> c \<noteq> None \<and> filter (capable c) fleet = []"
  "unmet v (all_versions fleet) \<longleftrightarrow> v \<noteq> None \<and> filter (versioned v) fleet = []"
  by (auto simp: unmet_def all_capabilities_def all_versions_def capable_def versioned_def filter_empty_conv
      split: option.splits)

lemma cause_none_after:
  assumes "fleet_on now grace (j_queue j) ws \<noteq> []" "\<not> paused (queue_control d (j_queue j))" "j_run_after j \<le> now"
    and "r \<in> set UNCLAIMABLE_REASONS"
  shows "cause (fleet_on now grace (j_queue j) ws) j = Some r \<longleftrightarrow> fst (explain_queued now grace ws d j) = r"
proof -
  let ?fleet = "fleet_on now grace (j_queue j) ws"
  have prio: "max_ceiling ?fleet < j_prio j \<longleftrightarrow> filter (at_prio (j_prio j)) ?fleet = []"
    using assms(1) by (auto simp: max_ceiling_less at_prio_def filter_empty_conv)
  have "fst (explain_queued now grace ws d j) =
      (case cause ?fleet j of Some c \<Rightarrow> c | None \<Rightarrow> fst (explain_queued now grace ws d j))"
    using assms(1-3) unfolding cause_def prio unmet_iff by (simp add: explain_queued_def Let_def)
  moreover have "fst (explain_queued now grace ws d j) \<notin> set UNCLAIMABLE_REASONS" if "cause ?fleet j = None"
    using that assms(1-3) unfolding cause_def prio unmet_iff
    by (auto simp: explain_queued_def Let_def UNCLAIMABLE_REASONS_def split: if_split_asm)
  ultimately show ?thesis using assms(4) by (cases "cause ?fleet j") auto
qed

lemma filter_map_filter_key:
  assumes "\<And>x u. f x = Some u \<Longrightarrow> key u = x" "distinct xs" "k \<in> set xs"
  shows "filter (\<lambda>u. key u = k) (List.map_filter f xs) = (case f k of None \<Rightarrow> [] | Some u \<Rightarrow> [u])"
  using assms(2,3)
proof (induction xs)
  case (Cons x xs)
  have "filter (\<lambda>u. key u = k) (List.map_filter f xs) = []" if "k \<notin> set xs"
    using that assms(1) by (auto simp: filter_empty_conv)
  with Cons assms(1) show ?case by (cases "f x") (auto simp: List.map_filter_simps)
qed simp

lemma filter_concat_key:
  assumes "\<And>x u. u \<in> set (g x) \<Longrightarrow> key u = x" "distinct xs" "k \<in> set xs"
  shows "filter (\<lambda>u. key u = k) (concat (map g xs)) = g k"
  using assms(2,3)
proof (induction xs)
  case (Cons x xs)
  have none: "filter (\<lambda>u. key u = k) (g y) = []" if "y \<noteq> k" for y
    using that assms(1) by (auto simp: filter_empty_conv)
  have "filter (\<lambda>u. key u = k) (concat (map g xs)) = []" if "k \<notin> set xs"
    using that assms(1) by (fastforce simp: filter_empty_conv)
  moreover have "filter (\<lambda>u. key u = k) (g k) = g k"
    using assms(1) by (auto simp: filter_id_conv)
  ultimately show ?case using Cons none [of x] by (cases "x = k") auto
qed simp

definition unclaimable_row ::
  "instant \<Rightarrow> interval \<Rightarrow> nat \<Rightarrow> nat \<Rightarrow> fleet_worker list \<Rightarrow> database \<Rightarrow> string \<Rightarrow> string \<Rightarrow> unclaimable option" where
  "unclaimable_row now grace n m ws d queue r =
     (let fleet = fleet_on now grace queue ws; rows = blocked_by now n fleet queue r (jobs d)
      in if rows = [] then None else Some (unclaimable_group n m fleet queue r rows))"

lemma unclaimable_rowD: "unclaimable_row now grace n m ws d queue r = Some u \<Longrightarrow> u_queue u = queue \<and> u_reason u = r"
  by (auto simp: unclaimable_row_def unclaimable_group_def Let_def split: if_splits)

lemma unclaimable_jobs_eq:
  "unclaimable_jobs now grace n m ws d =
     concat (map (\<lambda>queue. List.map_filter (unclaimable_row now grace n m ws d queue) UNCLAIMABLE_REASONS)
       (py_sorted (map w_queue (filter (live_worker now grace) ws))))"
  unfolding unclaimable_jobs_def unclaimable_row_def Let_def
  by (intro arg_cong [of _ _ concat] map_cong refl arg_cong [of _ _ "\<lambda>f. List.map_filter f UNCLAIMABLE_REASONS"] ext)
    (simp split: list.splits)

text \<open>The sweep has one record for each queue with live workers and each cause that holds a job there.\<close>

lemma unclaimable_rows:
  assumes "queue \<in> w_queue ` set (filter (live_worker now grace) ws)" "r \<in> set UNCLAIMABLE_REASONS"
  shows "filter (\<lambda>u. u_reason u = r) (filter (\<lambda>u. u_queue u = queue) (unclaimable_jobs now grace n m ws d)) =
    (case unclaimable_row now grace n m ws d queue r of None \<Rightarrow> [] | Some u \<Rightarrow> [u])"
proof -
  let ?row = "unclaimable_row now grace n m ws d"
  have "filter (\<lambda>u. u_queue u = queue) (unclaimable_jobs now grace n m ws d)
      = List.map_filter (?row queue) UNCLAIMABLE_REASONS"
    unfolding unclaimable_jobs_eq
    by (rule filter_concat_key) (use assms(1) in \<open>auto simp: py_sorted_def dest: unclaimable_rowD\<close>)
  moreover have "filter (\<lambda>u. u_reason u = r) (List.map_filter (?row queue) UNCLAIMABLE_REASONS)
      = (case ?row queue r of None \<Rightarrow> [] | Some u \<Rightarrow> [u])"
    by (rule filter_map_filter_key)
      (use assms(2) in \<open>auto simp: UNCLAIMABLE_REASONS_def dest: unclaimable_rowD\<close>)
  ultimately show ?thesis by simp
qed

lemma sort_key_Nil: "sort_key f xs = [] \<longleftrightarrow> xs = []"
  by (metis length_0_conv length_sort)

lemma explained_as:
  assumes "jobs_ok d" "j \<in> set (jobs d)" and live: "fleet_on now grace (j_queue j) ws \<noteq> []"
    and opn: "\<not> paused (queue_control d (j_queue j))" and r: "r \<in> set UNCLAIMABLE_REASONS"
  shows "map_option fst (explain_job now grace ws d (j_id j)) = Some r \<longleftrightarrow>
    j_state j = Queued \<and> j_run_after j \<le> now \<and> cause (fleet_on now grace (j_queue j) ws) j = Some r"
proof -
  have j: "lookup_job d (j_id j) = Some j"
    using assms(1,2) by (simp add: lookup_job_def find_row_Some jobs_ok_distinct)
  have label: "state_label s \<noteq> r" for s
    using r by (cases s) (auto simp: UNCLAIMABLE_REASONS_def state_label.simps)
  have waiting: "fst (explain_waiting now d j) \<noteq> r"
    using r by (auto simp: UNCLAIMABLE_REASONS_def explain_waiting_def Let_def split: option.splits)
  have deferred: "fst (explain_queued now grace ws d j) \<noteq> r" if "now < j_run_after j"
    using r that by (auto simp: UNCLAIMABLE_REASONS_def explain_queued_def)
  show ?thesis
  proof (cases "j_state j = Queued \<and> j_run_after j \<le> now")
    case True
    then show ?thesis using cause_none_after [OF live opn _ r] by (simp add: explain_job_def j)
  next
    case False
    then show ?thesis using label waiting deferred
      by (cases "j_state j") (auto simp: explain_job_def j explain_terminal_def explain_inflight_def Let_def)
  qed
qed


section \<open>A fleet that accepts a job only between its workers\<close>

definition gpu_worker :: fleet_worker where
  "gpu_worker = \<lparr>w_id = 1, w_queue = ''default'', w_last_seen = 90, w_shutdown_at = None, w_idle = False,
     w_capabilities = [''gpu''], w_max_prio = 1000, w_app_version = None, w_pid = 1, w_host = ''a''\<rparr>"

definition v2_worker :: fleet_worker where
  "v2_worker = \<lparr>w_id = 2, w_queue = ''default'', w_last_seen = 90, w_shutdown_at = None, w_idle = False,
     w_capabilities = [], w_max_prio = 1000, w_app_version = Some ''v2'', w_pid = 2, w_host = ''b''\<rparr>"

definition wants :: "string option \<Rightarrow> string option \<Rightarrow> job_id \<Rightarrow> jorb" where
  "wants c v i = (default_jorb 0 i)\<lparr>j_capability := c, j_app_version := v\<rparr>"

definition asking :: "string option \<Rightarrow> string option \<Rightarrow> database" where
  "asking c v = seed_db [(wants c v 1, [Queued])]"

lemma wants_simps [simp]:
  "j_id (wants c v i) = i" "j_state (wants c v i) = Queued" "j_queue (wants c v i) = ''default''"
  "j_capability (wants c v i) = c" "j_app_version (wants c v i) = v" "j_run_after (wants c v i) = 0"
  "j_prio (wants c v i) = 100" "j_partition_key (wants c v i) = None"
  by (simp_all add: wants_def default_jorb_def)

lemma asking_simps [simp]:
  "jobs (asking c v) = [wants c v 1]" "queue_control (asking c v) q = None" "lookup_job (asking c v) 1 = Some (wants c v 1)"
  by (simp_all add: asking_def seed_db_def empty_db_def queue_control_def lookup_job_def)

lemma asking_ok: "jobs_ok (asking c v)"
  by (simp add: asking_def wants_def seed_simps)

lemma fleet_simps [simp]:
  "fleet_on 100 50 ''default'' [gpu_worker, v2_worker] = [gpu_worker, v2_worker]"
  "live_worker 100 50 gpu_worker" "live_worker 100 50 v2_worker"
  "w_queue gpu_worker = ''default''" "w_queue v2_worker = ''default''"
  by (simp_all add: fleet_on_def live_worker_def gpu_worker_def v2_worker_def)

lemma worker_simps [simp]:
  "w_capabilities gpu_worker = [''gpu'']" "w_max_prio gpu_worker = 1000" "w_app_version gpu_worker = None"
  "w_capabilities v2_worker = []" "w_max_prio v2_worker = 1000" "w_app_version v2_worker = Some ''v2''"
  by (simp_all add: gpu_worker_def v2_worker_def)

lemma open_queue: "positive_limits None" "queue_open (asking c v) q now held" "blocked_lanes (asking c v) q now = []"
  "\<not> paused None"
  by (simp_all add: positive_limits_def queue_open_def blocked_lanes_def paused_def limited_def partitioned_def
      concurrency_cap_def rate_cap_def)

lemma claim_of_asking:
  "\<exists>d'. claim_jorb (claimer_of w) now locked held (asking c v)
     = Inr (if eligible (claimer_of w) now (wants c v 1) \<and> 1 \<notin> locked
            then [claim_set (claimer_of w) now (wants c v 1)] else [], d')"
  by (simp add: claim_jorb_eq open_queue claim_from_eq [OF asking_ok] candidates_def pick_def Let_def)

text \<open>
  \<open>claimable\<close> does not mean that a worker can claim it. The answer asks whether some live
  worker has the priority, some the capability and some the version, and the sweep compares
  the job with what the workers of the queue accept between them; the claim asks one worker
  for all of it. With one worker that has the capability and another that has the version,
  a job that asks for both is answered \<open>claimable\<close>, the sweep reports nothing, and no claim of
  either worker ever takes it.
\<close>

theorem claimable_by_no_one:
  "let ws = [gpu_worker, v2_worker]; d = asking (Some ''gpu'') (Some ''v2'') in
     map_option fst (explain_job 100 50 ws d 1) = Some ''claimable''
     \<and> unclaimable_jobs 100 50 n m ws d = []
     \<and> (\<forall>now locked held. (\<exists>d'. claim_jorb (claimer_of gpu_worker) now locked held d = Inr ([], d'))
         \<and> (\<exists>d'. claim_jorb (claimer_of v2_worker) now locked held d = Inr ([], d')))"
proof -
  let ?ws = "[gpu_worker, v2_worker]" and ?d = "asking (Some ''gpu'') (Some ''v2'')"
  have met: "list_ex (at_prio 100) ?ws" "list_ex (capable (Some ''gpu'')) ?ws" "list_ex (versioned (Some ''v2'')) ?ws"
    by (simp_all add: at_prio_def capable_def versioned_def Let_def)
  have "fst (explain_queued 100 50 ?ws ?d (wants (Some ''gpu'') (Some ''v2'') 1)) = ''claimable''"
    using met by (simp only: explain_queued_iff open_queue asking_simps wants_simps fleet_simps) simp
  then obtain dt where "explain_queued 100 50 ?ws ?d (wants (Some ''gpu'') (Some ''v2'') 1) = (''claimable'', dt)"
    by (metis prod.collapse)
  moreover have "cause ?ws (wants (Some ''gpu'') (Some ''v2'') 1) = None"
    by (simp add: cause_def max_ceiling_def unmet_def all_capabilities_def all_versions_def List.map_filter_simps)
  then have "unclaimable_row 100 50 n m ?ws ?d ''default'' r = None" for r
    by (simp add: unclaimable_row_def blocked_by_def)
  then have "unclaimable_jobs 100 50 n m ?ws ?d = []"
    by (simp add: unclaimable_jobs_eq py_sorted_def UNCLAIMABLE_REASONS_def List.map_filter_simps)
  moreover have "\<not> eligible (claimer_of gpu_worker) now (wants (Some ''gpu'') (Some ''v2'') 1)"
    "\<not> eligible (claimer_of v2_worker) now (wants (Some ''gpu'') (Some ''v2'') 1)" for now
    by (simp_all add: eligible_fleet capable_def versioned_def Let_def)
  ultimately show ?thesis
    using claim_of_asking [of gpu_worker _ _ _ "Some ''gpu''" "Some ''v2''"]
      claim_of_asking [of v2_worker _ _ _ "Some ''gpu''" "Some ''v2''"]
    by (simp add: explain_job_def Let_def)
qed

section \<open>Witnesses\<close>

lemma asked_version:
  "map_option fst (explain_job 100 50 [gpu_worker, v2_worker] (asking None (Some ''v9'')) 1) = Some ''app_version_unmet''"
  by (simp add: explain_job_def explain_queued_def paused_def at_prio_def versioned_def Let_def)


theorem a_claimable_job_is_in_reach_witness:
  "\<exists>x d'. claim_jorb (claimer_of v2_worker) 100 {} True (asking None (Some ''v2'')) = Inr ([x], d')
     \<and> (j_prio x, j_run_after x) = (100, 0)"
proof -
  have "explain_job 100 50 [gpu_worker, v2_worker] (asking None (Some ''v2'')) 1
      = Some (''claimable'', ClaimableDetails ''default'' 2 0 False False False None)"
    by (simp add: explain_job_def explain_queued_def paused_def at_prio_def versioned_def Let_def
        concurrency_cap_def rate_cap_def jobs_ahead_def EXPLAIN_AHEAD_LIMIT_def)
  from a_claimable_job_is_in_reach [OF asking_ok _ this, of v2_worker] show ?thesis
    by (auto simp: open_queue at_prio_def capable_def versioned_def)
qed


end
