(* ===== verification/Loop.thy ===== *)
theory Loop
  imports Notify Explain
begin

text \<open>
  The worker's main loop (\<open>pj.py\<close>, \<open>JobSystem\<close>): the registry row and its statements, the
  subscription to enqueue wakeups, the budget of job threads, the report of work the worker
  cannot see, and \<open>run\<close> as a machine whose steps are the stretches between two awaits. The
  other processes are steps between them.
\<close>

section \<open>The registry\<close>

record registry_row = fleet_worker +
  w_job_threads :: nat
  w_job_threads_abandoned :: nat

record system_config =
  cf_qname :: string
  cf_capabilities :: "string list"
  cf_prio :: int
  cf_app_version :: "string option"
  cf_pid :: int
  cf_node :: string
  cf_job_threads :: nat

text \<open>The identity column counts on; \<open>now()\<close>, \<open>FALSE\<close> and 0 are the defaults of the rest.\<close>

definition WORKER_REGISTER_SQL :: "instant \<Rightarrow> system_config \<Rightarrow> int \<Rightarrow> registry_row list \<Rightarrow> registry_row list" where
  "WORKER_REGISTER_SQL now c i rows =
     rows @ [\<lparr>w_id = i, w_queue = cf_qname c, w_last_seen = now, w_shutdown_at = None, w_idle = False,
              w_capabilities = cf_capabilities c, w_max_prio = cf_prio c, w_app_version = cf_app_version c,
              w_pid = cf_pid c, w_host = cf_node c,
              w_job_threads = cf_job_threads c, w_job_threads_abandoned = 0\<rparr>]"

definition at_row :: "int \<Rightarrow> (registry_row \<Rightarrow> registry_row) \<Rightarrow> registry_row list \<Rightarrow> registry_row list" where
  "at_row i f rows = map (\<lambda>w. if w_id w = i then f w else w) rows"

definition WORKER_HEARTBEAT_SQL :: "instant \<Rightarrow> int \<Rightarrow> nat \<Rightarrow> nat \<Rightarrow> registry_row list \<Rightarrow> registry_row list" where
  "WORKER_HEARTBEAT_SQL now i threads abandoned =
     at_row i (\<lambda>w. w\<lparr>w_last_seen := now, w_job_threads := threads, w_job_threads_abandoned := abandoned\<rparr>)"

definition WORKER_SHUTDOWN_SQL :: "instant \<Rightarrow> int \<Rightarrow> registry_row list \<Rightarrow> registry_row list" where
  "WORKER_SHUTDOWN_SQL now i = at_row i (\<lambda>w. w\<lparr>w_shutdown_at := Some now, w_idle := False\<rparr>)"

definition stmt_worker_idle :: "int \<Rightarrow> bool \<Rightarrow> registry_row list \<Rightarrow> registry_row list" where
  "stmt_worker_idle i idle = at_row i (\<lambda>w. if w_idle w \<noteq> idle then w\<lparr>w_idle := idle\<rparr> else w)"

section \<open>The process\<close>

text \<open>
  Threads are numbers; which of them have returned is the environment's to say. Instants of
  the monotonic clock are never negative; \<open>0\<close> in the last field is "never reported".
\<close>

record job_system =
  js_stop :: bool
  js_worker_id :: "int option"
  js_idle :: bool
  js_wake :: bool
  js_sleepytime :: bool
  js_job_threads :: "nat list"
  js_running_thread :: "nat option"
  js_refusing_since :: "instant option"
  js_refusal_logged :: instant
  js_hidden_reported :: instant

definition claim_args :: "system_config \<Rightarrow> job_system \<Rightarrow> claimer" where
  "claim_args c s = \<lparr>c_queue = cf_qname c, c_capabilities = cf_capabilities c, c_max_prio = cf_prio c,
     c_app_version = cf_app_version c, c_worker_pid = cf_pid c, c_worker_host = cf_node c,
     c_worker_id = js_worker_id s\<rparr>"

text \<open>\<open>_try_register\<close>, and the beat of a registered worker, with the row the sequence is at.\<close>

definition try_register ::
  "instant \<Rightarrow> system_config \<Rightarrow> int \<Rightarrow> job_system \<Rightarrow> registry_row list \<Rightarrow> job_system \<times> registry_row list" where
  "try_register now c i s rows = (s\<lparr>js_worker_id := Some i, js_idle := False\<rparr>, WORKER_REGISTER_SQL now c i rows)"

definition live_job_threads :: "nat set \<Rightarrow> job_system \<Rightarrow> nat \<times> job_system" where
  "live_job_threads done s =
     (let ts = filter (\<lambda>t. t \<notin> done) (js_job_threads s) in (length ts, s\<lparr>js_job_threads := ts\<rparr>))"

definition abandoned_job_threads :: "nat set \<Rightarrow> job_system \<Rightarrow> nat \<times> job_system" where
  "abandoned_job_threads done s =
     (let (live, s') = live_job_threads done s
      in (case js_running_thread s' of
            None \<Rightarrow> live
          | Some t \<Rightarrow> if t \<notin> done then live - 1 else live, s'))"

definition beat ::
  "instant \<Rightarrow> system_config \<Rightarrow> nat set \<Rightarrow> int \<Rightarrow> job_system \<Rightarrow> registry_row list \<Rightarrow> job_system \<times> registry_row list" where
  "beat now c done i s rows =
     (case js_worker_id s of
        None \<Rightarrow> try_register now c i s rows
      | Some w \<Rightarrow>
          (let (abandoned, s') = abandoned_job_threads done s
           in (s', WORKER_HEARTBEAT_SQL now w (cf_job_threads c) abandoned rows)))"

definition set_idle :: "bool \<Rightarrow> job_system \<Rightarrow> registry_row list \<Rightarrow> job_system \<times> registry_row list" where
  "set_idle idle s rows =
     (if js_idle s = idle then (s, rows)
      else case js_worker_id s of
             None \<Rightarrow> (s\<lparr>js_idle := idle\<rparr>, rows)
           | Some i \<Rightarrow> (s\<lparr>js_idle := idle\<rparr>, stmt_worker_idle i idle rows))"

text \<open>Should the worker refuse to claim, and does it say so.\<close>

definition too_many_abandoned_threads ::
  "instant \<Rightarrow> system_config \<Rightarrow> nat set \<Rightarrow> job_system \<Rightarrow> bool \<times> bool \<times> job_system" where
  "too_many_abandoned_threads now c done s =
     (let (live, s1) = live_job_threads done s
      in if live < cf_job_threads c then (False, js_refusing_since s1 \<noteq> None, s1\<lparr>js_refusing_since := None\<rparr>)
         else let s2 = (if js_refusing_since s1 = None
                        then s1\<lparr>js_refusing_since := Some now, js_refusal_logged := now - 30000000\<rparr> else s1)
              in if 30000000 \<le> now - js_refusal_logged s2
                 then (True, True, s2\<lparr>js_refusal_logged := now\<rparr>) else (True, False, s2))"

text \<open>\<open>_resolve\<close>: the job's thread is ours while we wait for it, and nobody's after.\<close>

definition resolve_starts :: "nat \<Rightarrow> job_system \<Rightarrow> job_system" where
  "resolve_starts t s = s\<lparr>js_job_threads := js_job_threads s @ [t], js_running_thread := Some t\<rparr>"

definition resolve_ends :: "job_system \<Rightarrow> job_system" where
  "resolve_ends s = s\<lparr>js_running_thread := None\<rparr>"

section \<open>Work that hides behind a gate\<close>

definition above_ceiling :: "string \<Rightarrow> int \<Rightarrow> instant \<Rightarrow> database \<Rightarrow> jorb list" where
  "above_ceiling queue prio now d =
     filter (\<lambda>j. j_queue j = queue \<and> j_state j = Queued \<and> prio < j_prio j \<and> j_run_after j \<le> now) (jobs d)"

definition hidden_versions :: "string \<Rightarrow> string option \<Rightarrow> int \<Rightarrow> instant \<Rightarrow> database \<Rightarrow> jorb list" where
  "hidden_versions queue version prio now d =
     filter (\<lambda>j. j_queue j = queue \<and> j_state j = Queued \<and> j_app_version j \<noteq> None \<and> j_app_version j \<noteq> version
       \<and> j_prio j \<le> prio \<and> j_run_after j \<le> now) (jobs d)"

text \<open>The two counts that are logged when they are not zero, or nothing inside the minute.\<close>

definition report_hidden_work ::
  "instant \<Rightarrow> instant \<Rightarrow> system_config \<Rightarrow> job_system \<Rightarrow> database \<Rightarrow> (nat \<times> nat) option \<times> job_system" where
  "report_hidden_work clock now c s d =
     (if js_hidden_reported s \<noteq> 0 \<and> clock - js_hidden_reported s < 60000000 then (None, s)
      else (Some (length (above_ceiling (cf_qname c) (cf_prio c) now d),
                  length (hidden_versions (cf_qname c) (cf_app_version c) (cf_prio c) now d)),
            s\<lparr>js_hidden_reported := clock\<rparr>))"

section \<open>The loop\<close>

text \<open>
  Where the loop is: at its top, in the sleep, before each statement it awaits, at a job, or
  out of the loop. \<open>inbox\<close> holds notifications the connection has received and the event loop
  has not handed to \<open>_on_enqueue\<close>; \<open>returned\<close> the job threads that have ended. A job runs in one thread.
\<close>

datatype phase = Top | Asleep | Refusing | Claiming | Parking | Reclaiming | Reporting | Withdrawing jorb | Working jorb
  | Executing jorb | Settling jorb | Left

record world =
  wd_db :: database
  wd_fleet :: "registry_row list"
  wd_next_worker_id :: int
  wd_inbox :: "payload list"
  wd_returned :: "nat set"
  wd_next_thread :: nat
  wd_sys :: job_system
  wd_phase :: phase

text \<open>The stretch from the end of a sleep, or from the top, to the first statement.\<close>

definition decide :: "instant \<Rightarrow> system_config \<Rightarrow> nat set \<Rightarrow> job_system \<Rightarrow> job_system \<times> phase" where
  "decide clock c done s =
     (case too_many_abandoned_threads clock c done s of
        (refuse, _, s') \<Rightarrow> (s', if refuse then Refusing else Claiming))"

text \<open>One turn's top: \<open>due\<close> is whether the interval since the last poll has passed.\<close>

definition turn_top :: "instant \<Rightarrow> system_config \<Rightarrow> nat set \<Rightarrow> bool \<Rightarrow> job_system \<Rightarrow> job_system \<times> phase" where
  "turn_top clock c done due s =
     (if js_stop s then (s, Left)
      else if js_sleepytime s \<and> \<not> due then (s\<lparr>js_wake := False\<rparr>, Asleep)
      else decide clock c done s)"

definition sleep_over :: "instant \<Rightarrow> system_config \<Rightarrow> nat set \<Rightarrow> bool \<Rightarrow> job_system \<Rightarrow> job_system \<times> phase" where
  "sleep_over clock c done orphaned s =
     (if js_stop s then (s, Top)
      else if orphaned then (s\<lparr>js_stop := True\<rparr>, Top)
      else decide clock c done s)"

text \<open>What follows a claim: \<open>again\<close> tells the second claim of a turn from the first.\<close>

definition after_claim :: "bool \<Rightarrow> job_system \<Rightarrow> jorb list \<Rightarrow> phase" where
  "after_claim again s claimed =
     (case claimed of
        j # _ \<Rightarrow> Withdrawing j
      | [] \<Rightarrow> if \<not> again \<and> \<not> js_idle s then Parking else Reporting)"

definition on_enqueue :: "system_config \<Rightarrow> payload \<Rightarrow> job_system \<Rightarrow> job_system" where
  "on_enqueue c p s = (if p = QueuePayload (cf_qname c) then s\<lparr>js_wake := True\<rparr> else s)"

text \<open>The steps of this worker.\<close>

inductive worker_step :: "system_config \<Rightarrow> world \<Rightarrow> world \<Rightarrow> bool" for c where
  top: "wd_phase w = Top \<Longrightarrow> turn_top clock c (wd_returned w) due (wd_sys w) = (s, p)
    \<Longrightarrow> worker_step c w (w\<lparr>wd_sys := s, wd_phase := p\<rparr>)"
| slept: "wd_phase w = Asleep \<Longrightarrow> sleep_over clock c (wd_returned w) orphaned (wd_sys w) = (s, p)
    \<Longrightarrow> worker_step c w (w\<lparr>wd_sys := s, wd_phase := p\<rparr>)"
| refuse: "wd_phase w = Refusing \<Longrightarrow> set_idle False (wd_sys w) (wd_fleet w) = (s, rows)
    \<Longrightarrow> worker_step c w (w\<lparr>wd_sys := s\<lparr>js_sleepytime := True\<rparr>, wd_fleet := rows, wd_phase := Top\<rparr>)"
| claim: "wd_phase w = Claiming \<Longrightarrow> claim_jorb (claim_args c (wd_sys w)) now locked held (wd_db w) = Inr (ks, d)
    \<Longrightarrow> worker_step c w (w\<lparr>wd_db := d, wd_phase := after_claim False (wd_sys w) ks\<rparr>)"
| park: "wd_phase w = Parking \<Longrightarrow> set_idle True (wd_sys w) (wd_fleet w) = (s, rows)
    \<Longrightarrow> worker_step c w (w\<lparr>wd_sys := s, wd_fleet := rows, wd_phase := Reclaiming\<rparr>)"
| reclaim: "wd_phase w = Reclaiming \<Longrightarrow> claim_jorb (claim_args c (wd_sys w)) now locked held (wd_db w) = Inr (ks, d)
    \<Longrightarrow> worker_step c w (w\<lparr>wd_db := d, wd_phase := after_claim True (wd_sys w) ks\<rparr>)"
| report: "wd_phase w = Reporting \<Longrightarrow> report_hidden_work clock now c (wd_sys w) (wd_db w) = (r, s)
    \<Longrightarrow> worker_step c w (w\<lparr>wd_sys := s\<lparr>js_sleepytime := True\<rparr>, wd_phase := Top\<rparr>)"
| withdraw: "wd_phase w = Withdrawing j \<Longrightarrow> set_idle False (wd_sys w) (wd_fleet w) = (s, rows)
    \<Longrightarrow> worker_step c w (w\<lparr>wd_sys := s\<lparr>js_sleepytime := False\<rparr>, wd_fleet := rows, wd_phase := Working j\<rparr>)"
| submit: "wd_phase w = Working j \<Longrightarrow> t = wd_next_thread w
    \<Longrightarrow> worker_step c w (w\<lparr>wd_sys := resolve_starts t (wd_sys w), wd_next_thread := t + 1, wd_phase := Executing j\<rparr>)"
| let_go: "wd_phase w = Executing j \<Longrightarrow> worker_step c w (w\<lparr>wd_sys := resolve_ends (wd_sys w), wd_phase := Settling j\<rparr>)"
| worked: "wd_phase w = Working j \<or> wd_phase w = Settling j \<Longrightarrow> worker_step c w (w\<lparr>wd_phase := Top\<rparr>)"
| beat: "beat now c (wd_returned w) (wd_next_worker_id w) (wd_sys w) (wd_fleet w) = (s, rows)
    \<Longrightarrow> i = (if js_worker_id (wd_sys w) = None then wd_next_worker_id w + 1 else wd_next_worker_id w)
    \<Longrightarrow> worker_step c w (w\<lparr>wd_sys := s, wd_fleet := rows, wd_next_worker_id := i\<rparr>)"
| deliver: "wd_inbox w = p # ps \<Longrightarrow> worker_step c w (w\<lparr>wd_sys := on_enqueue c p (wd_sys w), wd_inbox := ps\<rparr>)"
| signal: "worker_step c w (w\<lparr>wd_sys := (wd_sys w)\<lparr>js_stop := True\<rparr>\<rparr>)"

text \<open>
  And of the others: a commit of the platform, which sends what its triggers send to every
  listener; the monitor retiring stale workers; another worker at a row of its own, or a new one.
\<close>

definition received :: "(channel \<times> payload) list \<Rightarrow> payload list" where
  "received ns = map snd (filter (\<lambda>n. fst n = JorbEnqueued) ns)"

inductive other_step :: "world \<Rightarrow> world \<Rightarrow> bool" where
  commit: "platform_step (wd_db w) d \<Longrightarrow>
     other_step w (w\<lparr>wd_db := d, wd_inbox := wd_inbox w @ received (enqueued_notices (wd_fleet w) (wd_db w) d)\<rparr>)"
| retire: "other_step w (w\<lparr>wd_fleet := RETIRE_DEAD_WORKERS_SQL now grace (wd_fleet w)\<rparr>)"
| colleague: "js_worker_id (wd_sys w) \<noteq> Some i \<Longrightarrow> (\<And>r. w_id (f r) = w_id r \<and> w_queue (f r) = w_queue r) \<Longrightarrow>
     other_step w (w\<lparr>wd_fleet := at_row i f (wd_fleet w)\<rparr>)"
| thread_returns: "other_step w (w\<lparr>wd_returned := insert t (wd_returned w)\<rparr>)"
| newcomer: "other_step w (w\<lparr>wd_fleet := WORKER_REGISTER_SQL now c' (wd_next_worker_id w) (wd_fleet w),
     wd_next_worker_id := wd_next_worker_id w + 1\<rparr>)"

definition loop_step :: "system_config \<Rightarrow> world \<Rightarrow> world \<Rightarrow> bool" where
  "loop_step c w w' \<longleftrightarrow> worker_step c w w' \<or> other_step w w'"

text \<open>A process just started, on a platform that may have been running for long.\<close>

definition started :: "world \<Rightarrow> bool" where
  "started w \<longleftrightarrow> reachable (wd_db w) \<and> distinct (map w_id (wd_fleet w))
     \<and> (\<forall>r \<in> set (wd_fleet w). w_id r < wd_next_worker_id w) \<and> wd_inbox w = [] \<and> wd_returned w = {}
     \<and> wd_sys w = \<lparr>js_stop = False, js_worker_id = None, js_idle = False, js_wake = False, js_sleepytime = False,
          js_job_threads = [], js_running_thread = None, js_refusing_since = None, js_refusal_logged = 0, js_hidden_reported = 0\<rparr>
     \<and> wd_phase w = Top"

definition in_loop :: "system_config \<Rightarrow> world \<Rightarrow> bool" where
  "in_loop c w \<longleftrightarrow> (\<exists>w0. started w0 \<and> (loop_step c)\<^sup>*\<^sup>* w0 w)"


section \<open>Job threads\<close>

definition occupancy :: "nat set \<Rightarrow> job_system \<Rightarrow> nat" where
  "occupancy done s = length (filter (\<lambda>t. t \<notin> done) (js_job_threads s))"

lemma occupancy_grows: "occupancy (insert t done) s \<le> occupancy done s"
proof -
  have "length (filter (\<lambda>x. x \<notin> insert t done) ts) \<le> length (filter (\<lambda>x. x \<notin> done) ts)" for ts
    by (induction ts) auto
  then show ?thesis by (simp only: occupancy_def)
qed

lemma occupancy_cong [simp]:
  "occupancy done (s\<lparr>js_stop := a\<rparr>) = occupancy done s" "occupancy done (s\<lparr>js_wake := a\<rparr>) = occupancy done s"
  "occupancy done (s\<lparr>js_idle := a\<rparr>) = occupancy done s" "occupancy done (s\<lparr>js_sleepytime := a\<rparr>) = occupancy done s"
  "occupancy done (s\<lparr>js_worker_id := b\<rparr>) = occupancy done s" "occupancy done (s\<lparr>js_running_thread := u\<rparr>) = occupancy done s"
  "occupancy done (s\<lparr>js_hidden_reported := v\<rparr>) = occupancy done s"
  by (simp_all add: occupancy_def)

text \<open>What the bookkeeping leaves alone.\<close>

definition same_books :: "nat set \<Rightarrow> job_system \<Rightarrow> job_system \<Rightarrow> bool" where
  "same_books done s s' \<longleftrightarrow>
     js_stop s' = js_stop s \<and> js_worker_id s' = js_worker_id s \<and> js_idle s' = js_idle s \<and> js_wake s' = js_wake s
     \<and> js_sleepytime s' = js_sleepytime s \<and> js_running_thread s' = js_running_thread s
     \<and> occupancy done s' = occupancy done s \<and> set (js_job_threads s) \<subseteq> set (js_job_threads s') \<union> done"

lemma live_job_threads_eq:
  "fst (live_job_threads done s) = occupancy done s" "same_books done s (snd (live_job_threads done s))"
  by (auto simp: live_job_threads_def occupancy_def same_books_def Let_def)

lemma too_many_books:
  assumes "too_many_abandoned_threads now c done s = (refuse, said, s')"
  shows "refuse \<longleftrightarrow> cf_job_threads c \<le> occupancy done s" "same_books done s s'"
proof -
  obtain s1 where live: "live_job_threads done s = (occupancy done s, s1)" "same_books done s s1"
    using live_job_threads_eq [of "done" s] by (cases "live_job_threads done s") auto
  have keep: "same_books done s (s1\<lparr>js_refusing_since := a\<rparr>)" "same_books done s (s1\<lparr>js_refusal_logged := b\<rparr>)"
    "same_books done s (s1\<lparr>js_refusing_since := a, js_refusal_logged := b\<rparr>)"
    "same_books done s (s1\<lparr>js_refusing_since := a, js_refusal_logged := b, js_refusal_logged := b'\<rparr>)" for a b b'
    using live(2) by (auto simp: same_books_def occupancy_def)
  show "refuse \<longleftrightarrow> cf_job_threads c \<le> occupancy done s" "same_books done s s'"
    using assms live keep by (auto simp: too_many_abandoned_threads_def Let_def split: if_splits)
qed

lemma decide_books:
  assumes "decide clock c done s = (s', p)"
  shows "same_books done s s'" "p = (if cf_job_threads c \<le> occupancy done s then Refusing else Claiming)"
  using assms too_many_books by (auto simp: decide_def split: prod.splits)

lemma turn_top_cases:
  assumes "turn_top clock c done due s = (s', p)"
  obtains (left) "js_stop s" "s' = s" "p = Left"
    | (sleep) "\<not> js_stop s" "js_sleepytime s" "s' = s\<lparr>js_wake := False\<rparr>" "p = Asleep"
    | (go) "\<not> js_stop s" "same_books done s s'" "p = (if cf_job_threads c \<le> occupancy done s then Refusing else Claiming)"
  using assms decide_books by (auto simp: turn_top_def split: if_splits)

lemma sleep_over_cases:
  assumes "sleep_over clock c done orphaned s = (s', p)"
  obtains (stop) "p = Top" "s' = s \<or> s' = s\<lparr>js_stop := True\<rparr>"
    | (go) "\<not> js_stop s" "same_books done s s'" "p = (if cf_job_threads c \<le> occupancy done s then Refusing else Claiming)"
  using assms decide_books by (auto simp: sleep_over_def split: if_splits)

text \<open>A worker on its way to a job has a free slot for it; the slots are never overbooked.\<close>

definition has_slot :: "phase \<Rightarrow> bool" where
  "has_slot p \<longleftrightarrow> (case p of Claiming \<Rightarrow> True | Parking \<Rightarrow> True | Reclaiming \<Rightarrow> True | Withdrawing _ \<Rightarrow> True
      | Working _ \<Rightarrow> True | _ \<Rightarrow> False)"

definition threads_ok :: "system_config \<Rightarrow> world \<Rightarrow> bool" where
  "threads_ok c w \<longleftrightarrow>
     (let s = wd_sys w; n = occupancy (wd_returned w) s
      in n \<le> cf_job_threads c \<and> (has_slot (wd_phase w) \<longrightarrow> n < cf_job_threads c)
         \<and> (\<forall>t. js_running_thread s = Some t \<longrightarrow> t \<in> set (js_job_threads s) \<union> wd_returned w)
         \<and> (js_running_thread s \<noteq> None \<longleftrightarrow> (\<exists>j. wd_phase w = Executing j)))"

lemma set_idle_books:
  assumes "set_idle b s rows = (s', rows')"
  shows "same_books done (s\<lparr>js_idle := b\<rparr>) s'" "js_idle s' = b"
  using assms by (auto simp: set_idle_def same_books_def occupancy_def split: if_splits option.splits)

lemma after_claim_phase: "after_claim again s ks \<noteq> Executing j"
  by (auto simp: after_claim_def split: list.splits)

lemma threads_keep:
  assumes "threads_ok c w" and "wd_returned w' = wd_returned w"
    and "occupancy (wd_returned w) (wd_sys w') = occupancy (wd_returned w) (wd_sys w)"
      "js_running_thread (wd_sys w') = js_running_thread (wd_sys w)"
      "set (js_job_threads (wd_sys w)) \<subseteq> set (js_job_threads (wd_sys w')) \<union> wd_returned w"
    and "has_slot (wd_phase w') \<Longrightarrow> occupancy (wd_returned w) (wd_sys w) < cf_job_threads c"
    and "(\<exists>j. wd_phase w' = Executing j) \<longleftrightarrow> (\<exists>j. wd_phase w = Executing j)"
  shows "threads_ok c w'"
  using assms unfolding threads_ok_def Let_def by (metis (no_types, lifting) UnE UnI2 subsetD)

lemma worker_keeps_threads:
  assumes "worker_step c w w'" and ok: "threads_ok c w"
  shows "threads_ok c w'"
  using assms(1)
proof cases
  case (top clock due s p)
  from top(3) show ?thesis
    by (cases rule: turn_top_cases; intro threads_keep [OF ok])
      (auto simp: top(1,2) same_books_def has_slot_def split: if_splits)
next
  case (slept clock orphaned s p)
  from slept(3) show ?thesis
    by (cases rule: sleep_over_cases; intro threads_keep [OF ok])
      (auto simp: slept(1,2) same_books_def has_slot_def split: if_splits)
next
  case (refuse s rows)
  then show ?thesis using set_idle_books [OF refuse(3)] by (intro threads_keep [OF ok]) (auto simp: same_books_def has_slot_def)
next
  case (claim now locked held ks d)
  then show ?thesis using ok by (intro threads_keep [OF ok]) (auto simp: after_claim_phase threads_ok_def Let_def has_slot_def)
next
  case (park s rows)
  then show ?thesis using set_idle_books [OF park(3)] ok
    by (intro threads_keep [OF ok]) (auto simp: same_books_def has_slot_def threads_ok_def Let_def)
next
  case (reclaim now locked held ks d)
  then show ?thesis using ok by (intro threads_keep [OF ok]) (auto simp: after_claim_phase threads_ok_def Let_def has_slot_def)
next
  case (report clock now r s)
  then have "s = wd_sys w \<or> (\<exists>v. s = (wd_sys w)\<lparr>js_hidden_reported := v\<rparr>)" by (auto simp: report_hidden_work_def split: if_splits)
  with report show ?thesis by (intro threads_keep [OF ok]) (auto simp: has_slot_def)
next
  case (withdraw j s rows)
  then show ?thesis using set_idle_books [OF withdraw(3)] ok
    by (intro threads_keep [OF ok]) (auto simp: same_books_def has_slot_def threads_ok_def Let_def)
next
  case (submit j t)
  then show ?thesis using ok
    by (auto simp: threads_ok_def Let_def has_slot_def resolve_starts_def occupancy_def)
next
  case (let_go j)
  then show ?thesis using ok by (auto simp: threads_ok_def Let_def has_slot_def resolve_ends_def)
next
  case (worked j)
  then show ?thesis by (intro threads_keep [OF ok]) (auto simp: has_slot_def)
next
  case (beat now s rows i)
  have "same_books (wd_returned w) (wd_sys w) s \<or> (\<exists>k. s = (wd_sys w)\<lparr>js_worker_id := Some k, js_idle := False\<rparr>)"
    using beat(2) live_job_threads_eq(2) [of "wd_returned w" "wd_sys w"]
    by (auto simp: beat_def try_register_def abandoned_job_threads_def Let_def split: option.splits prod.splits)
  then show ?thesis using ok
    by (auto simp: beat(1) same_books_def threads_ok_def Let_def intro!: threads_keep [OF ok])
next
  case (deliver p ps)
  then show ?thesis using ok by (intro threads_keep [OF ok]) (auto simp: on_enqueue_def threads_ok_def Let_def)
next
  case signal
  then show ?thesis using ok by (intro threads_keep [OF ok]) (auto simp: threads_ok_def Let_def)
qed

lemma others_keep_threads:
  assumes "other_step w w'" and ok: "threads_ok c w"
  shows "threads_ok c w'"
  using assms(1)
proof cases
  case (thread_returns t)
  then show ?thesis
    using ok occupancy_grows [of t "wd_returned w" "wd_sys w"] by (auto simp: threads_ok_def Let_def)
qed (use ok in \<open>auto simp: threads_ok_def Let_def\<close>)

lemma threads_always_ok: "in_loop c w \<Longrightarrow> threads_ok c w"
proof -
  assume "in_loop c w"
  then obtain w0 where "started w0" "(loop_step c)\<^sup>*\<^sup>* w0 w" by (auto simp: in_loop_def)
  from this(2,1) show ?thesis
    by (induction rule: rtranclp_induct)
      (auto simp: loop_step_def intro: worker_keeps_threads others_keep_threads,
        auto simp: started_def threads_ok_def has_slot_def occupancy_def)
qed


text \<open>
  C19. A worker never overbooks its pool. However the loop has run, at most \<open>job_threads\<close> of
  its threads are alive, and at a job that has been claimed one slot is free, so its thread
  starts at once. What the heartbeat publishes as abandoned reaches the budget exactly when
  the loop, asked now, would refuse to claim and no job of its own is running.
\<close>

theorem the_pool_is_never_overbooked:
  assumes "in_loop c w"
  shows "fst (live_job_threads (wd_returned w) (wd_sys w)) \<le> cf_job_threads c
    \<and> (wd_phase w = Working j \<longrightarrow>
          fst (live_job_threads (wd_returned w) (resolve_starts t (wd_sys w))) \<le> cf_job_threads c)
    \<and> (cf_job_threads c \<le> fst (abandoned_job_threads (wd_returned w) (wd_sys w)) \<longleftrightarrow>
      fst (too_many_abandoned_threads clock c (wd_returned w) (wd_sys w))
      \<and> (\<forall>t. js_running_thread (wd_sys w) = Some t \<longrightarrow> t \<in> wd_returned w))"
proof (intro conjI impI)
  let ?s = "wd_sys w" and ?r = "wd_returned w"
  have ok: "threads_ok c w" by (rule threads_always_ok [OF assms])
  then show "fst (live_job_threads ?r ?s) \<le> cf_job_threads c"
    by (simp add: live_job_threads_eq threads_ok_def Let_def)
  show "fst (live_job_threads ?r (resolve_starts t ?s)) \<le> cf_job_threads c" if "wd_phase w = Working j"
    using ok that by (auto simp: live_job_threads_eq threads_ok_def has_slot_def resolve_starts_def occupancy_def Let_def)
  have abandoned: "fst (abandoned_job_threads ?r ?s) = (case js_running_thread ?s of
      None \<Rightarrow> occupancy ?r ?s | Some t \<Rightarrow> if t \<notin> ?r then occupancy ?r ?s - 1 else occupancy ?r ?s)"
    using live_job_threads_eq [of ?r ?s]
    by (auto simp: abandoned_job_threads_def Let_def same_books_def split: prod.splits option.splits)
  have refuses: "fst (too_many_abandoned_threads clock c ?r ?s) \<longleftrightarrow> cf_job_threads c \<le> occupancy ?r ?s"
    using too_many_books(1) by (metis prod.collapse)
  have "0 < occupancy ?r ?s" if "js_running_thread ?s = Some t" "t \<notin> ?r" for t
    using ok that by (auto simp: threads_ok_def Let_def occupancy_def filter_empty_conv)
  moreover have "occupancy ?r ?s \<le> cf_job_threads c" using ok by (simp add: threads_ok_def Let_def)
  ultimately show "cf_job_threads c \<le> fst (abandoned_job_threads ?r ?s) \<longleftrightarrow>
      fst (too_many_abandoned_threads clock c ?r ?s) \<and> (\<forall>t. js_running_thread ?s = Some t \<longrightarrow> t \<in> ?r)"
    unfolding abandoned refuses by (cases "js_running_thread ?s") force+
qed

section \<open>The subscription\<close>

text \<open>
  The worker's row: of its queue, below the sequence, and while the process believes itself
  idle the row says so too, unless the row has been retired.
\<close>

definition retired :: "registry_row \<Rightarrow> bool" where
  "retired r \<longleftrightarrow> w_shutdown_at r \<noteq> None"

definition own_row :: "system_config \<Rightarrow> job_system \<Rightarrow> registry_row \<Rightarrow> bool" where
  "own_row c s r \<longleftrightarrow> (js_worker_id s = Some (w_id r) \<longrightarrow>
     w_queue r = cf_qname c \<and> (js_idle s \<longrightarrow> w_idle r \<or> retired r))"

definition row_ok :: "system_config \<Rightarrow> world \<Rightarrow> bool" where
  "row_ok c w \<longleftrightarrow>
     (\<forall>r \<in> set (wd_fleet w). w_id r < wd_next_worker_id w \<and> own_row c (wd_sys w) r)
     \<and> (\<forall>i. js_worker_id (wd_sys w) = Some i \<longrightarrow> i < wd_next_worker_id w)"

lemma ball_at_row: "(\<forall>r \<in> set (at_row i f rows). P r) \<longleftrightarrow> (\<forall>r \<in> set rows. P (if w_id r = i then f r else r))"
  by (simp only: at_row_def set_map ball_simps)

lemma set_idle_row:
  assumes "set_idle b s rows = (s', rows')"
  shows "js_worker_id s' = js_worker_id s" "js_idle s' = b" "js_stop s' = js_stop s" "js_wake s' = js_wake s"
  using assms by (auto simp: set_idle_def split: if_splits option.splits)

lemma set_idle_rows:
  assumes "set_idle b s rows = (s', rows')" and "\<forall>r \<in> set rows. w_id r < n \<and> own_row c s r"
  shows "\<forall>r \<in> set rows'. w_id r < n \<and> own_row c s' r"
proof (cases "js_idle s = b \<or> js_worker_id s = None")
  case True
  with assms(1) have "rows' = rows" "s' = s \<or> js_worker_id s = None \<and> js_worker_id s' = None"
    by (auto simp: set_idle_def split: if_splits)
  with assms(2) show ?thesis by (auto simp: own_row_def)
next
  case False
  then obtain i where i: "js_worker_id s = Some i" by blast
  with False assms(1) have new: "s' = s\<lparr>js_idle := b\<rparr>" "rows' = stmt_worker_idle i b rows"
    by (simp_all add: set_idle_def split: if_splits)
  let ?f = "\<lambda>r. if w_id r = i then if w_idle r \<noteq> b then r\<lparr>w_idle := b\<rparr> else r else r"
  have "w_id (?f r) < n \<and> own_row c s' (?f r)" if "r \<in> set rows" for r
    using assms(2) that by (auto simp: new(1) own_row_def i)
  then show ?thesis unfolding new(2) stmt_worker_idle_def ball_at_row by blast
qed

lemma row_keep:
  assumes "row_ok c w" "wd_fleet w' = wd_fleet w" "wd_next_worker_id w' = wd_next_worker_id w"
    and "js_worker_id (wd_sys w') = js_worker_id (wd_sys w)" "js_idle (wd_sys w') = js_idle (wd_sys w)"
  shows "row_ok c w'"
  using assms by (simp add: row_ok_def own_row_def)

lemma set_idle_keeps_row:
  assumes "row_ok c w" and run: "set_idle b (wd_sys w) (wd_fleet w) = (s, rows)"
    and "wd_fleet w' = rows" "wd_next_worker_id w' = wd_next_worker_id w"
    and "js_worker_id (wd_sys w') = js_worker_id s" "js_idle (wd_sys w') = js_idle s"
  shows "row_ok c w'"
proof -
  have "\<forall>r \<in> set rows. w_id r < wd_next_worker_id w \<and> own_row c s r"
    using assms(1) by (intro set_idle_rows [OF run]) (simp add: row_ok_def)
  with assms(1,3-6) set_idle_row [OF run] show ?thesis by (simp add: row_ok_def own_row_def)
qed

lemma worker_keeps_row:
  assumes "worker_step c w w'" and ok: "row_ok c w"
  shows "row_ok c w'"
  using assms(1)
proof cases
  case (top clock due s p)
  from top(3) show ?thesis
    by (cases rule: turn_top_cases; intro row_keep [OF ok]) (simp_all add: top(1) same_books_def)
next
  case (slept clock orphaned s p)
  from slept(3) show ?thesis
    by (cases rule: sleep_over_cases; intro row_keep [OF ok]) (auto simp: slept(1) same_books_def)
next
  case (refuse s rows)
  show ?thesis by (rule set_idle_keeps_row [OF ok refuse(3)]) (simp_all add: refuse(1))
next
  case (park s rows)
  show ?thesis by (rule set_idle_keeps_row [OF ok park(3)]) (simp_all add: park(1))
next
  case (withdraw j s rows)
  show ?thesis by (rule set_idle_keeps_row [OF ok withdraw(3)]) (simp_all add: withdraw(1))
next
  case (report clock now r s)
  then have "s = wd_sys w \<or> (\<exists>v. s = (wd_sys w)\<lparr>js_hidden_reported := v\<rparr>)" by (auto simp: report_hidden_work_def split: if_splits)
  with report show ?thesis by (intro row_keep [OF ok]) auto
next
  case (beat now s rows i)
  show ?thesis
  proof (cases "js_worker_id (wd_sys w)")
    case None
    with beat have new: "s = (wd_sys w)\<lparr>js_worker_id := Some (wd_next_worker_id w), js_idle := False\<rparr>"
      "rows = WORKER_REGISTER_SQL now c (wd_next_worker_id w) (wd_fleet w)" "i = wd_next_worker_id w + 1"
      by (simp_all add: beat_def try_register_def)
    have "w_id r < wd_next_worker_id w" if "r \<in> set (wd_fleet w)" for r using ok that by (simp add: row_ok_def)
    then have "w_id r < wd_next_worker_id w + 1 \<and> own_row c s r" if "r \<in> set rows" for r
      using that by (force simp: new WORKER_REGISTER_SQL_def own_row_def)
    then show ?thesis by (simp add: beat(1) new row_ok_def)
  next
    case (Some k)
    then obtain a where "rows = WORKER_HEARTBEAT_SQL now k (cf_job_threads c) a (wd_fleet w)"
      "same_books (wd_returned w) (wd_sys w) s"
      using beat(2) live_job_threads_eq(2) [of "wd_returned w" "wd_sys w"]
      by (auto simp: beat_def abandoned_job_threads_def Let_def split: prod.splits)
    with Some beat(1,3) ok show ?thesis
      by (simp add: WORKER_HEARTBEAT_SQL_def ball_at_row row_ok_def own_row_def retired_def same_books_def)
  qed
next
  case (submit j t)
  then show ?thesis by (intro row_keep [OF ok]) (simp_all add: resolve_starts_def)
next
  case (let_go j)
  then show ?thesis by (intro row_keep [OF ok]) (simp_all add: resolve_ends_def)
next
  case (deliver p ps)
  then show ?thesis by (intro row_keep [OF ok]) (auto simp: on_enqueue_def)
qed (intro row_keep [OF ok]; simp)+

lemma others_keep_row:
  assumes "other_step w w'" and ok: "row_ok c w"
  shows "row_ok c w'"
  using assms(1)
proof cases
  case (retire now grace)
  let ?f = "\<lambda>r. if w_shutdown_at r = None \<and> stale now grace r then r\<lparr>w_shutdown_at := Some now, w_idle := False\<rparr> else r"
  have "w_id (?f r) < wd_next_worker_id w \<and> own_row c (wd_sys w) (?f r)" if "r \<in> set (wd_fleet w)" for r
    using ok that by (auto simp: row_ok_def own_row_def retired_def)
  then have "\<forall>r \<in> set (map ?f (wd_fleet w)). w_id r < wd_next_worker_id w \<and> own_row c (wd_sys w) r"
    unfolding set_map ball_simps by blast
  with ok show ?thesis unfolding retire RETIRE_DEAD_WORKERS_SQL_def by (simp only: row_ok_def) simp
next
  case (colleague i f)
  have "own_row c (wd_sys w) (if w_id r = i then f r else r)" if "r \<in> set (wd_fleet w)" for r
    using ok that colleague(2,3) by (simp add: row_ok_def own_row_def)
  with ok colleague show ?thesis by (auto simp: row_ok_def ball_at_row)
next
  case (newcomer now c')
  have "w_id r < wd_next_worker_id w" if "r \<in> set (wd_fleet w)" for r using ok that by (simp add: row_ok_def)
  then have "\<forall>r \<in> set (wd_fleet w'). w_id r < wd_next_worker_id w + 1 \<and> own_row c (wd_sys w) r"
    using ok unfolding newcomer WORKER_REGISTER_SQL_def
    by (force simp: row_ok_def own_row_def)
  with ok newcomer show ?thesis by (force simp: row_ok_def)
qed (intro row_keep [OF ok]; simp)+

lemma row_always_ok: "in_loop c w \<Longrightarrow> row_ok c w"
proof -
  assume "in_loop c w"
  then obtain w0 where "started w0" "(loop_step c)\<^sup>*\<^sup>* w0 w" by (auto simp: in_loop_def)
  from this(2,1) show ?thesis
    by (induction rule: rtranclp_induct)
      (auto simp: loop_step_def intro: worker_keeps_row others_keep_row, auto simp: started_def row_ok_def own_row_def)
qed


lemma started_reachable: "in_loop c w \<Longrightarrow> reachable (wd_db w)"
proof -
  assume "in_loop c w"
  then obtain w0 where "started w0" "(loop_step c)\<^sup>*\<^sup>* w0 w" by (auto simp: in_loop_def)
  from this(2,1) show ?thesis
  proof (induction rule: rtranclp_induct)
    case (step a b)
    have "wd_db b = wd_db a \<or> platform_step (wd_db a) (wd_db b)"
      using step(2) unfolding loop_step_def
      by (auto elim!: worker_step.cases other_step.cases intro: platform_step.claim)
    with step(3,4) show ?case unfolding reachable_def by (metis rtranclp.rtrancl_into_rtrancl)
  qed (simp add: started_def)
qed

text \<open>The worker has published its demand, and a wakeup is on its way or has arrived.\<close>

definition published :: "world \<Rightarrow> bool" where
  "published w \<longleftrightarrow> js_idle (wd_sys w)
     \<and> (\<exists>r \<in> set (wd_fleet w). js_worker_id (wd_sys w) = Some (w_id r) \<and> \<not> retired r)"

definition summoned :: "system_config \<Rightarrow> world \<Rightarrow> bool" where
  "summoned c w \<longleftrightarrow> js_wake (wd_sys w) \<or> QueuePayload (cf_qname c) \<in> set (wd_inbox w)"

lemma queued_notice:
  "p \<in> set (received (enqueued_notices ws d d')) \<longleftrightarrow> (JorbEnqueued, p) \<in> set (enqueued_notices ws d d')"
  by (force simp: received_def)

text \<open>
  C17. A worker asleep with its demand published is woken by every commit that queues a job on
  its queue: the commit's triggers send the wakeup, and from then on, whatever it and the
  others do, as long as it sleeps the wakeup is on its way to it or has set its event. The
  flag in its row is the one in its memory, whatever the heartbeat did in between.
\<close>

theorem a_sleeping_worker_is_woken:
  assumes "in_loop c w" and "published w" and "wd_phase w = Asleep"
    and "platform_step (wd_db w) d" and "k \<in> set (jobs d)" "j_queue k = cf_qname c" "j_state k = Queued"
    and "\<And>j. lookup_job (wd_db w) (j_id k) = Some j \<Longrightarrow> j_state j \<noteq> Queued"
    and "(\<lambda>a b. loop_step c a b \<and> wd_phase b = Asleep)\<^sup>*\<^sup>*
      (w\<lparr>wd_db := d, wd_inbox := wd_inbox w @ received (enqueued_notices (wd_fleet w) (wd_db w) d)\<rparr>) w'"
  shows "summoned c w'"
  using assms(9)
proof (induction rule: rtranclp_induct)
  case base
  obtain r where r: "r \<in> set (wd_fleet w)" "js_worker_id (wd_sys w) = Some (w_id r)" "\<not> retired r" "js_idle (wd_sys w)"
    using assms(2) by (auto simp: published_def)
  have "own_row c (wd_sys w) r" using row_always_ok [OF assms(1)] r(1) by (simp add: row_ok_def)
  with r have "w_queue r = cf_qname c" "w_idle r" "w_shutdown_at r = None" by (auto simp: own_row_def retired_def)
  then have "QueuePayload (cf_qname c) \<in> set (received (enqueued_notices (wd_fleet w) (wd_db w) d))"
    using assms(5-8) r(1)
    by (auto simp: queued_notice set_enqueued_notices state_changed_def split: option.splits intro!: bexI [of _ k] bexI [of _ r])
  then show ?case by (simp add: summoned_def)
next
  case (step a b)
  have asleep: "wd_phase a = Asleep"
    using step(1) assms(3) by (cases rule: rtranclp.cases) auto
  from step(2,3) asleep show ?case
    unfolding loop_step_def
  proof (elim conjE disjE)
    assume "worker_step c a b" "wd_phase b = Asleep"
    then show ?thesis using step(3) asleep
    proof (cases rule: worker_step.cases)
      case (slept clock orphaned s p)
      with \<open>wd_phase b = Asleep\<close> show ?thesis by (auto elim!: sleep_over_cases split: if_splits)
    next
      case (beat now s rows i)
      have "js_wake s = js_wake (wd_sys a)"
        using beat(2) live_job_threads_eq(2) [of "wd_returned a" "wd_sys a"]
        by (auto simp: beat_def try_register_def abandoned_job_threads_def Let_def same_books_def
            split: option.splits prod.splits)
      with beat step(3) show ?thesis by (simp add: summoned_def)
    next
      case (deliver p ps)
      with step(3) show ?thesis by (auto simp: summoned_def on_enqueue_def)
    qed (auto simp: summoned_def)
  next
    assume "other_step a b"
    then show ?thesis using step(3) by (cases rule: other_step.cases) (auto simp: summoned_def)
  qed
qed

end
