(* ===== verification/Wakeups.thy ===== *)
theory Wakeups
  imports Loop
begin

text \<open>
  What the subscription of the worker's loop does not cover: a wakeup that arrives between
  the last claim and the sleep, and a worker whose row the monitor has retired. And what the
  worker's report of hidden work tells, with the witnesses of the loop's properties.
\<close>

section \<open>A run of the loop\<close>

text \<open>A worker registers, finds nothing, publishes its demand, finds nothing again.\<close>

definition demo_config :: system_config where
  "demo_config = \<lparr>cf_qname = ''default'', cf_capabilities = [], cf_prio = 1000, cf_app_version = None,
     cf_pid = 1, cf_node = ''h'', cf_job_threads = 8\<rparr>"

definition demo_sys :: "int option \<Rightarrow> bool \<Rightarrow> bool \<Rightarrow> bool \<Rightarrow> job_system" where
  "demo_sys i idle wake sleepy = \<lparr>js_stop = False, js_worker_id = i, js_idle = idle, js_wake = wake, js_sleepytime = sleepy,
     js_job_threads = [], js_running_thread = None, js_refusing_since = None, js_refusal_logged = 0, js_hidden_reported = 0\<rparr>"

definition demo_row :: "bool \<Rightarrow> registry_row" where
  "demo_row idle = \<lparr>w_id = 1, w_queue = ''default'', w_last_seen = 0, w_shutdown_at = None, w_idle = idle,
     w_capabilities = [], w_max_prio = 1000, w_app_version = None, w_pid = 1, w_host = ''h'',
     w_job_threads = 8, w_job_threads_abandoned = 0\<rparr>"

definition demo :: "database \<Rightarrow> bool \<Rightarrow> payload list \<Rightarrow> bool \<Rightarrow> bool \<Rightarrow> phase \<Rightarrow> world" where
  "demo d idle inbox wake sleepy p = \<lparr>wd_db = d, wd_fleet = [demo_row idle], wd_next_worker_id = 2, wd_inbox = inbox,
     wd_returned = {}, wd_next_thread = 0, wd_sys = demo_sys (Some 1) idle wake sleepy, wd_phase = p\<rparr>"

definition demo_start :: world where
  "demo_start = \<lparr>wd_db = empty_db, wd_fleet = [], wd_next_worker_id = 1, wd_inbox = [],
     wd_returned = {}, wd_next_thread = 0, wd_sys = demo_sys None False False False, wd_phase = Top\<rparr>"

lemmas demo_defs = demo_def demo_sys_def demo_row_def demo_config_def

lemma no_work: "claim_jorb w 0 {} True empty_db = Inr ([], empty_db)"
  by (simp add: claim_jorb_def claim_from_def update_jobs_def candidates_def pick_def queue_control_def paused_def
      limited_def partitioned_def concurrency_cap_def rate_cap_def empty_db_def claim_where_def unique_ok_def
      index_ok_def Let_def)

lemma demo_fields [simp]:
  "wd_db (demo d i ns wk sl p) = d" "wd_fleet (demo d i ns wk sl p) = [demo_row i]"
  "wd_inbox (demo d i ns wk sl p) = ns" "wd_sys (demo d i ns wk sl p) = demo_sys (Some 1) i wk sl"
  "wd_phase (demo d i ns wk sl p) = p" "wd_returned (demo d i ns wk sl p) = {}"
  "(demo d i ns wk sl p)\<lparr>wd_phase := q\<rparr> = demo d i ns wk sl q"
  "(demo d i ns wk sl p)\<lparr>wd_sys := demo_sys (Some 1) i wk' sl', wd_phase := q\<rparr> = demo d i ns wk' sl' q"
  "(demo d i ns wk sl p)\<lparr>wd_sys := demo_sys (Some 1) i' wk' sl', wd_fleet := [demo_row i'], wd_phase := q\<rparr> = demo d i' ns wk' sl' q"
  "(demo d i ns wk sl p)\<lparr>wd_db := d', wd_phase := q\<rparr> = demo d' i ns wk sl q"
  "(demo d i ns wk sl p)\<lparr>wd_db := d', wd_inbox := ns'\<rparr> = demo d' i ns' wk sl p"
  "(demo d i ns wk sl p)\<lparr>wd_sys := demo_sys (Some 1) i wk' sl', wd_inbox := ns'\<rparr> = demo d i ns' wk' sl' p"
  by (simp_all add: demo_def)

lemma demo_sys_fields [simp]:
  "js_stop (demo_sys i idle wk sl) = False" "js_worker_id (demo_sys i idle wk sl) = i"
  "js_idle (demo_sys i idle wk sl) = idle" "js_wake (demo_sys i idle wk sl) = wk" "js_sleepytime (demo_sys i idle wk sl) = sl"
  "(demo_sys i idle wk sl)\<lparr>js_wake := b\<rparr> = demo_sys i idle b sl"
  "(demo_sys i idle wk sl)\<lparr>js_idle := b\<rparr> = demo_sys i b wk sl"
  "(demo_sys i idle wk sl)\<lparr>js_sleepytime := b\<rparr> = demo_sys i idle wk b"
  by (simp_all add: demo_sys_def)

lemma demo_registers: "worker_step demo_config demo_start (demo empty_db False [] False False Top)"
proof -
  have "beat 0 demo_config {} 1 (demo_sys None False False False) [] = (demo_sys (Some 1) False False False, [demo_row False])"
    by (simp add: beat_def try_register_def WORKER_REGISTER_SQL_def demo_defs)
  then show ?thesis
    using worker_step.beat [of 0 demo_config demo_start "demo_sys (Some 1) False False False" "[demo_row False]" 2]
    by (simp add: demo_start_def demo_def)
qed

lemma demo_decides: "turn_top 0 demo_config {} False (demo_sys i idle wk False) = (demo_sys i idle wk False, Claiming)"
  by (simp add: turn_top_def decide_def too_many_abandoned_threads_def live_job_threads_def demo_defs Let_def)

lemma demo_turn: "worker_step demo_config (demo d i ns wk False Top) (demo d i ns wk False Claiming)"
  using worker_step.top [of "demo d i ns wk False Top" 0 demo_config False "demo_sys (Some 1) i wk False" Claiming]
  by (simp add: demo_decides)

lemma demo_claim: "worker_step demo_config (demo empty_db False ns wk sl Claiming) (demo empty_db False ns wk sl Parking)"
  using worker_step.claim [of "demo empty_db False ns wk sl Claiming" demo_config 0 "{}" True "[]" empty_db]
  by (simp add: no_work after_claim_def)

lemma demo_park: "worker_step demo_config (demo d False ns wk sl Parking) (demo d True ns wk sl Reclaiming)"
  using worker_step.park [of "demo d False ns wk sl Parking" "demo_sys (Some 1) True wk sl" "[demo_row True]" demo_config]
  by (simp add: set_idle_def stmt_worker_idle_def at_row_def) (simp add: demo_row_def)

lemma demo_reclaim: "worker_step demo_config (demo empty_db True ns wk sl Reclaiming) (demo empty_db True ns wk sl Reporting)"
  using worker_step.reclaim [of "demo empty_db True ns wk sl Reclaiming" demo_config 0 "{}" True "[]" empty_db]
  by (simp add: no_work after_claim_def)

lemma demo_report: "worker_step demo_config (demo d True ns wk sl Reporting) (demo d True ns wk True Top)"
proof -
  obtain r where "report_hidden_work 0 0 demo_config (demo_sys (Some 1) True wk sl) d = (r, demo_sys (Some 1) True wk sl)"
    by (simp add: report_hidden_work_def demo_sys_def)
  then show ?thesis
    using worker_step.report [of "demo d True ns wk sl Reporting" 0 0 demo_config r "demo_sys (Some 1) True wk sl"] by simp
qed

lemma demo_sleep: "worker_step demo_config (demo d i ns wk True Top) (demo d i ns False True Asleep)"
  using worker_step.top [of "demo d i ns wk True Top" 0 demo_config False "demo_sys (Some 1) i False True" Asleep]
  by (simp add: turn_top_def)

lemma demo_deliver: "worker_step demo_config (demo d i [QueuePayload ''default''] wk sl p) (demo d i [] True sl p)"
  using worker_step.deliver [of "demo d i [QueuePayload ''default''] wk sl p" "QueuePayload ''default''" "[]" demo_config]
  by (simp add: on_enqueue_def) (simp add: demo_config_def)

lemma demo_started: "started demo_start"
  by (simp add: started_def demo_start_def demo_sys_def reachable_def)

text \<open>In this state the demand is published and both claims of the turn have been made.\<close>

lemma demo_parked: "in_loop demo_config (demo empty_db True [] False False Reporting)"
proof -
  have step: "(loop_step demo_config)\<^sup>*\<^sup>* a b'" if "(loop_step demo_config)\<^sup>*\<^sup>* a b" "worker_step demo_config b b'" for a b b'
    using that by (auto simp: loop_step_def intro: rtranclp.rtrancl_into_rtrancl)
  have "(loop_step demo_config)\<^sup>*\<^sup>* demo_start (demo empty_db True [] False False Reporting)"
    by (rule step [OF step [OF step [OF step [OF step [OF rtranclp.rtrancl_refl demo_registers] demo_turn] demo_claim] demo_park] demo_reclaim])
  with demo_started show ?thesis by (auto simp: in_loop_def)
qed

definition one_job :: database where
  "one_job = seed_db [(default_jorb 0 1, [Queued])]"

lemma demo_enqueue:
  "received (enqueued_notices [demo_row True] empty_db one_job) = [QueuePayload ''default'']"
  "platform_step empty_db one_job"
proof -
  show "received (enqueued_notices [demo_row True] empty_db one_job) = [QueuePayload ''default'']"
    by (simp add: received_def enqueued_notices_def row_notices_def trigger_notices one_job_def seed_db_def empty_db_def
        lookup_job_def demo_row_def)
  show "platform_step empty_db one_job"
    unfolding one_job_def by (rule platform_step.enqueue [OF first_enqueue]) (simp add: fresh_row_def)
qed

lemma demo_commit:
  "other_step (demo empty_db True [] wk sl p) (demo one_job True [QueuePayload ''default''] wk sl p)"
  using other_step.commit [of "demo empty_db True [] wk sl p" one_job] demo_enqueue by simp

section \<open>The wakeup that is dropped\<close>

text \<open>
  The subscription has a window in which a wakeup is lost. There is a run in which the
  worker publishes its demand and looks again, a job it could claim is then enqueued, its
  commit sends the wakeup and the worker receives it; and then the worker goes to sleep with
  its event cleared and nothing on its way, beside a job that it may claim. The event is
  cleared at the top of the next turn, after the claim it would have to precede.
\<close>

theorem a_wakeup_before_the_sleep_is_dropped:
  "\<exists>c w1 w2. in_loop c w1 \<and> published w1 \<and> wd_phase w1 = Reporting \<and> jobs (wd_db w1) = []
     \<and> (loop_step c)\<^sup>*\<^sup>* w1 w2 \<and> published w2 \<and> wd_phase w2 = Asleep \<and> \<not> summoned c w2
     \<and> (\<exists>j \<in> set (jobs (wd_db w2)). eligible (claim_args c (wd_sys w2)) 0 j)"
proof -
  let ?w1 = "demo empty_db True [] False False Reporting" and ?w2 = "demo one_job True [] False True Asleep"
  have one: "(loop_step demo_config)\<^sup>*\<^sup>* a b'" if "(loop_step demo_config)\<^sup>*\<^sup>* a b" "worker_step demo_config b b' \<or> other_step b b'" for a b b'
    using that by (auto simp: loop_step_def intro: rtranclp.rtrancl_into_rtrancl)
  have "(loop_step demo_config)\<^sup>*\<^sup>* ?w1 ?w2"
    by (rule one [OF one [OF one [OF one [OF rtranclp.rtrancl_refl disjI2 [OF demo_commit]] disjI1 [OF demo_deliver]]
          disjI1 [OF demo_report]] disjI1 [OF demo_sleep]])
  moreover have "published ?w1" "published ?w2" by (simp_all add: published_def demo_row_def retired_def)
  moreover have "\<not> summoned demo_config ?w2" by (simp add: summoned_def)
  moreover have "default_jorb 0 1 \<in> set (jobs one_job)" by (simp add: one_job_def seed_db_def)
  moreover have "eligible (claim_args demo_config (demo_sys (Some 1) True False True)) 0 (default_jorb 0 1)"
    by (simp add: eligible_def claim_args_def demo_config_def)
  moreover have "jobs (wd_db ?w1) = []" by (simp add: empty_db_def)
  ultimately show ?thesis using demo_parked by (intro exI [of _ demo_config] exI [of _ ?w1] exI [of _ ?w2]) auto
qed


section \<open>The worker that came back\<close>

text \<open>Everything but the other workers of the fleet.\<close>

definition alone_step :: "system_config \<Rightarrow> world \<Rightarrow> world \<Rightarrow> bool" where
  "alone_step c w w' \<longleftrightarrow> worker_step c w w' \<or> (\<exists>d. platform_step (wd_db w) d
       \<and> w' = w\<lparr>wd_db := d, wd_inbox := wd_inbox w @ received (enqueued_notices (wd_fleet w) (wd_db w) d)\<rparr>)
     \<or> (\<exists>now grace. w' = w\<lparr>wd_fleet := RETIRE_DEAD_WORKERS_SQL now grace (wd_fleet w)\<rparr>)"

definition written_off :: "system_config \<Rightarrow> int \<Rightarrow> world \<Rightarrow> bool" where
  "written_off c i w \<longleftrightarrow> js_worker_id (wd_sys w) = Some i
     \<and> (\<forall>r \<in> set (wd_fleet w). w_queue r = cf_qname c \<longrightarrow> retired r)"

lemma set_idle_written_off:
  assumes "set_idle b s rows = (s', rows')" and "\<forall>r \<in> set rows. w_queue r = q \<longrightarrow> retired r"
  shows "\<forall>r \<in> set rows'. w_queue r = q \<longrightarrow> retired r"
proof -
  let ?f = "\<lambda>r. if w_idle r \<noteq> b then r\<lparr>w_idle := b\<rparr> else r"
  have "\<forall>r \<in> set (at_row k ?f rows). w_queue r = q \<longrightarrow> retired r" for k
    unfolding ball_at_row using assms(2) by (auto simp: retired_def)
  with assms show ?thesis by (auto simp: set_idle_def stmt_worker_idle_def split: if_splits option.splits)
qed

lemma set_idle_keeps_written_off:
  assumes "written_off c i w" and run: "set_idle b (wd_sys w) (wd_fleet w) = (s, rows)"
    and "wd_fleet w' = rows" "js_worker_id (wd_sys w') = js_worker_id s"
  shows "written_off c i w'"
  using assms(1,3,4) set_idle_row [OF run] set_idle_written_off [OF run, of "cf_qname c"] by (simp add: written_off_def)

lemma worker_stays_written_off:
  assumes "worker_step c w w'" and "written_off c i w"
  shows "written_off c i w'"
  using assms(1)
proof cases
  case (top clock due s p)
  from top(3) assms(2) show ?thesis
    by (cases rule: turn_top_cases) (simp_all add: top(1) written_off_def same_books_def)
next
  case (slept clock orphaned s p)
  from slept(3) assms(2) show ?thesis
    by (cases rule: sleep_over_cases) (auto simp: slept(1) written_off_def same_books_def)
next
  case (refuse s rows)
  show ?thesis by (rule set_idle_keeps_written_off [OF assms(2) refuse(3)]) (simp_all add: refuse(1))
next
  case (park s rows)
  show ?thesis by (rule set_idle_keeps_written_off [OF assms(2) park(3)]) (simp_all add: park(1))
next
  case (withdraw j s rows)
  show ?thesis by (rule set_idle_keeps_written_off [OF assms(2) withdraw(3)]) (simp_all add: withdraw(1))
next
  case (report clock now r s)
  then have "s = wd_sys w \<or> (\<exists>v. s = (wd_sys w)\<lparr>js_hidden_reported := v\<rparr>)" by (auto simp: report_hidden_work_def split: if_splits)
  with report assms(2) show ?thesis by (auto simp: written_off_def)
next
  case (beat now s rows k)
  then obtain a where "rows = WORKER_HEARTBEAT_SQL now i (cf_job_threads c) a (wd_fleet w)"
    "same_books (wd_returned w) (wd_sys w) s"
    using assms(2) live_job_threads_eq(2) [of "wd_returned w" "wd_sys w"]
    by (auto simp: written_off_def beat_def abandoned_job_threads_def Let_def split: prod.splits)
  with beat(1) assms(2) show ?thesis
    by (simp add: WORKER_HEARTBEAT_SQL_def ball_at_row written_off_def retired_def same_books_def)
qed (use assms(2) in \<open>simp_all add: written_off_def resolve_starts_def resolve_ends_def on_enqueue_def\<close>)

text \<open>
  A worker that was retired is never woken again. Let the monitor have retired the rows of
  a queue, as it does when their heartbeats are late. If such a worker is alive after all, it
  stays retired whatever it does: it beats, publishes its demand, claims and works, and no
  commit ever sends a wakeup for its queue, until another worker registers there.
\<close>

theorem a_retired_worker_is_never_woken_again:
  assumes "written_off c i w" and "(alone_step c)\<^sup>*\<^sup>* w w'"
  shows "written_off c i w'
    \<and> QueuePayload (cf_qname c) \<notin> set (received (enqueued_notices (wd_fleet w') (wd_db w') d))"
proof -
  have step: "written_off c i b" if off: "written_off c i a" and run: "alone_step c a b" for a b
    using run unfolding alone_step_def
  proof (elim disjE exE conjE)
    assume "worker_step c a b"
    then show ?thesis by (rule worker_stays_written_off [OF _ off])
  next
    fix d assume "b = a\<lparr>wd_db := d, wd_inbox := wd_inbox a @ received (enqueued_notices (wd_fleet a) (wd_db a) d)\<rparr>"
    with off show ?thesis by (simp add: written_off_def)
  next
    fix now grace assume b: "b = a\<lparr>wd_fleet := RETIRE_DEAD_WORKERS_SQL now grace (wd_fleet a)\<rparr>"
    let ?f = "\<lambda>r. if w_shutdown_at r = None \<and> stale now grace r then r\<lparr>w_shutdown_at := Some now, w_idle := False\<rparr> else r"
    have "\<forall>r \<in> set (map ?f (wd_fleet a)). w_queue r = cf_qname c \<longrightarrow> retired r"
      unfolding set_map ball_simps using off by (auto simp: written_off_def retired_def)
    with off show ?thesis by (simp only: written_off_def b RETIRE_DEAD_WORKERS_SQL_def) simp
  qed
  from assms(2,1) have off: "written_off c i w'"
    by (induction rule: rtranclp_induct) (auto intro: step)
  then show ?thesis by (auto simp: queued_notice set_enqueued_notices written_off_def retired_def)
qed

section \<open>Work the worker cannot see\<close>

text \<open>
  The report of hidden work is silent exactly when nothing is hidden by the ceiling or by a
  version: every due queued job of the queue is then one this worker may claim, or asks for a
  capability it does not have. And what the report counts, no claim of this worker ever takes
  while its row stands so.
\<close>

theorem hidden_work_is_reported:
  assumes "report_hidden_work clock now c s d = (Some (too_high, mismatched), s')"
  shows "(too_high = 0 \<and> mismatched = 0 \<longleftrightarrow>
      (\<forall>j \<in> set (jobs d). j_queue j = cf_qname c \<and> j_state j = Queued \<and> j_run_after j \<le> now \<longrightarrow>
         eligible (claim_args c s) now j
         \<or> (\<exists>k. j_capability j = Some k \<and> k \<notin> set (cf_capabilities c)
              \<and> j_prio j \<le> cf_prio c \<and> (j_app_version j = None \<or> j_app_version j = cf_app_version c))))
    \<and> too_high + mismatched = length (filter (\<lambda>j. j_queue j = cf_qname c \<and> j_state j = Queued \<and> j_run_after j \<le> now
        \<and> (cf_prio c < j_prio j \<or> (j_app_version j \<noteq> None \<and> j_app_version j \<noteq> cf_app_version c))) (jobs d))
    \<and> (\<forall>locked blocked. \<forall>j \<in> set (above_ceiling (cf_qname c) (cf_prio c) now d
            @ hidden_versions (cf_qname c) (cf_app_version c) (cf_prio c) now d).
        j \<notin> set (candidates (claim_args c s) now locked blocked (jobs d)))"
proof (intro conjI)
  have too_high: "too_high = length (above_ceiling (cf_qname c) (cf_prio c) now d)"
    and mismatched: "mismatched = length (hidden_versions (cf_qname c) (cf_app_version c) (cf_prio c) now d)"
    using assms by (auto simp: report_hidden_work_def split: if_splits)
  show "too_high = 0 \<and> mismatched = 0 \<longleftrightarrow>
      (\<forall>j \<in> set (jobs d). j_queue j = cf_qname c \<and> j_state j = Queued \<and> j_run_after j \<le> now \<longrightarrow>
         eligible (claim_args c s) now j
         \<or> (\<exists>k. j_capability j = Some k \<and> k \<notin> set (cf_capabilities c)
              \<and> j_prio j \<le> cf_prio c \<and> (j_app_version j = None \<or> j_app_version j = cf_app_version c)))"
    unfolding too_high mismatched length_0_conv above_ceiling_def hidden_versions_def filter_empty_conv eligible_def claim_args_def
    by (fastforce simp: not_less split: option.splits)
  show "too_high + mismatched = length (filter (\<lambda>j. j_queue j = cf_qname c \<and> j_state j = Queued \<and> j_run_after j \<le> now
        \<and> (cf_prio c < j_prio j \<or> (j_app_version j \<noteq> None \<and> j_app_version j \<noteq> cf_app_version c))) (jobs d))"
  proof -
    have "length (filter (\<lambda>j. j_queue j = cf_qname c \<and> j_state j = Queued \<and> cf_prio c < j_prio j \<and> j_run_after j \<le> now) js)
      + length (filter (\<lambda>j. j_queue j = cf_qname c \<and> j_state j = Queued \<and> j_app_version j \<noteq> None
          \<and> j_app_version j \<noteq> cf_app_version c \<and> j_prio j \<le> cf_prio c \<and> j_run_after j \<le> now) js)
      = length (filter (\<lambda>j. j_queue j = cf_qname c \<and> j_state j = Queued \<and> j_run_after j \<le> now
        \<and> (cf_prio c < j_prio j \<or> (j_app_version j \<noteq> None \<and> j_app_version j \<noteq> cf_app_version c))) js)" for js
      by (induction js) auto
    then show ?thesis unfolding too_high mismatched above_ceiling_def hidden_versions_def .
  qed
  show "\<forall>locked blocked. \<forall>j \<in> set (above_ceiling (cf_qname c) (cf_prio c) now d
            @ hidden_versions (cf_qname c) (cf_app_version c) (cf_prio c) now d).
        j \<notin> set (candidates (claim_args c s) now locked blocked (jobs d))"
    by (auto simp: above_ceiling_def hidden_versions_def candidates_def eligible_def claim_args_def)
qed

section \<open>Witnesses\<close>

lemma demo_asleep: "in_loop demo_config (demo empty_db True [] False True Asleep)"
proof -
  obtain w0 where "started w0" "(loop_step demo_config)\<^sup>*\<^sup>* w0 (demo empty_db True [] False False Reporting)"
    using demo_parked by (auto simp: in_loop_def)
  moreover have "loop_step demo_config (demo empty_db True [] False False Reporting) (demo empty_db True [] False True Top)"
    "loop_step demo_config (demo empty_db True [] False True Top) (demo empty_db True [] False True Asleep)"
    by (simp_all add: loop_step_def demo_report demo_sleep)
  ultimately show ?thesis unfolding in_loop_def by (meson rtranclp.rtrancl_into_rtrancl)
qed

theorem the_pool_is_never_overbooked_witness:
  "fst (live_job_threads {} (demo_sys (Some 1) True False True)) \<le> cf_job_threads demo_config"
  using the_pool_is_never_overbooked [OF demo_asleep] by simp

theorem a_sleeping_worker_is_woken_witness:
  "summoned demo_config (demo one_job True [QueuePayload ''default''] False True Asleep)"
proof -
  let ?w = "demo empty_db True [] False True Asleep"
  have "published ?w" by (simp add: published_def demo_row_def retired_def)
  moreover have "platform_step (wd_db ?w) one_job" by (simp add: demo_enqueue)
  moreover have "default_jorb 0 1 \<in> set (jobs one_job)" by (simp add: one_job_def seed_db_def)
  moreover have "j_queue (default_jorb 0 1) = cf_qname demo_config" by (simp add: demo_config_def)
  ultimately show ?thesis
    using a_sleeping_worker_is_woken [OF demo_asleep _ _ _ _ _ _ _ rtranclp.rtrancl_refl, of one_job "default_jorb 0 1"]
    by (simp add: demo_enqueue(1)) (simp add: lookup_job_def empty_db_def)
qed

theorem a_retired_worker_is_never_woken_again_witness:
  "let w = (demo empty_db True [] False True Asleep)\<lparr>wd_fleet := RETIRE_DEAD_WORKERS_SQL 100 60 [demo_row True]\<rparr>
   in QueuePayload ''default'' \<notin> set (received (enqueued_notices (wd_fleet w) (wd_db w) one_job))"
proof -
  let ?w = "(demo empty_db True [] False True Asleep)\<lparr>wd_fleet := RETIRE_DEAD_WORKERS_SQL 100 60 [demo_row True]\<rparr>"
  have "written_off demo_config 1 ?w"
    by (simp add: written_off_def RETIRE_DEAD_WORKERS_SQL_def demo_row_def stale_def retired_def)
  from a_retired_worker_is_never_woken_again [OF this rtranclp.rtrancl_refl, of one_job] show ?thesis
    by (simp add: demo_config_def Let_def)
qed

theorem hidden_work_is_reported_witness:
  "fst (report_hidden_work 0 10 demo_config (demo_sys None False False False)
     (seed_db [((default_jorb 0 1)\<lparr>j_prio := 5000\<rparr>, [Queued])])) = Some (1, 0)
   \<and> (\<forall>locked blocked. (default_jorb 0 1)\<lparr>j_prio := 5000\<rparr> \<notin> set (candidates
        (claim_args demo_config (demo_sys None False False False)) 10 locked blocked [(default_jorb 0 1)\<lparr>j_prio := 5000\<rparr>]))"
proof -
  let ?j = "(default_jorb 0 1)\<lparr>j_prio := 5000\<rparr>"
  let ?d = "seed_db [(?j, [Queued])]"
  have d: "jobs ?d = [?j]" by (simp add: seed_db_def)
  obtain s' where r: "report_hidden_work 0 10 demo_config (demo_sys None False False False) ?d = (Some (1, 0), s')"
    by (simp add: report_hidden_work_def above_ceiling_def hidden_versions_def d demo_defs)
  have "?j \<in> set (above_ceiling (cf_qname demo_config) (cf_prio demo_config) 10 ?d)"
    by (simp add: above_ceiling_def d demo_config_def)
  with hidden_work_is_reported [OF r] r show ?thesis unfolding d set_append by (simp add: Ball_def)
qed

end
