(* ===== verification/Registry.thy ===== *)
theory Registry
  imports Speculative
begin

text \<open>
  The typed job registry (\<open>pyjobby/registry.py\<close>): the decorator \<open>job\<close>, the checks of a task's
  signature, and the typed enqueue it attaches. A signature is its list of parameters, as
  \<open>inspect\<close> reports it; a class is an object with an identity. How a call reads a keyword
  argument is the argument \<open>arg\<close>.
\<close>

section \<open>Signatures\<close>

datatype param_kind = PositionalOnly | PositionalOrKeyword | VarPositional | KeywordOnly | VarKeyword

record param =
  pa_name :: string
  pa_kind :: param_kind
  pa_has_default :: bool

definition IGNORED_TASK_PARAMS :: "string list" where
  "IGNORED_TASK_PARAMS = [''self'', ''upstream_result'']"

definition considered :: "param list \<Rightarrow> param list" where
  "considered sig = filter (\<lambda>p. pa_name p \<notin> set IGNORED_TASK_PARAMS) sig"

definition by_keyword :: "param \<Rightarrow> bool" where
  "by_keyword p \<longleftrightarrow> pa_kind p \<in> {PositionalOrKeyword, KeywordOnly}"

definition accepts_arbitrary :: "param list \<Rightarrow> bool" where
  "accepts_arbitrary sig \<longleftrightarrow> list_ex (\<lambda>p. pa_kind p = VarKeyword) (considered sig)"

datatype registry_error =
    InvalidTaskKwargs string "string list" "string list"
  | NeverSupplied string "string list"
  | InheritedEnqueue nat string
  | NotAJobClass
  | NotATarget
  | NotRegistered string
  | NoSuchHelper
  | ArgumentTwice string
  | EnqueueRefused client_error

definition unknown_params :: "param list \<Rightarrow> string list \<Rightarrow> string list" where
  "unknown_params sig names =
     (if accepts_arbitrary sig then []
      else py_sorted (filter (\<lambda>k. k \<notin> pa_name ` set (filter by_keyword (considered sig))) names))"

definition missing_params :: "param list \<Rightarrow> string list \<Rightarrow> string list" where
  "missing_params sig names =
     py_sorted (map pa_name (filter (\<lambda>p. by_keyword p \<and> \<not> pa_has_default p \<and> pa_name p \<notin> set names) (considered sig)))"

definition validate_task_kwargs :: "string \<Rightarrow> param list \<Rightarrow> string list \<Rightarrow> registry_error option" where
  "validate_task_kwargs dotted sig names =
     (let unknown = unknown_params sig names; missing = missing_params sig names
      in if unknown \<noteq> [] \<or> missing \<noteq> [] then Some (InvalidTaskKwargs dotted unknown missing) else None)"

definition unsatisfiable_params :: "param list \<Rightarrow> string list" where
  "unsatisfiable_params sig =
     map pa_name (filter (\<lambda>p. pa_kind p = PositionalOnly \<and> \<not> pa_has_default p) (considered sig))"

definition check_enqueueable_signature :: "string \<Rightarrow> param list \<Rightarrow> registry_error option" where
  "check_enqueueable_signature dotted sig =
     (if unsatisfiable_params sig \<noteq> [] then Some (NeverSupplied dotted (unsatisfiable_params sig)) else None)"

section \<open>The decorator\<close>

record py_class =
  cl_id :: nat
  cl_module :: string
  cl_name :: string
  cl_is_job :: bool
  cl_task :: "param list"

record py_function =
  fn_module :: string
  fn_name :: string
  fn_signature :: "param list"

datatype target = ClassTarget py_class | FunctionTarget py_function | OtherTarget

text \<open>The helpers attached to a class, which close over the class, its path and its signature.\<close>

record helper =
  hp_owner :: nat
  hp_dotted :: string
  hp_signature :: "param list"

record registry =
  rg_jobs :: "string \<Rightarrow> nat option"
  rg_helpers :: "nat \<Rightarrow> helper option"

definition dotted_path :: "string \<Rightarrow> string \<Rightarrow> string" where
  "dotted_path m name = m @ ''.'' @ name"

definition register :: "string \<Rightarrow> nat \<Rightarrow> registry \<Rightarrow> registry" where
  "register dotted cls rg = rg\<lparr>rg_jobs := (rg_jobs rg)(dotted \<mapsto> cls)\<rparr>"

definition resolve_job :: "string \<Rightarrow> registry \<Rightarrow> registry_error + nat" where
  "resolve_job dotted rg = (case rg_jobs rg dotted of None \<Rightarrow> Inl (NotRegistered dotted) | Some c \<Rightarrow> Inr c)"

definition attach_typed_enqueue :: "nat \<Rightarrow> string \<Rightarrow> param list \<Rightarrow> registry \<Rightarrow> registry_error + registry" where
  "attach_typed_enqueue cls dotted sig rg =
     (case check_enqueueable_signature dotted sig of
        Some e \<Rightarrow> Inl e
      | None \<Rightarrow> Inr (rg\<lparr>rg_helpers := (rg_helpers rg)(cls \<mapsto> \<lparr>hp_owner = cls, hp_dotted = dotted, hp_signature = sig\<rparr>)\<rparr>))"

text \<open>\<open>fresh\<close> is the identity of the class that wraps a function.\<close>

definition job_decorator :: "nat \<Rightarrow> target \<Rightarrow> registry \<Rightarrow> registry_error + (nat \<times> registry)" where
  "job_decorator fresh t rg =
     (case t of
        ClassTarget c \<Rightarrow>
          if \<not> cl_is_job c then Inl NotAJobClass
          else (let dotted = dotted_path (cl_module c) (cl_name c)
                in bind_sum (attach_typed_enqueue (cl_id c) dotted (cl_task c) rg) (\<lambda>rg'.
                   Inr (cl_id c, register dotted (cl_id c) rg')))
      | FunctionTarget f \<Rightarrow>
          (let dotted = dotted_path (fn_module f) (fn_name f)
           in bind_sum (attach_typed_enqueue fresh dotted (fn_signature f) rg) (\<lambda>rg'.
              Inr (fresh, register dotted fresh rg')))
      | OtherTarget \<Rightarrow> Inl NotATarget)"

section \<open>The typed enqueue\<close>

record typed_options =
  to_queue :: string
  to_priority :: int
  to_run_after :: "instant option"
  to_timeout_seconds :: "int option"
  to_max_retries :: int
  to_retry_strategy :: string
  to_deadline_key :: "string option"
  to_identity_key :: "string option"
  to_partition_key :: "string option"
  to_app_version :: json
  to_waitfor_job :: "int option"
  to_use_result_from :: "int option"
  to_admin_data :: "admin_data option"

definition default_typed_options :: typed_options where
  "default_typed_options =
     \<lparr>to_queue = ''default'', to_priority = 100, to_run_after = None, to_timeout_seconds = None, to_max_retries = 10,
      to_retry_strategy = ''exponential'', to_deadline_key = None, to_identity_key = None, to_partition_key = None,
      to_app_version = JNull, to_waitfor_job = None, to_use_result_from = None, to_admin_data = None\<rparr>"

definition typed_arguments :: "typed_options \<Rightarrow> enqueue_option list" where
  "typed_arguments o' =
     [Queue (to_queue o'), Priority (to_priority o'), RunAfter (to_run_after o'), TimeoutSeconds (to_timeout_seconds o'),
      MaxRetries (to_max_retries o'), RetryStrategyName (to_retry_strategy o'), DeadlineKey (to_deadline_key o'),
      IdentityKey (to_identity_key o'), PartitionKey (to_partition_key o'), WaitforJob (to_waitfor_job o'),
      UseResultFrom (to_use_result_from o'), AdminData (to_admin_data o')]"

text \<open>\<open>prio_ceiling\<close> is a parameter of \<open>client.enqueue\<close> that the typed helper does not declare.\<close>

fun ceiling_in :: "enqueue_option list \<Rightarrow> int option" where
  "ceiling_in [] = None"
| "ceiling_in (PrioCeiling n # os) = Some n"
| "ceiling_in (_ # os) = ceiling_in os"

fun is_ceiling :: "enqueue_option \<Rightarrow> bool" where
  "is_ceiling (PrioCeiling n) = True"
| "is_ceiling _ = False"

text \<open>
  \<open>T.enqueue(client, ...)\<close> on the class \<open>caller\<close>, whose method resolution order is \<open>mro\<close>: the
  helper found there, its refusals, then \<open>client.enqueue(dotted, ..., **task_kwargs)\<close>. Names the
  call binds by position cannot be given again.
\<close>

definition typed_enqueue ::
  "(string \<Rightarrow> json \<Rightarrow> enqueue_option) \<Rightarrow> registry \<Rightarrow> job_client \<Rightarrow> instant \<Rightarrow> instant \<Rightarrow> nat list \<Rightarrow> nat
     \<Rightarrow> typed_options \<Rightarrow> (string \<times> json) list \<Rightarrow> others \<Rightarrow> database \<Rightarrow> (registry_error + job_id) \<times> database" where
  "typed_enqueue arg rg c clock now mro caller options task_kwargs w d =
     (let names = map fst task_kwargs
      in case List.find (\<lambda>cls. rg_helpers rg cls \<noteq> None) mro of
           None \<Rightarrow> (Inl NoSuchHelper, d)
         | Some cls \<Rightarrow>
             (let h = the (rg_helpers rg cls)
              in case List.find (\<lambda>k. k \<in> {''caller'', ''client''}) names of
                   Some k \<Rightarrow> (Inl (ArgumentTwice k), d)
                 | None \<Rightarrow>
                     if caller \<noteq> hp_owner h then (Inl (InheritedEnqueue caller (hp_dotted h)), d)
                     else (case validate_task_kwargs (hp_dotted h) (hp_signature h) names of
                             Some e \<Rightarrow> (Inl e, d)
                           | None \<Rightarrow>
                               (case List.find (\<lambda>k. k \<in> {''self'', ''job_class'', ''conn''}) names of
                                  Some k \<Rightarrow> (Inl (ArgumentTwice k), d)
                                | None \<Rightarrow>
                                    (let given = map (\<lambda>(k, v). arg k v) task_kwargs
                                     in case enqueue c clock now (hp_dotted h) (ceiling_in given) (to_app_version options)
                                               (typed_arguments options @ filter (\<lambda>x. \<not> is_ceiling x) given) w d of
                                          (Inl e, d') \<Rightarrow> (Inl (EnqueueRefused e), d')
                                        | (Inr i, d') \<Rightarrow> (Inr i, d'))))))"

section \<open>What the worker's call does\<close>

text \<open>
  Python's rule for \<open>task(**kwargs)\<close>: every name is a parameter that takes keywords, or the
  task takes any; every parameter without a default is supplied, which a positional-only one
  cannot be.
\<close>

definition binds :: "param list \<Rightarrow> string list \<Rightarrow> bool" where
  "binds sig names \<longleftrightarrow>
     list_all (\<lambda>k. list_ex (\<lambda>p. pa_name p = k \<and> by_keyword p) sig \<or> list_ex (\<lambda>p. pa_kind p = VarKeyword) sig) names
     \<and> list_all (\<lambda>p. pa_kind p \<in> {VarPositional, VarKeyword} \<or> pa_has_default p
          \<or> by_keyword p \<and> pa_name p \<in> set names) sig"

text \<open>
  The check of a typed enqueue is exact: for a task the decorator accepts, it passes exactly
  the argument names with which the worker's call binds, apart from \<open>self\<close> and the injected
  \<open>upstream_result\<close>.
\<close>

lemma validation_binds:
  assumes "check_enqueueable_signature dotted sig = None"
  shows "validate_task_kwargs dotted sig names = None \<longleftrightarrow> binds (considered sig) names"
proof -
  have none: "\<not> (pa_kind p = PositionalOnly \<and> \<not> pa_has_default p)" if "p \<in> set (considered sig)" for p
    using assms that by (auto simp: check_enqueueable_signature_def unsatisfiable_params_def filter_empty_conv split: if_splits)
  have kinds: "pa_kind p = PositionalOnly \<or> pa_kind p \<in> {VarPositional, VarKeyword} \<or> by_keyword p" for p
    by (cases "pa_kind p") (auto simp: by_keyword_def)
  have "unknown_params sig names = [] \<longleftrightarrow>
      (\<forall>k \<in> set names. (\<exists>p \<in> set (considered sig). pa_name p = k \<and> by_keyword p) \<or> (\<exists>p \<in> set (considered sig). pa_kind p = VarKeyword))"
    by (auto simp: unknown_params_def accepts_arbitrary_def filter_empty_conv list_ex_iff)
  moreover have "missing_params sig names = [] \<longleftrightarrow>
      (\<forall>p \<in> set (considered sig). by_keyword p \<and> \<not> pa_has_default p \<longrightarrow> pa_name p \<in> set names)"
    by (auto simp: missing_params_def filter_empty_conv)
  moreover have "(by_keyword p \<and> \<not> pa_has_default p \<longrightarrow> pa_name p \<in> set names) \<longleftrightarrow>
      pa_kind p \<in> {VarPositional, VarKeyword} \<or> pa_has_default p \<or> by_keyword p \<and> pa_name p \<in> set names"
    if "p \<in> set (considered sig)" for p
    using none [OF that] kinds [of p] by (auto simp: by_keyword_def)
  ultimately show ?thesis
    by (auto simp: validate_task_kwargs_def binds_def list_all_iff list_ex_iff Let_def)
qed

lemma accepted_binds:
  "check_enqueueable_signature dotted sig = None \<Longrightarrow> validate_task_kwargs dotted sig names = None
     \<Longrightarrow> binds (considered sig) names"
  using validation_binds by simp

section \<open>What is delivered\<close>

lemma helper_of:
  "List.find (\<lambda>cls. rg_helpers rg cls \<noteq> None) mro = Some cls \<Longrightarrow> \<exists>h. rg_helpers rg cls = Some h"
  by (auto simp: find_Some_iff)

lemma dict_put_absent: "k \<notin> fst ` set d \<Longrightarrow> dict_put k v d = d @ [(k, v)]"
  by (induction k v d rule: dict_put.induct) auto

lemma kwargs_appended:
  "\<forall>(k, v) \<in> set kvs. arg k v = Kwarg k v \<Longrightarrow> distinct (map fst (eo_kwargs p @ kvs)) \<Longrightarrow>
     foldl set_option p (map (\<lambda>(k, v). arg k v) kvs) = p\<lparr>eo_kwargs := eo_kwargs p @ kvs\<rparr>"
proof (induction kvs arbitrary: p)
  case (Cons kv kvs)
  obtain k v where kv: "kv = (k, v)" by (cases kv)
  have "dict_put k v (eo_kwargs p) = eo_kwargs p @ [(k, v)]"
    using Cons.prems(2) kv by (intro dict_put_absent) auto
  with Cons.IH [of "set_option p (Kwarg k v)"] Cons.prems show ?case by (auto simp: kv)
qed simp

lemma no_ceiling:
  assumes "\<forall>(k, v) \<in> set kvs. arg k v = Kwarg k v"
  shows "filter (\<lambda>x. \<not> is_ceiling x) (map (\<lambda>(k, v). arg k v) kvs) = map (\<lambda>(k, v). arg k v) kvs"
    and "ceiling_in (map (\<lambda>(k, v). arg k v) kvs) = None"
  using assms by (induction kvs) auto


definition resize_image :: py_function where
  "resize_image = \<lparr>fn_module = ''app.jobs'', fn_name = ''resize_image'', fn_signature =
     [\<lparr>pa_name = ''url'', pa_kind = PositionalOrKeyword, pa_has_default = False\<rparr>,
      \<lparr>pa_name = ''width'', pa_kind = PositionalOrKeyword, pa_has_default = True\<rparr>]\<rparr>"

definition no_registry :: registry where
  "no_registry = \<lparr>rg_jobs = \<lambda>_. None, rg_helpers = \<lambda>_. None\<rparr>"

definition plain_client :: job_client where
  "plain_client = \<lparr>cl_prio_ceiling = 1000, cl_app_version = None\<rparr>"


section \<open>An argument that is taken for an option\<close>

text \<open>
  The typed helper declares fewer options than \<open>client.enqueue\<close>, to which it passes the checked
  arguments: a task parameter with the name of one of the others, \<open>uid\<close> for instance, passes
  the check and is then taken for that option. The row is written without the argument, and
  the worker's call fails.
\<close>

theorem a_checked_argument_is_lost:
  assumes "jobs_ok d" and "rg_helpers rg caller = Some \<lparr>hp_owner = caller, hp_dotted = dotted, hp_signature = sig\<rparr>"
    and "sig = [\<lparr>pa_name = ''uid'', pa_kind = PositionalOrKeyword, pa_has_default = False\<rparr>]"
    and "arg ''uid'' (JInt n) = Uid (Some n)"
    and "typed_enqueue arg rg c clock now [caller] caller default_typed_options [(''uid'', JInt n)] w d = (Inr i, d')"
  shows "validate_task_kwargs dotted sig [''uid''] = None
    \<and> (\<exists>j. jobs d' = jobs d @ [j] \<and> j_id j = i \<and> j_uid j = Some n \<and> j_kwargs j = [] \<and> \<not> binds sig (map fst (j_kwargs j)))"
proof -
  let ?os = "with_client c None JNull (typed_arguments default_typed_options @ [Uid (Some n)])"
  have fields: "eo_identity_key (options_of ?os) = None" "eo_kwargs (options_of ?os) = []" "eo_job_kwargs (options_of ?os) = None"
      "eo_uid (options_of ?os) = Some n"
    by (simp_all add: options_of_def with_client_def typed_arguments_def default_options_def default_typed_options_def)
  have valid: "validate_task_kwargs dotted sig [''uid''] = None"
    unfolding assms(3) by (simp add: validate_task_kwargs_def unknown_params_def missing_params_def considered_def
        IGNORED_TASK_PARAMS_def by_keyword_def accepts_arbitrary_def)
  have "enqueue_in_transaction clock now dotted ?os w d = (Inr i, d')"
    using assms(2,4,5) valid
    by (auto simp: typed_enqueue_def Let_def enqueue_def default_typed_options_def split: sum.splits prod.splits)
  from unidentified_insert [OF fields(1) this assms(1)] fields(2-) have
    "\<exists>j. jobs d' = jobs d @ [j] \<and> j_id j = i \<and> j_uid j = Some n \<and> j_kwargs j = []" by auto
  moreover have "\<not> binds sig []" unfolding assms(3) by (simp add: binds_def by_keyword_def)
  ultimately show ?thesis using valid by auto
qed

end
