(* ===== verification/Handle.thy ===== *)
theory Handle
  imports Machine Waits System
begin

text \<open>
  A durable state machine driven from outside (\<open>pyjobby/client.py\<close>, \<open>MachineHandle\<close>): its state,
  the wait for a state, and the delivery of an event. What a look at the database finds and
  the clock after it are arguments, as for every wait.
\<close>

section \<open>The handle\<close>

text \<open>\<open>machine=\<close> is optional; \<open>h_str\<close> is Python's \<open>str()\<close> of a state that is not a string.\<close>

record machine_handle =
  h_id :: job_id
  h_machine :: "machine option"
  h_str :: "json \<Rightarrow> string"

definition handle_key :: "machine_handle \<Rightarrow> string" where
  "handle_key h = (case h_machine h of None \<Rightarrow> STATE_KEY | Some m \<Rightarrow> m_state_key m)"

definition handle_topic :: "machine_handle \<Rightarrow> string" where
  "handle_topic h = (case h_machine h of None \<Rightarrow> EVENT_TOPIC | Some m \<Rightarrow> m_topic m)"

datatype handle_error =
    WaitFailed wait_error
  | NotAState job_id json
  | NeedsMachine
  | UnhandledEvent job_id string string "string list"
  | SendFailed sql_error

definition machine_state_of :: "(json \<Rightarrow> string) \<Rightarrow> json \<Rightarrow> string option" where
  "machine_state_of other published =
     (case json_get published ''state'' of
        None \<Rightarrow> None
      | Some v \<Rightarrow> if v = JNull then None else Some (py_str other v))"

definition read_state :: "machine_handle \<Rightarrow> wait_error + json \<Rightarrow> handle_error + string" where
  "read_state h r =
     (case r of
        Inl e \<Rightarrow> Inl (WaitFailed e)
      | Inr v \<Rightarrow> (case machine_state_of (h_str h) v of None \<Rightarrow> Inl (NotAState (h_id h) v) | Some s \<Rightarrow> Inr s))"

text \<open>\<open>None\<close> is a wait that does not end.\<close>

definition handle_state ::
  "(nat \<Rightarrow> database) \<Rightarrow> (nat \<Rightarrow> instant) \<Rightarrow> instant \<Rightarrow> machine_handle \<Rightarrow> interval option \<Rightarrow> (handle_error + string) option" where
  "handle_state looks clock start h timeout =
     map_option (read_state h)
       (Waits.get_event looks clock start (h_id h) (handle_key h) timeout)"

definition wait_for_state ::
  "(nat \<Rightarrow> database) \<Rightarrow> (nat \<Rightarrow> instant) \<Rightarrow> instant \<Rightarrow> machine_handle \<Rightarrow> string set \<Rightarrow> interval option
     \<Rightarrow> (handle_error + string) option" where
  "wait_for_state looks clock start h wanted timeout =
     map_option (\<lambda>r. case r of Inl e \<Rightarrow> Inl (WaitFailed e) | Inr v \<Rightarrow> Inr (the (machine_state_of (h_str h) v)))
       (wait_for_event looks clock start (h_id h) (handle_key h)
          (Some (\<lambda>v. \<exists>s. machine_state_of (h_str h) v = Some s \<and> s \<in> wanted)) timeout)"

definition handle_may ::
  "(nat \<Rightarrow> database) \<Rightarrow> (nat \<Rightarrow> instant) \<Rightarrow> instant \<Rightarrow> machine_handle \<Rightarrow> string \<Rightarrow> (handle_error + bool) option" where
  "handle_may looks clock start h event =
     (case h_machine h of
        None \<Rightarrow> Some (Inl NeedsMachine)
      | Some m \<Rightarrow> map_option (\<lambda>r. case r of Inl e \<Rightarrow> Inl e | Inr s \<Rightarrow> Inr (may (m_edges m) s event))
                   (handle_state looks clock start h None))"

text \<open>\<open>sorted(self.machine.edges.get(current, {}))\<close>\<close>

definition accepted_events :: "machine \<Rightarrow> string \<Rightarrow> string list" where
  "accepted_events m s = py_sorted (map fst (case map_of (m_edges m) s of None \<Rightarrow> [] | Some row \<Rightarrow> row))"

text \<open>\<open>{fsm.EVENT_FIELD: event, **payload}\<close>\<close>

definition deliver :: "machine_handle \<Rightarrow> string \<Rightarrow> (string \<times> json) list \<Rightarrow> database \<Rightarrow> (handle_error + int) \<times> database" where
  "deliver h event payload d =
     (case send_message (h_id h) (Some (handle_topic h)) (JObj (dict_merge [(EVENT_FIELD, JStr event)] payload)) d of
        (Inl e, d') \<Rightarrow> (Inl (SendFailed e), d')
      | (Inr i, d') \<Rightarrow> (Inr i, d'))"

definition handle_send ::
  "(nat \<Rightarrow> database) \<Rightarrow> (nat \<Rightarrow> instant) \<Rightarrow> instant \<Rightarrow> machine_handle \<Rightarrow> string \<Rightarrow> bool \<Rightarrow> (string \<times> json) list \<Rightarrow> database
     \<Rightarrow> ((handle_error + int) \<times> database) option" where
  "handle_send looks clock start h event check payload d =
     (case h_machine h of
        Some m \<Rightarrow>
          if check then
            (case handle_state looks clock start h None of
               None \<Rightarrow> None
             | Some (Inl e) \<Rightarrow> Some (Inl e, d)
             | Some (Inr s) \<Rightarrow>
                 if \<not> may (m_edges m) s event then Some (Inl (UnhandledEvent (h_id h) s event (accepted_events m s)), d)
                 else Some (deliver h event payload d))
          else Some (deliver h event payload d)
      | None \<Rightarrow> Some (deliver h event payload d))"

text \<open>\<open>history\<close>: \<open>client.get_steps\<close>, the checkpoints by position.\<close>

definition get_steps :: "database \<Rightarrow> job_id \<Rightarrow> step_row list" where
  "get_steps d i = sort_key s_seq (filter (\<lambda>s. s_job_id s = i) (steps d))"

section \<open>What a handle promises\<close>

lemma state_was_published:
  assumes "handle_state looks clock start h timeout = Some (Inr s)"
  shows "\<exists>k v. event_value (looks k) (h_id h) (handle_key h) = Some v \<and> machine_state_of (h_str h) v = Some s"
proof -
  from assms obtain z where z: "Waits.get_event looks clock start (h_id h) (handle_key h) timeout = Some z"
    "read_state h z = Inr s" by (auto simp: handle_state_def)
  then obtain v where v: "Waits.get_event looks clock start (h_id h) (handle_key h) timeout = Some (Inr v)"
    "machine_state_of (h_str h) v = Some s" by (cases z) (auto simp: read_state_def split: option.splits)
  from v(1) [unfolded Waits.get_event_def poll_until_def] poll_from_ends
  obtain n where "ended_with (\<lambda>k. check_get_event (h_id h) (handle_key h) (looks k)) clock
      (case timeout of None \<Rightarrow> None | Some t \<Rightarrow> Some (start + t)) n (Inr v)" by blast
  then have "check_get_event (h_id h) (handle_key h) (looks n) = Decided v"
    by (cases "check_get_event (h_id h) (handle_key h) (looks n)") (simp_all add: ended_with_def)
  then have "event_value (looks n) (h_id h) (handle_key h) = Some v"
    by (auto simp: check_get_event_def split: option.splits if_splits)
  with v(2) show ?thesis by blast
qed

lemma accepted_are_the_edges: "set (accepted_events m s) = {event. may (m_edges m) s event}"
  by (auto simp: accepted_events_def may_def edge_of_def map_of_eq_None_iff split: option.split)

text \<open>The state some look found published for the handle's machine.\<close>

definition seen_in :: "(nat \<Rightarrow> database) \<Rightarrow> machine_handle \<Rightarrow> string \<Rightarrow> bool" where
  "seen_in looks h s \<longleftrightarrow>
     (\<exists>k v. event_value (looks k) (h_id h) (handle_key h) = Some v \<and> machine_state_of (h_str h) v = Some s)"

lemma merged_elsewhere: "k \<notin> fst ` set new \<Longrightarrow> map_of (dict_merge old new) k = map_of old k"
  by (induction new arbitrary: old) (auto simp: dict_merge_def)

text \<open>
  C33. A checked event is accepted where it was checked, or given back. When \<open>send\<close> returns, the
  state published at some look has an edge for the event, and exactly one message is in the
  mailbox more, unconsumed, on the topic the machine receives on, which the machine's loop
  reads as that event (Python keeps a payload field from having the event's name: it is the
  parameter of \<open>send\<close>); when it raises, nothing was sent, and a refusal names a published
  state without such an edge and exactly the events that state has edges for.
\<close>

theorem a_checked_event_is_accepted_or_given_back:
  assumes "h_machine h = Some m" and "EVENT_FIELD \<notin> fst ` set payload"
    and "handle_send looks clock start h event True payload d = Some (r, d')"
  shows "case r of
      Inr i \<Rightarrow> (\<exists>s. seen_in looks h s \<and> may (m_edges m) s event) \<and> platform_step d d'
        \<and> (\<exists>row. mailbox d' = mailbox d @ [row] \<and> m_id row = i \<and> m_dest_job_id row = h_id h \<and> mail_row.m_topic row = Some (machine.m_topic m)
             \<and> m_consumed_at row = None \<and> event_of m (m_message row) = event)
    | Inl e \<Rightarrow> d' = d \<and> (\<forall>s es. e = UnhandledEvent (h_id h) s event es \<longrightarrow>
        seen_in looks h s \<and> \<not> may (m_edges m) s event \<and> set es = {event. may (m_edges m) s event})"
proof -
  obtain z where z: "handle_state looks clock start h None = Some z"
    using assms by (cases "handle_state looks clock start h None") (simp_all add: handle_send_def)
  show ?thesis
  proof (cases z)
    case (Inl e)
    have "e \<noteq> UnhandledEvent (h_id h) s event es" for s es
    proof -
      from z Inl obtain y where "read_state h y = Inl e" by (auto simp: handle_state_def)
      then show ?thesis by (cases y) (auto simp: read_state_def split: option.splits)
    qed
    moreover have "r = Inl e" "d' = d" using assms z Inl by (simp_all add: handle_send_def)
    ultimately show ?thesis by simp
  next
    case (Inr s)
    have seen: "seen_in looks h s" using state_was_published [OF z [unfolded Inr]] by (auto simp: seen_in_def)
    show ?thesis
    proof (cases "may (m_edges m) s event")
      case False
      with assms z Inr have "r = Inl (UnhandledEvent (h_id h) s event (accepted_events m s))" "d' = d"
        by (simp_all add: handle_send_def)
      with seen False accepted_are_the_edges show ?thesis by auto
    next
      case True
      let ?msg = "JObj (dict_merge [(EVENT_FIELD, JStr event)] payload)"
      have del: "deliver h event payload d = (r, d')" using assms z Inr True by (simp add: handle_send_def)
      have read: "event_of m ?msg = event" using assms(2) by (simp add: event_of_def py_str_def merged_elsewhere)
      show ?thesis
      proof (cases r)
        case (Inl e)
        with del show ?thesis by (auto simp: deliver_def send_message_def split: if_splits)
      next
        case ok: (Inr i)
        with del have sent: "send_message (h_id h) (Some (handle_topic h)) ?msg d = (Inr i, d')"
          by (auto simp: deliver_def split: prod.splits sum.splits)
        have "handle_topic h = machine.m_topic m" using assms(1) by (simp add: handle_topic_def)
        with sent read have "\<exists>row. mailbox d' = mailbox d @ [row] \<and> m_id row = i \<and> m_dest_job_id row = h_id h
            \<and> mail_row.m_topic row = Some (machine.m_topic m) \<and> m_consumed_at row = None \<and> event_of m (m_message row) = event"
          by (auto simp: send_message_def split: if_splits)
        with ok seen True platform_step.message [OF sent] show ?thesis by auto
      qed
    qed
  qed
qed

text \<open>A wait for a state gives a state that was asked for and that a look found published.\<close>

lemma a_wanted_state_was_published:
  assumes "wait_for_state looks clock start h wanted timeout = Some (Inr s)"
  shows "s \<in> wanted \<and> seen_in looks h s"
proof -
  let ?accept = "\<lambda>v. \<exists>s. machine_state_of (h_str h) v = Some s \<and> s \<in> wanted"
  from assms obtain z where z: "wait_for_event looks clock start (h_id h) (handle_key h) (Some ?accept) timeout = Some z"
    "(case z of Inl e \<Rightarrow> Inl (WaitFailed e) | Inr v \<Rightarrow> Inr (the (machine_state_of (h_str h) v))) = Inr s"
    by (auto simp: wait_for_state_def)
  then obtain v where v: "wait_for_event looks clock start (h_id h) (handle_key h) (Some ?accept) timeout = Some (Inr v)"
    "s = the (machine_state_of (h_str h) v)" by (cases z) auto
  from v(1) [unfolded wait_for_event_def poll_until_def] poll_from_ends
  obtain n where "ended_with (\<lambda>k. check_wait_for_event (h_id h) (handle_key h) (Some ?accept) (looks k)) clock
      (case timeout of None \<Rightarrow> None | Some t \<Rightarrow> Some (start + t)) n (Inr v)" by blast
  then have "check_wait_for_event (h_id h) (handle_key h) (Some ?accept) (looks n) = Decided v"
    by (cases "check_wait_for_event (h_id h) (handle_key h) (Some ?accept) (looks n)") (simp_all add: ended_with_def)
  then have "event_value (looks n) (h_id h) (handle_key h) = Some v \<and> ?accept v"
    by (auto simp: check_wait_for_event_def Let_def split: option.splits if_splits)
  with v(2) show ?thesis unfolding seen_in_def by (metis option.sel)
qed

definition at_packing :: database where
  "at_packing = order_db (Some (state_value ''packing'')) []"

definition order_handle :: machine_handle where
  "order_handle = \<lparr>h_id = 7, h_machine = Some order_machine, h_str = \<lambda>v. []\<rparr>"

theorem a_checked_event_is_accepted_or_given_back_witness:
  "(\<exists>d' row. handle_send (\<lambda>k. at_packing) (\<lambda>k. 0) 0 order_handle ''packed'' True [] at_packing = Some (Inr 1, d')
      \<and> mailbox d' = [row] \<and> event_of order_machine (m_message row) = ''packed'')
   \<and> (\<exists>d'. handle_send (\<lambda>k. at_packing) (\<lambda>k. 0) 0 order_handle ''paid'' True [] at_packing
        = Some (Inl (UnhandledEvent 7 ''packing'' ''paid'' [''packed'']), d') \<and> d' = at_packing)"
proof -
  let ?go = "\<lambda>event. handle_send (\<lambda>k. at_packing) (\<lambda>k. 0) 0 order_handle event True [] at_packing"
  have m: "h_machine order_handle = Some order_machine" by (simp add: order_handle_def)
  have "map_option fst (?go ''packed'') = Some (Inr 1)" by code_simp
  then obtain d1 where d1: "?go ''packed'' = Some (Inr 1, d1)" by auto
  have "map_option fst (?go ''paid'') = Some (Inl (UnhandledEvent 7 ''packing'' ''paid'' [''packed'']))" by code_simp
  then obtain d2 where d2: "?go ''paid'' = Some (Inl (UnhandledEvent 7 ''packing'' ''paid'' [''packed'']), d2)" by auto
  have "mailbox at_packing = []" by (simp add: at_packing_def order_db_def)
  with a_checked_event_is_accepted_or_given_back [OF m _ d1] a_checked_event_is_accepted_or_given_back [OF m _ d2] d1 d2
  show ?thesis by auto
qed

end
