(* ===== verification/Spec2Isabelle.thy ===== *)
theory Spec2Isabelle
  imports System Machine Worker DagWatch Bursts Scheduler Admin Wakeups Registry Handle
begin

text \<open>
  pyjobby is a durable job queue on PostgreSQL. Clients insert job rows; workers claim rows of
  their queue, run the job class in a thread or a coroutine and write the outcome back; a
  monitor repairs what a dead worker leaves and deletes aged rows; a scheduler turns cron
  expressions into enqueues; operators pause queues, cancel, retry and explain jobs. Nothing is
  kept in a process: every component is a sequence of SQL statements on the same tables, and
  what one relies on of another is what those statements leave there. The development
  therefore models the tables as one value, \<open>Rows.database\<close>, a statement as a function of it
  (its \<open>WHERE\<close> and \<open>SET\<close> clauses and the rows it returns), and Python code as functions that
  pass the database on, with every raise as a value of a sum type. All paths below are under
  \<open>src/pyjobby/\<close>.

  Theories and the code they model, in the order they build on each other:

  \<^item> \<open>Prelude\<close>: base types and the generic lemmas on rows, keys and sums. \<open>Lifecycle\<close>:
    \<open>lifecycle.py\<close>, the states and the table of legal transitions. \<open>Rows\<close>: the tables of
    \<open>sql/schema/\<close> as records. \<open>Store\<close>: the job table with its triggers (the history of
    \<open>60_history.sql\<close>), the table invariant \<open>jobs_ok\<close>, and the locale \<open>job_update\<close>: what every
    statement that moves a job keeps. \<open>JobSql\<close>: the statements of \<open>pj.py\<close> (\<open>STMTS\<close>) and
    \<open>db.py\<close>; each interprets \<open>job_update\<close>.
  \<^item> \<open>Rules\<close>: \<open>enqueue_rules.py\<close>. \<open>Verbs\<close>: the verbs of \<open>db.py\<close> that all surfaces share
    (retry, cancel, fork, fresh re-run). \<open>Enqueue\<close>, \<open>Speculative\<close>, \<open>Bursts\<close>: the enqueue paths
    of \<open>client.py\<close>: the construction of a row with every refusal, the plain, identified and
    debounced inserts with their retry loops, batches, pipelines and fan-outs. \<open>Registry\<close>:
    \<open>registry.py\<close>, the \<open>job\<close> decorator and the typed enqueue with its check of a task's signature.
  \<^item> \<open>Claim\<close>: \<open>claim_jorb\<close> of \<open>30_claim.sql\<close>: controls, caps, lanes, eligibility, order.
    \<open>Explain\<close>: the operator's question why a job does not run (\<open>explain_job\<close>,
    \<open>unclaimable_jobs\<close> of \<open>admin_api.py\<close>), related to \<open>Claim\<close>.
  \<^item> \<open>Dxe\<close>: the fenced statements of \<open>dxe.py\<close> (checkpoints, events, mailboxes, streams).
    \<open>Durable\<close>: the primitives of the \<open>Job\<close> class of \<open>pj.py\<close> over them. \<open>Replay\<close>: what they add up
    to over any number of attempts of a job. \<open>Fsm\<close> and \<open>Machine\<close>: \<open>fsm.py\<close> and
    \<open>statemachine.py\<close>, durable state machines as a job over the primitives; \<open>Handle\<close>:
    \<open>MachineHandle\<close> of \<open>client.py\<close>, a machine's state and events seen from a client.
  \<^item> \<open>Worker\<close>: one claimed job from the claim to its ending (\<open>JobSystem.process\<close> of \<open>pj.py\<close>).
    \<open>Retry\<close>: the backoff of \<open>retry_strategies.py\<close>. \<open>Notify\<close>: the triggers of \<open>90_notify.sql\<close> and
    the client's registration of demand. \<open>Loop\<close> and \<open>Wakeups\<close>: the worker's main loop
    (\<open>JobSystem.run\<close>) between two awaits, with its registry row, its idle flag, its budget of
    job threads and the wakeups it receives.
  \<^item> \<open>Monitor\<close>, \<open>Retention\<close>: the sweeps of \<open>monitor.py\<close> and one cycle of it. \<open>Cron\<close>, \<open>Scheduler\<close>:
    \<open>cron.py\<close> and \<open>scheduler.py\<close>. \<open>Dag\<close>, \<open>DagGroups\<close>,
    \<open>DagRun\<close>, \<open>DagWatch\<close>: \<open>dag.py\<close>. \<open>Admin\<close>: the operator's
    verbs of \<open>admin_api.py\<close>. \<open>Waits\<close>: the waits and stream readers of \<open>client.py\<close>.
  \<^item> \<open>System\<close>: the components together. \<open>platform_step\<close> has one rule per transaction a
    component may commit; \<open>reachable\<close> is its closure from the empty database.

  Correspondence. A table is a list of records in order of insertion, with the columns the
  modelled code reads or writes, under the column's name; \<open>j_run_epoch\<close> is \<open>jorb.run_epoch\<close>. A
  transaction is one function application, so two of them never interleave; what another
  transaction does while one waits (a \<open>SKIP LOCKED\<close> probe, a uniqueness race, a poll's sleep)
  is an argument. \<open>now()\<close>, the process clocks, random numbers, \<open>croniter\<close>, \<open>zoneinfo\<close> and user
  code are arguments too. Timestamps are \<open>int\<close> microseconds. Columns are \<open>int\<close>: the program
  does no arithmetic on them that could reach the column's width, except where the code
  itself refuses it. Python floats in the backoff are reals with the exceptions of Python's
  float operations kept and its rounding left out.

  Interfaces are locales, interpreted on the model. \<open>job_update\<close> and its refinements (\<open>Store\<close>)
  are what a statement that moves jobs promises; every such statement of \<open>JobSql\<close>, \<open>Claim\<close> and
  \<open>Monitor\<close> interprets one, so that \<open>System\<close> proves its invariant once per contract and not once
  per statement. \<open>durable_write\<close> (\<open>Dxe\<close>) is the contract of a fenced write, interpreted by the
  checkpoint, event, stream, mailbox and compaction statements.

  What the groups of lemmas show:

  \<^item> Safety of a job's life: every reachable database is sound, history leaves no legal
    transition out; an attempt ends at most once; a superseded execution writes nothing; a
    worker leaves no job it claimed in flight; transactions run exactly once and finished
    steps are not repeated over any number of crashes; a machine follows its table, and an
    event a client checked is accepted by it or given back.
  \<^item> Admission: the claim takes the first eligible job, caps are exact, an identity names one
    job, a burst collapses onto one, batches are their enqueues, built rows are well formed,
    a typed enqueue delivers arguments with which the worker's call binds;
    a job that \<open>explain_job\<close> explains is not claimed and one called claimable is in reach.
  \<^item> Wakeups: no result wakeup is lost for a registered waiter, a cancellation is delivered, a
    sleeping worker's queue notification wakes it, the thread pool is never overbooked.
  \<^item> Recovery and time: the monitor strands no waiter, retention deletes nothing a live job
    needs and a cycle always completes, a recovery accounts for every missed tick, a tick is
    fired once, counters reconcile with the log, backoff is within its bounds.
  \<^item> Graphs and waits: validation finds exactly the cycles, levels are exact, wait groups
    cover the dependencies, an executed graph is written whole, its completion
    time stays truthful; a wait tells the truth and misses no end,
    a stream is read as it was written.
  \<^item> Where the code does not do what it says, a theorem states what it does
    (\<open>Wakeups.a_wakeup_before_the_sleep_is_dropped\<close>, \<open>DagGroups.crossed_groups_deadlock\<close>,
    \<open>Retry.exponential_backoff_overflows\<close> and others).

  Loops. Structural recursion where the code walks a list; \<open>partial_function (option)\<close> where
  the code may not return (polls, the union-find walk, the drains), and then a theorem that it
  returns under the stated condition, or, where it need not, that it does not. The retry loops of the identified and debounced inserts
  have the bound the code has. No fuel is chosen by the model: the stretches of the worker's
  loop are steps of a relation.

  Not modelled, and why:

  \<^item> \<open>cli.py\<close>, \<open>web_admin.py\<close>, \<open>websocket_server.py\<close>, \<open>termout.py\<close>: transport, authentication,
    argument parsing and rendering around verbs that are modelled.
  \<^item> \<open>bench.py\<close>, examples, scripts and tests: they exercise the library. \<open>migrations.py\<close>,
    \<open>configloader.py\<close>, \<open>procs.py\<close>: file, environment and process I/O.
  \<^item> Reflection on Python classes (\<open>inspect.signature\<close>, the class made for a function): \<open>Registry\<close>
    takes a signature as its list of parameters. Connection handling and reconnects (\<open>ex\<close>, \<open>_reconnect\<close>), the HTTP listener.
  \<^item> The reading verbs of \<open>admin_api.py\<close> and \<open>db.py\<close> (lists, statistics, metrics, timelines):
    they report tables. The sentences rendered by \<open>explain_job\<close>; \<open>visualize\<close> of a DAG.
  \<^item> PostgreSQL itself: isolation, locking and delivery order are assumed as documented, as
    described under the correspondence above.
\<close>

end
